(* ===== verification/Alloc_Prelude.thy ===== *)
theory Alloc_Prelude
  imports Main "HOL-Library.Monad_Syntax" "HOL-Library.Multiset"
begin

text \<open>
  Shared vocabulary of the development: the machine widths the allocator uses, with the
  wrap-around written out on \<^typ>\<open>nat\<close>; pointers; and the generic lemmas on lists and
  options that several components need. A pointer is a \<^typ>\<open>nat option\<close> (\<open>None\<close> is
  \<open>nullptr\<close>). An operation that dereferences pointers returns an \<^typ>\<open>'a option\<close>, where
  \<open>None\<close> stands for undefined behaviour of the code (a dereference of \<open>nullptr\<close> or of a
  deleted object) or for a loop that does not end; each component proves that its operations
  return \<open>Some\<close> under its invariant.
\<close>

named_theorems wrap_simps "a value in range is not changed by its machine width"

section \<open>Machine integers\<close>

definition u16 :: "nat \<Rightarrow> nat" where
  "u16 n = n mod 65536"

definition u32 :: "nat \<Rightarrow> nat" where
  "u32 n = n mod 4294967296"

definition u64 :: "nat \<Rightarrow> nat" where
  "u64 n = n mod 18446744073709551616"

text \<open>Subtraction of two unsigned values, with its wrap-around.\<close>

definition sub32 :: "nat \<Rightarrow> nat \<Rightarrow> nat" where
  "sub32 a b = u32 (a + 4294967296 - b)"

definition sub16 :: "nat \<Rightarrow> nat \<Rightarrow> nat" where
  "sub16 a b = u16 (a + 65536 - b)"

definition sub64 :: "nat \<Rightarrow> nat \<Rightarrow> nat" where
  "sub64 a b = u64 (a + 18446744073709551616 - b)"

lemma u16_id [wrap_simps]: "n < 65536 \<Longrightarrow> u16 n = n"
  by (simp add: u16_def)

lemma u32_id [wrap_simps]: "n < 4294967296 \<Longrightarrow> u32 n = n"
  by (simp add: u32_def)

lemma u64_id [wrap_simps]: "n < 18446744073709551616 \<Longrightarrow> u64 n = n"
  by (simp add: u64_def)

lemma wrap_sub:
  assumes "b \<le> a" "a < m"
  shows "(a + m - b) mod m = a - (b :: nat)"
proof -
  have "a + m - b = (a - b) + m" "a - b < m"
    using assms by linarith+
  then show ?thesis
    by (metis mod_add_self2 mod_less)
qed

lemma sub32_id [wrap_simps]: "b \<le> a \<Longrightarrow> a < 4294967296 \<Longrightarrow> sub32 a b = a - b"
  unfolding sub32_def u32_def by (rule wrap_sub)

lemma sub16_id [wrap_simps]: "b \<le> a \<Longrightarrow> a < 65536 \<Longrightarrow> sub16 a b = a - b"
  unfolding sub16_def u16_def by (rule wrap_sub)

lemma sub64_id [wrap_simps]: "b \<le> a \<Longrightarrow> a < 18446744073709551616 \<Longrightarrow> sub64 a b = a - b"
  unfolding sub64_def u64_def by (rule wrap_sub)

lemma u16_less [simp]: "u16 n < 65536"
  by (simp add: u16_def)

lemma u32_less [simp]: "u32 n < 4294967296"
  by (simp add: u32_def)

section \<open>Pointers and addresses\<close>

type_synonym ptr = "nat option"

abbreviation nullptr :: ptr where
  "nullptr \<equiv> None"

type_synonym addr = nat

section \<open>Options\<close>

lemma bind_SomeE:
  assumes "Option.bind m f = Some r"
  obtains x where "m = Some x" "f x = Some r"
  using assms by (cases m) auto

section \<open>Lists\<close>

lemma mset_take_drop: "mset (take n xs) + mset (drop n xs) = mset xs"
  by (metis append_take_drop_id mset_append)

lemma take_append_exact [simp]: "n = length xs \<Longrightarrow> take n (xs @ ys) = xs"
  by simp

lemma nth_strict_mono:
  fixes xs :: "nat list"
  assumes "sorted_wrt (<) xs" "i < j" "j < length xs"
  shows "xs ! i < xs ! j"
  using assms by (auto simp: sorted_wrt_iff_nth_less)

end
