(* ===== verification/Size_Classes.thy ===== *)
theory Size_Classes
  imports Alloc_Prelude
begin

text \<open>
  The size-class table and its two lookups (\<open>size_classes.hpp\<close>). The table is kept as the
  list of its rows, in the source's order; \<open>round_size_class\<close> maps a request to the smallest
  class that holds it and \<open>size_class_to_idx\<close> maps the object size stored in a span back to
  the index of its class. Both are the same binary search, here \<open>lower_bound_loop\<close>, started
  at index 1 or 0.
\<close>

section \<open>The table\<close>

record SizeClassInfo =
  sc_size :: nat
  sc_pages :: nat
  sc_batch_size :: nat
  sc_byte_budget :: nat

definition sci :: "nat \<Rightarrow> nat \<Rightarrow> nat \<Rightarrow> nat \<Rightarrow> SizeClassInfo" where
  "sci s p b g = \<lparr>sc_size = s, sc_pages = p, sc_batch_size = b, sc_byte_budget = g\<rparr>"

definition MAX_BATCH_SIZE :: nat where
  "MAX_BATCH_SIZE = 32"

definition SizeClasses :: "SizeClassInfo list" where
  "SizeClasses =
  [sci 0 0 0 0,
   sci 8 1 32 64000,
   sci 16 1 32 64000,
   sci 32 1 32 64000,
   sci 64 1 32 64000,
   sci 80 1 32 32000,
   sci 96 1 32 32000,
   sci 112 1 32 32000,
   sci 128 1 32 32000,
   sci 160 1 32 32000,
   sci 176 1 32 32000,
   sci 208 1 32 32000,
   sci 256 1 32 32000,
   sci 312 1 32 16000,
   sci 384 1 32 16000,
   sci 448 1 32 16000,
   sci 512 1 32 16000,
   sci 576 1 32 16000,
   sci 704 1 32 16000,
   sci 896 1 32 16000,
   sci 1024 1 32 16000,
   sci 1152 2 32 8000,
   sci 1408 2 32 8000,
   sci 1792 2 32 8000,
   sci 2048 2 32 8000,
   sci 2688 2 24 8000,
   sci 3456 3 18 8000,
   sci 4096 1 16 8000,
   sci 4736 3 13 4000,
   sci 6144 3 10 4000,
   sci 8192 1 8 4000,
   sci 9472 5 6 4000,
   sci 12288 3 5 4000,
   sci 16384 2 4 4000,
   sci 20480 5 3 2000,
   sci 28672 7 2 2000,
   sci 32768 4 2 2000,
   sci 40960 5 2 2000,
   sci 49152 6 2 2000,
   sci 65536 8 2 2000,
   sci 73728 9 2 2000,
   sci 81920 10 2 2000,
   sci 98304 12 2 2000,
   sci 114688 14 2 2000,
   sci 131072 16 2 2000,
   sci 155648 19 2 2000,
   sci 204800 25 2 2000,
   sci 262144 32 2 2000]"

definition NUM_SIZE_CLASSES :: nat where
  "NUM_SIZE_CLASSES = length SizeClasses"

abbreviation class_size :: "nat \<Rightarrow> nat" where
  "class_size i \<equiv> sc_size (SizeClasses ! i)"

section \<open>The lookups\<close>

text \<open>
  The loop of both lookups: \<open>while (lo < hi)\<close> with \<open>mid = lo + (hi - lo) / 2\<close>. It returns
  the last value of \<open>lo\<close>.
\<close>

function lower_bound_loop :: "nat \<Rightarrow> nat \<Rightarrow> nat \<Rightarrow> nat" where
  "lower_bound_loop x lo hi =
     (if lo < hi then
        let mid = lo + (hi - lo) div 2 in
        if sc_size (SizeClasses ! mid) < x then lower_bound_loop x (mid + 1) hi
        else lower_bound_loop x lo mid
      else lo)"
  by pat_completeness auto
termination
  by (relation "measure (\<lambda>(x, lo, hi). hi - lo)") auto

declare lower_bound_loop.simps [simp del]

definition round_size_class :: "nat \<Rightarrow> SizeClassInfo \<times> nat" where
  "round_size_class n =
     (if n = 0 then (SizeClasses ! 1, 1)
      else let lo = lower_bound_loop n 1 (NUM_SIZE_CLASSES - 1) in
        if n \<le> sc_size (SizeClasses ! lo) then (SizeClasses ! lo, lo)
        else (SizeClasses ! 0, 0))"

definition size_class_to_idx :: "nat \<Rightarrow> nat" where
  "size_class_to_idx x = lower_bound_loop x 0 (NUM_SIZE_CLASSES - 1)"

section \<open>Facts of the table\<close>

lemma NUM_SIZE_CLASSES_eq [simp]: "NUM_SIZE_CLASSES = 48"
  by (simp add: NUM_SIZE_CLASSES_def SizeClasses_def)

lemma length_SizeClasses [simp]: "length SizeClasses = 48"
  by (simp add: SizeClasses_def)

lemma class_sizes_sorted: "sorted_wrt (<) (map sc_size SizeClasses)"
  by (simp add: SizeClasses_def sci_def)

lemma class_size_less: "i < j \<Longrightarrow> j < 48 \<Longrightarrow> class_size i < class_size j"
  using nth_strict_mono [OF class_sizes_sorted, of i j] by simp

lemma class_size_less_iff: "i < 48 \<Longrightarrow> j < 48 \<Longrightarrow> class_size i < class_size j \<longleftrightarrow> i < j"
  by (metis class_size_less linorder_neqE_nat order_less_asym order_less_irrefl)

lemma class_size_0 [simp]: "class_size 0 = 0"
  by (simp add: SizeClasses_def sci_def)

lemma class_size_47: "class_size 47 = 262144"
  by (simp add: SizeClasses_def sci_def)

lemma class_size_pos: "0 < i \<Longrightarrow> i < 48 \<Longrightarrow> 0 < class_size i"
  using class_size_less [of 0 i] by simp

section \<open>The search\<close>

text \<open>
  Every row below the result is smaller than the request, and the result itself is large
  enough unless the search ran to its upper end.
\<close>

lemma lower_bound_loop_range:
  "lo \<le> hi \<Longrightarrow> lo \<le> lower_bound_loop x lo hi \<and> lower_bound_loop x lo hi \<le> hi"
proof (induction x lo hi rule: lower_bound_loop.induct)
  case (1 x lo hi)
  show ?case
  proof (cases "lo < hi")
    case True
    define mid where "mid = lo + (hi - lo) div 2"
    have mid: "lo \<le> mid" "mid < hi"
      using True by (auto simp: mid_def)
    show ?thesis
    proof (cases "sc_size (SizeClasses ! mid) < x")
      case small: True
      with "1.IH"(1) [OF True mid_def] mid show ?thesis
        by (subst (1 2) lower_bound_loop.simps) (simp add: True mid_def [symmetric])
    next
      case False
      with "1.IH"(2) [OF True mid_def] mid show ?thesis
        by (subst (1 2) lower_bound_loop.simps) (simp add: True mid_def [symmetric])
    qed
  qed (use "1.prems" in \<open>simp add: lower_bound_loop.simps\<close>)
qed

lemma lower_bound_loop_split:
  assumes "lo \<le> hi" "hi < 48"
    and "\<forall>i<lo. class_size i < x" and "\<forall>i. hi < i \<and> i < 48 \<longrightarrow> x \<le> class_size i"
  shows "(\<forall>i<lower_bound_loop x lo hi. class_size i < x)
       \<and> (\<forall>i. lower_bound_loop x lo hi < i \<and> i < 48 \<longrightarrow> x \<le> class_size i)
       \<and> (lower_bound_loop x lo hi < hi \<longrightarrow> x \<le> class_size (lower_bound_loop x lo hi))"
  using assms
proof (induction x lo hi rule: lower_bound_loop.induct)
  case (1 x lo hi)
  show ?case
  proof (cases "lo < hi")
    case True
    define mid where "mid = lo + (hi - lo) div 2"
    have mid: "lo \<le> mid" "mid < hi"
      using True by (auto simp: mid_def)
    have unfold: "lower_bound_loop x lo hi =
        (if class_size mid < x then lower_bound_loop x (mid + 1) hi else lower_bound_loop x lo mid)"
      by (subst lower_bound_loop.simps) (simp add: True mid_def [symmetric])
    show ?thesis
    proof (cases "class_size mid < x")
      case small: True
      have "\<forall>i<mid + 1. class_size i < x"
        by (metis Suc_eq_plus1 "1.prems"(2) class_size_less less_Suc_eq mid(2) order_less_trans small)
      then show ?thesis
        using "1.IH"(1) [OF True mid_def small] "1.prems" mid small unfold by simp
    next
      case False
      have above: "\<forall>i. mid < i \<and> i < 48 \<longrightarrow> x \<le> class_size i"
        by (meson False class_size_less leI order_le_less_trans order_less_imp_le)
      have "lower_bound_loop x lo mid \<le> mid"
        using lower_bound_loop_range [OF mid(1)] by simp
      then have "lower_bound_loop x lo mid < mid \<or> lower_bound_loop x lo mid = mid"
        by auto
      then show ?thesis
        using "1.IH"(2) [OF True mid_def False] "1.prems" mid False unfold above by auto
    qed
  next
    case False
    then have "lower_bound_loop x lo hi = lo"
      by (subst lower_bound_loop.simps) simp
    moreover have "hi = lo"
      using False "1.prems" by simp
    ultimately show ?thesis
      using "1.prems" by auto
  qed
qed

text \<open>The result of a search over the whole table, from index 1 or 0.\<close>

lemma below_start: "lo \<le> 1 \<Longrightarrow> lo = 0 \<or> 0 < x \<Longrightarrow> \<forall>i<lo. class_size i < x"
  by (metis class_size_0 less_one not_less_zero order_le_less_trans order_less_le)

lemma lower_bound_unique:
  assumes "lo \<le> k" "k < 48" "\<forall>i<k. lo \<le> i \<longrightarrow> class_size i < x" "x \<le> class_size k"
    and "lo \<le> 1" "lo = 0 \<or> 0 < x"
  shows "lower_bound_loop x lo 47 = k"
proof -
  let ?r = "lower_bound_loop x lo 47"
  have range: "lo \<le> ?r" "?r \<le> 47"
    using lower_bound_loop_range [of lo 47 x] assms by auto
  have "(\<forall>i<?r. class_size i < x) \<and> (\<forall>i. ?r < i \<and> i < 48 \<longrightarrow> x \<le> class_size i) \<and>
      (?r < 47 \<longrightarrow> x \<le> class_size ?r)"
    using assms below_start [of lo x] by (intro lower_bound_loop_split) auto
  then have below: "\<forall>i<?r. class_size i < x" and at: "?r < 47 \<longrightarrow> x \<le> class_size ?r"
    by blast+
  have "\<not> k < ?r"
    using below assms(4) by auto
  moreover have "\<not> ?r < k"
    using at assms(2,3) range by fastforce
  ultimately show ?thesis
    by simp
qed

lemma lower_bound_above:
  assumes "262144 < x" "lo \<le> 1"
  shows "lower_bound_loop x lo 47 = 47"
proof -
  let ?r = "lower_bound_loop x lo 47"
  have range: "?r \<le> 47"
    using lower_bound_loop_range [of lo 47 x] assms by auto
  have "?r < 47 \<longrightarrow> x \<le> class_size ?r"
    using lower_bound_loop_split [of lo 47 x] assms below_start [of lo x] by auto
  moreover have "class_size ?r \<le> 262144"
    using class_size_less [of ?r 47] class_size_47 range by (cases "?r = 47") auto
  ultimately show ?thesis
    using assms range by linarith
qed

section \<open>Reference definition\<close>

text \<open>
  The specification of the lookup: scan the table from index 1 and take the first class that
  holds the request; index 0, the row of size 0, when there is none.
\<close>

definition first_class :: "nat \<Rightarrow> nat" where
  "first_class n = (case find (\<lambda>i. n \<le> sc_size (SizeClasses ! i)) [1..<48] of
     None \<Rightarrow> 0 | Some i \<Rightarrow> i)"

lemma first_class_Some:
  assumes "n \<le> 262144"
  shows "0 < first_class n \<and> first_class n < 48 \<and> n \<le> class_size (first_class n)
       \<and> (\<forall>i. 0 < i \<and> i < first_class n \<longrightarrow> class_size i < n)"
proof -
  have "\<exists>i\<in>set [1..<48]. n \<le> class_size i"
    using assms class_size_47 by (intro bexI [of _ 47]) auto
  then obtain i where "find (\<lambda>i. n \<le> class_size i) [1..<48] = Some i"
    by (metis (no_types, lifting) find_None_iff not_None_eq)
  moreover from this obtain k where k: "k < 47" "i = Suc k" "n \<le> class_size i"
      "\<forall>j<k. \<not> n \<le> class_size (Suc j)"
    by (auto simp: find_Some_iff)
  moreover have "class_size j < n" if "0 < j" "j < i" for j
    using k(2,4) that by (cases j) auto
  ultimately show ?thesis
    by (simp add: first_class_def)
qed

lemma first_class_None: "262144 < n \<Longrightarrow> first_class n = 0"
proof -
  assume "262144 < n"
  then have "\<forall>i\<in>set [1..<48]. \<not> n \<le> class_size i"
    using class_size_less_iff [of 47] class_size_47 by fastforce
  then have "find (\<lambda>i. n \<le> class_size i) [1..<48] = None"
    by (auto simp: find_None_iff)
  then show ?thesis
    by (simp add: first_class_def)
qed

lemma first_class_less: "first_class n < 48"
  by (cases "n \<le> 262144") (simp_all add: first_class_Some first_class_None)

lemma first_class_0: "first_class 0 = 1"
  using first_class_Some [of 0] by (metis class_size_0 less_nat_zero_code less_one linorder_neqE_nat zero_le)

lemma round_size_class_eq: "round_size_class n = (SizeClasses ! first_class n, first_class n)"
proof (cases "n = 0")
  case True
  then show ?thesis
    by (simp add: round_size_class_def first_class_0)
next
  case False
  show ?thesis
  proof (cases "n \<le> 262144")
    case True
    note k = first_class_Some [OF True]
    have "lower_bound_loop n 1 47 = first_class n"
      using k False by (intro lower_bound_unique) auto
    then show ?thesis
      using k False by (simp add: round_size_class_def Let_def)
  next
    case large: False
    then show ?thesis
      using False lower_bound_above [of n 1] first_class_None [of n] class_size_47
      by (simp add: round_size_class_def)
  qed
qed

lemma size_class_to_idx_class_size: "i < 48 \<Longrightarrow> size_class_to_idx (class_size i) = i"
  by (auto simp: size_class_to_idx_def class_size_less intro: lower_bound_unique)

section \<open>Properties\<close>

text \<open>
  C31: the binary search of \<open>round_size_class\<close> computes the specification: the row and index of
  the first class from index 1 on that holds the request, and row 0 when none does.
\<close>

theorem round_size_class_refines_scan:
  "round_size_class n = (SizeClasses ! first_class n, first_class n)"
  by (rule round_size_class_eq)

text \<open>
  A request of at most 262144 bytes gets a class that is large enough, and no smaller class
  of the table is; a larger request gets the row of size 0 that stands for large allocations.
\<close>

lemma round_size_class_tightest:
  assumes "round_size_class n = (sc, i)"
  shows "i < NUM_SIZE_CLASSES \<and> sc = SizeClasses ! i
     \<and> (if n \<le> 262144 then 0 < i \<and> n \<le> sc_size sc \<and> (\<forall>k\<in>{0<..<i}. sc_size (SizeClasses ! k) < n)
        else sc_size sc = 0)"
proof -
  have "i = first_class n" "sc = SizeClasses ! first_class n"
    using assms by (auto simp: round_size_class_eq)
  then show ?thesis
    using first_class_Some [of n] first_class_None [of n] by (cases "n \<le> 262144") auto
qed

text \<open>
  The two lookups agree: the object size of the class chosen for any request leads
  \<open>size_class_to_idx\<close>, which \<open>deallocate\<close> uses, back to the index \<open>allocate\<close> used.
\<close>

lemma size_class_round_trip:
  "size_class_to_idx (sc_size (fst (round_size_class n))) = snd (round_size_class n)"
  by (simp add: round_size_class_eq size_class_to_idx_class_size first_class_less)

end
