(* ===== verification/Slab_Config.thy ===== *)
theory Slab_Config
  imports Size_Classes
begin

text \<open>
  The compile-time configuration (\<open>config.hpp\<close>): page size and cache capacities, and the
  layout of a per-CPU slab, where size class \<open>i\<close> owns the pointer slots
  \<open>[offsets ! i, offsets ! (i + 1))\<close>. The loops over the classes are recursions over the
  rows of the table; the rows are an argument, so that the facts about one row's capacity do
  not depend on the concrete table. Arithmetic is that of \<open>uint32_t\<close>.
\<close>

definition PAGE_SIZE :: nat where
  "PAGE_SIZE = 4096"

definition MAX_PAGES :: nat where
  "MAX_PAGES = 255"

definition TRANSFER_CACHE_CAPACITY :: nat where
  "TRANSFER_CACHE_CAPACITY = 100"

definition MAX_SLAB_POINTERS :: nat where
  "MAX_SLAB_POINTERS = 20000"

definition CACHE_LINE_SIZE :: nat where
  "CACHE_LINE_SIZE = 64"

definition PAGE_ALIGN_SLAB_STRIDE :: bool where
  "PAGE_ALIGN_SLAB_STRIDE = False"

section \<open>Slab capacities and offsets\<close>

text \<open>One iteration of the first loop: the capacity of a class from its byte budget.\<close>

definition raw_capacity :: "SizeClassInfo \<Rightarrow> nat" where
  "raw_capacity sc =
     (let raw = sc_byte_budget sc div sc_size sc;
          cap = u32 ((raw div sc_batch_size sc) * sc_batch_size sc)
      in if cap < sc_batch_size sc then sc_batch_size sc else cap)"

text \<open>One iteration of the second loop, run when the total exceeds the slab.\<close>

definition scaled_capacity :: "nat \<Rightarrow> SizeClassInfo \<Rightarrow> nat \<Rightarrow> nat" where
  "scaled_capacity tot sc cap =
     (let c = u32 (cap * MAX_SLAB_POINTERS) div tot;
          c' = (c div sc_batch_size sc) * sc_batch_size sc
      in if c' < sc_batch_size sc then sc_batch_size sc else c')"

fun sum32 :: "nat \<Rightarrow> nat list \<Rightarrow> nat" where
  "sum32 tot [] = tot"
| "sum32 tot (c # cs) = sum32 (u32 (tot + c)) cs"

text \<open>The third loop: \<open>offsets[i] = offsets[i - 1] + capacities[i - 1]\<close>.\<close>

fun prefix_sums :: "nat \<Rightarrow> nat list \<Rightarrow> nat list" where
  "prefix_sums off [] = [off]"
| "prefix_sums off (c # cs) = off # prefix_sums (u32 (off + c)) cs"

text \<open>
  The argument is the table; the loops start at index 1, so \<open>capacities[0]\<close> keeps its
  initial 0.
\<close>

definition compute_slab_offsets :: "SizeClassInfo list \<Rightarrow> nat list" where
  "compute_slab_offsets classes =
     (let rows = tl classes;
          caps = map raw_capacity rows;
          tot = sum32 0 caps;
          caps' = (if MAX_SLAB_POINTERS < tot
                   then map2 (scaled_capacity tot) rows caps else caps)
      in prefix_sums 0 (0 # caps'))"

definition SIZE_CLASS_OFFSETS :: "nat list" where
  "SIZE_CLASS_OFFSETS = compute_slab_offsets SizeClasses"

definition compute_slab_capacities :: "nat list" where
  "compute_slab_capacities =
     map (\<lambda>i. sub32 (SIZE_CLASS_OFFSETS ! (i + 1)) (SIZE_CLASS_OFFSETS ! i)) [0..<NUM_SIZE_CLASSES]"

definition SIZE_CLASS_CAPACITIES :: "nat list" where
  "SIZE_CLASS_CAPACITIES = compute_slab_capacities"

section \<open>One class\<close>

lemma raw_capacity_multiple:
  assumes "0 < sc_batch_size sc" "sc_byte_budget sc < 65536"
  shows "sc_batch_size sc dvd raw_capacity sc \<and> 0 < raw_capacity sc
       \<and> (raw_capacity sc = sc_batch_size sc \<or> raw_capacity sc * sc_size sc \<le> sc_byte_budget sc)"
proof -
  define raw where "raw = sc_byte_budget sc div sc_size sc"
  define cap where "cap = (raw div sc_batch_size sc) * sc_batch_size sc"
  have "raw \<le> sc_byte_budget sc"
    by (simp add: raw_def)
  have le: "cap \<le> raw"
    by (simp add: cap_def)
  then have "u32 cap = cap"
    using \<open>raw \<le> _\<close> assms(2) by (simp add: wrap_simps)
  moreover have "cap * sc_size sc \<le> sc_byte_budget sc"
    using le by (metis raw_def div_times_less_eq_dividend le_trans mult_le_mono1)
  moreover have "sc_batch_size sc dvd cap"
    by (simp add: cap_def)
  ultimately show ?thesis
    using assms(1) by (auto simp: raw_capacity_def Let_def raw_def [symmetric] cap_def [symmetric])
qed

section \<open>The layout\<close>

lemma SIZE_CLASS_OFFSETS_eq:
  "SIZE_CLASS_OFFSETS =
    [0, 0, 8000, 12000, 13984, 14976, 15360, 15680, 15936, 16160, 16352, 16512, 16640, 16736,
     16768, 16800, 16832, 16864, 16896, 16928, 16960, 16992, 17024, 17056, 17088, 17120, 17144,
     17162, 17178, 17191, 17201, 17209, 17215, 17220, 17224, 17227, 17229, 17231, 17233, 17235,
     17237, 17239, 17241, 17243, 17245, 17247, 17249, 17251, 17253]"
  by (simp add: SIZE_CLASS_OFFSETS_def compute_slab_offsets_def SizeClasses_def sci_def
      raw_capacity_def Let_def u32_def MAX_SLAB_POINTERS_def)

lemma upt_48: "[0..<48] =
  [0, 1, 2, 3, 4, 5, 6, 7, 8, 9, 10, 11, 12, 13, 14, 15, 16, 17, 18, 19, 20, 21, 22, 23, 24,
   25, 26, 27, 28, 29, 30, 31, 32, 33, 34, 35, 36, 37, 38, 39, 40, 41, 42, 43, 44, 45, 46, 47]"
  by (simp add: upt_rec)

lemma SIZE_CLASS_CAPACITIES_eq:
  "SIZE_CLASS_CAPACITIES =
    [0, 8000, 4000, 1984, 992, 384, 320, 256, 224, 192, 160, 128, 96, 32, 32, 32, 32, 32, 32,
     32, 32, 32, 32, 32, 32, 24, 18, 16, 13, 10, 8, 6, 5, 4, 3, 2, 2, 2, 2, 2, 2, 2, 2, 2, 2,
     2, 2, 2]"
  by (simp add: SIZE_CLASS_CAPACITIES_def compute_slab_capacities_def SIZE_CLASS_OFFSETS_eq
      upt_48 sub32_def u32_def)

abbreviation slab_offset :: "nat \<Rightarrow> nat" where
  "slab_offset i \<equiv> SIZE_CLASS_OFFSETS ! i"

abbreviation slab_capacity :: "nat \<Rightarrow> nat" where
  "slab_capacity i \<equiv> SIZE_CLASS_CAPACITIES ! i"

lemma all_classes: "(\<forall>i<48. P i) \<longleftrightarrow> (\<forall>i\<in>set [0..<48]. P i)"
  by auto

lemma layout_table:
  "\<forall>i<48. slab_offset (i + 1) = slab_offset i + slab_capacity i \<and> slab_capacity i \<le> 8000
     \<and> slab_offset i + slab_capacity i \<le> 17253"
  unfolding all_classes by (simp add: upt_48 SIZE_CLASS_OFFSETS_eq SIZE_CLASS_CAPACITIES_eq)

lemma slab_offset_step: "i < 48 \<Longrightarrow> slab_offset (Suc i) = slab_offset i + slab_capacity i"
  using layout_table by simp

lemma slab_capacity_le: "i < 48 \<Longrightarrow> slab_capacity i \<le> 8000"
  using layout_table by simp

lemma slice_end_le: "i < 48 \<Longrightarrow> slab_offset i + slab_capacity i \<le> 17253"
  using layout_table by simp

lemma slices_ordered: "i < j \<Longrightarrow> j < 48 \<Longrightarrow> slab_offset i + slab_capacity i \<le> slab_offset j"
proof (induction j)
  case (Suc j)
  then show ?case
    using slab_offset_step [of j] by (cases "i = j") auto
qed simp

lemma slices_disjoint:
  assumes "i < 48" "j < 48" "i \<noteq> j" "a < slab_capacity i" "b < slab_capacity j"
  shows "slab_offset i + a \<noteq> slab_offset j + b"
  using slices_ordered [of i j] slices_ordered [of j i] assms by (cases "i < j") auto

section \<open>Properties\<close>

text \<open>
  C32: the slots of a slab are divided among the classes without overlap, every slot lies inside
  the \<open>MAX_SLAB_POINTERS\<close> a slab may have, and each capacity is a positive multiple of the batch
  size of its class.
\<close>

theorem slab_slices_sound:
  assumes "0 < i" "i < NUM_SIZE_CLASSES" "j < NUM_SIZE_CLASSES" "i \<noteq> j"
    and "a < SIZE_CLASS_CAPACITIES ! i" "b < SIZE_CLASS_CAPACITIES ! j"
  shows "SIZE_CLASS_OFFSETS ! i + a \<noteq> SIZE_CLASS_OFFSETS ! j + b
     \<and> SIZE_CLASS_OFFSETS ! i + a < MAX_SLAB_POINTERS
     \<and> 0 < SIZE_CLASS_CAPACITIES ! i \<and> sc_batch_size (SizeClasses ! i) dvd SIZE_CLASS_CAPACITIES ! i"
proof -
  have "\<forall>k\<in>set [0..<48]. sc_batch_size (SizeClasses ! k) dvd SIZE_CLASS_CAPACITIES ! k"
    unfolding upt_48 by (simp add: SIZE_CLASS_CAPACITIES_eq SizeClasses_def sci_def)
  then have "sc_batch_size (SizeClasses ! i) dvd SIZE_CLASS_CAPACITIES ! i"
    using assms(2) by simp
  then show ?thesis
    using slices_disjoint [of i j a b] slice_end_le [of i] assms by (simp add: MAX_SLAB_POINTERS_def)
qed

theorem slab_slices_sound_witness:
  "SIZE_CLASS_OFFSETS ! 1 + 7999 \<noteq> SIZE_CLASS_OFFSETS ! 2 + 0 \<and> sc_batch_size (SizeClasses ! 1) dvd SIZE_CLASS_CAPACITIES ! 1"
  using slab_slices_sound [of 1 2 7999 0] by (simp add: SIZE_CLASS_CAPACITIES_eq)

text \<open>
  Before scaling, the capacity of a class is a positive multiple of its batch size and stays
  within its byte budget, unless a single batch already exceeds it; for any row of a table.
\<close>

lemma raw_capacity_budget:
  assumes "0 < sc_batch_size sc" "sc_byte_budget sc < 65536"
  shows "sc_batch_size sc dvd raw_capacity sc \<and> 0 < raw_capacity sc
       \<and> (raw_capacity sc = sc_batch_size sc \<or> raw_capacity sc * sc_size sc \<le> sc_byte_budget sc)"
  by (rule raw_capacity_multiple [OF assms])

end
