(* ===== verification/Page_Heap.thy ===== *)
theory Page_Heap
  imports Slab_Config
begin

text \<open>
  The page heap (\<open>page_heap.hpp\<close>), the back end that owns spans of pages. \<open>Span\<close> objects live
  in a store indexed by their address, because spans are shared: the free lists, the page map
  and the central free lists all point at them, and the doubly linked lists are threaded
  through the spans' own \<open>next\<close> and \<open>prev\<close> fields. \<open>new\<close> takes the next unused address and
  \<open>delete\<close> removes the object, so that a later access to it is \<open>None\<close>.

  The operations are written statement by statement over this state. A traversal that follows
  \<open>next\<close> pointers is a \<^theory_text>\<open>partial_function (option)\<close>: on a cyclic list it
  does not return. The mutex is not represented: every public operation holds it from
  start to end, so each operation is one atomic step.
\<close>

section \<open>State\<close>

definition INVALID_INDEX :: nat where
  "INVALID_INDEX = 65535"

record Span =
  start :: nat
  num_pages :: nat
  nxt :: ptr
  prv :: ptr
  span_size :: nat
  total_objects :: nat
  num_free_objects :: nat
  next_uninitialized :: nat
  freelist_head :: nat
  is_free :: bool

text \<open>\<open>Span{}\<close>: value initialisation with the two default member initialisers.\<close>

definition new_Span :: Span where
  "new_Span = \<lparr>start = 0, num_pages = 0, nxt = nullptr, prv = nullptr, span_size = 0,
     total_objects = 0, num_free_objects = 0, next_uninitialized = 0,
     freelist_head = INVALID_INDEX, is_free = False\<rparr>"

text \<open>
  The members of \<open>PageHeap\<close>, the store of its \<open>Span\<close> objects, the next address \<open>new\<close> returns
  and the number of \<open>mmap\<close> calls made so far.
\<close>

record PageHeap =
  free_lists :: "nat \<Rightarrow> ptr"
  page_map :: "nat \<rightharpoonup> nat"
  spans :: "nat \<rightharpoonup> Span"
  fresh :: nat
  mmap_calls :: nat

definition empty_PageHeap :: PageHeap where
  "empty_PageHeap = \<lparr>free_lists = (\<lambda>_. nullptr), page_map = Map.empty, spans = Map.empty,
     fresh = 1, mmap_calls = 0\<rparr>"

text \<open>
  The operating system: the answer to the \<open>k\<close>-th \<open>mmap\<close> call, made with the given pages
  mapped, for a number of pages. \<open>None\<close> is \<open>MAP_FAILED\<close>, \<open>Some raw\<close> the address of the new
  mapping. What is documented of \<open>mmap\<close> without \<open>MAP_FIXED\<close>: the address is page aligned, not
  null, inside the address space, and the mapping overlaps no existing one.
\<close>

type_synonym mmap_env = "nat \<Rightarrow> (nat \<rightharpoonup> nat) \<Rightarrow> nat \<Rightarrow> addr option"

definition mmap_ok :: "mmap_env \<Rightarrow> bool" where
  "mmap_ok mmap \<longleftrightarrow> (\<forall>k mapped n raw. mmap k mapped n = Some raw \<longrightarrow>
     PAGE_SIZE dvd raw \<and> 0 < raw \<and> raw + n * PAGE_SIZE \<le> 2 ^ 64
     \<and> (\<forall>p. raw div PAGE_SIZE \<le> p \<and> p < raw div PAGE_SIZE + n \<longrightarrow> mapped p = None))"

section \<open>Store accesses\<close>

definition upd_span :: "nat \<Rightarrow> (Span \<Rightarrow> Span) \<Rightarrow> PageHeap \<Rightarrow> PageHeap option" where
  "upd_span i f h = (case spans h i of None \<Rightarrow> None | Some s \<Rightarrow> Some (h\<lparr>spans := (spans h)(i \<mapsto> f s)\<rparr>))"

definition new_object :: "Span \<Rightarrow> PageHeap \<Rightarrow> nat \<times> PageHeap" where
  "new_object s h = (fresh h, h\<lparr>spans := (spans h)(fresh h \<mapsto> s), fresh := Suc (fresh h)\<rparr>)"

definition delete_object :: "nat \<Rightarrow> PageHeap \<Rightarrow> PageHeap option" where
  "delete_object i h = (case spans h i of None \<Rightarrow> None | Some s \<Rightarrow> Some (h\<lparr>spans := (spans h)(i := None)\<rparr>))"

section \<open>Page map helpers\<close>

primrec register_pages :: "nat \<Rightarrow> nat \<Rightarrow> nat \<Rightarrow> (nat \<rightharpoonup> nat) \<Rightarrow> (nat \<rightharpoonup> nat)" where
  "register_pages st i 0 pm = pm"
| "register_pages st i (Suc n) pm = (register_pages st i n pm)(st + n \<mapsto> i)"

primrec unregister_pages :: "nat \<Rightarrow> nat \<Rightarrow> (nat \<rightharpoonup> nat) \<Rightarrow> (nat \<rightharpoonup> nat)" where
  "unregister_pages st 0 pm = pm"
| "unregister_pages st (Suc n) pm = (unregister_pages st n pm)(st + n := None)"

definition register_span :: "nat \<Rightarrow> PageHeap \<Rightarrow> PageHeap option" where
  "register_span i h = do {
     s \<leftarrow> spans h i;
     Some (h\<lparr>page_map := register_pages (start s) i (num_pages s) (page_map h)\<rparr>) }"

definition unregister_span :: "nat \<Rightarrow> PageHeap \<Rightarrow> PageHeap option" where
  "unregister_span i h = do {
     s \<leftarrow> spans h i;
     Some (h\<lparr>page_map := unregister_pages (start s) (num_pages s) (page_map h)\<rparr>) }"

definition lookup :: "nat \<Rightarrow> PageHeap \<Rightarrow> ptr" where
  "lookup page_id h = page_map h page_id"

section \<open>Free-list helpers\<close>

definition remove_from_free_list :: "nat \<Rightarrow> PageHeap \<Rightarrow> PageHeap option" where
  "remove_from_free_list i h = do {
     s \<leftarrow> spans h i;
     if MAX_PAGES < num_pages s then Some h
     else do {
       h1 \<leftarrow> (case prv s of
                Some p \<Rightarrow> upd_span p (\<lambda>q. q\<lparr>nxt := nxt s\<rparr>) h
              | None \<Rightarrow> Some (h\<lparr>free_lists := (free_lists h)(num_pages s := nxt s)\<rparr>));
       s1 \<leftarrow> spans h1 i;
       h2 \<leftarrow> (case nxt s1 of
                Some n \<Rightarrow> upd_span n (\<lambda>q. q\<lparr>prv := prv s1\<rparr>) h1
              | None \<Rightarrow> Some h1);
       upd_span i (\<lambda>q. q\<lparr>nxt := nullptr, prv := nullptr, is_free := False\<rparr>) h2
     }
   }"

text \<open>The \<open>while (curr)\<close> loop of \<open>insert\<close>, with the statements after it in the \<open>None\<close> case.\<close>

partial_function (option) insert_loop ::
    "nat \<Rightarrow> nat \<Rightarrow> ptr \<Rightarrow> ptr \<Rightarrow> PageHeap \<Rightarrow> PageHeap option" where
  "insert_loop np i prev cur h =
     (case cur of
        None \<Rightarrow> do {
          p \<leftarrow> prev;
          h1 \<leftarrow> upd_span p (\<lambda>q. q\<lparr>nxt := Some i\<rparr>) h;
          upd_span i (\<lambda>q. q\<lparr>prv := prev\<rparr>) h1 }
      | Some c \<Rightarrow> do {
          si \<leftarrow> spans h i;
          sc \<leftarrow> spans h c;
          if start si < start sc then do {
            h1 \<leftarrow> upd_span i (\<lambda>q. q\<lparr>nxt := Some c, prv := prev\<rparr>) h;
            h2 \<leftarrow> upd_span c (\<lambda>q. q\<lparr>prv := Some i\<rparr>) h1;
            (case prev of
               Some p \<Rightarrow> upd_span p (\<lambda>q. q\<lparr>nxt := Some i\<rparr>) h2
             | None \<Rightarrow> Some (h2\<lparr>free_lists := (free_lists h2)(np := Some i)\<rparr>)) }
          else insert_loop np i (Some c) (nxt sc) h })"

definition insert_span :: "nat \<Rightarrow> nat \<Rightarrow> PageHeap \<Rightarrow> PageHeap option" where
  "insert_span np i h =
     (if MAX_PAGES < np then Some h
      else do {
        h1 \<leftarrow> upd_span i (\<lambda>q. q\<lparr>is_free := True, nxt := nullptr, prv := nullptr\<rparr>) h;
        (case free_lists h1 np of
           None \<Rightarrow> Some (h1\<lparr>free_lists := (free_lists h1)(np := Some i)\<rparr>)
         | Some c \<Rightarrow> insert_loop np i nullptr (Some c) h1) })"

section \<open>Splitting and coalescing\<close>

text \<open>The \<open>assert\<close> of \<open>split\<close> is a branch without a result.\<close>

definition split_span :: "nat \<Rightarrow> nat \<Rightarrow> PageHeap \<Rightarrow> PageHeap option" where
  "split_span i n h = do {
     s \<leftarrow> spans h i;
     if num_pages s \<le> n then None
     else (case new_object (new_Span\<lparr>start := start s + n, num_pages := num_pages s - n,
                              span_size := 0, is_free := True\<rparr>) h of
       (r, h0) \<Rightarrow> do {
         h1 \<leftarrow> unregister_span i h0;
         h2 \<leftarrow> upd_span i (\<lambda>q. q\<lparr>num_pages := n\<rparr>) h1;
         h3 \<leftarrow> register_span i h2;
         h4 \<leftarrow> register_span r h3;
         sr \<leftarrow> spans h4 r;
         if num_pages sr \<le> MAX_PAGES then insert_span (num_pages sr) r h4 else Some h4 })
   }"

text \<open>
  The block both halves of \<open>coalesce\<close> run on a free neighbour \<open>j\<close>; they differ in how the
  span takes over the neighbour's pages (\<open>f\<close>, applied to the neighbour and the span).
\<close>

definition absorb :: "(Span \<Rightarrow> Span \<Rightarrow> Span) \<Rightarrow> nat \<Rightarrow> nat \<Rightarrow> PageHeap \<Rightarrow> PageHeap option" where
  "absorb f i j h = do {
     h1 \<leftarrow> remove_from_free_list j h;
     h2 \<leftarrow> unregister_span j h1;
     h3 \<leftarrow> unregister_span i h2;
     sj \<leftarrow> spans h3 j;
     h4 \<leftarrow> upd_span i (f sj) h3;
     h5 \<leftarrow> register_span i h4;
     delete_object j h5 }"

definition coalesce_left :: "nat \<Rightarrow> PageHeap \<Rightarrow> PageHeap option" where
  "coalesce_left i h = do {
     s \<leftarrow> spans h i;
     if start s = 0 then Some h
     else (case lookup (start s - 1) h of
       None \<Rightarrow> Some h
     | Some l \<Rightarrow> do {
         sl \<leftarrow> spans h l;
         if is_free sl \<and> l \<noteq> i
         then absorb (\<lambda>left q. q\<lparr>start := start left, num_pages := num_pages q + num_pages left\<rparr>) i l h
         else Some h })
   }"

definition coalesce_right :: "nat \<Rightarrow> PageHeap \<Rightarrow> PageHeap option" where
  "coalesce_right i h = do {
     s \<leftarrow> spans h i;
     (case lookup (start s + num_pages s) h of
       None \<Rightarrow> Some h
     | Some r \<Rightarrow> do {
         sr \<leftarrow> spans h r;
         if is_free sr \<and> r \<noteq> i
         then absorb (\<lambda>right q. q\<lparr>num_pages := num_pages q + num_pages right\<rparr>) i r h
         else Some h })
   }"

definition coalesce :: "nat \<Rightarrow> PageHeap \<Rightarrow> PageHeap option" where
  "coalesce i h = do { h1 \<leftarrow> coalesce_left i h; coalesce_right i h1 }"

section \<open>Public operations\<close>

definition size_diff :: "nat \<Rightarrow> Span \<Rightarrow> nat" where
  "size_diff sz s = (if sz < span_size s then span_size s - sz else sz - span_size s)"

text \<open>The scan of one free list for the span whose size is closest to the requested one.\<close>

partial_function (option) best_scan ::
    "nat \<Rightarrow> PageHeap \<Rightarrow> ptr \<Rightarrow> ptr \<Rightarrow> nat \<Rightarrow> ptr option" where
  "best_scan sz h cur best best_diff =
     (case cur of
        None \<Rightarrow> Some best
      | Some c \<Rightarrow> do {
          s \<leftarrow> spans h c;
          if size_diff sz s = 0 then Some (if size_diff sz s < best_diff then cur else best)
          else best_scan sz h (nxt s)
                 (if size_diff sz s < best_diff then cur else best)
                 (if size_diff sz s < best_diff then size_diff sz s else best_diff) })"

text \<open>What the search does with the span it has chosen.\<close>

definition take_span :: "nat \<Rightarrow> nat \<Rightarrow> nat \<Rightarrow> PageHeap \<Rightarrow> (ptr \<times> PageHeap) option" where
  "take_span b n sz h = do {
     h1 \<leftarrow> remove_from_free_list b h;
     h2 \<leftarrow> upd_span b (\<lambda>q. q\<lparr>is_free := False, span_size := sz\<rparr>) h1;
     s \<leftarrow> spans h2 b;
     h3 \<leftarrow> (if n < num_pages s then split_span b n h2 else Some h2);
     Some (Some b, h3) }"

text \<open>The loop over the page counts; \<open>(nullptr, h)\<close> when it ends without a result.\<close>

function alloc_search :: "nat \<Rightarrow> nat \<Rightarrow> nat \<Rightarrow> PageHeap \<Rightarrow> (ptr \<times> PageHeap) option" where
  "alloc_search i n sz h =
     (if MAX_PAGES < i then Some (nullptr, h)
      else if free_lists h i = nullptr then alloc_search (Suc i) n sz h
      else (case best_scan sz h (free_lists h i) nullptr 4294967295 of
              None \<Rightarrow> None
            | Some None \<Rightarrow> alloc_search (Suc i) n sz h
            | Some (Some b) \<Rightarrow> take_span b n sz h))"
  by pat_completeness auto
termination
  by (relation "measure (\<lambda>(i, n, sz, h). Suc MAX_PAGES - i)") auto

declare alloc_search.simps [simp del]

definition allocate_span :: "mmap_env \<Rightarrow> nat \<Rightarrow> nat \<Rightarrow> PageHeap \<Rightarrow> (ptr \<times> PageHeap) option" where
  "allocate_span mmap n sz h =
     (if n = 0 \<or> MAX_PAGES < n then Some (nullptr, h)
      else (case alloc_search n n sz h of
        None \<Rightarrow> None
      | Some (Some b, h1) \<Rightarrow> Some (Some b, h1)
      | Some (None, h1) \<Rightarrow>
          (let h2 = h1\<lparr>mmap_calls := Suc (mmap_calls h1)\<rparr> in
           case mmap (mmap_calls h1) (page_map h1) n of
             None \<Rightarrow> Some (nullptr, h2)
           | Some raw \<Rightarrow>
               (case new_object (new_Span\<lparr>start := raw div PAGE_SIZE, num_pages := n,
                                   span_size := sz\<rparr>) h2 of
                  (i, h3) \<Rightarrow> do { h4 \<leftarrow> register_span i h3; Some (Some i, h4) }))))"

text \<open>
  The \<open>while\<close> loop of \<open>return_span\<close>, which carves chunks of \<open>MAX_PAGES\<close> off the front.
\<close>

partial_function (option) carve_loop :: "nat \<Rightarrow> PageHeap \<Rightarrow> PageHeap option" where
  "carve_loop i h = do {
     s \<leftarrow> spans h i;
     if num_pages s \<le> MAX_PAGES then Some h
     else (case new_object (new_Span\<lparr>start := start s, num_pages := MAX_PAGES, span_size := 0,
                              is_free := True\<rparr>) h of
       (f, h0) \<Rightarrow> do {
         h1 \<leftarrow> unregister_span i h0;
         h2 \<leftarrow> upd_span i (\<lambda>q. q\<lparr>start := start q + MAX_PAGES, num_pages := num_pages q - MAX_PAGES\<rparr>) h1;
         h3 \<leftarrow> register_span i h2;
         h4 \<leftarrow> register_span f h3;
         h5 \<leftarrow> insert_span MAX_PAGES f h4;
         carve_loop i h5 })
   }"

definition return_span :: "ptr \<Rightarrow> PageHeap \<Rightarrow> PageHeap option" where
  "return_span span h =
     (case span of
        None \<Rightarrow> Some h
      | Some i \<Rightarrow> do {
          h1 \<leftarrow> upd_span i (\<lambda>q. q\<lparr>is_free := True, span_size := 0\<rparr>) h;
          h2 \<leftarrow> coalesce i h1;
          h3 \<leftarrow> carve_loop i h2;
          s \<leftarrow> spans h3 i;
          insert_span (num_pages s) i h3 })"

definition span_for :: "addr \<Rightarrow> PageHeap \<Rightarrow> ptr" where
  "span_for p h = lookup (p div PAGE_SIZE) h"

text \<open>The answer of \<open>munmap\<close> is an argument: whether it returned 0.\<close>

definition deallocate_span :: "bool \<Rightarrow> ptr \<Rightarrow> PageHeap \<Rightarrow> (bool \<times> PageHeap) option" where
  "deallocate_span munmap_ok span h =
     (case span of
        None \<Rightarrow> Some (False, h)
      | Some i \<Rightarrow> do {
          s \<leftarrow> spans h i;
          h1 \<leftarrow> (if is_free s then remove_from_free_list i h else Some h);
          h2 \<leftarrow> unregister_span i h1;
          h3 \<leftarrow> delete_object i h2;
          Some (munmap_ok, h3) })"

section \<open>Destruction\<close>

text \<open>
  The destructor unmaps and deletes the spans of the free lists. The \<open>munmap\<close> calls are
  collected, as pairs of an address and a length, in the order they are made.
\<close>

definition extent :: "Span \<Rightarrow> nat \<times> nat" where
  "extent s = (start s * PAGE_SIZE, num_pages s * PAGE_SIZE)"

partial_function (option) destroy_list ::
    "ptr \<Rightarrow> (nat \<times> nat) list \<Rightarrow> PageHeap \<Rightarrow> ((nat \<times> nat) list \<times> PageHeap) option" where
  "destroy_list cur unmapped h =
     (case cur of
        None \<Rightarrow> Some (unmapped, h)
      | Some c \<Rightarrow> do {
          s \<leftarrow> spans h c;
          h1 \<leftarrow> delete_object c h;
          destroy_list (nxt s) (unmapped @ [extent s]) h1 })"

primrec destroy_lists :: "nat \<Rightarrow> PageHeap \<Rightarrow> ((nat \<times> nat) list \<times> PageHeap) option" where
  "destroy_lists 0 h = Some ([], h)"
| "destroy_lists (Suc i) h = do {
     (us, h1) \<leftarrow> destroy_lists i h;
     (us', h2) \<leftarrow> destroy_list (free_lists h1 i) us h1;
     Some (us', h2\<lparr>free_lists := (free_lists h2)(i := nullptr)\<rparr>) }"

definition destroy_PageHeap :: "PageHeap \<Rightarrow> ((nat \<times> nat) list \<times> PageHeap) option" where
  "destroy_PageHeap h = do {
     (us, h1) \<leftarrow> destroy_lists (Suc MAX_PAGES) h;
     Some (us, h1\<lparr>page_map := Map.empty\<rparr>) }"

end
