(* ===== verification/Span_Lists.thy ===== *)
theory Span_Lists
  imports Page_Heap
begin

text \<open>
  Doubly linked lists of spans. \<open>dseg S p h xs l e\<close>: in the store \<open>S\<close>, the pointer \<open>h\<close> leads
  through the spans \<open>xs\<close> to the pointer \<open>e\<close>, the \<open>prev\<close> field of the first one is \<open>p\<close>, and \<open>l\<close>
  points at the last one (or is \<open>p\<close>). A complete list ends in \<open>nullptr\<close>. The lemmas of this
  theory say what the pointer manipulations of \<open>remove_from_free_list\<close> and \<open>insert\<close> do to the
  list of spans, and that they change nothing but links.
\<close>

section \<open>Segments\<close>

primrec dseg :: "(nat \<rightharpoonup> Span) \<Rightarrow> ptr \<Rightarrow> ptr \<Rightarrow> nat list \<Rightarrow> ptr \<Rightarrow> ptr \<Rightarrow> bool" where
  "dseg S p h [] l e \<longleftrightarrow> l = p \<and> e = h"
| "dseg S p h (x # xs) l e \<longleftrightarrow>
     h = Some x \<and> (\<exists>s. S x = Some s \<and> prv s = p \<and> dseg S (Some x) (nxt s) xs l e)"

definition dll :: "(nat \<rightharpoonup> Span) \<Rightarrow> ptr \<Rightarrow> nat list \<Rightarrow> bool" where
  "dll S h xs \<longleftrightarrow> (\<exists>l. dseg S nullptr h xs l nullptr)"

lemma dll_Nil [simp]: "dll S h [] \<longleftrightarrow> h = nullptr"
  by (auto simp: dll_def)

lemma dll_empty_iff: "dll S h xs \<Longrightarrow> h = nullptr \<longleftrightarrow> xs = []"
  by (cases xs) (auto simp: dll_def)

lemma dseg_append:
  "dseg S p h (xs @ ys) l e \<longleftrightarrow> (\<exists>m k. dseg S p h xs m k \<and> dseg S m k ys l e)"
  by (induction xs arbitrary: p h) auto

lemma dseg_last: "dseg S p h xs l e \<Longrightarrow> l = (if xs = [] then p else Some (last xs))"
  by (induction xs arbitrary: p h) auto

lemma dseg_store: "dseg S p h xs l e \<Longrightarrow> x \<in> set xs \<Longrightarrow> \<exists>s. S x = Some s"
  by (induction xs arbitrary: p h) auto

lemma dseg_cong: "(\<And>x. x \<in> set xs \<Longrightarrow> S' x = S x) \<Longrightarrow> dseg S' p h xs l e = dseg S p h xs l e"
  by (induction xs arbitrary: p h) auto

lemma dseg_upd: "i \<notin> set xs \<Longrightarrow> dseg (S(i := v)) p h xs l e = dseg S p h xs l e"
  by (rule dseg_cong) auto

lemma dll_cong: "(\<And>x. x \<in> set xs \<Longrightarrow> S' x = S x) \<Longrightarrow> dll S' h xs = dll S h xs"
  unfolding dll_def using dseg_cong [of xs S' S] by auto

lemma dll_store: "dll S h xs \<Longrightarrow> x \<in> set xs \<Longrightarrow> \<exists>s. S x = Some s"
  by (auto simp: dll_def dest: dseg_store)

text \<open>The only list a head pointer leads through.\<close>

lemma dseg_unique: "dseg S p h xs l nullptr \<Longrightarrow> dseg S p h ys l' nullptr \<Longrightarrow> xs = ys"
proof (induction xs arbitrary: p h ys)
  case Nil
  then show ?case
    by (cases ys) auto
next
  case (Cons x xs)
  then show ?case
    by (cases ys) auto
qed

lemma dll_unique: "dll S h xs \<Longrightarrow> dll S h ys \<Longrightarrow> xs = ys"
  by (auto simp: dll_def intro: dseg_unique)

text \<open>Redirecting the last \<open>next\<close> pointer, and the first \<open>prev\<close> pointer, of a segment.\<close>

lemma dseg_set_nxt:
  assumes "dseg S p h (as @ [a]) l e" "a \<notin> set as" "S a = Some s"
  shows "dseg (S(a \<mapsto> s\<lparr>nxt := e'\<rparr>)) p h (as @ [a]) (Some a) e'"
proof -
  obtain m k where "dseg S p h as m k" "k = Some a" "prv s = m"
    using assms(1,3) by (auto simp: dseg_append)
  then show ?thesis
    using assms(2) by (auto simp: dseg_append dseg_upd)
qed

lemma dseg_set_prv:
  assumes "dseg S p h (b # bs) l e" "b \<notin> set bs" "S b = Some s"
  shows "dseg (S(b \<mapsto> s\<lparr>prv := p'\<rparr>)) p' h (b # bs) l e"
  using assms by (auto simp: dseg_upd)

section \<open>Payload\<close>

text \<open>Everything of a span but its links.\<close>

definition payload :: "Span \<Rightarrow> Span" where
  "payload s = s\<lparr>nxt := nullptr, prv := nullptr\<rparr>"

lemma payload_links [simp]:
  "payload (s\<lparr>nxt := a\<rparr>) = payload s" "payload (s\<lparr>prv := a\<rparr>) = payload s"
  by (simp_all add: payload_def)

lemma payload_fields:
  assumes "payload s = payload t"
  shows "start s = start t" "num_pages s = num_pages t" "span_size s = span_size t"
    "total_objects s = total_objects t" "num_free_objects s = num_free_objects t"
    "next_uninitialized s = next_uninitialized t" "freelist_head s = freelist_head t"
    "is_free s = is_free t"
  using arg_cong [OF assms, of start] arg_cong [OF assms, of num_pages]
    arg_cong [OF assms, of span_size] arg_cong [OF assms, of total_objects]
    arg_cong [OF assms, of num_free_objects] arg_cong [OF assms, of next_uninitialized]
    arg_cong [OF assms, of freelist_head] arg_cong [OF assms, of is_free]
  by (simp_all add: payload_def)

definition view :: "(nat \<rightharpoonup> Span) \<Rightarrow> nat \<rightharpoonup> Span" where
  "view S j = map_option payload (S j)"

text \<open>\<open>relinked X S S'\<close>: only links changed, and only of spans in \<open>X\<close>.\<close>

definition relinked :: "nat set \<Rightarrow> (nat \<rightharpoonup> Span) \<Rightarrow> (nat \<rightharpoonup> Span) \<Rightarrow> bool" where
  "relinked X S S' \<longleftrightarrow> view S' = view S \<and> (\<forall>j. j \<notin> X \<longrightarrow> S' j = S j)"

lemma relinked_refl [simp]: "relinked X S S"
  by (simp add: relinked_def)

lemma relinked_trans: "relinked X S S' \<Longrightarrow> relinked X S' S'' \<Longrightarrow> relinked X S S''"
  by (simp add: relinked_def)

lemma relinked_mono: "relinked X S S' \<Longrightarrow> X \<subseteq> Y \<Longrightarrow> relinked Y S S'"
  by (auto simp: relinked_def)

lemma relinked_upd:
  "S j = Some s \<Longrightarrow> payload t = payload s \<Longrightarrow> j \<in> X \<Longrightarrow> relinked X S (S(j \<mapsto> t))"
  by (auto simp: relinked_def view_def fun_eq_iff)

lemma relinked_Some:
  assumes "relinked X S S'" "S j = Some s"
  shows "\<exists>t. S' j = Some t \<and> payload t = payload s"
proof -
  have "view S' j = Some (payload s)"
    using assms by (simp add: relinked_def view_def)
  then show ?thesis
    by (auto simp: view_def)
qed

lemma relinked_None: "relinked X S S' \<Longrightarrow> S j = None \<Longrightarrow> S' j = None"
  by (metis option.map_disc_iff relinked_def view_def)

section \<open>Removal\<close>

lemma upd_span_Some [simp]:
  "spans h i = Some s \<Longrightarrow> upd_span i f h = Some (h\<lparr>spans := (spans h)(i \<mapsto> f s)\<rparr>)"
  by (simp add: upd_span_def)

text \<open>
  Unlinking the span between \<open>as\<close> and \<open>bs\<close>: first on the store, then for the operation.
\<close>

lemma unlink_left:
  assumes "dseg S nullptr h as m (Some i)" "distinct (as @ i # bs)" "S i = Some s"
    "dseg S (Some i) (nxt s) bs l nullptr"
  shows "\<exists>S' h'. (case m of Some p \<Rightarrow> (\<exists>q. S p = Some q \<and> S' = S(p \<mapsto> q\<lparr>nxt := nxt s\<rparr>) \<and> h' = h)
                        | None \<Rightarrow> S' = S \<and> h' = nxt s)
     \<and> dseg S' nullptr h' as m (nxt s) \<and> dseg S' (Some i) (nxt s) bs l nullptr
     \<and> S' i = Some s \<and> relinked (set as) S S'"
proof (cases as rule: rev_cases)
  case Nil
  then show ?thesis
    using assms by (intro exI [of _ S] exI [of _ "nxt s"]) auto
next
  case (snoc as' a)
  have m: "m = Some a"
    using dseg_last [OF assms(1)] snoc by simp
  obtain q where q: "S a = Some q"
    using dseg_store [OF assms(1), of a] snoc by auto
  have "dseg (S(a \<mapsto> q\<lparr>nxt := nxt s\<rparr>)) nullptr h as (Some a) (nxt s)"
    using dseg_set_nxt [of S nullptr h as' a m "Some i" q] assms(1,2) snoc q by auto
  then show ?thesis
    using assms snoc q m
    by (intro exI [of _ "S(a \<mapsto> q\<lparr>nxt := nxt s\<rparr>)"] exI [of _ h]) (auto simp: dseg_upd intro: relinked_upd)
qed

lemma unlink_right:
  assumes "dseg S nullptr h as m k" "dseg S (Some i) k bs l nullptr" "distinct (as @ i # bs)" "S i = Some s"
  shows "\<exists>S' l'. (case k of Some n \<Rightarrow> (\<exists>q. S n = Some q \<and> S' = S(n \<mapsto> q\<lparr>prv := m\<rparr>)) | None \<Rightarrow> S' = S)
     \<and> dseg S' nullptr h (as @ bs) l' nullptr \<and> S' i = Some s \<and> relinked (set bs) S S'"
proof (cases bs)
  case Nil
  then show ?thesis
    using assms by (intro exI [of _ S] exI [of _ m]) auto
next
  case (Cons b bs')
  obtain q where q: "S b = Some q" "k = Some b"
    using assms(2) Cons by auto
  have "dseg (S(b \<mapsto> q\<lparr>prv := m\<rparr>)) m k bs l nullptr"
    using dseg_set_prv [of S "Some i" k b bs' l nullptr q m] assms(2,3) Cons q by auto
  moreover have "dseg (S(b \<mapsto> q\<lparr>prv := m\<rparr>)) nullptr h as m k"
    using assms(1,3) Cons by (simp add: dseg_upd)
  ultimately show ?thesis
    using assms(3,4) Cons q
    by (intro exI [of _ "S(b \<mapsto> q\<lparr>prv := m\<rparr>)"] exI [of _ l]) (auto simp: dseg_append intro: relinked_upd)
qed

lemma remove_from_free_list_spec:
  assumes "dll (spans h) (free_lists h n) (as @ i # bs)" "distinct (as @ i # bs)"
    and "spans h i = Some s" "num_pages s = n" "n \<le> MAX_PAGES"
  shows "\<exists>h' S. remove_from_free_list i h = Some h'
     \<and> spans h' = S(i \<mapsto> s\<lparr>nxt := nullptr, prv := nullptr, is_free := False\<rparr>)
     \<and> relinked (set (as @ bs)) (spans h) S
     \<and> dll S (free_lists h' n) (as @ bs)
     \<and> (\<forall>m. m \<noteq> n \<longrightarrow> free_lists h' m = free_lists h m)
     \<and> page_map h' = page_map h \<and> fresh h' = fresh h \<and> mmap_calls h' = mmap_calls h"
proof -
  obtain m l where left: "dseg (spans h) nullptr (free_lists h n) as m (Some i)"
    and m: "prv s = m" and right: "dseg (spans h) (Some i) (nxt s) bs l nullptr"
    using assms(1,3) by (auto simp: dll_def dseg_append)
  from unlink_left [OF left assms(2,3) right] obtain S1 h1 where
    step1: "case m of Some p \<Rightarrow> (\<exists>q. spans h p = Some q \<and> S1 = (spans h)(p \<mapsto> q\<lparr>nxt := nxt s\<rparr>) \<and> h1 = free_lists h n)
          | None \<Rightarrow> S1 = spans h \<and> h1 = nxt s"
    and seg1: "dseg S1 nullptr h1 as m (nxt s)" "dseg S1 (Some i) (nxt s) bs l nullptr"
    and S1: "S1 i = Some s" "relinked (set as) (spans h) S1"
    by blast
  from unlink_right [OF seg1 assms(2) S1(1)] obtain S2 l2 where
    step2: "case nxt s of Some n \<Rightarrow> (\<exists>q. S1 n = Some q \<and> S2 = S1(n \<mapsto> q\<lparr>prv := m\<rparr>)) | None \<Rightarrow> S2 = S1"
    and seg2: "dseg S2 nullptr h1 (as @ bs) l2 nullptr"
    and S2: "S2 i = Some s" "relinked (set bs) S1 S2"
    by blast
  define g where "g = h\<lparr>spans := S1, free_lists := (free_lists h)(n := h1)\<rparr>"
  have g: "(case prv s of Some p \<Rightarrow> upd_span p (\<lambda>q. q\<lparr>nxt := nxt s\<rparr>) h
      | None \<Rightarrow> Some (h\<lparr>free_lists := (free_lists h)(num_pages s := nxt s)\<rparr>)) = Some g"
    using step1 assms(4) m by (auto simp: g_def split: option.splits)
  have gi: "spans g i = Some s"
    using S1(1) by (simp add: g_def)
  have g2: "(case nxt s of Some n \<Rightarrow> upd_span n (\<lambda>q. q\<lparr>prv := prv s\<rparr>) g | None \<Rightarrow> Some g) = Some (g\<lparr>spans := S2\<rparr>)"
    using step2 m by (auto simp: g_def split: option.splits)
  have "\<not> MAX_PAGES < num_pages s"
    using assms(4,5) by simp
  then have "remove_from_free_list i h =
      Some (g\<lparr>spans := S2(i \<mapsto> s\<lparr>nxt := nullptr, prv := nullptr, is_free := False\<rparr>)\<rparr>)"
    using S2(1) by (simp add: remove_from_free_list_def assms(3) g gi g2)
  moreover have "relinked (set (as @ bs)) (spans h) S2"
    by (rule relinked_trans [OF relinked_mono [OF S1(2)] relinked_mono [OF S2(2)]]) auto
  ultimately show ?thesis
    using seg2
    by (intro exI [of _ "g\<lparr>spans := S2(i \<mapsto> s\<lparr>nxt := nullptr, prv := nullptr, is_free := False\<rparr>)\<rparr>"]
        exI [of _ S2] conjI) (auto simp: g_def dll_def)
qed

section \<open>Insertion\<close>

abbreviation start_of :: "PageHeap \<Rightarrow> nat \<Rightarrow> nat" where
  "start_of h i \<equiv> start (the (spans h i))"

text \<open>
  The effect of an insertion of \<open>i\<close> between \<open>as\<close> and \<open>bs\<close> on a heap: links only, among the
  spans of the list and \<open>i\<close>, and one list head.
\<close>

definition inserted :: "nat \<Rightarrow> nat \<Rightarrow> nat list \<Rightarrow> nat list \<Rightarrow> PageHeap \<Rightarrow> PageHeap \<Rightarrow> bool" where
  "inserted np i as bs h h' \<longleftrightarrow>
     dll (spans h') (free_lists h' np) (as @ i # bs)
     \<and> relinked (set (as @ i # bs)) (spans h) (spans h')
     \<and> (\<forall>m. m \<noteq> np \<longrightarrow> free_lists h' m = free_lists h m)
     \<and> page_map h' = page_map h \<and> fresh h' = fresh h \<and> mmap_calls h' = mmap_calls h
     \<and> (\<forall>a\<in>set as. start_of h a \<le> start_of h i)
     \<and> (bs \<noteq> [] \<longrightarrow> start_of h i < start_of h (hd bs))"

lemma insert_at_end:
  assumes "dseg (spans h) nullptr (free_lists h np) (as @ [a]) l nullptr" "distinct (as @ [a, i])"
    and "spans h i = Some s" "nxt s = nullptr" "\<forall>a\<in>set (as @ [a]). start_of h a \<le> start_of h i"
  shows "\<exists>h'. insert_loop np i (Some a) nullptr h = Some h' \<and> inserted np i (as @ [a]) [] h h'"
proof -
  obtain q where q: "spans h a = Some q"
    using dseg_store [OF assms(1), of a] by auto
  let ?S1 = "(spans h)(a \<mapsto> q\<lparr>nxt := Some i\<rparr>)"
  let ?S2 = "?S1(i \<mapsto> s\<lparr>prv := Some a\<rparr>)"
  have ia: "i \<noteq> a" "i \<notin> set as" "a \<notin> set as"
    using assms(2) by auto
  have loop: "insert_loop np i (Some a) nullptr h = Some (h\<lparr>spans := ?S2\<rparr>)"
    using q assms(3) ia by (simp add: insert_loop.simps)
  have "dseg ?S1 nullptr (free_lists h np) (as @ [a]) (Some a) (Some i)"
    using dseg_set_nxt [OF assms(1) _ q] ia by simp
  then have "dseg ?S2 nullptr (free_lists h np) (as @ [a]) (Some a) (Some i)"
    by (subst dseg_upd) (use ia in auto)
  then have "dseg ?S2 nullptr (free_lists h np) ((as @ [a]) @ [i]) (Some i) nullptr"
    unfolding dseg_append [of _ _ _ "as @ [a]"] using assms(4) by auto
  then have "dll ?S2 (free_lists h np) ((as @ [a]) @ [i])"
    unfolding dll_def by blast
  moreover have "relinked (set ((as @ [a]) @ [i])) (spans h) ?S2"
    by (rule relinked_trans [OF relinked_upd relinked_upd]) (use q assms(3) ia in auto)
  ultimately show ?thesis
    using loop assms(5) by (auto simp: inserted_def)
qed

text \<open>What the loop does at the block \<open>b\<close> it stops at, in front of the list and behind \<open>a\<close>.\<close>

lemma insert_stops:
  assumes "spans h i = Some s" "spans h b = Some q" "start s < start q" "b \<noteq> i"
    and S: "S = (spans h)(i \<mapsto> s\<lparr>nxt := Some b, prv := m\<rparr>, b \<mapsto> q\<lparr>prv := Some i\<rparr>)"
  shows "m = nullptr \<Longrightarrow> insert_loop np i m (Some b) h = Some (h\<lparr>spans := S, free_lists := (free_lists h)(np := Some i)\<rparr>)"
    "m = Some a \<Longrightarrow> S a = Some qa \<Longrightarrow> insert_loop np i m (Some b) h = Some (h\<lparr>spans := S(a \<mapsto> qa\<lparr>nxt := Some i\<rparr>)\<rparr>)"
  using assms by (subst insert_loop.simps, simp)+

lemma insert_before:
  assumes "dseg (spans h) nullptr (free_lists h np) as m (Some b)"
    and "dseg (spans h) m (Some b) (b # bs) l nullptr" "distinct (as @ i # b # bs)"
    and "spans h i = Some s" "\<forall>a\<in>set as. start_of h a \<le> start_of h i" "start_of h i < start_of h b"
  shows "\<exists>h'. insert_loop np i m (Some b) h = Some h' \<and> inserted np i as (b # bs) h h'"
proof -
  obtain q where q: "spans h b = Some q"
    using assms(2) by auto
  define S1 where "S1 = (spans h)(i \<mapsto> s\<lparr>nxt := Some b, prv := m\<rparr>)"
  define S2 where "S2 = S1(b \<mapsto> q\<lparr>prv := Some i\<rparr>)"
  have d: "i \<notin> set as" "b \<notin> set as" "b \<noteq> i" "i \<notin> set bs" "b \<notin> set bs"
    using assms(3) by auto
  have "S1 b = Some q"
    using q d by (simp add: S1_def)
  moreover have "dseg S1 m (Some b) (b # bs) l nullptr"
    using assms(2) d unfolding S1_def by (subst dseg_upd) auto
  ultimately have tail: "dseg S2 (Some i) (Some b) (b # bs) l nullptr"
    unfolding S2_def using dseg_set_prv d by blast
  have head: "dseg S2 nullptr (free_lists h np) as m (Some b)"
    unfolding S2_def S1_def using assms(1) d by (simp add: dseg_upd)
  have S2i: "S2 i = Some (s\<lparr>nxt := Some b, prv := m\<rparr>)"
    using d by (simp add: S2_def S1_def)
  have link2: "relinked (set (as @ i # b # bs)) (spans h) S2"
    unfolding S2_def S1_def
    by (rule relinked_trans [OF relinked_upd relinked_upd]) (use q assms(4) d in auto)
  have "start s < start q"
    using assms(4,6) q by simp
  note stops = insert_stops [OF assms(4) q this d(3) S2_def [unfolded S1_def]]
  show ?thesis
  proof (cases as rule: rev_cases)
    case Nil
    then have m: "m = nullptr"
      using assms(1) by simp
    have "dll S2 (Some i) (i # b # bs)"
      unfolding dll_def using tail S2i m by auto
    then show ?thesis
      using stops(1) [OF m, of np] Nil link2 assms(6)
      by (intro exI [of _ "h\<lparr>spans := S2, free_lists := (free_lists h)(np := Some i)\<rparr>"]) (auto simp: inserted_def)
  next
    case (snoc as' a)
    have m: "m = Some a"
      using dseg_last [OF assms(1)] snoc by simp
    have da: "a \<notin> set as'" "a \<noteq> i" "a \<noteq> b" "a \<notin> set bs"
      using assms(3) snoc by auto
    obtain qa where qa: "S2 a = Some qa"
      using dseg_store [OF head, of a] snoc by auto
    let ?S3 = "S2(a \<mapsto> qa\<lparr>nxt := Some i\<rparr>)"
    have "dseg ?S3 nullptr (free_lists h np) as m (Some i)"
      using dseg_set_nxt [of S2 nullptr _ as' a m "Some b" qa "Some i"] head snoc m qa da by simp
    moreover have "dseg ?S3 (Some i) (Some b) (b # bs) l nullptr"
      using tail da by (subst dseg_upd) auto
    moreover have "?S3 i = Some (s\<lparr>nxt := Some b, prv := m\<rparr>)"
      using S2i da by simp
    ultimately have "dseg ?S3 nullptr (free_lists h np) (as @ i # b # bs) l nullptr"
      unfolding dseg_append [of _ _ _ as] by (subst dseg.simps, force)
    then have "dll ?S3 (free_lists h np) (as @ i # b # bs)"
      unfolding dll_def by blast
    moreover have "relinked (set (as @ i # b # bs)) (spans h) ?S3"
      by (rule relinked_trans [OF link2 relinked_upd]) (use qa snoc in auto)
    ultimately show ?thesis
      using stops(2) [OF m qa, of np] assms(5,6) by (intro exI [of _ "h\<lparr>spans := ?S3\<rparr>"]) (auto simp: inserted_def)
  qed
qed

lemma insert_loop_spec:
  assumes "dseg (spans h) nullptr (free_lists h np) as m k" "dseg (spans h) m k bs l nullptr"
    and "distinct (as @ i # bs)" "spans h i = Some s" "nxt s = nullptr" "as \<noteq> [] \<or> bs \<noteq> []"
    and "\<forall>a\<in>set as. start_of h a \<le> start_of h i"
  shows "\<exists>h' as' bs'. insert_loop np i m k h = Some h' \<and> as' @ bs' = as @ bs \<and> inserted np i as' bs' h h'"
  using assms
proof (induction bs arbitrary: as m k)
  case Nil
  then obtain as' a where "as = as' @ [a]"
    by (metis rev_exhaust)
  moreover have "m = Some a" "k = nullptr"
    using dseg_last [OF Nil.prems(1)] Nil.prems(2) calculation by auto
  ultimately show ?case
    using insert_at_end [of h np as' a m i s] Nil.prems by fastforce
next
  case (Cons b bs)
  obtain q where q: "k = Some b" "spans h b = Some q" "prv q = m" "dseg (spans h) (Some b) (nxt q) bs l nullptr"
    using Cons.prems(2) by auto
  show ?case
  proof (cases "start s < start q")
    case True
    then show ?thesis
      using insert_before [of h np as m b bs l i s] Cons.prems q by auto
  next
    case False
    have "insert_loop np i m k h = insert_loop np i (Some b) (nxt q) h"
      using False q Cons.prems(4) by (subst insert_loop.simps) simp
    moreover have "dseg (spans h) nullptr (free_lists h np) (as @ [b]) (Some b) (nxt q)"
      unfolding dseg_append using Cons.prems(1) q by auto
    ultimately show ?thesis
      using Cons.IH [of "as @ [b]" "Some b" "nxt q"] Cons.prems q False by auto
  qed
qed

lemma insert_span_spec:
  assumes "dll (spans h) (free_lists h n) xs" "distinct xs" "i \<notin> set xs" "spans h i = Some s" "n \<le> MAX_PAGES"
  shows "\<exists>h' as bs. insert_span n i h = Some h' \<and> as @ bs = xs
     \<and> inserted n i as bs (h\<lparr>spans := (spans h)(i \<mapsto> s\<lparr>is_free := True, nxt := nullptr, prv := nullptr\<rparr>)\<rparr>) h'"
proof -
  let ?s = "s\<lparr>is_free := True, nxt := nullptr, prv := nullptr\<rparr>"
  let ?h = "h\<lparr>spans := (spans h)(i \<mapsto> ?s)\<rparr>"
  have dll: "dll (spans ?h) (free_lists ?h n) xs"
    using assms(1,3) by (subst dll_cong [of xs "spans ?h" "spans h"]) auto
  show ?thesis
  proof (cases "free_lists h n")
    case None
    then have "xs = []"
      using dll_empty_iff [OF assms(1)] by simp
    let ?g = "?h\<lparr>free_lists := (free_lists h)(n := Some i)\<rparr>"
    have "insert_span n i h = Some ?g"
      using None assms(4,5) by (simp add: insert_span_def)
    moreover have "dll (spans ?g) (Some i) [i]"
      by (auto simp: dll_def)
    ultimately show ?thesis
      using \<open>xs = []\<close> by (intro exI [of _ ?g] exI [of _ "[]"]) (auto simp: inserted_def)
  next
    case (Some c)
    have "xs \<noteq> []"
      using Some assms(1) by auto
    obtain l where l: "dseg (spans ?h) nullptr (free_lists ?h n) xs l nullptr"
      using dll by (auto simp: dll_def)
    have "\<exists>h' as' bs'. insert_loop n i nullptr (free_lists ?h n) ?h = Some h' \<and> as' @ bs' = [] @ xs
        \<and> inserted n i as' bs' ?h h'"
      using l assms(2,3) \<open>xs \<noteq> []\<close> by (intro insert_loop_spec) auto
    moreover have "insert_span n i h = insert_loop n i nullptr (free_lists ?h n) ?h"
      using Some assms(4,5) by (simp add: insert_span_def)
    ultimately show ?thesis
      by auto
  qed
qed

end
