(* ===== verification/Page_Heap_Inv.thy ===== *)
theory Page_Heap_Inv
  imports Span_Lists
begin

text \<open>
  The invariant of the page heap and its preservation. \<open>ph_abs\<close> states what does not depend on
  the links: the free lists \<open>F\<close> hold exactly the free spans, each in the list of its page count,
  in address order; spans are non-empty, lie inside the address space and carry the object size 0
  while they are free; and the page map
  sends a page to a span exactly when the span contains it, so that spans never overlap. \<open>ph_inv\<close>
  adds that the doubly linked lists of the store are the lists \<open>F\<close>. \<open>D\<close> is the set of spans an
  operation has taken out of the lists and not yet put back; it is empty between operations.
\<close>

section \<open>The invariant\<close>

definition pages_of :: "Span \<Rightarrow> nat set" where
  "pages_of s = {start s ..< start s + num_pages s}"

lemma pages_of_payload [simp]: "pages_of (payload s) = pages_of s"
  by (simp add: pages_of_def payload_def)

definition span_ok :: "Span \<Rightarrow> bool" where
  "span_ok s \<longleftrightarrow> 0 < start s \<and> 0 < num_pages s \<and> start s + num_pages s \<le> 2 ^ 52
     \<and> (is_free s \<longrightarrow> span_size s = 0)"

lemma start_in_pages: "span_ok s \<Longrightarrow> start s \<in> pages_of s"
  by (simp add: span_ok_def pages_of_def)

definition ph_abs ::
    "(nat \<Rightarrow> nat list) \<Rightarrow> nat set \<Rightarrow> (nat \<rightharpoonup> Span) \<Rightarrow> (nat \<rightharpoonup> nat) \<Rightarrow> nat \<Rightarrow> bool" where
  "ph_abs F D V pm fr \<longleftrightarrow>
     (\<forall>n. MAX_PAGES < n \<longrightarrow> F n = [])
   \<and> (\<forall>n. sorted_wrt (<) (map (\<lambda>i. start (the (V i))) (F n)))
   \<and> (\<forall>n i. i \<in> set (F n) \<longrightarrow> i \<notin> D \<and> (\<exists>s. V i = Some s \<and> is_free s \<and> num_pages s = n))
   \<and> (\<forall>i s. V i = Some s \<longrightarrow> is_free s \<longrightarrow> i \<notin> D \<longrightarrow> i \<in> set (F (num_pages s)))
   \<and> (\<forall>i s. V i = Some s \<longrightarrow> span_ok s \<and> i < fr)
   \<and> (\<forall>k i. pm k = Some i \<longleftrightarrow> (\<exists>s. V i = Some s \<and> k \<in> pages_of s))"

definition ph_inv :: "(nat \<Rightarrow> nat list) \<Rightarrow> nat set \<Rightarrow> PageHeap \<Rightarrow> bool" where
  "ph_inv F D h \<longleftrightarrow>
     (\<forall>n. n \<le> MAX_PAGES \<longrightarrow> dll (spans h) (free_lists h n) (F n))
   \<and> ph_abs F D (view (spans h)) (page_map h) (fresh h)"

text \<open>The invariant between operations.\<close>

definition page_heap_ok :: "PageHeap \<Rightarrow> bool" where
  "page_heap_ok h \<longleftrightarrow> (\<exists>F. ph_inv F {} h)"

text \<open>The spans handed out, with all their fields.\<close>

definition used :: "PageHeap \<Rightarrow> nat \<rightharpoonup> Span" where
  "used h i = (case spans h i of None \<Rightarrow> None | Some s \<Rightarrow> if is_free s then None else Some s)"

lemma used_Some: "used h i = Some s \<longleftrightarrow> spans h i = Some s \<and> \<not> is_free s"
  by (auto simp: used_def split: option.splits)

lemma view_Some [simp]: "S i = Some s \<Longrightarrow> view S i = Some (payload s)"
  by (simp add: view_def)

lemma view_None [simp]: "S i = None \<Longrightarrow> view S i = None"
  by (simp add: view_def)

lemma view_upd [simp]: "view (S(i := v)) = (view S)(i := map_option payload v)"
  by (auto simp: view_def fun_eq_iff)

lemma view_SomeD: "view S i = Some t \<Longrightarrow> \<exists>s. S i = Some s \<and> t = payload s"
  by (auto simp: view_def)

lemma payload_sel [simp]:
  "start (payload s) = start s" "num_pages (payload s) = num_pages s"
  "is_free (payload s) = is_free s" "span_size (payload s) = span_size s"
  by (simp_all add: payload_def)

lemma payload_is_free: "(payload s)\<lparr>is_free := b\<rparr> = payload (s\<lparr>is_free := b\<rparr>)"
  by (simp add: payload_def)

lemma span_ok_payload [simp]: "span_ok (payload s) = span_ok s"
  by (simp add: span_ok_def)

section \<open>The abstract part\<close>

lemma ph_absD:
  assumes "ph_abs F D V pm fr"
  shows "MAX_PAGES < n \<Longrightarrow> F n = []"
    and "sorted_wrt (<) (map (\<lambda>i. start (the (V i))) (F n))"
    and "i \<in> set (F n) \<Longrightarrow> i \<notin> D"
    and "i \<in> set (F n) \<Longrightarrow> \<exists>s. V i = Some s \<and> is_free s \<and> num_pages s = n"
    and "V i = Some s \<Longrightarrow> is_free s \<Longrightarrow> i \<notin> D \<Longrightarrow> i \<in> set (F (num_pages s))"
    and "V i = Some s \<Longrightarrow> span_ok s"
    and "V i = Some s \<Longrightarrow> i < fr"
    and "pm k = Some i \<longleftrightarrow> (\<exists>s. V i = Some s \<and> k \<in> pages_of s)"
  using assms unfolding ph_abs_def by blast+

lemma ph_abs_distinct: "ph_abs F D V pm fr \<Longrightarrow> distinct (F n)"
  using ph_absD(2) [of F D V pm fr n] by (metis distinct_map strict_sorted_iff)

text \<open>Two spans share no page.\<close>

lemma ph_abs_disjoint:
  assumes "ph_abs F D V pm fr" "V i = Some s" "V j = Some t" "k \<in> pages_of s" "k \<in> pages_of t"
  shows "i = j"
proof -
  have "pm k = Some i" "pm k = Some j"
    using assms ph_absD(8) [OF assms(1)] by blast+
  then show ?thesis
    by simp
qed

lemma sorted_map_cong:
  "(\<And>x. x \<in> set xs \<Longrightarrow> f x = g x) \<Longrightarrow> sorted_wrt (<) (map f xs) = sorted_wrt (<) (map (g :: 'a \<Rightarrow> nat) xs)"
  by (metis map_cong)

text \<open>
  A change of some spans \<open>X\<close> outside the lists, which may create, delete, move or retag them:
  the lists are untouched, and the page map must follow.
\<close>

lemma ph_abs_change:
  assumes inv: "ph_abs F D V pm fr"
    and out: "\<And>i n. i \<in> X \<Longrightarrow> i \<notin> set (F n)"
    and V': "\<And>j. j \<notin> X \<Longrightarrow> V' j = V j"
    and new: "\<And>i s. i \<in> X \<Longrightarrow> V' i = Some s \<Longrightarrow> span_ok s \<and> i < fr' \<and> (is_free s \<longrightarrow> i \<in> D')"
    and pm: "\<And>k j. pm' k = Some j \<longleftrightarrow> (\<exists>s. V' j = Some s \<and> k \<in> pages_of s)"
    and D': "D' - X = D - X" and fr: "fr \<le> fr'"
  shows "ph_abs F D' V' pm' fr'"
  unfolding ph_abs_def
proof (intro conjI allI impI)
  fix n j s k
  show "MAX_PAGES < n \<Longrightarrow> F n = []"
    using ph_absD(1) [OF inv] .
  have eq: "V' j = V j" if "j \<in> set (F n)" for j
    using out V' that by metis
  show "sorted_wrt (<) (map (\<lambda>i. start (the (V' i))) (F n))"
    using ph_absD(2) [OF inv, of n] sorted_map_cong [of "F n" "\<lambda>i. start (the (V' i))"] eq by simp
  show "j \<notin> D'" if "j \<in> set (F n)"
    using ph_absD(3) [OF inv that] out that D' by blast
  show "\<exists>s. V' j = Some s \<and> is_free s \<and> num_pages s = n" if "j \<in> set (F n)"
    using ph_absD(4) [OF inv that] eq [OF that] by simp
  show "j \<in> set (F (num_pages s))" if "V' j = Some s" "is_free s" "j \<notin> D'"
  proof (cases "j \<in> X")
    case True
    then show ?thesis
      using new that by blast
  next
    case False
    then have "j \<notin> D"
      using that D' by blast
    then show ?thesis
      using ph_absD(5) [OF inv, of j s] V' False that by simp
  qed
  show "span_ok s" if "V' j = Some s"
    using new ph_absD(6) [OF inv, of j s] V' that by (cases "j \<in> X") auto
  show "j < fr'" if "V' j = Some s"
    using new ph_absD(7) [OF inv, of j s] V' that fr by (cases "j \<in> X") force+
  show "(pm' k = Some j) = (\<exists>s. V' j = Some s \<and> k \<in> pages_of s)"
    by (rule pm)
qed

lemma ph_abs_remove:
  assumes inv: "ph_abs F D V pm fr" and i: "F n = as @ i # bs" and V: "V i = Some s"
  shows "ph_abs (F(n := as @ bs)) D (V(i \<mapsto> s\<lparr>is_free := False\<rparr>)) pm fr"
proof -
  let ?F = "F(n := as @ bs)" and ?V = "V(i \<mapsto> s\<lparr>is_free := False\<rparr>)"
  have sub: "set (?F m) \<subseteq> set (F m)" for m
    using i by auto
  have dist: "distinct (as @ i # bs)"
    using ph_abs_distinct [OF inv, of n] i by simp
  have notin: "i \<notin> set (?F m)" for m
  proof
    assume a: "i \<in> set (?F m)"
    then have "i \<in> set (F m)" "i \<in> set (F n)"
      using sub i by auto
    then have "m = n"
      using ph_absD(4) [OF inv, of i m] ph_absD(4) [OF inv, of i n] by auto
    then show False
      using a dist by simp
  qed
  have eq: "?V j = V j" if "j \<in> set (?F m)" for j m
    using notin that by auto
  show ?thesis
    unfolding ph_abs_def
  proof (intro conjI allI impI)
    fix m j t k
    show "MAX_PAGES < m \<Longrightarrow> ?F m = []"
      using ph_absD(1) [OF inv, of m] i by auto
    have "sorted_wrt (<) (map (\<lambda>i. start (the (V i))) (?F m))"
      using ph_absD(2) [OF inv, of m] i by (auto simp: sorted_wrt_append)
    then show "sorted_wrt (<) (map (\<lambda>i. start (the (?V i))) (?F m))"
      using sorted_map_cong [of "?F m" "\<lambda>i. start (the (?V i))" "\<lambda>i. start (the (V i))"] eq by metis
    show "j \<notin> D" if "j \<in> set (?F m)"
      using ph_absD(3) [OF inv] sub that by blast
    show "\<exists>s. ?V j = Some s \<and> is_free s \<and> num_pages s = m" if "j \<in> set (?F m)"
      using ph_absD(4) [OF inv, of j m] sub that eq [OF that] by auto
    show "j \<in> set (?F (num_pages t))" if "?V j = Some t" "is_free t" "j \<notin> D"
      using ph_absD(5) [OF inv, of j t] that i by (auto split: if_splits)
    show "span_ok t" if "?V j = Some t"
      using ph_absD(6) [OF inv, of j t] ph_absD(6) [OF inv V] that by (auto simp: span_ok_def split: if_splits)
    show "j < fr" if "?V j = Some t"
      using ph_absD(7) [OF inv, of j t] ph_absD(7) [OF inv V] that by (auto split: if_splits)
    show "(pm k = Some j) = (\<exists>s. ?V j = Some s \<and> k \<in> pages_of s)"
      using ph_absD(8) [OF inv, of k j] V by (auto simp: pages_of_def)
  qed
qed

text \<open>A span put between the spans before and behind it leaves the list in the order of addresses.\<close>

lemma ph_abs_order:
  assumes inv: "ph_abs F D V pm fr" and i: "F n = as @ bs" "i \<notin> set (F n)" and V: "V i = Some s"
    and as: "\<forall>a\<in>set as. start (the (V a)) \<le> start s"
    and bs: "bs \<noteq> [] \<longrightarrow> start s < start (the (V (hd bs)))"
  shows "sorted_wrt (<) (map (\<lambda>i. start (the (V i))) as @ start s # map (\<lambda>i. start (the (V i))) bs)"
proof -
  have as': "start (the (V a)) < start s" if a: "a \<in> set as" for a
  proof -
    obtain t where t: "V a = Some t"
      using ph_absD(4) [OF inv, of a n] i a by auto
    have "a \<noteq> i"
      using i a by auto
    then have "start t \<noteq> start s"
      using ph_abs_disjoint [OF inv t V] start_in_pages ph_absD(6) [OF inv] t V by metis
    then show ?thesis
      using as a t by fastforce
  qed
  have srt: "sorted_wrt (<) (map (\<lambda>i. start (the (V i))) (as @ bs))"
    using ph_absD(2) [OF inv, of n] i by simp
  have bs': "start s < start (the (V b))" if b: "b \<in> set bs" for b
  proof -
    obtain c cs where "bs = c # cs"
      using b by (cases bs) auto
    then show ?thesis
      using b bs srt by (auto simp: sorted_wrt_append)
  qed
  show ?thesis
    using srt as' bs' by (auto simp: sorted_wrt_append intro: order_less_trans)
qed

lemma ph_abs_insert:
  assumes inv: "ph_abs F D V pm fr" and i: "F n = as @ bs" and V: "V i = Some s"
    and out: "i \<in> D \<or> \<not> is_free s" and sz: "span_size s = 0" and n: "num_pages s = n" "n \<le> MAX_PAGES"
    and as: "\<forall>a\<in>set as. start (the (V a)) \<le> start s"
    and bs: "bs \<noteq> [] \<longrightarrow> start s < start (the (V (hd bs)))"
  shows "ph_abs (F(n := as @ i # bs)) (D - {i}) (V(i \<mapsto> s\<lparr>is_free := True\<rparr>)) pm fr"
proof -
  let ?F = "F(n := as @ i # bs)" and ?V = "V(i \<mapsto> s\<lparr>is_free := True\<rparr>)"
  have notin: "i \<notin> set (F m)" for m
    using out ph_absD(3,4) [OF inv, of i m] V by auto
  have eq: "?V j = V j" if "j \<in> set (F m)" for j m
    using notin that by auto
  show ?thesis
    unfolding ph_abs_def
  proof (intro conjI allI impI)
    fix m j t k
    show "MAX_PAGES < m \<Longrightarrow> ?F m = []"
      using ph_absD(1) [OF inv, of m] n by auto
    have "sorted_wrt (<) (map (\<lambda>i. start (the (?V i))) (as @ i # bs))"
    proof -
      have moved: "map (\<lambda>i. start (the (?V i))) (as @ i # bs) =
          map (\<lambda>i. start (the (V i))) as @ start s # map (\<lambda>i. start (the (V i))) bs"
        using eq [of _ n] i by auto
      show ?thesis
        unfolding moved by (rule ph_abs_order [OF inv i notin V as bs])
    qed
    moreover have "sorted_wrt (<) (map (\<lambda>i. start (the (?V i))) (F m))"
      using ph_absD(2) [OF inv, of m]
        sorted_map_cong [of "F m" "\<lambda>i. start (the (?V i))" "\<lambda>i. start (the (V i))"] eq by metis
    ultimately show "sorted_wrt (<) (map (\<lambda>i. start (the (?V i))) (?F m))"
      by simp
    show "j \<notin> D - {i}" if "j \<in> set (?F m)"
      using ph_absD(3) [OF inv, of j m] ph_absD(3) [OF inv, of j n] i that by (auto split: if_splits)
    show "\<exists>s. ?V j = Some s \<and> is_free s \<and> num_pages s = m" if "j \<in> set (?F m)"
      using ph_absD(4) [OF inv, of j m] ph_absD(4) [OF inv, of j n] notin [of m] notin [of n] i n that
      by (auto split: if_splits)
    show "j \<in> set (?F (num_pages t))" if "?V j = Some t" "is_free t" "j \<notin> D - {i}"
      using ph_absD(5) [OF inv, of j t] i n that by (auto split: if_splits)
    show "span_ok t" if "?V j = Some t"
      using ph_absD(6) [OF inv, of j t] ph_absD(6) [OF inv V] sz that by (auto simp: span_ok_def split: if_splits)
    show "j < fr" if "?V j = Some t"
      using ph_absD(7) [OF inv, of j t] ph_absD(7) [OF inv V] that by (auto split: if_splits)
    show "(pm k = Some j) = (\<exists>s. ?V j = Some s \<and> k \<in> pages_of s)"
      using ph_absD(8) [OF inv, of k j] V by (auto simp: pages_of_def)
  qed
qed

section \<open>Elementary steps\<close>

lemma ph_invD: "ph_inv F D h \<Longrightarrow> ph_abs F D (view (spans h)) (page_map h) (fresh h)"
  by (simp add: ph_inv_def)

lemma ph_inv_dll: "ph_inv F D h \<Longrightarrow> n \<le> MAX_PAGES \<Longrightarrow> dll (spans h) (free_lists h n) (F n)"
  by (simp add: ph_inv_def)

lemma ph_inv_listed:
  assumes "ph_inv F D h" "i \<in> set (F n)"
  shows "\<exists>s. spans h i = Some s \<and> is_free s \<and> num_pages s = n \<and> n \<le> MAX_PAGES \<and> i \<notin> D"
proof -
  note abs = ph_invD [OF assms(1)]
  have "n \<le> MAX_PAGES"
    using ph_absD(1) [OF abs, of n] assms(2) by (cases "MAX_PAGES < n") auto
  then show ?thesis
    using ph_absD(3,4) [OF abs assms(2)] by (auto dest!: view_SomeD)
qed

lemma ph_inv_unlisted:
  assumes "ph_inv F D h" "spans h i = Some s" "i \<in> D \<or> \<not> is_free s"
  shows "i \<notin> set (F n)"
  using ph_inv_listed [OF assms(1), of i n] assms(2,3) by auto

lemma ph_inv_free_listed:
  "ph_inv F D h \<Longrightarrow> spans h i = Some s \<Longrightarrow> is_free s \<Longrightarrow> i \<notin> D \<Longrightarrow> i \<in> set (F (num_pages s))"
  using ph_absD(5) [OF ph_invD, of F D h i "payload s"] by simp

lemma ph_inv_space: "ph_inv F D h \<Longrightarrow> spans h i = Some s \<Longrightarrow> span_ok s"
  using ph_absD(6) [OF ph_invD, of F D h i "payload s"] by simp

lemma ph_inv_fresh: "ph_inv F D h \<Longrightarrow> spans h i = Some s \<Longrightarrow> i < fresh h"
  using ph_absD(7) [OF ph_invD, of F D h i "payload s"] by simp

lemma ph_inv_map:
  assumes "ph_inv F D h"
  shows "page_map h k = Some i \<longleftrightarrow> (\<exists>s. spans h i = Some s \<and> k \<in> pages_of s)"
proof -
  have "page_map h k = Some i \<longleftrightarrow> (\<exists>s. view (spans h) i = Some s \<and> k \<in> pages_of s)"
    by (rule ph_absD(8) [OF ph_invD [OF assms]])
  then show ?thesis
    by (cases "spans h i") auto
qed

lemma ph_inv_disjoint:
  "ph_inv F D h \<Longrightarrow> spans h i = Some s \<Longrightarrow> spans h j = Some t \<Longrightarrow> k \<in> pages_of s \<Longrightarrow> k \<in> pages_of t \<Longrightarrow> i = j"
  by (metis ph_inv_map option.inject)

text \<open>Rewriting spans that are in no list.\<close>

lemma ph_inv_change:
  assumes inv: "ph_inv F D h" and out: "\<And>i n. i \<in> X \<Longrightarrow> i \<notin> set (F n)"
    and pm: "\<And>k j. page_map h' k = Some j \<longleftrightarrow> (\<exists>s. spans h' j = Some s \<and> k \<in> pages_of s)"
    and new: "\<And>i s. i \<in> X \<Longrightarrow> spans h' i = Some s \<Longrightarrow> span_ok s \<and> i < fresh h' \<and> (is_free s \<longrightarrow> i \<in> D')"
    and h': "\<And>j. j \<notin> X \<Longrightarrow> spans h' j = spans h j" "free_lists h' = free_lists h"
    and D': "D' - X = D - X" and fr: "fresh h \<le> fresh h'"
  shows "ph_inv F D' h'"
  unfolding ph_inv_def
proof (intro conjI allI impI)
  fix n
  assume "n \<le> MAX_PAGES"
  then have "dll (spans h) (free_lists h n) (F n)"
    using inv by (rule ph_inv_dll [rotated])
  then show "dll (spans h') (free_lists h' n) (F n)"
    using out [of _ n] h' by (subst dll_cong [of "F n" "spans h'" "spans h"]) auto
next
  show "ph_abs F D' (view (spans h')) (page_map h') (fresh h')"
  proof (rule ph_abs_change [OF ph_invD [OF inv] out])
    fix k j
    show "page_map h' k = Some j \<longleftrightarrow> (\<exists>s. view (spans h') j = Some s \<and> k \<in> pages_of s)"
      using pm [of k j] by (cases "spans h' j") auto
  qed (use new h' D' fr in \<open>auto simp: view_def\<close>)
qed

lemma relinked_view: "relinked X S S' \<Longrightarrow> view S' = view S"
  by (simp add: relinked_def)

lemma relinked_out: "relinked X S S' \<Longrightarrow> j \<notin> X \<Longrightarrow> S' j = S j"
  by (simp add: relinked_def)

text \<open>One list is replaced; besides its members only \<open>i\<close> is written.\<close>

lemma relist_inv:
  assumes inv: "ph_inv F D h" and xs: "dll (spans h') (free_lists h' n) xs"
    and lists: "\<And>m. m \<noteq> n \<Longrightarrow> free_lists h' m = free_lists h m" and i: "\<And>m. m \<noteq> n \<Longrightarrow> i \<notin> set (F m)"
    and out: "\<And>x. x \<notin> set (F n) \<Longrightarrow> x \<noteq> i \<Longrightarrow> spans h' x = spans h x"
    and abs: "ph_abs (F(n := xs)) D' (view (spans h')) (page_map h') (fresh h')"
  shows "ph_inv (F(n := xs)) D' h'"
  unfolding ph_inv_def
proof (intro conjI allI impI abs)
  fix m
  assume m: "m \<le> MAX_PAGES"
  show "dll (spans h') (free_lists h' m) ((F(n := xs)) m)"
  proof (cases "m = n")
    case True
    then show ?thesis
      using xs by simp
  next
    case False
    have "spans h' x = spans h x" if "x \<in> set (F m)" for x
    proof (rule out)
      show "x \<notin> set (F n)"
        using ph_inv_listed [OF inv, of x m] ph_inv_listed [OF inv, of x n] that False by auto
      show "x \<noteq> i"
        using i [OF False] that by auto
    qed
    then show ?thesis
      using ph_inv_dll [OF inv m] lists [OF False] False dll_cong [of "F m" "spans h'" "spans h"] by simp
  qed
qed

text \<open>New links of free spans do not concern the spans in use.\<close>

lemma used_relinked:
  assumes link: "relinked X (spans h) (spans h')" and free: "\<And>j. j \<in> X \<Longrightarrow> \<exists>t. spans h j = Some t \<and> is_free t"
  shows "used h' = used h"
proof
  fix j
  show "used h' j = used h j"
  proof (cases "j \<in> X")
    case True
    then obtain t where t: "spans h j = Some t" "is_free t"
      using free by blast
    obtain t' where "spans h' j = Some t'" and eq: "payload t' = payload t"
      using relinked_Some [OF link t(1)] by blast
    then show ?thesis
      using t payload_fields(8) [OF eq] by (simp add: used_def)
  next
    case False
    then show ?thesis
      using relinked_out [OF link False] by (simp add: used_def)
  qed
qed

text \<open>Taking a free span out of its list.\<close>

lemma ph_remove:
  assumes inv: "ph_inv F D h" and i: "spans h i = Some s" "is_free s" "i \<notin> D"
  shows "\<exists>h' F'. remove_from_free_list i h = Some h' \<and> ph_inv F' D h'
     \<and> view (spans h') = (view (spans h))(i \<mapsto> payload (s\<lparr>is_free := False\<rparr>))
     \<and> page_map h' = page_map h \<and> fresh h' = fresh h \<and> mmap_calls h' = mmap_calls h
     \<and> used h' = (used h)(i \<mapsto> s\<lparr>nxt := nullptr, prv := nullptr, is_free := False\<rparr>)
     \<and> (\<forall>k. k \<notin> set (F (num_pages s)) \<longrightarrow> spans h' k = spans h k)"
proof -
  define n where "n = num_pages s"
  have "i \<in> set (F n)"
    using ph_inv_free_listed [OF inv i] by (simp add: n_def)
  then obtain as bs where F: "F n = as @ i # bs"
    by (meson split_list)
  have n: "n \<le> MAX_PAGES"
    using ph_inv_listed [OF inv \<open>i \<in> set (F n)\<close>] by blast
  have dist: "distinct (F n)"
    by (rule ph_abs_distinct [OF ph_invD [OF inv]])
  obtain h' S where h': "remove_from_free_list i h = Some h'"
      "spans h' = S(i \<mapsto> s\<lparr>nxt := nullptr, prv := nullptr, is_free := False\<rparr>)"
      "relinked (set (as @ bs)) (spans h) S" "dll S (free_lists h' n) (as @ bs)"
      "\<forall>m. m \<noteq> n \<longrightarrow> free_lists h' m = free_lists h m"
      "page_map h' = page_map h" "fresh h' = fresh h" "mmap_calls h' = mmap_calls h"
    using remove_from_free_list_spec [of h n as i bs s] ph_inv_dll [OF inv n] dist i(1) n F n_def by metis
  let ?F = "F(n := as @ bs)"
  have view: "view (spans h') = (view (spans h))(i \<mapsto> payload (s\<lparr>is_free := False\<rparr>))"
    using h'(2) relinked_view [OF h'(3)] by (simp add: payload_def)
  have out: "spans h' k = spans h k" if "k \<notin> set (F n)" for k
    using relinked_out [OF h'(3), of k] h'(2) that F by auto
  have inv': "ph_inv ?F D h'"
  proof (rule relist_inv [OF inv])
    show "dll (spans h') (free_lists h' n) (as @ bs)"
      using h'(2,4) dist F by (subst dll_cong [of _ _ S]) auto
    show "free_lists h' m = free_lists h m" if "m \<noteq> n" for m
      using h'(5) that by simp
    show "i \<notin> set (F m)" if "m \<noteq> n" for m
      using ph_inv_listed [OF inv, of i m] ph_inv_listed [OF inv \<open>i \<in> set (F n)\<close>] that by auto
    have "view (spans h) i = Some (payload s)" "(payload s)\<lparr>is_free := False\<rparr> = payload (s\<lparr>is_free := False\<rparr>)"
      using i by (simp_all add: payload_def)
    then show "ph_abs ?F D (view (spans h')) (page_map h') (fresh h')"
      using ph_abs_remove [OF ph_invD [OF inv] F, of "payload s"] h'(6,7) view by simp
  qed (use out in blast)
  have "used (h'\<lparr>spans := S\<rparr>) = used h"
    by (rule used_relinked [of "set (as @ bs)"]) (use h'(3) ph_inv_listed [OF inv, of _ n] F in auto)
  then have "used h' j = used h j" if "j \<noteq> i" for j
    using h'(2) that by (auto simp: used_def fun_eq_iff)
  moreover have "used h' i = Some (s\<lparr>nxt := nullptr, prv := nullptr, is_free := False\<rparr>)"
    using h'(2) by (simp add: used_Some)
  ultimately have "used h' = (used h)(i \<mapsto> s\<lparr>nxt := nullptr, prv := nullptr, is_free := False\<rparr>)"
    by (auto simp: fun_eq_iff)
  then show ?thesis
    using h'(1,6-8) view inv' out unfolding n_def by blast
qed

text \<open>Putting a span into the list of its page count.\<close>

lemma ph_insert:
  assumes inv: "ph_inv F D h" and i: "spans h i = Some s" "i \<in> D \<or> \<not> is_free s"
    and n: "num_pages s = n" "n \<le> MAX_PAGES" and sz: "span_size s = 0"
  shows "\<exists>h' F'. insert_span n i h = Some h' \<and> ph_inv F' (D - {i}) h'
     \<and> view (spans h') = (view (spans h))(i \<mapsto> payload (s\<lparr>is_free := True\<rparr>))
     \<and> page_map h' = page_map h \<and> fresh h' = fresh h \<and> mmap_calls h' = mmap_calls h
     \<and> used h' = (used h)(i := None)
     \<and> (\<forall>k. k \<notin> set (F n) \<longrightarrow> k \<noteq> i \<longrightarrow> spans h' k = spans h k)"
proof -
  let ?s = "s\<lparr>is_free := True, nxt := nullptr, prv := nullptr\<rparr>"
  let ?h = "h\<lparr>spans := (spans h)(i \<mapsto> ?s)\<rparr>"
  have notin: "i \<notin> set (F m)" for m
    by (rule ph_inv_unlisted [OF inv i])
  have dist: "distinct (F n)"
    by (rule ph_abs_distinct [OF ph_invD [OF inv]])
  obtain h' as bs where h': "insert_span n i h = Some h'" and F: "as @ bs = F n"
    and ins: "inserted n i as bs ?h h'"
    using insert_span_spec [OF ph_inv_dll [OF inv n(2)] dist notin i(1) n(2)] by blast
  have lists: "dll (spans h') (free_lists h' n) (as @ i # bs)" "\<And>m. m \<noteq> n \<Longrightarrow> free_lists h' m = free_lists h m"
    and link: "relinked (set (as @ i # bs)) (spans ?h) (spans h')"
    and rest: "page_map h' = page_map h" "fresh h' = fresh h" "mmap_calls h' = mmap_calls h"
    and ord: "\<forall>a\<in>set as. start_of ?h a \<le> start s" "bs \<noteq> [] \<longrightarrow> start s < start_of ?h (hd bs)"
    using ins by (auto simp: inserted_def)
  let ?F = "F(n := as @ i # bs)"
  have view: "view (spans h') = (view (spans h))(i \<mapsto> payload (s\<lparr>is_free := True\<rparr>))"
    using relinked_view [OF link] by simp
  have start_view: "start_of ?h j = start (the (view (spans h) j))" if "j \<in> set (F n)" for j
    using ph_inv_listed [OF inv that] notin [of n] that by auto
  have out: "spans h' k = spans h k" if "k \<notin> set (F n)" "k \<noteq> i" for k
    using relinked_out [OF link, of k] that by (auto simp flip: F)
  have "ph_inv ?F (D - {i}) h'"
  proof (rule relist_inv [OF inv lists(1,2) notin out])
    have "ph_abs ?F (D - {i}) ((view (spans h))(i \<mapsto> (payload s)\<lparr>is_free := True\<rparr>)) (page_map h) (fresh h)"
    proof (rule ph_abs_insert [OF ph_invD [OF inv] F [symmetric]])
      show "\<forall>a\<in>set as. start (the (view (spans h) a)) \<le> start (payload s)"
        using ord(1) start_view by (metis F Un_iff payload_sel(1) set_append)
      show "bs \<noteq> [] \<longrightarrow> start (payload s) < start (the (view (spans h) (hd bs)))"
        using ord(2) start_view by (metis F Un_iff hd_in_set payload_sel(1) set_append)
    qed (use i n sz in auto)
    then show "ph_abs ?F (D - {i}) (view (spans h')) (page_map h') (fresh h')"
      using view rest by (simp add: payload_is_free)
  qed
  moreover have "used h' = (used h)(i := None)"
  proof -
    have "used h' = used ?h"
    proof (rule used_relinked [OF link])
      fix j
      assume "j \<in> set (as @ i # bs)"
      then show "\<exists>t. spans ?h j = Some t \<and> is_free t"
        using ph_inv_listed [OF inv, of j n] by (cases "j = i") (auto simp flip: F)
    qed
    also have "\<dots> = (used h)(i := None)"
      by (simp add: used_def fun_eq_iff)
    finally show ?thesis .
  qed
  ultimately show ?thesis
    using h' view rest out by blast
qed

end
