(* ===== verification/Page_Heap_Ops.thy ===== *)
theory Page_Heap_Ops
  imports Page_Heap_Inv
begin

text \<open>
  The operations of the page heap preserve its invariant, return, and do what they promise:
  \<open>split\<close>, \<open>coalesce\<close>, the search for a span, \<open>allocate_span\<close>, \<open>return_span\<close> and
  \<open>deallocate_span\<close>. Each lemma also says what happens to the spans in use (\<open>used\<close>) and to the
  set of pages the heap owns (\<open>dom (page_map h)\<close>).
\<close>

section \<open>The page map\<close>

text \<open>Giving all pages of a set one entry.\<close>

definition paint :: "nat set \<Rightarrow> ptr \<Rightarrow> (nat \<rightharpoonup> nat) \<Rightarrow> (nat \<rightharpoonup> nat)" where
  "paint A v pm = (\<lambda>k. if k \<in> A then v else pm k)"

lemma paint_apply: "paint A v pm k = (if k \<in> A then v else pm k)"
  by (simp add: paint_def)

lemma dom_paint: "dom (paint A (Some v) pm) = A \<union> dom pm"
  by (auto simp: paint_def dom_def)

lemma pages_dom: "ph_inv F D h \<Longrightarrow> spans h i = Some s \<Longrightarrow> pages_of s \<subseteq> dom (page_map h)"
  using ph_inv_map [of F D h _ i] by auto

lemma paint_over: "B \<subseteq> A \<Longrightarrow> paint A v (paint B w pm) = paint A v pm"
  by (auto simp: paint_def fun_eq_iff)

lemma paint_three: "A \<subseteq> B \<union> C \<Longrightarrow> paint B v (paint C w (paint A u pm)) = paint B v (paint C w pm)"
  by (auto simp: paint_def fun_eq_iff)

lemma register_span_eq:
  "spans h i = Some s \<Longrightarrow> register_span i h = Some (h\<lparr>page_map := paint (pages_of s) (Some i) (page_map h)\<rparr>)"
proof -
  have "register_pages st i n pm = paint {st ..< st + n} (Some i) pm" for st n pm
    by (induction n) (auto simp: paint_def fun_eq_iff)
  then show "spans h i = Some s \<Longrightarrow> ?thesis"
    by (simp add: register_span_def pages_of_def)
qed

lemma unregister_span_eq:
  "spans h i = Some s \<Longrightarrow> unregister_span i h = Some (h\<lparr>page_map := paint (pages_of s) None (page_map h)\<rparr>)"
proof -
  have "unregister_pages st n pm = paint {st ..< st + n} None pm" for st n pm
    by (induction n) (auto simp: paint_def fun_eq_iff)
  then show "spans h i = Some s \<Longrightarrow> ?thesis"
    by (simp add: unregister_span_def pages_of_def)
qed

section \<open>Coalescing\<close>

text \<open>The page map when the pages of \<open>j\<close> go to \<open>i\<close> and \<open>j\<close> is gone.\<close>

lemma absorbed_map:
  assumes inv: "ph_inv F D h" and i: "spans h i = Some s" and j: "spans h j = Some sj" "j \<noteq> i"
    and t: "pages_of t = pages_of s \<union> pages_of sj"
  shows "paint (pages_of t) (Some i) (page_map h) k = Some b
     \<longleftrightarrow> (\<exists>q. ((spans h)(i \<mapsto> t, j := None)) b = Some q \<and> k \<in> pages_of q)"
proof -
  note map = ph_inv_map [OF inv]
  have disj: "k \<notin> pages_of s" "k \<notin> pages_of sj" if "spans h b = Some q" "b \<noteq> i" "b \<noteq> j" "k \<in> pages_of q" for b q k
    using ph_inv_disjoint [OF inv that(1) i that(4)] ph_inv_disjoint [OF inv that(1) j(1) that(4)] that(2,3)
    by blast+
  have own: "page_map h k = Some i \<longleftrightarrow> k \<in> pages_of s" "page_map h k = Some j \<longleftrightarrow> k \<in> pages_of sj"
    using map [of k i] map [of k j] i j by simp_all
  consider "b = i" | "b = j" | "b \<noteq> i" "b \<noteq> j"
    by blast
  then show ?thesis
  proof cases
    case 3
    then show ?thesis
      using disj [of b _ k] t map [of k b] by (auto simp: paint_apply)
  qed (use own t j(2) in \<open>simp_all add: paint_apply\<close>)
qed

text \<open>
  A span \<open>i\<close> that has been taken out of circulation absorbs a free neighbour \<open>j\<close>: the result is
  one span with the pages of both.
\<close>

lemma absorb_ok:
  assumes inv: "ph_inv F {i} h" and i: "spans h i = Some s" "is_free s"
    and j: "spans h j = Some sj" "is_free sj" "j \<noteq> i"
    and f: "pages_of (f sj s) = pages_of s \<union> pages_of sj" "span_ok (f sj s)" "is_free (f sj s)"
    and cong: "\<And>q. payload q = payload (sj\<lparr>is_free := False\<rparr>) \<Longrightarrow> f q s = f sj s"
  shows "\<exists>h' F'. absorb f i j h = Some h' \<and> ph_inv F' {i} h' \<and> spans h' i = Some (f sj s)
     \<and> used h' = used h \<and> dom (page_map h') = dom (page_map h)
     \<and> fresh h' = fresh h \<and> mmap_calls h' = mmap_calls h"
proof -
  have "j \<notin> {i}"
    using j by simp
  then obtain h1 F1 where h1: "remove_from_free_list j h = Some h1" and inv1: "ph_inv F1 {i} h1"
    and pm1: "page_map h1 = page_map h" and rest: "fresh h1 = fresh h" "mmap_calls h1 = mmap_calls h"
    and used1: "used h1 = (used h)(j \<mapsto> sj\<lparr>nxt := nullptr, prv := nullptr, is_free := False\<rparr>)"
    and frame: "\<forall>k. k \<notin> set (F (num_pages sj)) \<longrightarrow> spans h1 k = spans h k"
    using ph_remove [OF inv j(1,2)] by blast
  let ?j = "sj\<lparr>nxt := nullptr, prv := nullptr, is_free := False\<rparr>"
  have "used h1 j = Some ?j"
    using used1 by simp
  then have j1: "spans h1 j = Some ?j"
    by (simp add: used_Some)
  have i1: "spans h1 i = Some s"
    using frame ph_inv_unlisted [OF inv i(1)] i(1) by simp
  have fj: "f ?j s = f sj s"
    by (rule cong) (simp add: payload_def)
  have pj: "pages_of ?j = pages_of sj"
    by (simp add: pages_of_def)
  define h' where "h' = h1\<lparr>spans := (spans h1)(i \<mapsto> f sj s, j := None),
    page_map := paint (pages_of (f sj s)) (Some i) (page_map h1)\<rparr>"
  have "absorb f i j h = Some h'"
    using h1 i1 j1 j(3) f(1)
    by (simp add: absorb_def unregister_span_eq register_span_eq delete_object_def fj pj h'_def paint_over)
  moreover have out: "a \<notin> set (F1 n)" if "a \<in> {i, j}" for a n
    using that ph_inv_unlisted [OF inv1 i1] ph_inv_unlisted [OF inv1 j1] by auto
  have pm': "page_map h' k = Some b \<longleftrightarrow> (\<exists>q. spans h' b = Some q \<and> k \<in> pages_of q)" for k b
    using absorbed_map [OF inv1 i1 j1 j(3), of "f sj s" k b] f(1) pj by (simp add: h'_def)
  have "ph_inv F1 {i} h'"
  proof (rule ph_inv_change [where X = "{i, j}", OF inv1 out pm'])
    show "\<And>a q. a \<in> {i, j} \<Longrightarrow> spans h' a = Some q \<Longrightarrow> span_ok q \<and> a < fresh h' \<and> (is_free q \<longrightarrow> a \<in> {i})"
      using f(2) j(3) ph_inv_fresh [OF inv1 i1] by (auto simp: h'_def)
  qed (simp_all add: h'_def)
  moreover have "used h' = used h"
    using used1 f(3) i j by (auto simp: h'_def used_def fun_eq_iff split: option.splits)
  moreover have "dom (page_map h') = dom (page_map h)"
    using pages_dom [OF inv1 i1] pages_dom [OF inv1 j1] f(1) pm1 pj by (auto simp: h'_def dom_paint)
  ultimately show ?thesis
    using rest j(3) by (intro exI [of _ h'] exI [of _ F1]) (simp add: h'_def)
qed

lemma coalesce_left_ok:
  assumes inv: "ph_inv F {i} h" and i: "spans h i = Some s" "is_free s"
  shows "\<exists>h' F' s'. coalesce_left i h = Some h' \<and> ph_inv F' {i} h' \<and> spans h' i = Some s' \<and> is_free s'
     \<and> used h' = used h \<and> dom (page_map h') = dom (page_map h)
     \<and> fresh h' = fresh h \<and> mmap_calls h' = mmap_calls h"
proof (cases "lookup (start s - 1) h")
  case None
  then have "coalesce_left i h = Some h"
    using i by (simp add: coalesce_left_def)
  then show ?thesis
    using inv i by blast
next
  case (Some l)
  then obtain sl where l: "spans h l = Some sl" "start s - 1 \<in> pages_of sl"
    using ph_inv_map [OF inv, of "start s - 1" l] by (auto simp: lookup_def)
  have ok: "span_ok s" "span_ok sl"
    using ph_inv_space [OF inv] i(1) l(1) by auto
  have pos: "start s \<noteq> 0"
    using ok(1) by (simp add: span_ok_def)
  show ?thesis
  proof (cases "is_free sl \<and> l \<noteq> i")
    case False
    then have "coalesce_left i h = Some h"
      using i Some l pos by (auto simp: coalesce_left_def)
    then show ?thesis
      using inv i by blast
  next
    case True
    have "start s \<notin> pages_of sl"
      using ph_inv_disjoint [OF inv l(1) i(1)] start_in_pages [OF ok(1)] True by blast
    then have adj: "start sl + num_pages sl = start s"
      using l(2) pos by (auto simp: pages_of_def)
    let ?f = "\<lambda>left q. q\<lparr>start := start left, num_pages := num_pages q + num_pages left\<rparr>"
    have "coalesce_left i h = absorb ?f i l h"
      using i Some l pos True by (simp add: coalesce_left_def)
    moreover have "pages_of (?f sl s) = pages_of s \<union> pages_of sl" "span_ok (?f sl s)" "is_free (?f sl s)"
      using adj ok i(2) by (auto simp: pages_of_def span_ok_def)
    moreover have "?f q s = ?f sl s" if "payload q = payload (sl\<lparr>is_free := False\<rparr>)" for q
      using payload_fields(1,2) [OF that] by simp
    ultimately show ?thesis
      using absorb_ok [OF inv i l(1), of ?f] True by (metis (no_types, lifting))
  qed
qed

lemma coalesce_right_ok:
  assumes inv: "ph_inv F {i} h" and i: "spans h i = Some s" "is_free s"
  shows "\<exists>h' F' s'. coalesce_right i h = Some h' \<and> ph_inv F' {i} h' \<and> spans h' i = Some s' \<and> is_free s'
     \<and> used h' = used h \<and> dom (page_map h') = dom (page_map h)
     \<and> fresh h' = fresh h \<and> mmap_calls h' = mmap_calls h"
proof (cases "lookup (start s + num_pages s) h")
  case None
  then have "coalesce_right i h = Some h"
    using i by (simp add: coalesce_right_def)
  then show ?thesis
    using inv i by blast
next
  case (Some r)
  then obtain sr where r: "spans h r = Some sr" "start s + num_pages s \<in> pages_of sr"
    using ph_inv_map [OF inv, of "start s + num_pages s" r] by (auto simp: lookup_def)
  have ok: "span_ok s" "span_ok sr"
    using ph_inv_space [OF inv] i(1) r(1) by auto
  show ?thesis
  proof (cases "is_free sr \<and> r \<noteq> i")
    case False
    then have "coalesce_right i h = Some h"
      using i Some r by (auto simp: coalesce_right_def)
    then show ?thesis
      using inv i by blast
  next
    case True
    have "start s + num_pages s - 1 \<in> pages_of s"
      using ok(1) by (auto simp: span_ok_def pages_of_def)
    then have "start s + num_pages s - 1 \<notin> pages_of sr"
      using ph_inv_disjoint [OF inv r(1) i(1)] True by blast
    then have adj: "start sr = start s + num_pages s"
      using r(2) ok(1) by (auto simp: pages_of_def span_ok_def)
    let ?f = "\<lambda>right q. q\<lparr>num_pages := num_pages q + num_pages right\<rparr>"
    have "coalesce_right i h = absorb ?f i r h"
      using i Some r True by (simp add: coalesce_right_def)
    moreover have "pages_of (?f sr s) = pages_of s \<union> pages_of sr" "span_ok (?f sr s)" "is_free (?f sr s)"
      using adj ok i(2) by (auto simp: pages_of_def span_ok_def)
    moreover have "?f q s = ?f sr s" if "payload q = payload (sr\<lparr>is_free := False\<rparr>)" for q
      using payload_fields(2) [OF that] by simp
    ultimately show ?thesis
      using absorb_ok [OF inv i r(1), of ?f] True by (metis (no_types, lifting))
  qed
qed

lemma coalesce_ok:
  assumes inv: "ph_inv F {i} h" and i: "spans h i = Some s" "is_free s"
  shows "\<exists>h' F' s'. coalesce i h = Some h' \<and> ph_inv F' {i} h' \<and> spans h' i = Some s' \<and> is_free s'
     \<and> used h' = used h \<and> dom (page_map h') = dom (page_map h)
     \<and> fresh h' = fresh h \<and> mmap_calls h' = mmap_calls h"
proof -
  obtain h1 F1 s1 where h1: "coalesce_left i h = Some h1" "ph_inv F1 {i} h1" "spans h1 i = Some s1" "is_free s1"
    "used h1 = used h" "dom (page_map h1) = dom (page_map h)" "fresh h1 = fresh h" "mmap_calls h1 = mmap_calls h"
    using coalesce_left_ok [OF assms] by blast
  obtain h2 F2 s2 where "coalesce_right i h1 = Some h2" "ph_inv F2 {i} h2" "spans h2 i = Some s2" "is_free s2"
    "used h2 = used h1" "dom (page_map h2) = dom (page_map h1)" "fresh h2 = fresh h1" "mmap_calls h2 = mmap_calls h1"
    using coalesce_right_ok [OF h1(2-4)] by blast
  then show ?thesis
    using h1 by (intro exI [of _ h2] exI [of _ F2] exI [of _ s2]) (simp add: coalesce_def)
qed

section \<open>Splitting\<close>

text \<open>
  The step \<open>split\<close> and the carving loop have in common: the pages of \<open>i\<close> are divided between \<open>i\<close>
  and a new free span, which is not yet in a list.
\<close>

definition divide_span :: "nat \<Rightarrow> Span \<Rightarrow> Span \<Rightarrow> PageHeap \<Rightarrow> PageHeap" where
  "divide_span i s t h = h\<lparr>fresh := Suc (fresh h), spans := (spans h)(fresh h \<mapsto> t, i \<mapsto> s),
     page_map := paint (pages_of t) (Some (fresh h)) (paint (pages_of s) (Some i) (page_map h))\<rparr>"

lemma divide_span_ok:
  assumes inv: "ph_inv F D h" and i: "spans h i = Some s" "i \<in> D \<or> \<not> is_free s"
    and parts: "pages_of s1 \<union> pages_of t = pages_of s" "pages_of s1 \<inter> pages_of t = {}"
    and ok: "span_ok s1" "span_ok t" "is_free t" "is_free s1 = is_free s"
  shows "ph_inv F (insert (fresh h) D) (divide_span i s1 t h)"
    and "used (divide_span i s1 t h) = (if is_free s then used h else (used h)(i \<mapsto> s1))"
    and "dom (page_map (divide_span i s1 t h)) = dom (page_map h)"
proof -
  let ?h = "divide_span i s1 t h" and ?r = "fresh h"
  have r: "spans h ?r = None"
    using ph_inv_fresh [OF inv, of ?r] by (cases "spans h ?r") auto
  then have r2: "i \<noteq> ?r"
    using i(1) by auto
  have out: "a \<notin> set (F n)" if "a \<in> {i, ?r}" for a n
    using that ph_inv_unlisted [OF inv i] ph_inv_listed [OF inv, of a n] r(1) by auto
  have disj: "k \<notin> pages_of s" if "spans h b = Some q" "b \<noteq> i" "k \<in> pages_of q" for b q k
    using ph_inv_disjoint [OF inv that(1) i(1) that(3)] that(2) by blast
  have pm': "page_map ?h k = Some b \<longleftrightarrow> (\<exists>q. spans ?h b = Some q \<and> k \<in> pages_of q)" for k b
  proof -
    have own: "page_map h k = Some i \<longleftrightarrow> k \<in> pages_of s" "page_map h k \<noteq> Some ?r"
      using ph_inv_map [OF inv, of k i] ph_inv_map [OF inv, of k ?r] i(1) r by simp_all
    consider "b = i" | "b = ?r" | "b \<noteq> i" "b \<noteq> ?r"
      by blast
    then show ?thesis
    proof cases
      case 1
      then show ?thesis
        using own r2 parts by (auto simp: divide_span_def paint_apply)
    next
      case 2
      then show ?thesis
        using own r2 by (simp add: divide_span_def paint_apply)
    next
      case 3
      then show ?thesis
        using disj [of b _ k] parts(1) ph_inv_map [OF inv, of k b]
        by (auto simp: divide_span_def paint_apply)
    qed
  qed
  show "ph_inv F (insert ?r D) ?h"
  proof (rule ph_inv_change [where X = "{i, ?r}", OF inv out pm'])
    show "\<And>a q. a \<in> {i, ?r} \<Longrightarrow> spans ?h a = Some q \<Longrightarrow> span_ok q \<and> a < fresh ?h \<and> (is_free q \<longrightarrow> a \<in> insert ?r D)"
      using ok i r2 ph_inv_fresh [OF inv i(1)] by (auto simp: divide_span_def)
    show "insert ?r D - {i, ?r} = D - {i, ?r}"
      by blast
  qed (simp_all add: divide_span_def)
  show "used ?h = (if is_free s then used h else (used h)(i \<mapsto> s1))"
    using ok i r r2 by (auto simp: divide_span_def used_def fun_eq_iff)
  show "dom (page_map ?h) = dom (page_map h)"
    using pages_dom [OF inv i(1)] parts(1) by (auto simp: divide_span_def dom_paint)
qed

lemma split_span_ok:
  assumes inv: "ph_inv F D h" and i: "spans h i = Some s" "\<not> is_free s"
    and n: "0 < n" "n < num_pages s" "num_pages s \<le> MAX_PAGES" and D: "fresh h \<notin> D"
  shows "\<exists>h' F'. split_span i n h = Some h' \<and> ph_inv F' D h'
     \<and> used h' = (used h)(i \<mapsto> s\<lparr>num_pages := n\<rparr>) \<and> dom (page_map h') = dom (page_map h)
     \<and> mmap_calls h' = mmap_calls h"
proof -
  let ?r = "fresh h"
  let ?s = "s\<lparr>num_pages := n\<rparr>"
  let ?t = "new_Span\<lparr>start := start s + n, num_pages := num_pages s - n, span_size := 0, is_free := True\<rparr>"
  have r: "i \<noteq> ?r"
    using ph_inv_fresh [OF inv i(1)] by simp
  have ok: "span_ok s"
    by (rule ph_inv_space [OF inv i(1)])
  have parts: "pages_of ?s \<union> pages_of ?t = pages_of s" "pages_of ?s \<inter> pages_of ?t = {}"
    using n by (auto simp: pages_of_def)
  have oks: "span_ok ?s" "span_ok ?t" "is_free ?t" "is_free ?s = is_free s"
    using ok n i(2) by (auto simp: span_ok_def)
  note d = divide_span_ok [OF inv i(1) _ parts oks]
  have rest: "num_pages s - n \<le> MAX_PAGES"
    using n(3) by simp
  have cover: "pages_of s \<subseteq> pages_of ?t \<union> pages_of ?s"
    using parts(1) by blast
  have split: "split_span i n h = insert_span (num_pages s - n) ?r (divide_span i ?s ?t h)"
    using i r n rest
    by (simp add: split_span_def new_object_def unregister_span_eq register_span_eq divide_span_def
        paint_three [OF cover])
  have new: "spans (divide_span i ?s ?t h) ?r = Some ?t" "mmap_calls (divide_span i ?s ?t h) = mmap_calls h"
    using r by (simp_all add: divide_span_def)
  have inv': "ph_inv F (insert ?r D) (divide_span i ?s ?t h)"
    using d(1) i(2) by blast
  have used': "used (divide_span i ?s ?t h) = (used h)(i \<mapsto> ?s)" "dom (page_map (divide_span i ?s ?t h)) = dom (page_map h)"
    using d(2,3) i(2) by simp_all
  have "used h ?r = None"
    using ph_inv_fresh [OF inv, of ?r] by (auto simp: used_def split: option.splits)
  then have used_r: "((used h)(i \<mapsto> ?s))(?r := None) = (used h)(i \<mapsto> ?s)"
    using r by (auto simp: fun_eq_iff)
  have D': "insert ?r D - {?r} = D"
    using D by blast
  obtain h' F' where "insert_span (num_pages s - n) ?r (divide_span i ?s ?t h) = Some h'" "ph_inv F' D h'"
      "page_map h' = page_map (divide_span i ?s ?t h)" "mmap_calls h' = mmap_calls h"
      "used h' = (used h)(i \<mapsto> ?s)"
    using ph_insert [OF inv' new(1) _ _ rest] D' new(2) used'(1) used_r by auto
  then show ?thesis
    using split used'(2) by auto
qed

section \<open>Searching and allocating\<close>

text \<open>
  All free spans carry the object size 0, so the scan for the closest size always picks the
  first span of the list, the one with the lowest address.
\<close>

lemma best_scan_keeps:
  assumes "dseg S p cur xs l nullptr" "S = spans h" "\<forall>x\<in>set xs. span_size (the (S x)) = 0" "0 < sz"
  shows "best_scan sz h cur (Some b) sz = Some (Some b)"
  using assms
proof (induction xs arbitrary: p cur)
  case Nil
  then show ?case
    by (simp add: best_scan.simps)
next
  case (Cons x xs)
  then obtain s where "cur = Some x" "S x = Some s" "dseg S (Some x) (nxt s) xs l nullptr"
    by auto
  moreover from this have "size_diff sz s = sz"
    using Cons.prems by (simp add: size_diff_def)
  ultimately show ?case
    using Cons by (subst best_scan.simps) simp
qed

lemma best_scan_first:
  assumes "dll (spans h) cur (x # xs)" "\<forall>y\<in>set (x # xs). span_size (the (spans h y)) = 0"
    and "sz < 4294967295"
  shows "best_scan sz h cur nullptr 4294967295 = Some (Some x)"
proof -
  obtain s l where s: "cur = Some x" "spans h x = Some s" "dseg (spans h) (Some x) (nxt s) xs l nullptr"
    using assms(1) by (auto simp: dll_def)
  then have diff: "size_diff sz s = sz"
    using assms(2) by (simp add: size_diff_def)
  show ?thesis
  proof (cases "sz = 0")
    case True
    then show ?thesis
      using s diff by (subst best_scan.simps) (simp add: True)
  next
    case False
    then have "best_scan sz h (nxt s) (Some x) sz = Some (Some x)"
      using best_scan_keeps [OF s(3) refl] assms(2) by simp
    then show ?thesis
      using s diff False assms(3) by (subst best_scan.simps) simp
  qed
qed

text \<open>
  The search in terms of the lists: the head of the first non-empty list from \<open>i\<close> on.
\<close>

definition first_list :: "(nat \<Rightarrow> nat list) \<Rightarrow> nat \<Rightarrow> nat option" where
  "first_list F i = find (\<lambda>m. F m \<noteq> []) [i ..< Suc MAX_PAGES]"

lemma first_list_step: "i \<le> MAX_PAGES \<Longrightarrow> first_list F i = (if F i \<noteq> [] then Some i else first_list F (Suc i))"
  unfolding first_list_def by (subst upt_rec) simp

lemma first_list_end: "MAX_PAGES < i \<Longrightarrow> first_list F i = None"
  by (simp add: first_list_def)

lemma ph_inv_size0: "ph_inv F D h \<Longrightarrow> i \<in> set (F n) \<Longrightarrow> span_size (the (spans h i)) = 0"
  using ph_inv_listed [of F D h i n] ph_inv_space [of F D h i] by (auto simp: span_ok_def)

lemma alloc_search_eq:
  assumes inv: "ph_inv F D h" and sz: "sz < 4294967295"
  shows "alloc_search i n sz h =
    (case first_list F i of None \<Rightarrow> Some (nullptr, h) | Some m \<Rightarrow> take_span (hd (F m)) n sz h)"
proof (induction "Suc MAX_PAGES - i" arbitrary: i)
  case 0
  then show ?case
    by (simp add: alloc_search.simps first_list_end)
next
  case (Suc d)
  then have i: "i \<le> MAX_PAGES" and IH: "alloc_search (Suc i) n sz h =
      (case first_list F (Suc i) of None \<Rightarrow> Some (nullptr, h) | Some m \<Rightarrow> take_span (hd (F m)) n sz h)"
    by auto
  note dll = ph_inv_dll [OF inv i]
  show ?case
  proof (cases "F i")
    case Nil
    then show ?thesis
      using dll i IH by (subst alloc_search.simps) (simp add: first_list_step)
  next
    case (Cons x xs)
    then obtain y where "free_lists h i = Some y"
      using dll_empty_iff [OF dll] by auto
    moreover have "best_scan sz h (free_lists h i) nullptr 4294967295 = Some (Some x)"
    proof (rule best_scan_first [OF _ _ sz])
      show "dll (spans h) (free_lists h i) (x # xs)"
        using dll Cons by simp
      show "\<forall>y\<in>set (x # xs). span_size (the (spans h y)) = 0"
        using ph_inv_size0 [OF inv, of _ i] Cons by metis
    qed
    ultimately show ?thesis
      using i Cons by (subst alloc_search.simps) (simp add: first_list_step)
  qed
qed

lemma first_list_Some:
  assumes "first_list F i = Some m"
  shows "i \<le> m \<and> m \<le> MAX_PAGES \<and> F m \<noteq> [] \<and> (\<forall>k. i \<le> k \<and> k < m \<longrightarrow> F k = [])"
proof -
  obtain j where j: "j < Suc MAX_PAGES - i" "m = [i ..< Suc MAX_PAGES] ! j" "F m \<noteq> []"
      "\<forall>a<j. F ([i ..< Suc MAX_PAGES] ! a) = []"
    using assms by (auto simp: first_list_def find_Some_iff simp del: upt_Suc)
  have "F k = []" if "i \<le> k" "k < m" for k
    using j(4) [rule_format, of "k - i"] j(1,2) that by (simp del: upt_Suc)
  then show ?thesis
    using j(1-3) by (auto simp del: upt_Suc)
qed

text \<open>Changing fields of a span in use other than its place.\<close>

lemma ph_inv_retag:
  assumes inv: "ph_inv F D h" and i: "spans h i = Some s" "\<not> is_free s"
    and t: "start t = start s" "num_pages t = num_pages s" "\<not> is_free t"
  shows "ph_inv F D (h\<lparr>spans := (spans h)(i \<mapsto> t)\<rparr>)"
    and "used (h\<lparr>spans := (spans h)(i \<mapsto> t)\<rparr>) = (used h)(i \<mapsto> t)"
proof -
  let ?h = "h\<lparr>spans := (spans h)(i \<mapsto> t)\<rparr>"
  have out: "a \<notin> set (F n)" if "a \<in> {i}" for a n
    using that ph_inv_unlisted [OF inv i(1)] i(2) by auto
  have "pages_of t = pages_of s"
    using t by (simp add: pages_of_def)
  then have pm: "page_map ?h k = Some j \<longleftrightarrow> (\<exists>q. spans ?h j = Some q \<and> k \<in> pages_of q)" for k j
    using ph_inv_map [OF inv, of k j] i(1) by auto
  have "span_ok t"
    using ph_inv_space [OF inv i(1)] t by (simp add: span_ok_def)
  show "ph_inv F D ?h"
  proof (rule ph_inv_change [where X = "{i}", OF inv out pm])
    show "\<And>a q. a \<in> {i} \<Longrightarrow> spans ?h a = Some q \<Longrightarrow> span_ok q \<and> a < fresh ?h \<and> (is_free q \<longrightarrow> a \<in> D)"
      using \<open>span_ok t\<close> t(3) ph_inv_fresh [OF inv i(1)] by auto
  qed simp_all
  show "used ?h = (used h)(i \<mapsto> t)"
    using t(3) by (auto simp: used_def fun_eq_iff)
qed

lemma take_span_ok:
  assumes inv: "ph_inv F {} h" and b: "b \<in> set (F m)" and n: "0 < n" "n \<le> m"
  shows "\<exists>h' F' t. take_span b n sz h = Some (Some b, h') \<and> ph_inv F' {} h'
     \<and> used h' = (used h)(b \<mapsto> t) \<and> used h b = None
     \<and> start t = start_of h b \<and> num_pages t = n \<and> span_size t = sz
     \<and> dom (page_map h') = dom (page_map h) \<and> mmap_calls h' = mmap_calls h"
proof -
  obtain s where s: "spans h b = Some s" "is_free s" "num_pages s = m" "m \<le> MAX_PAGES"
    using ph_inv_listed [OF inv b] by blast
  let ?s1 = "s\<lparr>nxt := nullptr, prv := nullptr, is_free := False\<rparr>"
  let ?s2 = "?s1\<lparr>is_free := False, span_size := sz\<rparr>"
  obtain h1 F1 where h1: "remove_from_free_list b h = Some h1" "ph_inv F1 {} h1"
      "page_map h1 = page_map h" "mmap_calls h1 = mmap_calls h" "used h1 = (used h)(b \<mapsto> ?s1)"
    using ph_remove [OF inv s(1,2)] by blast
  have b1: "spans h1 b = Some ?s1"
    using h1(5) used_Some [of h1 b ?s1] by simp
  define h2 where "h2 = h1\<lparr>spans := (spans h1)(b \<mapsto> ?s2)\<rparr>"
  have inv2: "ph_inv F1 {} h2" and used2: "used h2 = (used h1)(b \<mapsto> ?s2)"
    unfolding h2_def by (rule ph_inv_retag [OF h1(2) b1]; simp)+
  have free: "used h b = None"
    using s by (simp add: used_def)
  have run: "take_span b n sz h =
      (if n < m then split_span b n h2 else Some h2) \<bind> (\<lambda>h3. Some (Some b, h3))"
    using h1(1) b1 s(3) by (simp add: take_span_def h2_def)
  show ?thesis
  proof (cases "n < m")
    case True
    obtain h3 F3 where h3: "split_span b n h2 = Some h3" "ph_inv F3 {} h3"
        "used h3 = (used h2)(b \<mapsto> ?s2\<lparr>num_pages := n\<rparr>)" "dom (page_map h3) = dom (page_map h2)"
        "mmap_calls h3 = mmap_calls h2"
      using split_span_ok [OF inv2, of b ?s2 n] n(1) True s by (auto simp: h2_def)
    then show ?thesis
      using run True h1 used2 free s(1)
      by (intro exI [of _ h3] exI [of _ F3] exI [of _ "?s2\<lparr>num_pages := n\<rparr>"]) (simp add: h2_def)
  next
    case False
    then show ?thesis
      using run n h1 used2 free s inv2
      by (intro exI [of _ h2] exI [of _ F1] exI [of _ ?s2]) (simp add: h2_def)
  qed
qed

end
