(* ===== verification/Page_Heap_Spec.thy ===== *)
theory Page_Heap_Spec
  imports Page_Heap_Ops
begin

text \<open>
  What the public operations of the page heap promise, over the spans in use (\<open>used\<close>):
  \<open>allocate_span\<close> hands out a span that was not in use, of exactly the pages and the object size
  asked for; \<open>return_span\<close> takes a span out of use and keeps all pages; \<open>deallocate_span\<close> gives
  the pages of a span back to the operating system.
\<close>

section \<open>Allocating\<close>

lemma alloc_search_some:
  assumes inv: "ph_inv F {} h" and sz: "sz < 4294967295" and n: "0 < n" and m: "first_list F n = Some m"
  shows "\<exists>h' F' t. alloc_search n n sz h = Some (Some (hd (F m)), h') \<and> ph_inv F' {} h'
     \<and> used h' = (used h)(hd (F m) \<mapsto> t) \<and> used h (hd (F m)) = None
     \<and> start t = start_of h (hd (F m)) \<and> num_pages t = n \<and> span_size t = sz
     \<and> dom (page_map h') = dom (page_map h) \<and> mmap_calls h' = mmap_calls h"
proof -
  have "n \<le> m" "hd (F m) \<in> set (F m)"
    using first_list_Some [OF m] by simp_all
  then show ?thesis
    using take_span_ok [OF inv, of "hd (F m)" m n sz] alloc_search_eq [OF inv sz, of n n] n m by simp
qed

text \<open>A span fresh from the operating system.\<close>

lemma map_span_ok:
  assumes inv: "ph_inv F {} h" and env: "mmap_ok mmap" and raw: "mmap (mmap_calls h) (page_map h) n = Some raw"
    and n: "0 < n" and h2: "h2 = h\<lparr>mmap_calls := Suc (mmap_calls h)\<rparr>"
    and t: "t = new_Span\<lparr>start := raw div PAGE_SIZE, num_pages := n, span_size := sz\<rparr>"
    and h4: "h4 = h2\<lparr>spans := (spans h2)(fresh h2 \<mapsto> t), fresh := Suc (fresh h2),
               page_map := paint (pages_of t) (Some (fresh h2)) (page_map h2)\<rparr>"
  shows "ph_inv F {} h4" "used h4 = (used h)(fresh h \<mapsto> t)" "used h (fresh h) = None"
    "dom (page_map h4) = pages_of t \<union> dom (page_map h)" "pages_of t \<inter> dom (page_map h) = {}"
proof -
  have os: "PAGE_SIZE dvd raw" "0 < raw" "raw + n * PAGE_SIZE \<le> 2 ^ 64"
      "\<And>p. raw div PAGE_SIZE \<le> p \<Longrightarrow> p < raw div PAGE_SIZE + n \<Longrightarrow> page_map h p = None"
    using env raw unfolding mmap_ok_def by blast+
  have r: "spans h (fresh h) = None"
    using ph_inv_fresh [OF inv, of "fresh h"] by (cases "spans h (fresh h)") auto
  then show "used h (fresh h) = None"
    by (simp add: used_def)
  have "raw = PAGE_SIZE * (raw div PAGE_SIZE)"
    using os(1) by simp
  then have "0 < raw div PAGE_SIZE \<and> raw div PAGE_SIZE + n \<le> 2 ^ 52"
    using os(2,3) by (simp add: PAGE_SIZE_def)
  then have ok: "span_ok t" "\<not> is_free t"
    using n by (simp_all add: t span_ok_def new_Span_def)
  have unmapped: "page_map h k = None" if "k \<in> pages_of t" for k
    using os(4) [of k] that by (simp add: t pages_of_def)
  then show "pages_of t \<inter> dom (page_map h) = {}"
    by auto
  show "dom (page_map h4) = pages_of t \<union> dom (page_map h)"
    by (simp add: h4 h2 dom_paint)
  have out: "a \<notin> set (F m)" if "a \<in> {fresh h}" for a m
    using that ph_inv_listed [OF inv, of a m] r by auto
  have pm: "page_map h4 k = Some j \<longleftrightarrow> (\<exists>q. spans h4 j = Some q \<and> k \<in> pages_of q)" for k j
  proof (cases "j = fresh h")
    case True
    then show ?thesis
      using ph_inv_map [OF inv, of k j] r by (simp add: h4 h2 paint_apply)
  next
    case False
    then show ?thesis
      using unmapped [of k] ph_inv_map [OF inv, of k j] by (auto simp: h4 h2 paint_apply)
  qed
  show "ph_inv F {} h4"
  proof (rule ph_inv_change [where X = "{fresh h}", OF inv out pm])
    show "\<And>a q. a \<in> {fresh h} \<Longrightarrow> spans h4 a = Some q \<Longrightarrow> span_ok q \<and> a < fresh h4 \<and> (is_free q \<longrightarrow> a \<in> {})"
      using ok by (simp add: h4 h2)
  qed (simp_all add: h4 h2)
  show "used h4 = (used h)(fresh h \<mapsto> t)"
    using ok(2) by (auto simp: h4 h2 used_def fun_eq_iff)
qed

lemma alloc_search_none:
  assumes "ph_inv F {} h" "sz < 4294967295" "first_list F n = None"
  shows "alloc_search n n sz h = Some (nullptr, h)"
  using alloc_search_eq [OF assms(1,2), of n n] assms(3) by simp

text \<open>
  The three ways \<open>allocate_span\<close> ends: a span of the lists, a new mapping, or the failure of
  \<open>mmap\<close>.
\<close>

lemma allocate_span_cases:
  assumes inv: "ph_inv F {} h" and env: "mmap_ok mmap" and n: "0 < n" "n \<le> MAX_PAGES" and sz: "sz < 4294967295"
  shows "\<exists>r h' F'. allocate_span mmap n sz h = Some (r, h') \<and> ph_inv F' {} h'
     \<and> (case r of
          None \<Rightarrow> used h' = used h \<and> first_list F n = None \<and> mmap (mmap_calls h) (page_map h) n = None
        | Some b \<Rightarrow> \<exists>t. used h b = None \<and> used h' = (used h)(b \<mapsto> t) \<and> num_pages t = n \<and> span_size t = sz
            \<and> dom (page_map h') = dom (page_map h) \<union> pages_of t)"
proof (cases "first_list F n")
  case (Some m)
  then obtain h' F' t where h': "alloc_search n n sz h = Some (Some (hd (F m)), h')" "ph_inv F' {} h'"
      "used h' = (used h)(hd (F m) \<mapsto> t)" "used h (hd (F m)) = None" "num_pages t = n" "span_size t = sz"
      "dom (page_map h') = dom (page_map h)"
    using alloc_search_some [OF inv sz n(1) Some] by blast
  have "spans h' (hd (F m)) = Some t"
    using h'(3) used_Some [of h' "hd (F m)" t] by simp
  then have "pages_of t \<subseteq> dom (page_map h)"
    using pages_dom [OF h'(2)] h'(7) by blast
  then show ?thesis
    using h' n by (intro exI [of _ "Some (hd (F m))"] exI [of _ h'] exI [of _ F'])
      (auto simp: allocate_span_def)
next
  case None
  note search = alloc_search_none [OF inv sz None]
  let ?h2 = "h\<lparr>mmap_calls := Suc (mmap_calls h)\<rparr>"
  show ?thesis
  proof (cases "mmap (mmap_calls h) (page_map h) n")
    case None
    have "ph_inv F {} ?h2" "used ?h2 = used h"
      using inv by (simp_all add: ph_inv_def used_def fun_eq_iff)
    then show ?thesis
      using search None n \<open>first_list F n = None\<close>
      by (intro exI [of _ nullptr] exI [of _ ?h2] exI [of _ F]) (simp add: allocate_span_def)
  next
    case (Some raw)
    define t where "t = new_Span\<lparr>start := raw div PAGE_SIZE, num_pages := n, span_size := sz\<rparr>"
    define h4 where "h4 = ?h2\<lparr>spans := (spans ?h2)(fresh ?h2 \<mapsto> t), fresh := Suc (fresh ?h2),
               page_map := paint (pages_of t) (Some (fresh ?h2)) (page_map ?h2)\<rparr>"
    note ok = map_span_ok [OF inv env Some n(1) refl t_def h4_def]
    have "allocate_span mmap n sz h = Some (Some (fresh h), h4)"
      using search Some n
      by (simp add: allocate_span_def new_object_def register_span_eq h4_def flip: t_def)
    moreover have "num_pages t = n" "span_size t = sz"
      by (simp_all add: t_def)
    ultimately show ?thesis
      using ok(1-4) by (intro exI [of _ "Some (fresh h)"] exI [of _ h4] exI [of _ F]) auto
  qed
qed

lemma allocate_span_ok:
  assumes ok: "page_heap_ok h" and env: "mmap_ok mmap" and sz: "sz < 4294967295"
  shows "\<exists>r h'. allocate_span mmap n sz h = Some (r, h') \<and> page_heap_ok h'
     \<and> (case r of None \<Rightarrow> used h' = used h
        | Some b \<Rightarrow> used h b = None \<and> (\<exists>t. used h' = (used h)(b \<mapsto> t) \<and> num_pages t = n \<and> span_size t = sz))"
proof (cases "0 < n \<and> n \<le> MAX_PAGES")
  case True
  obtain F where F: "ph_inv F {} h"
    using ok by (auto simp: page_heap_ok_def)
  have "0 < n" "n \<le> MAX_PAGES"
    using True by simp_all
  from allocate_span_cases [OF F env this sz]
  show ?thesis
    unfolding page_heap_ok_def by (fastforce split: option.splits)
next
  case False
  then show ?thesis
    using ok by (intro exI [of _ nullptr] exI [of _ h]) (auto simp: allocate_span_def)
qed

section \<open>Returning\<close>

lemma carve_loop_ok:
  assumes "ph_inv F {i} h" "spans h i = Some s" "is_free s" "num_pages s = k"
  shows "\<exists>h' F' s'. carve_loop i h = Some h' \<and> ph_inv F' {i} h' \<and> spans h' i = Some s' \<and> is_free s'
     \<and> num_pages s' \<le> MAX_PAGES \<and> used h' = used h \<and> dom (page_map h') = dom (page_map h)
     \<and> mmap_calls h' = mmap_calls h"
  using assms
proof (induction k arbitrary: F h s rule: less_induct)
  case (less k)
  note inv = less.prems(1) and i = less.prems(2,3) and k = less.prems(4)
  show ?case
  proof (cases "k \<le> MAX_PAGES")
    case True
    then have "carve_loop i h = Some h"
      using i k by (simp add: carve_loop.simps)
    then show ?thesis
      using inv i k True by blast
  next
    case False
    let ?r = "fresh h"
    let ?s = "s\<lparr>start := start s + MAX_PAGES, num_pages := num_pages s - MAX_PAGES\<rparr>"
    let ?t = "new_Span\<lparr>start := start s, num_pages := MAX_PAGES, span_size := 0, is_free := True\<rparr>"
    have r: "i \<noteq> ?r"
      using ph_inv_fresh [OF inv i(1)] by simp
    have ok: "span_ok s"
      by (rule ph_inv_space [OF inv i(1)])
    have max: "0 < MAX_PAGES" "MAX_PAGES < num_pages s"
      using False k by (simp_all add: MAX_PAGES_def)
    have parts: "pages_of ?s \<union> pages_of ?t = pages_of s" "pages_of ?s \<inter> pages_of ?t = {}"
      using max by (auto simp: pages_of_def)
    have oks: "span_ok ?s" "span_ok ?t" "is_free ?t" "is_free ?s = is_free s"
      using ok max i(2) by (auto simp: span_ok_def)
    have cover: "pages_of s \<subseteq> pages_of ?t \<union> pages_of ?s"
      using parts(1) by blast
    note d = divide_span_ok [OF inv i(1) _ parts oks]
    let ?h = "divide_span i ?s ?t h"
    have new: "spans ?h ?r = Some ?t" "spans ?h i = Some ?s" "mmap_calls ?h = mmap_calls h"
      using r by (simp_all add: divide_span_def)
    have inv1: "ph_inv F (insert ?r {i}) ?h"
      by (rule d(1)) simp
    have used1: "used ?h = used h" "dom (page_map ?h) = dom (page_map h)"
      using d(2,3) i(2) by simp_all
    have D_back: "insert ?r {i} - {?r} = {i}"
      using r by blast
    obtain h2 F2 where h2: "insert_span MAX_PAGES ?r ?h = Some h2" and inv2: "ph_inv F2 {i} h2"
      and rest: "page_map h2 = page_map ?h" "mmap_calls h2 = mmap_calls ?h" "used h2 = (used ?h)(?r := None)"
      and frame: "\<forall>k. k \<notin> set (F MAX_PAGES) \<longrightarrow> k \<noteq> ?r \<longrightarrow> spans h2 k = spans ?h k"
      using ph_insert [OF inv1 new(1)] D_back by auto
    have i2: "spans h2 i = Some ?s"
      using frame r ph_inv_unlisted [OF inv i(1)] new(2) by simp
    have "used h ?r = None"
      using ph_inv_fresh [OF inv, of ?r] by (auto simp: used_def split: option.splits)
    then have used2: "used h2 = used h"
      using rest(3) used1(1) by (auto simp: fun_eq_iff)
    have step: "carve_loop i h = carve_loop i h2"
      using i(1) r max h2
      by (subst carve_loop.simps)
        (simp add: new_object_def unregister_span_eq register_span_eq divide_span_def paint_three [OF cover])
    have "num_pages ?s < k"
      using max k by simp
    from less.IH [OF this inv2 i2 _ refl] i(2)
    show ?thesis
      unfolding step using used2 rest(1,2) used1(2) new(3) by simp
  qed
qed

text \<open>
  The contract of \<open>return_span\<close>: for a span in use it returns, keeps the invariant, takes exactly
  this span out of use and loses no page.
\<close>

lemma return_span_inv:
  assumes inv: "ph_inv F {} h" and i: "used h i = Some s"
  shows "\<exists>h' F'. return_span (Some i) h = Some h' \<and> ph_inv F' {} h' \<and> used h' = (used h)(i := None)
     \<and> dom (page_map h') = dom (page_map h) \<and> mmap_calls h' = mmap_calls h"
proof -
  have s: "spans h i = Some s" "\<not> is_free s"
    using i by (simp_all add: used_Some)
  let ?s = "s\<lparr>is_free := True, span_size := 0\<rparr>"
  define h1 where "h1 = h\<lparr>spans := (spans h)(i \<mapsto> ?s)\<rparr>"
  have out: "a \<notin> set (F n)" if "a \<in> {i}" for a n
    using that ph_inv_unlisted [OF inv s(1)] s(2) by auto
  have pm: "page_map h1 k = Some j \<longleftrightarrow> (\<exists>q. spans h1 j = Some q \<and> k \<in> pages_of q)" for k j
    using ph_inv_map [OF inv, of k j] s(1) by (auto simp: h1_def pages_of_def)
  have inv1: "ph_inv F {i} h1"
  proof (rule ph_inv_change [where X = "{i}", OF inv out pm])
    show "\<And>a q. a \<in> {i} \<Longrightarrow> spans h1 a = Some q \<Longrightarrow> span_ok q \<and> a < fresh h1 \<and> (is_free q \<longrightarrow> a \<in> {i})"
      using ph_inv_space [OF inv s(1)] ph_inv_fresh [OF inv s(1)] by (auto simp: h1_def span_ok_def)
  qed (simp_all add: h1_def)
  have used1: "used h1 = (used h)(i := None)"
    by (auto simp: h1_def used_def fun_eq_iff)
  have i1: "spans h1 i = Some ?s" "is_free ?s"
    by (simp_all add: h1_def)
  obtain h2 F2 s2 where h2: "coalesce i h1 = Some h2" "ph_inv F2 {i} h2" "spans h2 i = Some s2" "is_free s2"
    "used h2 = used h1" "dom (page_map h2) = dom (page_map h1)" "mmap_calls h2 = mmap_calls h1"
    using coalesce_ok [OF inv1 i1] by blast
  obtain h3 F3 s3 where h3: "carve_loop i h2 = Some h3" "ph_inv F3 {i} h3" "spans h3 i = Some s3" "is_free s3"
    "num_pages s3 \<le> MAX_PAGES" "used h3 = used h2" "dom (page_map h3) = dom (page_map h2)"
    "mmap_calls h3 = mmap_calls h2"
    using carve_loop_ok [OF h2(2-4) refl] by blast
  have "span_size s3 = 0"
    using ph_inv_space [OF h3(2,3)] h3(4) by (simp add: span_ok_def)
  then obtain h4 F4 where h4: "insert_span (num_pages s3) i h3 = Some h4" "ph_inv F4 {} h4"
    "page_map h4 = page_map h3" "mmap_calls h4 = mmap_calls h3" "used h4 = (used h3)(i := None)"
    using ph_insert [OF h3(2,3) _ refl h3(5)] by auto
  have "return_span (Some i) h = Some h4"
    using s(1) h2(1) h3(1,3) h4(1) by (simp add: return_span_def upd_span_def h1_def)
  then show ?thesis
    using h4 h3 h2 used1 by (intro exI [of _ h4] exI [of _ F4]) (simp add: h1_def)
qed

section \<open>Giving pages back\<close>

lemma deallocate_span_inv:
  assumes inv: "ph_inv F {} h" and i: "spans h i = Some s"
  shows "\<exists>h' F'. deallocate_span b (Some i) h = Some (b, h') \<and> ph_inv F' {} h' \<and> used h' = (used h)(i := None)
     \<and> dom (page_map h') = dom (page_map h) - pages_of s"
proof -
  obtain h1 F1 s1 where h1: "(if is_free s then remove_from_free_list i h else Some h) = Some h1"
      "ph_inv F1 {} h1" "spans h1 i = Some s1" "\<not> is_free s1" "pages_of s1 = pages_of s"
      "page_map h1 = page_map h" "(used h1)(i := None) = (used h)(i := None)"
  proof (cases "is_free s")
    case True
    let ?s = "s\<lparr>nxt := nullptr, prv := nullptr, is_free := False\<rparr>"
    obtain h1 F1 where h1: "remove_from_free_list i h = Some h1" "ph_inv F1 {} h1"
        "page_map h1 = page_map h" "used h1 = (used h)(i \<mapsto> ?s)"
      using ph_remove [OF inv i True] by blast
    moreover from this have "spans h1 i = Some ?s"
      using used_Some [of h1 i ?s] by simp
    ultimately show ?thesis
      using True that [of h1 F1 ?s] by (simp add: pages_of_def)
  qed (use inv i that in auto)
  define h' where "h' = h1\<lparr>page_map := paint (pages_of s) None (page_map h1), spans := (spans h1)(i := None)\<rparr>"
  have out: "a \<notin> set (F1 n)" if "a \<in> {i}" for a n
    using that ph_inv_unlisted [OF h1(2,3)] h1(4) by auto
  have pm: "page_map h' k = Some j \<longleftrightarrow> (\<exists>q. spans h' j = Some q \<and> k \<in> pages_of q)" for k j
    using ph_inv_map [OF h1(2), of k j] ph_inv_disjoint [OF h1(2) h1(3), of j _ k] h1(5)
      ph_inv_map [OF h1(2), of k i] h1(3)
    by (auto simp: h'_def paint_apply)
  have "ph_inv F1 {} h'"
  proof (rule ph_inv_change [where X = "{i}", OF h1(2) out pm])
  qed (simp_all add: h'_def)
  moreover have "deallocate_span b (Some i) h = Some (b, h')"
    using i h1(1,3,5)
    by (simp add: deallocate_span_def unregister_span_eq delete_object_def h'_def)
  moreover have "used h' = (used h1)(i := None)"
    by (auto simp: h'_def used_def fun_eq_iff)
  moreover have "dom (page_map h') = dom (page_map h) - pages_of s"
    using h1(6) by (auto simp: h'_def paint_def dom_def)
  ultimately show ?thesis
    using h1(7) by auto
qed

section \<open>The empty heap\<close>

lemma empty_PageHeap_inv: "ph_inv (\<lambda>_. []) {} empty_PageHeap"
  by (simp add: ph_inv_def ph_abs_def empty_PageHeap_def view_def dll_def)

lemma used_empty [simp]: "used empty_PageHeap = Map.empty"
  by (simp add: used_def empty_PageHeap_def fun_eq_iff)

section \<open>Destruction\<close>

lemma destroy_list_spec:
  assumes "dseg (spans h) p cur xs l nullptr" "distinct xs"
  shows "destroy_list cur us h =
    Some (us @ map (\<lambda>i. extent (the (spans h i))) xs, h\<lparr>spans := spans h |` (- set xs)\<rparr>)"
  using assms
proof (induction xs arbitrary: p cur us h)
  case Nil
  then show ?case
    by (simp add: destroy_list.simps)
next
  case (Cons x xs)
  then obtain s where s: "cur = Some x" "spans h x = Some s" "dseg (spans h) (Some x) (nxt s) xs l nullptr"
    by auto
  let ?h = "h\<lparr>spans := (spans h)(x := None)\<rparr>"
  have step: "destroy_list cur us h = destroy_list (nxt s) (us @ [extent s]) ?h"
    using s by (subst destroy_list.simps) (simp add: delete_object_def)
  have seg: "dseg (spans ?h) (Some x) (nxt s) xs l nullptr"
    using s(3) Cons.prems(2) by (simp add: dseg_upd)
  have rest: "?h\<lparr>spans := spans ?h |` (- set xs)\<rparr> = h\<lparr>spans := spans h |` (- set (x # xs))\<rparr>"
    by (auto simp: restrict_map_def fun_eq_iff intro!: arg_cong [of _ _ "\<lambda>S. h\<lparr>spans := S\<rparr>"])
  have keep: "map (\<lambda>i. extent (the (spans ?h i))) xs = map (\<lambda>i. extent (the (spans h i))) xs"
    using Cons.prems(2) by auto
  have "distinct xs"
    using Cons.prems(2) by simp
  show ?case
    unfolding step Cons.IH [OF seg \<open>distinct xs\<close>] rest keep using s(2) by simp
qed

text \<open>The \<open>munmap\<close> calls of the first \<open>k\<close> lists.\<close>

definition unmaps :: "(nat \<Rightarrow> nat list) \<Rightarrow> PageHeap \<Rightarrow> nat \<Rightarrow> (nat \<times> nat) list" where
  "unmaps F h k = concat (map (\<lambda>n. map (\<lambda>i. extent (the (spans h i))) (F n)) [0 ..< k])"

lemma destroy_lists_spec:
  assumes inv: "ph_inv F {} h"
  shows "k \<le> Suc MAX_PAGES \<Longrightarrow> destroy_lists k h =
    Some (unmaps F h k, h\<lparr>free_lists := (\<lambda>n. if n < k then nullptr else free_lists h n),
            spans := spans h |` (- (\<Union>n<k. set (F n)))\<rparr>)"
proof (induction k)
  case 0
  then show ?case
    by (simp add: unmaps_def)
next
  case (Suc k)
  let ?S = "spans h |` (- (\<Union>n<k. set (F n)))"
  have other: "x \<notin> set (F n)" if "x \<in> set (F k)" "n < k" for x n
    using ph_inv_listed [OF inv, of x n] ph_inv_listed [OF inv, of x k] that by auto
  have same: "?S x = spans h x" if "x \<in> set (F k)" for x
    using other [OF that] by (auto simp: restrict_map_def)
  obtain l where "dseg (spans h) nullptr (free_lists h k) (F k) l nullptr"
    using ph_inv_dll [OF inv, of k] Suc.prems by (auto simp: dll_def)
  then have "dseg ?S nullptr (free_lists h k) (F k) l nullptr"
    using same by (subst dseg_cong [of _ _ "spans h"]) auto
  moreover have "map (\<lambda>i. extent (the (?S i))) (F k) = map (\<lambda>i. extent (the (spans h i))) (F k)"
    using same by (intro map_cong refl) simp
  moreover have "distinct (F k)"
    by (rule ph_abs_distinct [OF ph_invD [OF inv]])
  moreover have "?S |` (- set (F k)) = spans h |` (- (\<Union>n<Suc k. set (F n)))"
    by (auto simp: restrict_map_def fun_eq_iff less_Suc_eq)
  moreover have "(\<lambda>n. if n < Suc k then nullptr else free_lists h n) =
      (\<lambda>n. if n < k then nullptr else free_lists h n)(k := nullptr)"
    by (auto simp: fun_eq_iff)
  moreover note destroy_list_spec [of "h\<lparr>free_lists := \<lambda>n. if n < k then nullptr else free_lists h n, spans := ?S\<rparr>"
      nullptr "free_lists h k" "F k" l]
  ultimately show ?case
    using Suc by (simp add: unmaps_def)
qed

lemma destroy_PageHeap_inv:
  assumes inv: "ph_inv F {} h"
  shows "\<exists>us h'. destroy_PageHeap h = Some (us, h') \<and> spans h' = used h \<and> page_map h' = Map.empty
     \<and> (\<forall>n\<le>MAX_PAGES. free_lists h' n = nullptr)
     \<and> set us = {extent s | s i. spans h i = Some s \<and> is_free s}"
proof -
  define A where "A = (\<Union>n<Suc MAX_PAGES. set (F n))"
  have A: "i \<in> A \<longleftrightarrow> (\<exists>s. spans h i = Some s \<and> is_free s)" for i
  proof
    assume "i \<in> A"
    then show "\<exists>s. spans h i = Some s \<and> is_free s"
      unfolding A_def using ph_inv_listed [OF inv, of i] by blast
  next
    assume "\<exists>s. spans h i = Some s \<and> is_free s"
    then obtain s where "spans h i = Some s" "i \<in> set (F (num_pages s))"
      using ph_inv_free_listed [OF inv, of i] by auto
    then show "i \<in> A"
      unfolding A_def using ph_inv_listed [OF inv, of i "num_pages s"] by (intro UN_I) auto
  qed
  have "spans h |` (- A) = used h"
  proof
    fix i
    show "(spans h |` (- A)) i = used h i"
      using A [of i] by (cases "spans h i") (auto simp: restrict_map_def used_def)
  qed
  moreover have "set (unmaps F h (Suc MAX_PAGES)) = (\<lambda>i. extent (the (spans h i))) ` A"
    by (simp add: unmaps_def A_def image_UN image_image atLeast0LessThan del: upt_Suc)
  moreover have "(\<lambda>i. extent (the (spans h i))) ` A = {extent s | s i. spans h i = Some s \<and> is_free s}"
    using A by (force simp: image_iff)
  ultimately show ?thesis
    using destroy_lists_spec [OF inv, of "Suc MAX_PAGES"] unfolding destroy_PageHeap_def
    by (simp add: A_def)
qed

end
