(* ===== verification/Span_Provider.thy ===== *)
theory Span_Provider
  imports Page_Heap_Spec
begin

text \<open>
  The interface between the page heap and its clients, the central free lists: spans are handed
  out, found by an address inside them, written by their owner and taken back. The client's
  lemmas are proved from the contract alone; the page heap of the model is shown to provide it.
\<close>

section \<open>The contract\<close>

text \<open>
  \<open>live h\<close> are the spans handed out. An owner may write every field of its span but the place,
  the page count and the \<open>is_free\<close> flag.
\<close>

definition owner_write :: "Span \<Rightarrow> Span \<Rightarrow> bool" where
  "owner_write s t \<longleftrightarrow> start t = start s \<and> num_pages t = num_pages s \<and> is_free t = is_free s"

locale span_provider =
  fixes inv :: "'h \<Rightarrow> bool"
    and live :: "'h \<Rightarrow> nat \<rightharpoonup> Span"
    and alloc :: "nat \<Rightarrow> nat \<Rightarrow> 'h \<Rightarrow> (ptr \<times> 'h) option"
    and release :: "nat \<Rightarrow> 'h \<Rightarrow> 'h option"
    and owner_of :: "addr \<Rightarrow> 'h \<Rightarrow> ptr"
    and update :: "nat \<Rightarrow> (Span \<Rightarrow> Span) \<Rightarrow> 'h \<Rightarrow> 'h option"
  assumes alloc_returns: "inv h \<Longrightarrow> sz < 4294967295 \<Longrightarrow> \<exists>r h'. alloc n sz h = Some (r, h')"
    and alloc_null: "inv h \<Longrightarrow> sz < 4294967295 \<Longrightarrow> alloc n sz h = Some (nullptr, h') \<Longrightarrow>
          inv h' \<and> live h' = live h"
    and alloc_span: "inv h \<Longrightarrow> sz < 4294967295 \<Longrightarrow> alloc n sz h = Some (Some b, h') \<Longrightarrow>
          inv h' \<and> live h b = None \<and> (\<exists>t. live h' = (live h)(b \<mapsto> t) \<and> num_pages t = n \<and> span_size t = sz)"
    and release: "inv h \<Longrightarrow> live h b = Some t \<Longrightarrow>
          \<exists>h'. release b h = Some h' \<and> inv h' \<and> live h' = (live h)(b := None)"
    and update: "inv h \<Longrightarrow> live h b = Some t \<Longrightarrow> owner_write t (f t) \<Longrightarrow>
          \<exists>h'. update b f h = Some h' \<and> inv h' \<and> live h' = (live h)(b \<mapsto> f t)"
    and owner_of: "inv h \<Longrightarrow> live h b = Some t \<Longrightarrow> p div PAGE_SIZE \<in> pages_of t \<Longrightarrow> owner_of p h = Some b"
    and shape: "inv h \<Longrightarrow> live h b = Some t \<Longrightarrow> 0 < start t \<and> 0 < num_pages t \<and> start t + num_pages t \<le> 2 ^ 52"
begin

text \<open>No page belongs to two live spans: the look-up would have to answer twice.\<close>

lemma live_disjoint:
  assumes "inv h" "live h i = Some s" "live h j = Some t" "i \<noteq> j"
  shows "pages_of s \<inter> pages_of t = {}"
proof (rule equals0I)
  fix k
  assume k: "k \<in> pages_of s \<inter> pages_of t"
  have "k * PAGE_SIZE div PAGE_SIZE = k"
    by (simp add: PAGE_SIZE_def)
  then have "owner_of (k * PAGE_SIZE) h = Some i" "owner_of (k * PAGE_SIZE) h = Some j"
    using owner_of [OF assms(1,2), of "k * PAGE_SIZE"] owner_of [OF assms(1,3), of "k * PAGE_SIZE"] k by simp_all
  then show False
    using assms(4) by simp
qed

text \<open>A new span shares no page with the ones its clients already hold.\<close>

lemma alloc_disjoint:
  assumes "inv h" "sz < 4294967295" "alloc n sz h = Some (Some b, h')" "live h j = Some s"
  shows "\<exists>t. live h' b = Some t \<and> pages_of t \<inter> pages_of s = {}"
proof -
  obtain t where t: "inv h'" "live h b = None" "live h' = (live h)(b \<mapsto> t)"
    using alloc_span [OF assms(1-3)] by blast
  then have "j \<noteq> b"
    using assms(4) by auto
  then show ?thesis
    using live_disjoint [OF t(1), of b t j s] t(3) assms(4) by simp
qed

text \<open>Taking a span and giving it straight back changes nothing for the clients.\<close>

lemma alloc_release:
  assumes "inv h" "sz < 4294967295" "alloc n sz h = Some (Some b, h')"
  shows "\<exists>h2. release b h' = Some h2 \<and> inv h2 \<and> live h2 = live h"
proof -
  obtain t where t: "inv h'" "live h b = None" "live h' = (live h)(b \<mapsto> t)"
    using alloc_span [OF assms] by blast
  then obtain h2 where "release b h' = Some h2" "inv h2" "live h2 = (live h')(b := None)"
    using release [of h' b t] by auto
  then show ?thesis
    using t(2,3) by (auto simp: fun_eq_iff)
qed

end

section \<open>The world of the central free lists\<close>

text \<open>
  What the central free lists share: the operating system, the page heap, and the memory of the
  pages. Memory is read and written in 16-bit units at even addresses, which is how the packed
  nodes use it; \<open>cells a\<close> is the unit at address \<open>a\<close>.
\<close>

record World =
  os :: mmap_env
  ph :: PageHeap
  cells :: "addr \<Rightarrow> nat"

definition world_ok :: "World \<Rightarrow> bool" where
  "world_ok w \<longleftrightarrow> mmap_ok (os w) \<and> page_heap_ok (ph w)"

definition live :: "World \<Rightarrow> nat \<rightharpoonup> Span" where
  "live w = used (ph w)"

definition world_alloc :: "nat \<Rightarrow> nat \<Rightarrow> World \<Rightarrow> (ptr \<times> World) option" where
  "world_alloc n sz w = do { (r, h) \<leftarrow> allocate_span (os w) n sz (ph w); Some (r, w\<lparr>ph := h\<rparr>) }"

definition world_return :: "nat \<Rightarrow> World \<Rightarrow> World option" where
  "world_return i w = do { h \<leftarrow> return_span (Some i) (ph w); Some (w\<lparr>ph := h\<rparr>) }"

definition world_find :: "addr \<Rightarrow> World \<Rightarrow> ptr" where
  "world_find p w = span_for p (ph w)"

definition world_write :: "nat \<Rightarrow> (Span \<Rightarrow> Span) \<Rightarrow> World \<Rightarrow> World option" where
  "world_write i f w = do { h \<leftarrow> upd_span i f (ph w); Some (w\<lparr>ph := h\<rparr>) }"

lemma live_span: "live w i = Some s \<Longrightarrow> spans (ph w) i = Some s"
  by (simp add: live_def used_Some)

lemma live_cells [simp]: "live (w\<lparr>cells := m\<rparr>) = live w" "world_ok (w\<lparr>cells := m\<rparr>) = world_ok w"
  by (simp_all add: live_def world_ok_def)

text \<open>None of these operations touches the memory of the pages.\<close>

lemma world_cells:
  "world_alloc n sz w = Some (r, w') \<Longrightarrow> cells w' = cells w \<and> os w' = os w"
  "world_return i w = Some w' \<Longrightarrow> cells w' = cells w \<and> os w' = os w"
  "world_write i f w = Some w' \<Longrightarrow> cells w' = cells w \<and> os w' = os w"
  by (auto simp: world_alloc_def world_return_def world_write_def Option.bind_eq_Some_conv)

text \<open>The page heap provides the contract.\<close>

lemma world_alloc_ok:
  assumes "world_ok w" "sz < 4294967295"
  shows "\<exists>r w'. world_alloc n sz w = Some (r, w') \<and> world_ok w'
     \<and> (case r of None \<Rightarrow> live w' = live w
        | Some b \<Rightarrow> live w b = None \<and> (\<exists>t. live w' = (live w)(b \<mapsto> t) \<and> num_pages t = n \<and> span_size t = sz))"
proof -
  obtain r h where "allocate_span (os w) n sz (ph w) = Some (r, h)" "page_heap_ok h"
      "case r of None \<Rightarrow> used h = used (ph w)
        | Some b \<Rightarrow> used (ph w) b = None \<and> (\<exists>t. used h = (used (ph w))(b \<mapsto> t) \<and> num_pages t = n \<and> span_size t = sz)"
    using allocate_span_ok [of "ph w" "os w" sz n] assms by (auto simp: world_ok_def)
  then show ?thesis
    using assms(1)
    by (intro exI [of _ r] exI [of _ "w\<lparr>ph := h\<rparr>"]) (cases r; simp add: world_alloc_def world_ok_def live_def)
qed

lemma page_heap_ok_disjoint:
  "page_heap_ok h \<Longrightarrow> spans h i = Some s \<Longrightarrow> page_map h k = Some i \<longleftrightarrow> k \<in> pages_of s"
  unfolding page_heap_ok_def by (auto simp: ph_inv_map)

interpretation heap: span_provider world_ok live world_alloc world_return world_find world_write
proof
  fix w and n sz :: nat
  assume "world_ok w" "sz < 4294967295"
  from world_alloc_ok [OF this, of n]
  show "\<exists>r w'. world_alloc n sz w = Some (r, w')"
    by blast
next
  fix w w' and n sz :: nat
  assume "world_ok w" "sz < 4294967295" "world_alloc n sz w = Some (nullptr, w')"
  then show "world_ok w' \<and> live w' = live w"
    using world_alloc_ok [of w sz n] by auto
next
  fix w w' b and n sz :: nat
  assume "world_ok w" "sz < 4294967295" "world_alloc n sz w = Some (Some b, w')"
  then show "world_ok w' \<and> live w b = None \<and>
      (\<exists>t. live w' = (live w)(b \<mapsto> t) \<and> num_pages t = n \<and> span_size t = sz)"
    using world_alloc_ok [of w sz n] by auto
next
  fix w b t
  assume "world_ok w" "live w b = Some t"
  then show "\<exists>w'. world_return b w = Some w' \<and> world_ok w' \<and> live w' = (live w)(b := None)"
    using return_span_inv [of _ "ph w" b t]
    by (fastforce simp: world_ok_def page_heap_ok_def live_def world_return_def)
next
  fix w b t f
  assume w: "world_ok w" "live w b = Some t" "owner_write t (f t)"
  then obtain F where "ph_inv F {} (ph w)" "spans (ph w) b = Some t" "\<not> is_free t"
    by (auto simp: world_ok_def page_heap_ok_def live_def used_Some)
  with w ph_inv_retag [of F "{}" "ph w" b t "f t"]
  show "\<exists>w'. world_write b f w = Some w' \<and> world_ok w' \<and> live w' = (live w)(b \<mapsto> f t)"
    by (auto simp: owner_write_def world_write_def world_ok_def page_heap_ok_def live_def)
next
  fix w b t p
  assume "world_ok w" "live w b = Some t" "p div PAGE_SIZE \<in> pages_of t"
  then show "world_find p w = Some b"
    using page_heap_ok_disjoint [of "ph w" b t]
    by (simp add: world_ok_def live_def used_Some world_find_def span_for_def lookup_def)
next
  fix w b t
  assume "world_ok w" "live w b = Some t"
  then show "0 < start t \<and> 0 < num_pages t \<and> start t + num_pages t \<le> 2 ^ 52"
    using ph_inv_space [of _ _ "ph w" b t]
    by (auto simp: world_ok_def page_heap_ok_def live_def used_Some span_ok_def)
qed

end
