(* ===== verification/Central_Free_List.thy ===== *)
theory Central_Free_List
  imports Span_Provider
begin

text \<open>
  The central free list of one size class (\<open>central_free_list.hpp\<close>). Its free objects are kept
  inside the spans: a free object at index \<open>k\<close> of a span may hold a node, which is the index of
  the next node, a count, and that many further indexes, each in 16 bits. The operations work
  on the members of the list and on the world it shares with the other lists (page heap and
  memory). As in the page heap, \<open>None\<close> is undefined behaviour, a failed \<open>assert\<close> or a loop that
  does not end.
\<close>

section \<open>Packed nodes\<close>

text \<open>\<open>sizeof(PackedNode)\<close> is 4; \<open>next_idx\<close> is its first cell, \<open>count\<close> the second.\<close>

definition pack_capacity :: "nat \<Rightarrow> nat" where
  "pack_capacity sz = (if sz < 4 then 0 else u16 ((sz - 4) div 2))"

definition index_to_ptr :: "nat \<Rightarrow> addr \<Rightarrow> nat \<Rightarrow> addr" where
  "index_to_ptr idx base sz = base + idx * sz"

definition ptr_to_index :: "addr \<Rightarrow> addr \<Rightarrow> nat \<Rightarrow> nat" where
  "ptr_to_index p base sz = u16 ((p - base) div sz)"

definition next_idx :: "addr \<Rightarrow> addr" where
  "next_idx node = node"

definition node_count :: "addr \<Rightarrow> addr" where
  "node_count node = node + 2"

definition packed_indexes :: "addr \<Rightarrow> nat \<Rightarrow> addr" where
  "packed_indexes node j = node + 4 + 2 * j"

section \<open>State\<close>

record CentralFreeList =
  span_list :: ptr
  current_span :: ptr
  obj_size :: nat
  num_free :: nat
  span_pages :: nat

definition new_CentralFreeList :: "SizeClassInfo \<Rightarrow> CentralFreeList" where
  "new_CentralFreeList sc = \<lparr>span_list = nullptr, current_span = nullptr, obj_size = sc_size sc,
     num_free = 0, span_pages = sc_pages sc\<rparr>"

section \<open>Finding a span\<close>

definition span_has_available_objects :: "ptr \<Rightarrow> World \<Rightarrow> bool option" where
  "span_has_available_objects span w =
     (case span of
        None \<Rightarrow> Some False
      | Some i \<Rightarrow> do {
          s \<leftarrow> spans (ph w) i;
          Some (freelist_head s \<noteq> INVALID_INDEX \<or> next_uninitialized s < total_objects s) })"

partial_function (option) find_loop :: "ptr \<Rightarrow> World \<Rightarrow> ptr option" where
  "find_loop cur w =
     (case cur of
        None \<Rightarrow> Some nullptr
      | Some i \<Rightarrow> do {
          ok \<leftarrow> span_has_available_objects (Some i) w;
          if ok then Some (Some i)
          else do { s \<leftarrow> spans (ph w) i; find_loop (nxt s) w } })"

definition find_available_span :: "CentralFreeList \<Rightarrow> World \<Rightarrow> ptr option" where
  "find_available_span c w = find_loop (span_list c) w"

definition get_num_free :: "CentralFreeList \<Rightarrow> nat" where
  "get_num_free c = num_free c"

section \<open>Carving objects\<close>

text \<open>
  The inner loop of \<open>populate_span\<close>, which packs indexes into the node at \<open>node\<close>; it returns
  \<open>packed\<close>, \<open>i\<close> and the memory.
\<close>

function pack_loop :: "addr \<Rightarrow> nat \<Rightarrow> nat \<Rightarrow> nat \<Rightarrow> nat \<Rightarrow> (addr \<Rightarrow> nat) \<Rightarrow> nat \<times> nat \<times> (addr \<Rightarrow> nat)" where
  "pack_loop node pk i cap e m =
     (if pk < cap \<and> i < e
      then pack_loop node (u16 (pk + 1)) (i + 1) cap e (m(packed_indexes node pk := u16 i))
      else (pk, i, m))"
  by pat_completeness auto
termination
  by (relation "measure (\<lambda>(node, pk, i, cap, e, m). e - i)") auto

declare pack_loop.simps [simp del]

lemma pack_loop_le: "pack_loop node pk i cap e m = (pk', i', m') \<Longrightarrow> i \<le> i'"
proof (induction node pk i cap e m rule: pack_loop.induct)
  case (1 node pk i cap e m)
  show ?case
  proof (cases "pk < cap \<and> i < e")
    case True
    then have "pack_loop node (u16 (pk + 1)) (i + 1) cap e (m(packed_indexes node pk := u16 i)) = (pk', i', m')"
      using "1.prems" by (subst (asm) pack_loop.simps) simp
    from "1.IH" [OF True this] show ?thesis
      by simp
  next
    case False
    then show ?thesis
      using "1.prems" by (subst (asm) pack_loop.simps) auto
  qed
qed

text \<open>
  The outer loop, with the variables it updates as arguments: \<open>i\<close>, the span's \<open>freelist_head\<close>
  and \<open>num_free_objects\<close>, the list's \<open>num_free\<close> and the memory.
\<close>

function populate_loop ::
    "addr \<Rightarrow> nat \<Rightarrow> nat \<Rightarrow> nat \<Rightarrow> nat \<Rightarrow> nat \<Rightarrow> nat \<Rightarrow> nat \<Rightarrow> (addr \<Rightarrow> nat) \<Rightarrow> nat \<times> nat \<times> nat \<times> (addr \<Rightarrow> nat)" where
  "populate_loop base sz cap e i hd_idx span_free list_free m =
     (if i < e then
        (case pack_loop (index_to_ptr (u16 i) base sz) 0 (i + 1) cap e
                (m(next_idx (index_to_ptr (u16 i) base sz) := hd_idx)) of
           (pk, i1, m1) \<Rightarrow>
             populate_loop base sz cap e i1 (u16 i) (u32 (span_free + u32 (1 + pk)))
               (u32 (list_free + u32 (1 + pk)))
               (m1(node_count (index_to_ptr (u16 i) base sz) := pk)))
      else (hd_idx, span_free, list_free, m))"
  by pat_completeness auto
termination
  by (relation "measure (\<lambda>(base, sz, cap, e, i, hd_idx, span_free, list_free, m). e - i)")
    (auto dest!: pack_loop_le [OF sym])

declare populate_loop.simps [simp del]

definition populate_span :: "ptr \<Rightarrow> CentralFreeList \<Rightarrow> World \<Rightarrow> (CentralFreeList \<times> World) option" where
  "populate_span span c w =
     (case span of
        None \<Rightarrow> Some (c, w)
      | Some i \<Rightarrow> do {
          s \<leftarrow> spans (ph w) i;
          if total_objects s \<le> next_uninitialized s then Some (c, w)
          else
            let base = start s * PAGE_SIZE;
                cap = pack_capacity (obj_size c);
                objects_per_chunk = max (PAGE_SIZE div obj_size c) 1;
                chunk_end = min (total_objects s) (u32 (next_uninitialized s + objects_per_chunk))
            in (case populate_loop base (obj_size c) cap chunk_end (next_uninitialized s)
                       (freelist_head s) (num_free_objects s) (num_free c) (cells w) of
                  (hd_idx, span_free, list_free, m) \<Rightarrow> do {
                    w1 \<leftarrow> world_write i (\<lambda>q. q\<lparr>freelist_head := hd_idx, num_free_objects := span_free,
                                       next_uninitialized := chunk_end\<rparr>) (w\<lparr>cells := m\<rparr>);
                    Some (c\<lparr>num_free := list_free\<rparr>, w1) }) })"

section \<open>Spans in and out\<close>

text \<open>The \<open>assert\<close> on the object count is a branch without a result.\<close>

definition fetch_from_page_heap :: "CentralFreeList \<Rightarrow> World \<Rightarrow> (CentralFreeList \<times> World) option" where
  "fetch_from_page_heap c w =
     (if obj_size c = 0 \<or> span_pages c = 0 then Some (c, w)
      else do {
        (r, w1) \<leftarrow> world_alloc (span_pages c) (obj_size c) w;
        (case r of
           None \<Rightarrow> Some (c, w1)
         | Some i \<Rightarrow> do {
             w2 \<leftarrow> world_write i (\<lambda>q. q\<lparr>nxt := span_list c, prv := nullptr\<rparr>) w1;
             w3 \<leftarrow> (case span_list c of
                       None \<Rightarrow> Some w2
                     | Some l \<Rightarrow> world_write l (\<lambda>q. q\<lparr>prv := Some i\<rparr>) w2);
             s \<leftarrow> spans (ph w3) i;
             let cnt = u32 (num_pages s * PAGE_SIZE div obj_size c) in
             if 65535 < cnt then None
             else do {
               w4 \<leftarrow> world_write i (\<lambda>q. q\<lparr>total_objects := cnt, freelist_head := INVALID_INDEX,
                                    num_free_objects := 0, next_uninitialized := 0\<rparr>) w3;
               Some (c\<lparr>span_list := Some i, current_span := Some i\<rparr>, w4) } }) })"

text \<open>The fields both \<open>release_to_page_heap\<close> and the destructor reset.\<close>

definition reset_span :: "Span \<Rightarrow> Span" where
  "reset_span s = s\<lparr>nxt := nullptr, prv := nullptr, freelist_head := INVALID_INDEX,
     num_free_objects := 0, total_objects := 0, next_uninitialized := 0\<rparr>"

definition release_to_page_heap :: "nat \<Rightarrow> CentralFreeList \<Rightarrow> World \<Rightarrow> (CentralFreeList \<times> World) option" where
  "release_to_page_heap i c w = do {
     s \<leftarrow> spans (ph w) i;
     let c1 = (if current_span c = Some i then c\<lparr>current_span := nullptr\<rparr> else c);
         c2 = c1\<lparr>num_free := sub32 (num_free c1) (num_free_objects s)\<rparr>
     in do {
       (c3, w1) \<leftarrow> (case prv s of
                       Some p \<Rightarrow> do { w1 \<leftarrow> world_write p (\<lambda>q. q\<lparr>nxt := nxt s\<rparr>) w; Some (c2, w1) }
                     | None \<Rightarrow> Some (c2\<lparr>span_list := nxt s\<rparr>, w));
       s1 \<leftarrow> spans (ph w1) i;
       w2 \<leftarrow> (case nxt s1 of
                 Some n \<Rightarrow> world_write n (\<lambda>q. q\<lparr>prv := prv s1\<rparr>) w1
               | None \<Rightarrow> Some w1);
       w3 \<leftarrow> world_write i reset_span w2;
       w4 \<leftarrow> world_return i w3;
       Some (c3, w4) } }"

section \<open>Objects in and out\<close>

text \<open>
  Taking an object off the list of a span: the last index packed in the head node, or the head
  node itself. The result is the object, the new \<open>freelist_head\<close> and the memory.
\<close>

definition pop_object :: "addr \<Rightarrow> nat \<Rightarrow> nat \<Rightarrow> (addr \<Rightarrow> nat) \<Rightarrow> addr \<times> nat \<times> (addr \<Rightarrow> nat)" where
  "pop_object base sz hd_idx m =
     (let node = index_to_ptr hd_idx base sz in
      if 0 < m (node_count node) then
        let n = sub16 (m (node_count node)) 1;
            idx = m (packed_indexes node n)
        in (index_to_ptr idx base sz, hd_idx, m(node_count node := n))
      else (node, m (next_idx node), m))"

definition cfl_allocate :: "CentralFreeList \<Rightarrow> World \<Rightarrow> (addr \<times> CentralFreeList \<times> World) option" where
  "cfl_allocate c w = do {
     ok \<leftarrow> span_has_available_objects (current_span c) w;
     cur \<leftarrow> (if ok then Some (current_span c) else find_available_span c w);
     let c1 = c\<lparr>current_span := cur\<rparr> in do {
     (c2, w2) \<leftarrow> (if current_span c1 = nullptr then fetch_from_page_heap c1 w else Some (c1, w));
     (case current_span c2 of
        None \<Rightarrow> Some (0, c2, w2)
      | Some i \<Rightarrow> do {
          s \<leftarrow> spans (ph w2) i;
          (c3, w3) \<leftarrow> (if freelist_head s = INVALID_INDEX then populate_span (Some i) c2 w2
                        else Some (c2, w2));
          s3 \<leftarrow> spans (ph w3) i;
          if freelist_head s3 = INVALID_INDEX then Some (0, c3, w3)
          else (case pop_object (start s3 * PAGE_SIZE) (obj_size c3) (freelist_head s3) (cells w3) of
            (p, hd_idx, m) \<Rightarrow> do {
              w4 \<leftarrow> world_write i (\<lambda>q. q\<lparr>freelist_head := hd_idx,
                       num_free_objects := sub32 (num_free_objects q) 1\<rparr>) (w3\<lparr>cells := m\<rparr>);
              Some (p, c3\<lparr>num_free := sub32 (num_free c3) 1\<rparr>, w4) }) }) } }"

text \<open>
  Putting an object on the list of a span: its index goes into the head node when that has room,
  else the object becomes the new head node. The result is the new \<open>freelist_head\<close> and the
  memory.
\<close>

definition push_object :: "addr \<Rightarrow> nat \<Rightarrow> nat \<Rightarrow> addr \<Rightarrow> (addr \<Rightarrow> nat) \<Rightarrow> nat \<times> (addr \<Rightarrow> nat)" where
  "push_object base sz hd_idx p m =
     (let freed = ptr_to_index p base sz;
          head = index_to_ptr hd_idx base sz
      in if hd_idx \<noteq> INVALID_INDEX \<and> m (node_count head) < pack_capacity sz
         then (hd_idx, m(packed_indexes head (m (node_count head)) := freed,
                         node_count head := u16 (m (node_count head) + 1)))
         else (freed, m(next_idx p := hd_idx, node_count p := 0)))"

definition cfl_deallocate :: "addr \<Rightarrow> CentralFreeList \<Rightarrow> World \<Rightarrow> (CentralFreeList \<times> World) option" where
  "cfl_deallocate p c w =
     (if p = 0 then Some (c, w)
      else (case world_find p w of
        None \<Rightarrow> Some (c, w)
      | Some i \<Rightarrow> do {
          s \<leftarrow> spans (ph w) i;
          (case push_object (start s * PAGE_SIZE) (obj_size c) (freelist_head s) p (cells w) of
             (hd_idx, m) \<Rightarrow> do {
               w1 \<leftarrow> world_write i (\<lambda>q. q\<lparr>freelist_head := hd_idx,
                        num_free_objects := u32 (num_free_objects q + 1)\<rparr>) (w\<lparr>cells := m\<rparr>);
               let c1 = c\<lparr>num_free := u32 (num_free c + 1)\<rparr> in do {
               s1 \<leftarrow> spans (ph w1) i;
               if num_free_objects s1 = total_objects s1 then release_to_page_heap i c1 w1
               else Some (c1, w1) } }) }))"

primrec cfl_allocate_batch ::
    "nat \<Rightarrow> CentralFreeList \<Rightarrow> World \<Rightarrow> (addr list \<times> CentralFreeList \<times> World) option" where
  "cfl_allocate_batch 0 c w = Some ([], c, w)"
| "cfl_allocate_batch (Suc n) c w = do {
     (p, c1, w1) \<leftarrow> cfl_allocate c w;
     if p = 0 then Some ([], c1, w1)
     else do {
       (ps, c2, w2) \<leftarrow> cfl_allocate_batch n c1 w1;
       Some (p # ps, c2, w2) } }"

primrec cfl_deallocate_batch :: "addr list \<Rightarrow> CentralFreeList \<Rightarrow> World \<Rightarrow> (CentralFreeList \<times> World) option" where
  "cfl_deallocate_batch [] c w = Some (c, w)"
| "cfl_deallocate_batch (p # ps) c w = do {
     (c1, w1) \<leftarrow> cfl_deallocate p c w;
     cfl_deallocate_batch ps c1 w1 }"

section \<open>Destruction\<close>

partial_function (option) return_spans :: "ptr \<Rightarrow> World \<Rightarrow> World option" where
  "return_spans cur w =
     (case cur of
        None \<Rightarrow> Some w
      | Some i \<Rightarrow> do {
          s \<leftarrow> spans (ph w) i;
          w1 \<leftarrow> world_write i reset_span w;
          w2 \<leftarrow> world_return i w1;
          return_spans (nxt s) w2 })"

definition destroy_CentralFreeList :: "CentralFreeList \<Rightarrow> World \<Rightarrow> (CentralFreeList \<times> World) option" where
  "destroy_CentralFreeList c w = do {
     w1 \<leftarrow> return_spans (span_list c) w;
     Some (c\<lparr>span_list := nullptr, current_span := nullptr, num_free := 0\<rparr>, w1) }"

end
