(* ===== verification/Packed_Nodes.thy ===== *)
theory Packed_Nodes
  imports Central_Free_List
begin

text \<open>
  The packed free list of one span against its meaning, a set of object indexes. \<open>chain\<close> reads
  the unrolled list off the memory as its nodes; \<open>packed\<close> says that the list starting at an
  index holds exactly the objects of a set, each once. The three routines that work on the list
  remove an element, add an element, and add a range; none writes outside the free objects.
\<close>

section \<open>Meaning\<close>

type_synonym node = "nat \<times> nat list"

primrec chain :: "(addr \<Rightarrow> nat) \<Rightarrow> addr \<Rightarrow> nat \<Rightarrow> nat \<Rightarrow> node list \<Rightarrow> bool" where
  "chain m base sz h [] \<longleftrightarrow> h = INVALID_INDEX"
| "chain m base sz h (n # ns) \<longleftrightarrow>
     (let node = index_to_ptr h base sz in
        h = fst n \<and> m (node_count node) = length (snd n)
        \<and> (\<forall>j<length (snd n). m (packed_indexes node j) = snd n ! j)
        \<and> chain m base sz (m (next_idx node)) ns)"

definition idxs :: "node list \<Rightarrow> nat list" where
  "idxs ns = concat (map (\<lambda>n. fst n # snd n) ns)"

definition packed :: "nat \<Rightarrow> (addr \<Rightarrow> nat) \<Rightarrow> addr \<Rightarrow> nat \<Rightarrow> nat set \<Rightarrow> bool" where
  "packed sz m base h A \<longleftrightarrow> (\<exists>ns. chain m base sz h ns \<and> distinct (idxs ns) \<and> set (idxs ns) = A
     \<and> (\<forall>n\<in>set ns. length (snd n) \<le> pack_capacity sz))"

text \<open>The memory of the objects of a set.\<close>

definition cells_of :: "addr \<Rightarrow> nat \<Rightarrow> nat set \<Rightarrow> addr set" where
  "cells_of base sz A = (\<Union>k\<in>A. {base + k * sz ..< base + k * sz + sz})"

lemma idxs_simps [simp]: "idxs [] = []" "idxs (n # ns) = fst n # snd n @ idxs ns"
  by (simp_all add: idxs_def)

lemma cells_of_mono: "A \<subseteq> B \<Longrightarrow> cells_of base sz A \<subseteq> cells_of base sz B"
  by (auto simp: cells_of_def)

lemma cells_of_insert [simp]:
  "cells_of base sz (insert k A) = {base + k * sz ..< base + k * sz + sz} \<union> cells_of base sz A"
  by (simp add: cells_of_def)

lemma cells_of_Un: "cells_of base sz (A \<union> B) = cells_of base sz A \<union> cells_of base sz B"
  by (auto simp: cells_of_def)

lemma object_apart: "k < (l :: nat) \<Longrightarrow> k * sz + sz \<le> l * sz"
  by (metis Suc_leI add.commute mult_Suc mult_le_mono1)

lemma cells_of_other:
  assumes "a \<in> {base + k * sz ..< base + k * sz + sz}" "k \<notin> A"
  shows "a \<notin> cells_of base sz A"
proof
  assume "a \<in> cells_of base sz A"
  then obtain l where "l \<in> A" "base + l * sz \<le> a" "a < base + l * sz + sz"
    by (auto simp: cells_of_def)
  moreover from this have "l \<noteq> k"
    using assms(2) by blast
  ultimately show False
    using assms(1) object_apart [of k l sz] object_apart [of l k sz] by (cases "k < l") auto
qed

lemma cells_of_disjoint: "A \<inter> B = {} \<Longrightarrow> cells_of base sz A \<inter> cells_of base sz B = {}"
  using cells_of_other [of _ base _ sz B] by (fastforce simp: cells_of_def [of _ _ A])

text \<open>The fields of a node lie inside its object.\<close>

lemma pack_capacity_bound: "4 \<le> sz \<Longrightarrow> 4 + 2 * pack_capacity sz \<le> sz \<and> pack_capacity sz < 65536"
proof -
  have "u16 ((sz - 4) div 2) \<le> (sz - 4) div 2"
    by (simp add: u16_def)
  then show "4 \<le> sz \<Longrightarrow> ?thesis"
    by (simp add: pack_capacity_def)
qed

lemma node_fields:
  assumes "4 \<le> sz"
  shows "next_idx (index_to_ptr k base sz) \<in> {base + k * sz ..< base + k * sz + sz}"
    and "node_count (index_to_ptr k base sz) \<in> {base + k * sz ..< base + k * sz + sz}"
    and "j < pack_capacity sz \<Longrightarrow>
      packed_indexes (index_to_ptr k base sz) j \<in> {base + k * sz ..< base + k * sz + sz}"
  using assms pack_capacity_bound [OF assms]
  by (simp_all add: next_idx_def node_count_def packed_indexes_def index_to_ptr_def)

lemma node_fields_distinct [simp]:
  "next_idx a \<noteq> node_count a" "node_count a \<noteq> next_idx a"
  "packed_indexes a j \<noteq> next_idx a" "packed_indexes a j \<noteq> node_count a"
  "next_idx a \<noteq> packed_indexes a j" "node_count a \<noteq> packed_indexes a j"
  "packed_indexes a i = packed_indexes a j \<longleftrightarrow> i = j"
  by (simp_all add: next_idx_def node_count_def packed_indexes_def)

lemma chain_cong:
  assumes "4 \<le> sz" "\<forall>n\<in>set ns. length (snd n) \<le> pack_capacity sz"
    and "\<And>a. a \<in> cells_of base sz (fst ` set ns) \<Longrightarrow> m' a = m a"
  shows "chain m' base sz h ns = chain m base sz h ns"
  using assms(2,3)
proof (induction ns arbitrary: h)
  case (Cons n ns)
  let ?node = "index_to_ptr (fst n) base sz"
  have own: "m' a = m a" if "a \<in> {base + fst n * sz ..< base + fst n * sz + sz}" for a
    using Cons.prems(2) that by (simp add: cells_of_def)
  then have "m' (node_count ?node) = m (node_count ?node)" "m' (next_idx ?node) = m (next_idx ?node)"
    using node_fields [OF assms(1)] by blast+
  moreover have "m' (packed_indexes ?node j) = m (packed_indexes ?node j)" if "j < length (snd n)" for j
    using own node_fields(3) [OF assms(1), of j "fst n" base] that Cons.prems(1) by fastforce
  moreover have "chain m' base sz g ns = chain m base sz g ns" for g
    using Cons.prems by (intro Cons.IH) (auto simp: cells_of_def)
  ultimately show ?case
    by (auto simp: Let_def)
qed simp

lemma set_idxs: "fst ` set ns \<subseteq> set (idxs ns)"
  by (induction ns) auto

lemma packed_cong:
  assumes "packed sz m base h A" "4 \<le> sz" "\<And>a. a \<in> cells_of base sz A \<Longrightarrow> m' a = m a"
  shows "packed sz m' base h A"
proof -
  obtain ns where ns: "chain m base sz h ns" "distinct (idxs ns)" "set (idxs ns) = A"
      "\<forall>n\<in>set ns. length (snd n) \<le> pack_capacity sz"
    using assms(1) by (auto simp: packed_def)
  have "m' a = m a" if "a \<in> cells_of base sz (fst ` set ns)" for a
    using assms(3) that cells_of_mono [OF set_idxs, of base sz ns] ns(3) by blast
  then have "chain m' base sz h ns"
    using chain_cong [OF assms(2) ns(4), of base m' m h] ns(1) by simp
  then show ?thesis
    using ns by (auto simp: packed_def)
qed

lemma packed_empty: "packed sz m base INVALID_INDEX {}"
  by (auto simp: packed_def intro!: exI [of _ "[]"])

lemma packed_finite: "packed sz m base h A \<Longrightarrow> finite A"
  by (auto simp: packed_def)

lemma packed_nonempty: "packed sz m base h A \<Longrightarrow> h \<noteq> INVALID_INDEX \<Longrightarrow> h \<in> A"
proof -
  assume "packed sz m base h A" "h \<noteq> INVALID_INDEX"
  then obtain ns where "chain m base sz h ns" "set (idxs ns) = A" "h \<noteq> INVALID_INDEX"
    by (auto simp: packed_def)
  then show "h \<in> A"
    by (cases ns) (auto simp: Let_def)
qed

lemma packed_INVALID: "packed sz m base INVALID_INDEX A \<Longrightarrow> INVALID_INDEX \<notin> A \<Longrightarrow> A = {}"
proof -
  assume "packed sz m base INVALID_INDEX A" "INVALID_INDEX \<notin> A"
  then obtain ns where "chain m base sz INVALID_INDEX ns" "set (idxs ns) = A" "INVALID_INDEX \<notin> A"
    by (auto simp: packed_def)
  then show "A = {}"
    by (cases ns) (auto simp: Let_def)
qed

section \<open>Removing an object\<close>

lemma packed_pop:
  assumes A: "packed sz m base h A" and h: "h \<noteq> INVALID_INDEX" and sz: "4 \<le> sz"
  shows "\<exists>x h' m'. pop_object base sz h m = (index_to_ptr x base sz, h', m') \<and> x \<in> A
     \<and> packed sz m' base h' (A - {x}) \<and> (\<forall>a. a \<notin> cells_of base sz A \<longrightarrow> m' a = m a)"
proof -
  obtain ns where ns: "chain m base sz h ns" "distinct (idxs ns)" "set (idxs ns) = A"
      "\<forall>n\<in>set ns. length (snd n) \<le> pack_capacity sz"
    using A by (auto simp: packed_def)
  obtain ps rest where "ns = (h, ps) # rest"
    using ns(1) h by (cases ns) (auto simp: Let_def)
  note ns = ns [unfolded this]
  let ?node = "index_to_ptr h base sz"
  have cnt: "m (node_count ?node) = length ps" and slots: "\<forall>j<length ps. m (packed_indexes ?node j) = ps ! j"
    and tl: "chain m base sz (m (next_idx ?node)) rest"
    using ns(1) by (simp_all add: Let_def)
  show ?thesis
  proof (cases ps rule: rev_cases)
    case Nil
    have "pop_object base sz h m = (?node, m (next_idx ?node), m)"
      using cnt Nil by (simp add: pop_object_def Let_def)
    moreover have "packed sz m base (m (next_idx ?node)) (A - {h})"
      unfolding packed_def using tl ns(2-4) Nil by (intro exI [of _ rest]) auto
    ultimately show ?thesis
      using ns(3) by auto
  next
    case (snoc qs x)
    have cap: "length ps \<le> pack_capacity sz" "pack_capacity sz < 65536"
      using ns(4) pack_capacity_bound [OF sz] by auto
    let ?m = "m(node_count ?node := length qs)"
    have "sub16 (m (node_count ?node)) 1 = length qs"
      using cnt snoc cap by (simp add: wrap_simps)
    moreover have "m (packed_indexes ?node (length qs)) = x"
      using slots snoc by simp
    ultimately have "pop_object base sz h m = (index_to_ptr x base sz, h, ?m)"
      using cnt snoc by (simp add: pop_object_def Let_def)
    moreover have "packed sz ?m base h (A - {x})"
      unfolding packed_def
    proof (intro exI conjI)
      have "h \<notin> fst ` set rest"
        using ns(2) set_idxs [of rest] by auto
      then have "node_count ?node \<notin> cells_of base sz (fst ` set rest)"
        using cells_of_other node_fields(2) [OF sz] by blast
      then have "chain ?m base sz (m (next_idx ?node)) rest"
        using tl ns(4) by (subst chain_cong [OF sz, of _ _ _ m]) auto
      then show "chain ?m base sz h ((h, qs) # rest)"
        using slots snoc by (auto simp: Let_def nth_append)
      show "distinct (idxs ((h, qs) # rest))" "set (idxs ((h, qs) # rest)) = A - {x}"
        using ns(2,3) snoc by auto
      show "\<forall>n\<in>set ((h, qs) # rest). length (snd n) \<le> pack_capacity sz"
        using ns(4) snoc by auto
    qed
    moreover have "h \<in> A" "x \<in> A"
      using ns(3) snoc by auto
    moreover from this have "node_count ?node \<in> cells_of base sz A"
      using node_fields(2) [OF sz, of h base] by (auto simp: cells_of_def)
    ultimately show ?thesis
      by (intro exI [of _ x] exI [of _ h] exI [of _ ?m]) auto
  qed
qed

section \<open>Adding an object\<close>

lemma ptr_to_index_inverse: "0 < sz \<Longrightarrow> x < 65536 \<Longrightarrow> ptr_to_index (index_to_ptr x base sz) base sz = x"
  by (simp add: ptr_to_index_def index_to_ptr_def u16_def)

text \<open>An index goes into the head node while it has room, else it becomes the new head node.\<close>

lemma packed_push_room:
  assumes A: "packed sz m base h A" and sz: "4 \<le> sz" and x: "x \<notin> A" "x < INVALID_INDEX"
    and room: "h \<noteq> INVALID_INDEX \<and> m (node_count (index_to_ptr h base sz)) < pack_capacity sz"
  shows "\<exists>h' m'. push_object base sz h (index_to_ptr x base sz) m = (h', m') \<and> h' \<noteq> INVALID_INDEX
     \<and> packed sz m' base h' (insert x A) \<and> (\<forall>a. a \<notin> cells_of base sz (insert x A) \<longrightarrow> m' a = m a)"
proof -
  obtain ns where ns: "chain m base sz h ns" "distinct (idxs ns)" "set (idxs ns) = A"
      "\<forall>n\<in>set ns. length (snd n) \<le> pack_capacity sz"
    using A by (auto simp: packed_def)
  have idx: "ptr_to_index (index_to_ptr x base sz) base sz = x"
    using x(2) sz by (simp add: ptr_to_index_inverse INVALID_INDEX_def)
  let ?node = "index_to_ptr h base sz"
  obtain ps rest where ps: "ns = (h, ps) # rest"
    using ns(1) room by (cases ns) (auto simp: Let_def)
  note ns = ns [unfolded ps]
  have cnt: "m (node_count ?node) = length ps" and slots: "\<forall>j<length ps. m (packed_indexes ?node j) = ps ! j"
    and tl: "chain m base sz (m (next_idx ?node)) rest"
    using ns(1) by (simp_all add: Let_def)
  have cap: "length ps < pack_capacity sz" "pack_capacity sz < 65536"
    using room cnt pack_capacity_bound [OF sz] by auto
  let ?m = "m(packed_indexes ?node (length ps) := x, node_count ?node := Suc (length ps))"
  have run: "push_object base sz h (index_to_ptr x base sz) m = (h, ?m)"
    using room cnt idx cap by (simp add: push_object_def Let_def wrap_simps)
  have fields: "packed_indexes ?node (length ps) \<in> {base + h * sz ..< base + h * sz + sz}"
      "node_count ?node \<in> {base + h * sz ..< base + h * sz + sz}"
    using node_fields [OF sz] cap(1) by blast+
  have "h \<notin> fst ` set rest"
    using ns(2) set_idxs [of rest] by auto
  then have "packed_indexes ?node (length ps) \<notin> cells_of base sz (fst ` set rest)"
      "node_count ?node \<notin> cells_of base sz (fst ` set rest)"
    using cells_of_other fields by blast+
  then have "chain ?m base sz (m (next_idx ?node)) rest"
    using tl ns(4) by (subst chain_cong [OF sz, of _ _ _ m]) auto
  then have "chain ?m base sz h ((h, ps @ [x]) # rest)"
    using slots by (auto simp: Let_def nth_append less_Suc_eq)
  moreover have "distinct (idxs ((h, ps @ [x]) # rest))" "set (idxs ((h, ps @ [x]) # rest)) = insert x A"
    using ns(2,3) x(1) by auto
  moreover have "\<forall>n\<in>set ((h, ps @ [x]) # rest). length (snd n) \<le> pack_capacity sz"
    using ns(4) cap by auto
  ultimately have "packed sz ?m base h (insert x A)"
    unfolding packed_def by blast
  moreover have "h \<in> A"
    using ns(3) by auto
  then have "{base + h * sz ..< base + h * sz + sz} \<subseteq> cells_of base sz (insert x A)"
    by (auto simp: cells_of_def)
  ultimately show ?thesis
    using run fields room by (intro exI [of _ h] exI [of _ ?m]) auto
qed

lemma packed_push_node:
  assumes A: "packed sz m base h A" and sz: "4 \<le> sz" and x: "x \<notin> A" "x < INVALID_INDEX"
    and room: "\<not> (h \<noteq> INVALID_INDEX \<and> m (node_count (index_to_ptr h base sz)) < pack_capacity sz)"
  shows "\<exists>h' m'. push_object base sz h (index_to_ptr x base sz) m = (h', m') \<and> h' \<noteq> INVALID_INDEX
     \<and> packed sz m' base h' (insert x A) \<and> (\<forall>a. a \<notin> cells_of base sz (insert x A) \<longrightarrow> m' a = m a)"
proof -
  obtain ns where ns: "chain m base sz h ns" "distinct (idxs ns)" "set (idxs ns) = A"
      "\<forall>n\<in>set ns. length (snd n) \<le> pack_capacity sz"
    using A by (auto simp: packed_def)
  have idx: "ptr_to_index (index_to_ptr x base sz) base sz = x"
    using x(2) sz by (simp add: ptr_to_index_inverse INVALID_INDEX_def)
  let ?new = "index_to_ptr x base sz"
  let ?m = "m(next_idx ?new := h, node_count ?new := 0)"
  have run: "push_object base sz h ?new m = (x, ?m)"
    using room idx by (auto simp: push_object_def Let_def)
  have fields: "next_idx ?new \<in> {base + x * sz ..< base + x * sz + sz}"
      "node_count ?new \<in> {base + x * sz ..< base + x * sz + sz}"
    using node_fields [OF sz] by blast+
  have "x \<notin> fst ` set ns"
    using x(1) ns(3) set_idxs [of ns] by auto
  then have "next_idx ?new \<notin> cells_of base sz (fst ` set ns)" "node_count ?new \<notin> cells_of base sz (fst ` set ns)"
    using cells_of_other fields by blast+
  then have "chain ?m base sz h ns"
    using ns(1,4) by (subst chain_cong [OF sz, of _ _ _ m]) auto
  then have "chain ?m base sz x ((x, []) # ns)"
    by (simp add: Let_def)
  moreover have "distinct (idxs ((x, []) # ns))" "set (idxs ((x, []) # ns)) = insert x A"
    using ns(2,3) x(1) by auto
  moreover have "\<forall>n\<in>set ((x, []) # ns). length (snd n) \<le> pack_capacity sz"
    using ns(4) by auto
  ultimately have "packed sz ?m base x (insert x A)"
    unfolding packed_def by blast
  then show ?thesis
    using run fields x(2) by (intro exI [of _ x] exI [of _ ?m]) auto
qed

lemma packed_push:
  assumes "packed sz m base h A" "4 \<le> sz" "x \<notin> A" "x < INVALID_INDEX"
  shows "\<exists>h' m'. push_object base sz h (index_to_ptr x base sz) m = (h', m') \<and> h' \<noteq> INVALID_INDEX
     \<and> packed sz m' base h' (insert x A) \<and> (\<forall>a. a \<notin> cells_of base sz (insert x A) \<longrightarrow> m' a = m a)"
  using packed_push_room [OF assms] packed_push_node [OF assms] by blast

section \<open>Carving a range\<close>

text \<open>The inner loop packs as many indexes as the node has room for and the range has left.\<close>

lemma pack_loop_spec:
  assumes "pk \<le> cap" "i \<le> e" "cap < 65536" "e < 65536"
  shows "\<exists>m'. pack_loop node pk i cap e m = (pk + min (cap - pk) (e - i), i + min (cap - pk) (e - i), m')
     \<and> (\<forall>j<min (cap - pk) (e - i). m' (packed_indexes node (pk + j)) = i + j)
     \<and> (\<forall>a. (\<forall>j<min (cap - pk) (e - i). a \<noteq> packed_indexes node (pk + j)) \<longrightarrow> m' a = m a)"
  using assms
proof (induction "min (cap - pk) (e - i)" arbitrary: pk i m)
  case 0
  then show ?case
    by (subst pack_loop.simps) auto
next
  case (Suc t)
  have lt: "pk < cap" "i < e"
    using Suc.hyps(2) by auto
  have wrap: "u16 (pk + 1) = Suc pk" "u16 i = i"
    using lt Suc.prems by (simp_all add: wrap_simps)
  have t: "min (cap - pk) (e - i) = Suc t" "t = min (cap - Suc pk) (e - Suc i)"
    using Suc.hyps(2) by auto
  obtain m' where m': "pack_loop node (Suc pk) (Suc i) cap e (m(packed_indexes node pk := i)) =
        (Suc pk + t, Suc i + t, m')"
      "\<forall>j<t. m' (packed_indexes node (Suc pk + j)) = Suc i + j"
      "\<forall>a. (\<forall>j<t. a \<noteq> packed_indexes node (Suc pk + j)) \<longrightarrow> m' a = (m(packed_indexes node pk := i)) a"
    using Suc.hyps(1) [OF t(2), of "m(packed_indexes node pk := i)"] lt Suc.prems unfolding t(2) [symmetric] by auto
  have "m' (packed_indexes node (pk + j)) = i + j" if "j < Suc t" for j
  proof (cases j)
    case 0
    then show ?thesis
      using m'(3) by simp
  next
    case (Suc k)
    then show ?thesis
      using m'(2) that by auto
  qed
  moreover have "m' a = m a" if "\<forall>j<Suc t. a \<noteq> packed_indexes node (pk + j)" for a
  proof -
    have "a \<noteq> packed_indexes node (Suc pk + j)" if "j < t" for j
      using \<open>\<forall>j<Suc t. _\<close> that by (metis Suc_less_eq add_Suc_shift)
    then show ?thesis
      using m'(3) that by auto
  qed
  moreover have "pack_loop node pk i cap e m = (pk + Suc t, i + Suc t, m')"
    using m'(1) lt wrap by (subst pack_loop.simps) simp
  ultimately show ?case
    unfolding t(1) by blast
qed

text \<open>One round of the outer loop: a new head node at \<open>i\<close> that packs the next indexes.\<close>

lemma packed_new_node:
  assumes A: "packed sz m base h A" and sz: "4 \<le> sz" and new: "A \<inter> {i ..< Suc i + t} = {}"
    and t: "t \<le> pack_capacity sz"
    and m1: "m1 (next_idx (index_to_ptr i base sz)) = h" "m1 (node_count (index_to_ptr i base sz)) = t"
      "\<forall>j<t. m1 (packed_indexes (index_to_ptr i base sz) j) = Suc i + j"
    and frame: "\<And>a. a \<notin> {base + i * sz ..< base + i * sz + sz} \<Longrightarrow> m1 a = m a"
  shows "packed sz m1 base i (A \<union> {i ..< Suc i + t})"
proof -
  have "i \<notin> A"
    using new by auto
  then have "m1 a = m a" if "a \<in> cells_of base sz A" for a
    using frame cells_of_other that by blast
  then have "packed sz m1 base h A"
    using packed_cong [OF A sz] by blast
  then obtain ns where ns: "chain m1 base sz h ns" "distinct (idxs ns)" "set (idxs ns) = A"
      "\<forall>n\<in>set ns. length (snd n) \<le> pack_capacity sz"
    by (auto simp: packed_def)
  have "chain m1 base sz i ((i, [Suc i ..< Suc i + t]) # ns)"
    using m1 ns(1) by (simp add: Let_def del: upt_Suc)
  moreover have "set (idxs ((i, [Suc i ..< Suc i + t]) # ns)) = A \<union> {i ..< Suc i + t}"
    using ns(3) by auto
  moreover have "distinct (idxs ((i, [Suc i ..< Suc i + t]) # ns))"
    using ns(2,3) new by auto
  moreover have "\<forall>n\<in>set ((i, [Suc i ..< Suc i + t]) # ns). length (snd n) \<le> pack_capacity sz"
    using ns(4) t by simp
  ultimately show ?thesis
    unfolding packed_def by blast
qed

text \<open>One round of the loop: a new node with the indexes of the objects behind it.\<close>

lemma populate_round:
  assumes A: "packed sz m base h A" "A \<inter> {i ..< e} = {}" and sz: "4 \<le> sz" and i: "i < e" "e < 65536" "span_free + (e - i) < 4294967296"
  shows "\<exists>t m2. Suc i + t \<le> e \<and> packed sz m2 base i (A \<union> {i ..< Suc i + t})
     \<and> (\<forall>a. a \<notin> {base + i * sz ..< base + i * sz + sz} \<longrightarrow> m2 a = m a)
     \<and> populate_loop base sz (pack_capacity sz) e i h span_free (u32 list_free) m =
         populate_loop base sz (pack_capacity sz) e (Suc i + t) i (span_free + Suc t) (u32 (list_free + Suc t)) m2"
proof -
  let ?node = "index_to_ptr i base sz" and ?cap = "pack_capacity sz"
  define t where "t = min ?cap (e - Suc i)"
  have cap: "?cap < 65536"
    using pack_capacity_bound [OF sz] by simp
  have i16: "u16 i = i"
    using i by (simp add: wrap_simps)
  obtain m1 where m1: "pack_loop ?node 0 (Suc i) ?cap e (m(next_idx ?node := h)) = (t, Suc i + t, m1)"
      "\<forall>j<t. m1 (packed_indexes ?node j) = Suc i + j"
      "\<forall>a. (\<forall>j<t. a \<noteq> packed_indexes ?node j) \<longrightarrow> m1 a = (m(next_idx ?node := h)) a"
    using pack_loop_spec [of 0 ?cap "Suc i" e ?node "m(next_idx ?node := h)"] i cap by (auto simp: t_def)
  define m2 where "m2 = m1(node_count ?node := t)"
  have t: "t \<le> ?cap" "Suc i + t \<le> e"
    using i by (auto simp: t_def)
  have frame: "m2 a = m a" if "a \<notin> {base + i * sz ..< base + i * sz + sz}" for a
  proof -
    have "a \<noteq> packed_indexes ?node j" if "j < t" for j
      using node_fields(3) [OF sz, of j i base] that t(1) \<open>a \<notin> _\<close> by fastforce
    moreover have "a \<noteq> next_idx ?node" "a \<noteq> node_count ?node"
      using node_fields(1,2) [OF sz, of i base] that by blast+
    ultimately show ?thesis
      using m1(3) by (simp add: m2_def)
  qed
  have node: "packed sz m2 base i (A \<union> {i ..< Suc i + t})"
  proof (rule packed_new_node [OF A(1) sz _ t(1) _ _ _ frame])
    show "A \<inter> {i ..< Suc i + t} = {}"
      using A(2) t(2) by auto
  qed (use m1 in \<open>auto simp: m2_def\<close>)
  have "u32 (u32 list_free + u32 (1 + t)) = u32 (list_free + Suc t)"
    by (simp add: u32_def mod_add_eq)
  moreover have "u32 (span_free + u32 (1 + t)) = span_free + Suc t"
    using i t(2) by (simp add: wrap_simps)
  ultimately have "populate_loop base sz ?cap e i h span_free (u32 list_free) m =
      populate_loop base sz ?cap e (Suc i + t) i (span_free + Suc t) (u32 (list_free + Suc t)) m2"
    using i i16 m1(1) by (subst populate_loop.simps) (simp add: m2_def)
  then show ?thesis
    using t(2) node frame by blast
qed

lemma packed_populate:
  assumes "packed sz m base h A" "4 \<le> sz" "A \<inter> {i ..< e} = {}" "i \<le> e" "e < 65536" "span_free + (e - i) < 4294967296"
  shows "\<exists>h' m'. populate_loop base sz (pack_capacity sz) e i h span_free (u32 list_free) m =
        (h', span_free + (e - i), u32 (list_free + (e - i)), m')
     \<and> packed sz m' base h' (A \<union> {i ..< e}) \<and> (i < e \<longrightarrow> h' < e)
     \<and> (\<forall>a. a \<notin> cells_of base sz {i ..< e} \<longrightarrow> m' a = m a)"
  using assms
proof (induction "e - i" arbitrary: i h A m span_free list_free rule: less_induct)
  case less
  note A = less.prems(1) and sz = less.prems(2)
  show ?case
  proof (cases "i < e")
    case False
    then show ?thesis
      using less.prems by (subst populate_loop.simps) simp
  next
    case True
    obtain t m2 where t: "Suc i + t \<le> e" "packed sz m2 base i (A \<union> {i ..< Suc i + t})"
        "\<forall>a. a \<notin> {base + i * sz ..< base + i * sz + sz} \<longrightarrow> m2 a = m a"
        "populate_loop base sz (pack_capacity sz) e i h span_free (u32 list_free) m =
         populate_loop base sz (pack_capacity sz) e (Suc i + t) i (span_free + Suc t) (u32 (list_free + Suc t)) m2"
      using populate_round [OF A less.prems(3) sz True less.prems(5,6)] by blast
    have "e - (Suc i + t) < e - i" "(A \<union> {i ..< Suc i + t}) \<inter> {Suc i + t ..< e} = {}"
        "(span_free + Suc t) + (e - (Suc i + t)) = span_free + (e - i)" "(list_free + Suc t) + (e - (Suc i + t)) = list_free + (e - i)"
      using less.prems(3) True t(1) by auto
    then obtain h' m' where rec: "populate_loop base sz (pack_capacity sz) e (Suc i + t) i (span_free + Suc t)
          (u32 (list_free + Suc t)) m2 = (h', span_free + (e - i), u32 (list_free + (e - i)), m')"
        "packed sz m' base h' (A \<union> {i ..< Suc i + t} \<union> {Suc i + t ..< e})"
        "Suc i + t < e \<longrightarrow> h' < e" "\<forall>a. a \<notin> cells_of base sz {Suc i + t ..< e} \<longrightarrow> m' a = m2 a"
      using less.hyps [of "Suc i + t" m2 i "A \<union> {i ..< Suc i + t}" "span_free + Suc t" "list_free + Suc t"]
        less.prems sz t(1,2) by auto
    have "A \<union> {i ..< Suc i + t} \<union> {Suc i + t ..< e} = A \<union> {i ..< e}"
      using t(1) by auto
    moreover have "h' < e"
    proof (cases "Suc i + t < e")
      case False
      then show ?thesis
        using rec(1) True by (subst (asm) populate_loop.simps) simp
    qed (use rec(3) in simp)
    moreover have "m' a = m a" if "a \<notin> cells_of base sz {i ..< e}" for a
    proof -
      have "a \<notin> cells_of base sz {Suc i + t ..< e}" "a \<notin> {base + i * sz ..< base + i * sz + sz}"
        using that True cells_of_mono [of "{Suc i + t ..< e}" "{i ..< e}"] by (auto simp: cells_of_def)
      then show ?thesis
        using rec(4) t(3) by simp
    qed
    ultimately show ?thesis
      using rec(1,2) t(4) by (intro exI [of _ h'] exI [of _ m']) simp
  qed
qed

end
