(* ===== verification/Central_Free_List_Inv.thy ===== *)
theory Central_Free_List_Inv
  imports Packed_Nodes
begin

text \<open>
  The invariant of a central free list and its preservation by the single steps: writing one
  span, carving, linking a new span, unlinking a full one. \<open>L\<close> is the list of its spans and
  \<open>A i\<close> the set of free objects of span \<open>i\<close>. Links are kept apart from the other fields by
  \<open>view\<close>, as in the page heap, and \<open>cfl_frame\<close> says that nothing of the other clients of the
  page heap changes.
\<close>

section \<open>One span\<close>

definition base_of :: "Span \<Rightarrow> addr" where
  "base_of s = start s * PAGE_SIZE"

definition good_span :: "nat \<Rightarrow> nat \<Rightarrow> (addr \<Rightarrow> nat) \<Rightarrow> Span \<Rightarrow> nat set \<Rightarrow> bool" where
  "good_span sz pg m s A \<longleftrightarrow> num_pages s = pg \<and> span_size s = sz
     \<and> total_objects s = pg * PAGE_SIZE div sz \<and> total_objects s \<le> 65535
     \<and> next_uninitialized s \<le> total_objects s \<and> num_free_objects s = card A
     \<and> A \<subseteq> {..<next_uninitialized s} \<and> packed sz m (base_of s) (freelist_head s) A"

text \<open>The objects of a span that have been carved and are not free: those clients hold.\<close>

definition held_objects :: "nat \<Rightarrow> Span \<Rightarrow> nat set \<Rightarrow> addr set" where
  "held_objects sz s A = (\<lambda>k. base_of s + k * sz) ` ({..<next_uninitialized s} - A)"

lemma payload_more [simp]:
  "total_objects (payload s) = total_objects s" "num_free_objects (payload s) = num_free_objects s"
  "next_uninitialized (payload s) = next_uninitialized s" "freelist_head (payload s) = freelist_head s"
  by (simp_all add: payload_def)

lemma base_of_payload [simp]: "base_of (payload s) = base_of s"
  by (simp add: base_of_def)

lemma good_span_payload [simp]: "good_span sz pg m (payload s) A = good_span sz pg m s A"
  by (simp add: good_span_def)

lemma held_objects_payload [simp]: "held_objects sz (payload s) A = held_objects sz s A"
  by (simp add: held_objects_def)

text \<open>The objects of a span lie in its pages.\<close>

lemma object_page:
  assumes "good_span sz pg m s A" "k < total_objects s" "a \<in> {base_of s + k * sz ..< base_of s + k * sz + sz}"
  shows "a div PAGE_SIZE \<in> pages_of s"
proof -
  have s: "num_pages s = pg" "total_objects s = pg * PAGE_SIZE div sz"
    using assms(1) by (simp_all add: good_span_def)
  have "Suc k * sz \<le> total_objects s * sz"
    using assms(2) by (intro mult_le_mono1) simp
  also have "\<dots> \<le> pg * PAGE_SIZE"
    by (simp add: s(2))
  finally have "start s * PAGE_SIZE \<le> a" "a < (start s + num_pages s) * PAGE_SIZE"
    using assms(3) by (auto simp: base_of_def s(1) algebra_simps)
  then show ?thesis
    by (simp add: pages_of_def PAGE_SIZE_def less_eq_div_iff_mult_less_eq div_less_iff_less_mult)
qed

lemma objects_page:
  assumes "good_span sz pg m s A" "K \<subseteq> {..<total_objects s}" "a \<in> cells_of (base_of s) sz K"
  shows "a div PAGE_SIZE \<in> pages_of s"
  using assms object_page by (fastforce simp: cells_of_def)

lemma good_span_cong:
  assumes "good_span sz pg m s A" "4 \<le> sz" "\<And>a. a div PAGE_SIZE \<in> pages_of s \<Longrightarrow> m' a = m a"
  shows "good_span sz pg m' s A"
proof -
  have "A \<subseteq> {..<total_objects s}"
    using assms(1) by (auto simp: good_span_def)
  then have "m' a = m a" if "a \<in> cells_of (base_of s) sz A" for a
    using objects_page [OF assms(1) _ that] assms(3) by blast
  then show ?thesis
    using assms(1) packed_cong [of sz m "base_of s" "freelist_head s" A m'] assms(2) by (simp add: good_span_def)
qed

lemma good_span_bound: "good_span sz pg m s A \<Longrightarrow> k \<in> A \<Longrightarrow> k < INVALID_INDEX"
  by (auto simp: good_span_def INVALID_INDEX_def)

lemma good_span_finite: "good_span sz pg m s A \<Longrightarrow> finite A"
  by (auto simp: good_span_def intro: finite_subset)

section \<open>The whole list\<close>

definition cfl_state :: "CentralFreeList \<Rightarrow> World \<Rightarrow> nat list \<Rightarrow> (nat \<Rightarrow> nat set) \<Rightarrow> bool" where
  "cfl_state c w L A \<longleftrightarrow> world_ok w
     \<and> 4 \<le> obj_size c \<and> obj_size c < 4294967295 \<and> span_pages c * PAGE_SIZE div obj_size c \<le> 65535
     \<and> dll (live w) (span_list c) L \<and> distinct L
     \<and> (\<forall>i\<in>set L. \<exists>s. view (live w) i = Some s \<and> good_span (obj_size c) (span_pages c) (cells w) s (A i))
     \<and> (\<forall>i. current_span c = Some i \<longrightarrow> i \<in> set L)
     \<and> num_free c = u32 (\<Sum>i\<in>set L. card (A i))"

definition cfl_held :: "CentralFreeList \<Rightarrow> World \<Rightarrow> nat list \<Rightarrow> (nat \<Rightarrow> nat set) \<Rightarrow> addr set" where
  "cfl_held c w L A = (\<Union>i\<in>set L. held_objects (obj_size c) (the (live w i)) (A i))"

text \<open>The other clients: their spans are the live spans outside \<open>L\<close>.\<close>

definition cfl_frame :: "nat list \<Rightarrow> World \<Rightarrow> World \<Rightarrow> bool" where
  "cfl_frame L w w' \<longleftrightarrow> (\<forall>j s. live w j = Some s \<and> j \<notin> set L \<longrightarrow>
     live w' j = Some s \<and> (\<forall>a. a div PAGE_SIZE \<in> pages_of s \<longrightarrow> cells w' a = cells w a))"

lemma cfl_frame_refl [simp]: "cfl_frame L w w"
  by (simp add: cfl_frame_def)

text \<open>The contents of objects: what their holders have written there.\<close>

definition cells_kept :: "nat \<Rightarrow> addr set \<Rightarrow> World \<Rightarrow> World \<Rightarrow> bool" where
  "cells_kept sz H w w' \<longleftrightarrow> (\<forall>p\<in>H. \<forall>a\<in>{p ..< p + sz}. cells w' a = cells w a)"

lemma cells_kept_same: "cells w' = cells w \<Longrightarrow> cells_kept sz H w w'"
  by (simp add: cells_kept_def)

lemma cells_kept_trans: "cells_kept sz H w w1 \<Longrightarrow> cells_kept sz H w1 w2 \<Longrightarrow> cells_kept sz H w w2"
  by (simp add: cells_kept_def)

lemma cells_kept_mono: "cells_kept sz H w w' \<Longrightarrow> K \<subseteq> H \<Longrightarrow> cells_kept sz K w w'"
  by (auto simp: cells_kept_def)

text \<open>The spans of the list after an operation: the old ones and new ones of the page heap.\<close>

definition grows :: "World \<Rightarrow> nat list \<Rightarrow> nat list \<Rightarrow> bool" where
  "grows w L L' \<longleftrightarrow> (\<forall>i\<in>set L'. i \<in> set L \<or> live w i = None)"

lemma grows_refl [simp]: "grows w L L"
  by (simp add: grows_def)

lemma grows_subset: "set L' \<subseteq> set L \<Longrightarrow> grows w L L'"
  by (auto simp: grows_def)

lemma cfl_frame_trans:
  assumes "cfl_frame L w w1" "cfl_frame L1 w1 w2" "grows w L L1"
  shows "cfl_frame L w w2"
  unfolding cfl_frame_def
proof (intro allI impI)
  fix j s
  assume j: "live w j = Some s \<and> j \<notin> set L"
  then have "live w1 j = Some s" "\<forall>a. a div PAGE_SIZE \<in> pages_of s \<longrightarrow> cells w1 a = cells w a"
    using assms(1) unfolding cfl_frame_def by blast+
  moreover have "j \<notin> set L1"
    using assms(3) j by (auto simp: grows_def)
  ultimately show "live w2 j = Some s \<and> (\<forall>a. a div PAGE_SIZE \<in> pages_of s \<longrightarrow> cells w2 a = cells w a)"
    using assms(2) unfolding cfl_frame_def by fastforce
qed

lemma cfl_stateD:
  assumes "cfl_state c w L A"
  shows "world_ok w" "4 \<le> obj_size c" "obj_size c < 4294967295" "dll (live w) (span_list c) L" "distinct L"
    "span_pages c * PAGE_SIZE div obj_size c \<le> 65535"
    "current_span c = Some i \<Longrightarrow> i \<in> set L" "num_free c = u32 (\<Sum>i\<in>set L. card (A i))"
  using assms by (simp_all add: cfl_state_def)

lemma cfl_state_span:
  assumes "cfl_state c w L A" "i \<in> set L"
  shows "\<exists>s. live w i = Some s \<and> spans (ph w) i = Some s
     \<and> good_span (obj_size c) (span_pages c) (cells w) s (A i)"
proof -
  obtain t where "view (live w) i = Some t" "good_span (obj_size c) (span_pages c) (cells w) t (A i)"
    using assms by (auto simp: cfl_state_def)
  then show ?thesis
    using live_span by (auto dest!: view_SomeD)
qed

lemma cfl_held_iff:
  "cfl_state c w L A \<Longrightarrow> p \<in> cfl_held c w L A \<longleftrightarrow>
     (\<exists>i\<in>set L. \<exists>s. live w i = Some s \<and> p \<in> held_objects (obj_size c) s (A i))"
  unfolding cfl_held_def using cfl_state_span by fastforce

text \<open>
  One step inside a span: the memory of its pages and the fields of the span that are not
  links, place or owner data.
\<close>

definition same_links :: "Span \<Rightarrow> Span \<Rightarrow> bool" where
  "same_links s t \<longleftrightarrow> nxt t = nxt s \<and> prv t = prv s \<and> owner_write s t"

lemma dseg_same_links:
  "S i = Some s \<Longrightarrow> nxt t = nxt s \<Longrightarrow> prv t = prv s \<Longrightarrow>
     dseg (S(i \<mapsto> t)) p h xs l e = dseg S p h xs l e"
  by (induction xs arbitrary: p h) auto

lemma pages_of_owner: "owner_write s t \<Longrightarrow> pages_of t = pages_of s"
  by (simp add: owner_write_def pages_of_def)

lemma cfl_write_span:
  assumes st: "cfl_state c w L A" and i: "i \<in> set L" "live w i = Some s" and links: "same_links s (f s)"
    and good: "good_span (obj_size c) (span_pages c) m (f s) B"
    and frame: "\<And>a. a div PAGE_SIZE \<notin> pages_of s \<Longrightarrow> m a = cells w a"
    and c': "span_list c' = span_list c" "obj_size c' = obj_size c" "span_pages c' = span_pages c"
      "\<And>j. current_span c' = Some j \<Longrightarrow> j \<in> set L"
    and cnt: "num_free c' = u32 (card B + (\<Sum>j\<in>set L - {i}. card (A j)))"
  shows "\<exists>w'. world_write i f (w\<lparr>cells := m\<rparr>) = Some w' \<and> cfl_state c' w' L (A(i := B))
     \<and> live w' = (live w)(i \<mapsto> f s) \<and> cells w' = m \<and> cfl_frame L w w'"
proof -
  have w: "world_ok (w\<lparr>cells := m\<rparr>)" "live (w\<lparr>cells := m\<rparr>) i = Some s" "owner_write s (f s)"
    using cfl_stateD(1) [OF st] i links by (simp_all add: same_links_def)
  obtain w' where w': "world_write i f (w\<lparr>cells := m\<rparr>) = Some w'" "world_ok w'"
      "live w' = (live w)(i \<mapsto> f s)"
    using heap.update [where f = f, OF w] by auto
  have cells: "cells w' = m"
    using world_cells(3) [OF w'(1)] by simp
  have other: "m a = cells w a" if "live w j = Some t" "j \<noteq> i" "a div PAGE_SIZE \<in> pages_of t" for j t a
    using frame heap.live_disjoint [OF cfl_stateD(1) [OF st] that(1) i(2) that(2)] that(3) by blast
  have "dll (live w') (span_list c') L"
    using cfl_stateD(4) [OF st] dseg_same_links [of "live w" i s "f s"] i(2) links
    by (simp add: dll_def w'(3) c'(1) same_links_def)
  moreover have "\<exists>t. view (live w') j = Some t \<and> good_span (obj_size c') (span_pages c') m t ((A(i := B)) j)"
    if j: "j \<in> set L" for j
  proof (cases "j = i")
    case True
    then show ?thesis
      using good by (simp add: w'(3) c')
  next
    case False
    obtain t where t: "live w j = Some t" "good_span (obj_size c) (span_pages c) (cells w) t (A j)"
      using cfl_state_span [OF st j] by blast
    then have "good_span (obj_size c) (span_pages c) m t (A j)"
      using good_span_cong [OF t(2) cfl_stateD(2) [OF st]] other [OF t(1) False] by blast
    then show ?thesis
      using False t(1) by (simp add: w'(3) c')
  qed
  moreover have "(\<Sum>j\<in>set L. card ((A(i := B)) j)) = card B + (\<Sum>j\<in>set L - {i}. card (A j))"
    using i(1) by (simp add: sum.remove [of "set L" i])
  ultimately have "cfl_state c' w' L (A(i := B))"
    using cfl_stateD [OF st] w'(2) c' cnt by (simp add: cfl_state_def cells)
  moreover have "cfl_frame L w w'"
    unfolding cfl_frame_def using w'(3) cells other i(1) by auto
  ultimately show ?thesis
    using w' cells by blast
qed

section \<open>Linking a new span\<close>

lemma write_live:
  assumes "world_ok w" "live w i = Some s" "owner_write s (f s)"
  shows "\<exists>w'. world_write i f w = Some w' \<and> world_ok w' \<and> live w' = (live w)(i \<mapsto> f s) \<and> cells w' = cells w"
  using heap.update [of w i s f] world_cells(3) [of i f w] assms by blast

lemma link_front:
  assumes "dll S h L" "distinct L" "b \<notin> set L" "nxt t = h" "prv t = nullptr"
  shows "\<exists>S'. (case h of Some l \<Rightarrow> (\<exists>q. (S(b \<mapsto> t)) l = Some q \<and> S' = S(b \<mapsto> t, l \<mapsto> q\<lparr>prv := Some b\<rparr>))
                  | None \<Rightarrow> S' = S(b \<mapsto> t))
     \<and> dll S' (Some b) (b # L) \<and> S' b = Some t \<and> relinked (set L) (S(b \<mapsto> t)) S'"
proof (cases L)
  case Nil
  then show ?thesis
    using assms by (intro exI [of _ "S(b \<mapsto> t)"]) (simp add: dll_def)
next
  case (Cons l L')
  obtain e where e: "dseg S nullptr h (l # L') e nullptr"
    using assms(1) Cons by (auto simp: dll_def)
  then obtain q where q: "h = Some l" "S l = Some q"
    by auto
  let ?S = "S(b \<mapsto> t, l \<mapsto> q\<lparr>prv := Some b\<rparr>)"
  have "dseg (S(b \<mapsto> t)) nullptr h (l # L') e nullptr"
    using e assms(3) Cons by (subst dseg_upd) auto
  then have "dseg ?S (Some b) h (l # L') e nullptr"
    using dseg_set_prv [of "S(b \<mapsto> t)" nullptr h l L' e nullptr q "Some b"] assms(2,3) Cons q(2) by auto
  then have "dll ?S (Some b) (b # L)"
    using assms(3-5) Cons q(1) by (auto simp: dll_def)
  moreover have "relinked (set L) (S(b \<mapsto> t)) ?S"
    using assms(3) q Cons by (intro relinked_upd [of _ _ q]) auto
  ultimately show ?thesis
    using assms(3) Cons q by (intro exI [of _ ?S]) auto
qed

lemma cfl_state_cong:
  assumes "cfl_state c w L A" "world_ok w'" "live w' = live w" "cells w' = cells w"
  shows "cfl_state c w' L A"
  using assms by (simp add: cfl_state_def)

definition fresh_span :: "CentralFreeList \<Rightarrow> Span \<Rightarrow> bool" where
  "fresh_span c s \<longleftrightarrow> num_pages s = span_pages c \<and> freelist_head s = INVALID_INDEX \<and> next_uninitialized s = 0
     \<and> total_objects s = span_pages c * PAGE_SIZE div obj_size c"

text \<open>The two writes of the unlinking and linking code, on the span behind a pointer if there is one.\<close>

lemma write_prv:
  assumes "world_ok w" "case nx of Some n \<Rightarrow> (\<exists>q. live w n = Some q \<and> S = (live w)(n \<mapsto> q\<lparr>prv := m\<rparr>)) | None \<Rightarrow> S = live w"
  shows "\<exists>w'. (case nx of None \<Rightarrow> Some w | Some n \<Rightarrow> world_write n (\<lambda>q. q\<lparr>prv := m\<rparr>) w) = Some w'
     \<and> world_ok w' \<and> live w' = S \<and> cells w' = cells w"
proof (cases nx)
  case (Some n)
  then obtain q where q: "live w n = Some q" "S = (live w)(n \<mapsto> q\<lparr>prv := m\<rparr>)"
    using assms(2) by auto
  then show ?thesis
    using write_live [OF assms(1) q(1), of "\<lambda>q. q\<lparr>prv := m\<rparr>"] Some by (auto simp: owner_write_def)
qed (use assms in simp)

lemma write_nxt_or_head:
  assumes "world_ok w" "case m of Some p \<Rightarrow> (\<exists>q. live w p = Some q \<and> S = (live w)(p \<mapsto> q\<lparr>nxt := x\<rparr>) \<and> h = span_list c)
      | None \<Rightarrow> S = live w \<and> h = x"
  shows "\<exists>w'. (case m of Some p \<Rightarrow> do { w1 \<leftarrow> world_write p (\<lambda>q. q\<lparr>nxt := x\<rparr>) w; Some (c, w1) }
        | None \<Rightarrow> Some (c\<lparr>span_list := x\<rparr>, w)) = Some (c\<lparr>span_list := h\<rparr>, w')
     \<and> world_ok w' \<and> live w' = S \<and> cells w' = cells w"
proof (cases m)
  case (Some p)
  then obtain q where q: "live w p = Some q" "S = (live w)(p \<mapsto> q\<lparr>nxt := x\<rparr>)" "h = span_list c"
    using assms(2) by auto
  then show ?thesis
    using write_live [OF assms(1) q(1), of "\<lambda>q. q\<lparr>nxt := x\<rparr>"] Some by (auto simp: owner_write_def)
qed (use assms in simp)

text \<open>
  \<open>fetch_from_page_heap\<close> returns; when the page heap has a span, it is new to every client and
  becomes the first span of the list and the current one, without any object.
\<close>

text \<open>A new span is linked in front of the list.\<close>

lemma link_new_span:
  assumes st: "cfl_state c w L A" and b: "b \<notin> set L"
    and new: "world_ok w1" "live w1 = (live w)(b \<mapsto> t)" "cells w1 = cells w"
  shows "\<exists>w2 w3 S. world_write b (\<lambda>q. q\<lparr>nxt := span_list c, prv := nullptr\<rparr>) w1 = Some w2
     \<and> (case span_list c of None \<Rightarrow> Some w2 | Some l \<Rightarrow> world_write l (\<lambda>q. q\<lparr>prv := Some b\<rparr>) w2) = Some w3
     \<and> world_ok w3 \<and> live w3 = S \<and> cells w3 = cells w \<and> dll S (Some b) (b # L) \<and> S b = Some (t\<lparr>nxt := span_list c, prv := nullptr\<rparr>)
     \<and> relinked (set L) ((live w)(b \<mapsto> t\<lparr>nxt := span_list c, prv := nullptr\<rparr>)) S"
proof -
  let ?t2 = "t\<lparr>nxt := span_list c, prv := nullptr\<rparr>"
  obtain w2 where w2: "world_write b (\<lambda>q. q\<lparr>nxt := span_list c, prv := nullptr\<rparr>) w1 = Some w2" "world_ok w2"
      "live w2 = (live w)(b \<mapsto> ?t2)" "cells w2 = cells w"
    using write_live [OF new(1), of b t "\<lambda>q. q\<lparr>nxt := span_list c, prv := nullptr\<rparr>"] new(2,3)
    by (auto simp: owner_write_def)
  obtain S where S: "case span_list c of
        Some l \<Rightarrow> \<exists>q. ((live w)(b \<mapsto> ?t2)) l = Some q \<and> S = (live w)(b \<mapsto> ?t2, l \<mapsto> q\<lparr>prv := Some b\<rparr>)
      | None \<Rightarrow> S = (live w)(b \<mapsto> ?t2)"
      "dll S (Some b) (b # L)" "S b = Some ?t2" "relinked (set L) ((live w)(b \<mapsto> ?t2)) S"
    using link_front [OF cfl_stateD(4,5) [OF st] b, of ?t2] by auto
  obtain w3 where "(case span_list c of None \<Rightarrow> Some w2
        | Some l \<Rightarrow> world_write l (\<lambda>q. q\<lparr>prv := Some b\<rparr>) w2) = Some w3" "world_ok w3" "live w3 = S" "cells w3 = cells w"
    using write_prv [OF w2(2) S(1) [folded w2(3)]] w2(4) by auto
  then show ?thesis
    using w2(1) S(2-4) by blast
qed

lemma fetch_spec:
  assumes st: "cfl_state c w L A"
  shows "\<exists>c' w'. fetch_from_page_heap c w = Some (c', w') \<and>
     (c' = c \<and> world_ok w' \<and> live w' = live w \<and> cells w' = cells w
      \<or> (\<exists>b t. live w b = None \<and> cfl_state c' w' (b # L) (A(b := {})) \<and> c' = c\<lparr>span_list := Some b, current_span := Some b\<rparr>
            \<and> live w' b = Some t \<and> fresh_span c t \<and> view (live w') = (view (live w))(b \<mapsto> payload t)
            \<and> cells w' = cells w \<and> cfl_frame L w w'))"
proof (cases "span_pages c = 0")
  case True
  then show ?thesis
    using cfl_stateD(1) [OF st] by (simp add: fetch_from_page_heap_def)
next
  case False
  note sz = cfl_stateD(2,3) [OF st]
  obtain r w1 where alloc: "world_alloc (span_pages c) (obj_size c) w = Some (r, w1)"
    using heap.alloc_returns [OF cfl_stateD(1) [OF st] sz(2)] by blast
  show ?thesis
  proof (cases r)
    case None
    then have "fetch_from_page_heap c w = Some (c, w1)"
      using alloc sz False by (simp add: fetch_from_page_heap_def)
    then show ?thesis
      using heap.alloc_null [OF cfl_stateD(1) [OF st] sz(2)] world_cells(1) [OF alloc] alloc None by blast
  next
    case (Some b)
    obtain t where new: "world_ok w1" "live w b = None" "live w1 = (live w)(b \<mapsto> t)" "num_pages t = span_pages c"
        "span_size t = obj_size c" and cells1: "cells w1 = cells w"
      using heap.alloc_span [OF cfl_stateD(1) [OF st] sz(2)] world_cells(1) [OF alloc] alloc Some by blast
    have b: "b \<notin> set L"
      using cfl_state_span [OF st, of b] new(2) by auto
    let ?t2 = "t\<lparr>nxt := span_list c, prv := nullptr\<rparr>"
    obtain w2 w3 S where w2: "world_write b (\<lambda>q. q\<lparr>nxt := span_list c, prv := nullptr\<rparr>) w1 = Some w2"
      and w3: "(case span_list c of None \<Rightarrow> Some w2
          | Some l \<Rightarrow> world_write l (\<lambda>q. q\<lparr>prv := Some b\<rparr>) w2) = Some w3" "world_ok w3" "live w3 = S" "cells w3 = cells w"
      and S: "dll S (Some b) (b # L)" "S b = Some ?t2" "relinked (set L) ((live w)(b \<mapsto> ?t2)) S"
      using link_new_span [OF st b new(1,3) cells1] by auto
    have b3: "live w3 b = Some ?t2" "spans (ph w3) b = Some ?t2"
      using S(2) w3(3) live_span by simp_all
    define cnt where "cnt = span_pages c * PAGE_SIZE div obj_size c"
    have cnt: "u32 cnt = cnt" "cnt \<le> 65535"
      using cfl_stateD(6) [OF st] by (simp_all add: cnt_def wrap_simps)
    let ?f = "\<lambda>q. q\<lparr>total_objects := cnt, freelist_head := INVALID_INDEX, num_free_objects := 0, next_uninitialized := 0\<rparr>"
    have "owner_write ?t2 (?f ?t2)"
      by (simp add: owner_write_def)
    then obtain w4 where w4: "world_write b ?f w3 = Some w4" "world_ok w4" "live w4 = S(b \<mapsto> ?f ?t2)" "cells w4 = cells w"
      using write_live [OF w3(2) b3(1), of ?f] w3(3,4) by auto
    let ?c = "c\<lparr>span_list := Some b, current_span := Some b\<rparr>"
    have run: "fetch_from_page_heap c w = Some (?c, w4)"
      using alloc Some w2 w3(1) b3(2) w4(1) sz False cnt new(4)
      by (simp add: fetch_from_page_heap_def Let_def flip: cnt_def)
    have view: "view (live w4) = (view (live w))(b \<mapsto> payload (?f ?t2))"
      using relinked_view [OF S(3)] by (simp add: w4(3))
    have "dll (live w4) (Some b) (b # L)"
      using S(1) dseg_same_links [of S b ?t2 "?f ?t2"] S(2) by (simp add: dll_def w4(3))
    moreover have "good_span (obj_size c) (span_pages c) (cells w) (payload (?f ?t2)) {}"
      using new(4,5) cnt packed_empty by (simp add: good_span_def cnt_def)
    moreover have "(\<Sum>i\<in>set (b # L). card ((A(b := {})) i)) = (\<Sum>i\<in>set L. card (A i))"
      using b by (auto intro!: sum.cong)
    ultimately have "cfl_state ?c w4 (b # L) (A(b := {}))"
      using st b w4(2,4) view unfolding cfl_state_def by auto
    moreover have "cfl_frame L w w4"
      unfolding cfl_frame_def using relinked_out [OF S(3)] new(2) w4(3,4) by auto
    moreover have "live w4 b = Some (?f ?t2)" "fresh_span c (?f ?t2)"
      using new(4) by (simp_all add: w4(3) fresh_span_def cnt_def)
    ultimately show ?thesis
      using run view new(2) w4(4) by blast
  qed
qed

section \<open>Unlinking a full span\<close>

lemma sub32_u32: "b < 4294967296 \<Longrightarrow> sub32 (u32 (a + b)) b = u32 a"
proof -
  assume b: "b < 4294967296"
  have "(a + b) mod 4294967296 + 4294967296 - b = (a + b) mod 4294967296 + (4294967296 - b)"
    using b by simp
  then have "sub32 (u32 (a + b)) b = (a + b + (4294967296 - b)) mod 4294967296"
    by (simp add: sub32_def u32_def mod_add_left_eq)
  also have "a + b + (4294967296 - b) = a + 4294967296"
    using b by simp
  finally show ?thesis
    by (simp add: u32_def)
qed

text \<open>What the writes to the neighbours do to the list of spans.\<close>

lemma unlink_world:
  assumes st: "cfl_state c w (as @ i # bs) A" and i: "live w i = Some s" and c2: "span_list c2 = span_list c"
  shows "\<exists>h w1 w2 l. (case prv s of Some p \<Rightarrow> do { w1 \<leftarrow> world_write p (\<lambda>q. q\<lparr>nxt := nxt s\<rparr>) w; Some (c2, w1) }
        | None \<Rightarrow> Some (c2\<lparr>span_list := nxt s\<rparr>, w)) = Some (c2\<lparr>span_list := h\<rparr>, w1)
     \<and> (case nxt s of Some n \<Rightarrow> world_write n (\<lambda>q. q\<lparr>prv := prv s\<rparr>) w1 | None \<Rightarrow> Some w1) = Some w2
     \<and> spans (ph w1) i = Some s \<and> live w2 i = Some s \<and> world_ok w2 \<and> cells w2 = cells w
     \<and> dseg (live w2) nullptr h (as @ bs) l nullptr \<and> relinked (set (as @ bs)) (live w) (live w2)"
proof -
  note dist = cfl_stateD(5) [OF st]
  obtain m l where left: "dseg (live w) nullptr (span_list c) as m (Some i)"
    and m: "prv s = m" and right: "dseg (live w) (Some i) (nxt s) bs l nullptr"
    using cfl_stateD(4) [OF st] i by (auto simp: dll_def dseg_append)
  from unlink_left [OF left dist i right] obtain S1 h where
    step1: "case m of Some p \<Rightarrow> (\<exists>q. live w p = Some q \<and> S1 = (live w)(p \<mapsto> q\<lparr>nxt := nxt s\<rparr>) \<and> h = span_list c)
          | None \<Rightarrow> S1 = live w \<and> h = nxt s"
    and seg1: "dseg S1 nullptr h as m (nxt s)" "dseg S1 (Some i) (nxt s) bs l nullptr"
    and S1: "S1 i = Some s" "relinked (set as) (live w) S1"
    by blast
  from unlink_right [OF seg1 dist S1(1)] obtain S2 l2 where
    step2: "case nxt s of Some n \<Rightarrow> (\<exists>q. S1 n = Some q \<and> S2 = S1(n \<mapsto> q\<lparr>prv := m\<rparr>)) | None \<Rightarrow> S2 = S1"
    and seg2: "dseg S2 nullptr h (as @ bs) l2 nullptr"
    and S2: "S2 i = Some s" "relinked (set bs) S1 S2"
    by blast
  obtain w1 where w1: "(case prv s of Some p \<Rightarrow> do { w1 \<leftarrow> world_write p (\<lambda>q. q\<lparr>nxt := nxt s\<rparr>) w; Some (c2, w1) }
      | None \<Rightarrow> Some (c2\<lparr>span_list := nxt s\<rparr>, w)) = Some (c2\<lparr>span_list := h\<rparr>, w1)"
      "world_ok w1" "live w1 = S1" "cells w1 = cells w"
    using write_nxt_or_head [OF cfl_stateD(1) [OF st] step1 [folded m c2]] by blast
  obtain w2 where w2: "(case nxt s of Some n \<Rightarrow> world_write n (\<lambda>q. q\<lparr>prv := prv s\<rparr>) w1 | None \<Rightarrow> Some w1) = Some w2"
      "world_ok w2" "live w2 = S2" "cells w2 = cells w"
    using write_prv [OF w1(2) step2 [folded w1(3)], folded m] w1(4) by (auto split: option.split)
  have "relinked (set (as @ bs)) (live w) S2"
    by (rule relinked_trans [OF relinked_mono [OF S1(2)] relinked_mono [OF S2(2)]]) auto
  moreover have "spans (ph w1) i = Some s"
    using S1(1) w1(3) live_span by simp
  ultimately show ?thesis
    using w1(1) w2 seg2 S2(1) by blast
qed

text \<open>The count of free objects after a span has left.\<close>

lemma num_free_without:
  assumes st: "cfl_state c w L A" and i: "i \<in> set L" "live w i = Some s" and L': "set L' = set L - {i}"
  shows "sub32 (num_free c) (num_free_objects s) = u32 (\<Sum>j\<in>set L'. card (A j))"
proof -
  have good: "good_span (obj_size c) (span_pages c) (cells w) s (A i)"
    using cfl_state_span [OF st i(1)] i(2) by simp
  then have "num_free_objects s = card (A i)" "card (A i) < 4294967296"
    using card_mono [of "{..<next_uninitialized s}" "A i"] by (auto simp: good_span_def)
  moreover have "(\<Sum>j\<in>set L. card (A j)) = (\<Sum>j\<in>set L'. card (A j)) + card (A i)"
    using i(1) L' by (simp add: sum.remove [of "set L" i])
  ultimately show ?thesis
    using cfl_stateD(8) [OF st] sub32_u32 by simp
qed

text \<open>A span gone from the list and its links leaves everything outside the list as it was.\<close>

lemma frame_without:
  assumes "relinked S (live w) U" "insert i S \<subseteq> set L" "live w1 = U(i := None)" "cells w1 = cells w"
  shows "cfl_frame L w w1"
  unfolding cfl_frame_def
proof (intro allI impI)
  fix j q
  assume j: "live w j = Some q \<and> j \<notin> set L"
  then have "j \<notin> S" "j \<noteq> i"
    using assms(2) by auto
  then show "live w1 j = Some q \<and> (\<forall>a. a div PAGE_SIZE \<in> pages_of q \<longrightarrow> cells w1 a = cells w a)"
    using relinked_out [OF assms(1), of j] j by (simp add: assms(3,4))
qed

lemma release_spec:
  assumes st: "cfl_state c w L A" and i: "i \<in> set L" "live w i = Some s"
  shows "\<exists>c' w' L'. release_to_page_heap i c w = Some (c', w') \<and> cfl_state c' w' L' A
     \<and> set L' = set L - {i} \<and> live w' i = None \<and> (\<forall>j. j \<noteq> i \<longrightarrow> view (live w') j = view (live w) j)
     \<and> obj_size c' = obj_size c \<and> span_pages c' = span_pages c
     \<and> cells w' = cells w \<and> cfl_frame L w w'"
proof -
  obtain as bs where L: "L = as @ i # bs"
    using i(1) by (meson split_list)
  note dist = cfl_stateD(5) [OF st, unfolded L]
  define c1 where "c1 = (if current_span c = Some i then c\<lparr>current_span := nullptr\<rparr> else c)"
  define c2 where "c2 = c1\<lparr>num_free := sub32 (num_free c1) (num_free_objects s)\<rparr>"
  have c2: "span_list c2 = span_list c" "obj_size c2 = obj_size c" "span_pages c2 = span_pages c"
    by (simp_all add: c2_def c1_def)
  obtain h1 w1 w2 l where w1: "(case prv s of Some p \<Rightarrow> do { w1 \<leftarrow> world_write p (\<lambda>q. q\<lparr>nxt := nxt s\<rparr>) w; Some (c2, w1) }
        | None \<Rightarrow> Some (c2\<lparr>span_list := nxt s\<rparr>, w)) = Some (c2\<lparr>span_list := h1\<rparr>, w1)"
    and w2: "(case nxt s of Some n \<Rightarrow> world_write n (\<lambda>q. q\<lparr>prv := prv s\<rparr>) w1 | None \<Rightarrow> Some w1) = Some w2"
    and i1: "spans (ph w1) i = Some s" and i2: "live w2 i = Some s" and w2_ok: "world_ok w2" "cells w2 = cells w"
    and seg2: "dseg (live w2) nullptr h1 (as @ bs) l nullptr" and rel: "relinked (set (as @ bs)) (live w) (live w2)"
    using unlink_world [OF st [unfolded L] i(2) c2(1)] by blast
  define c3 where "c3 = c2\<lparr>span_list := h1\<rparr>"
  obtain w3 where w3: "world_write i reset_span w2 = Some w3" "world_ok w3" "live w3 = (live w2)(i \<mapsto> reset_span s)"
      "cells w3 = cells w"
    using write_live [OF w2_ok(1) i2, of reset_span] w2_ok(2) by (auto simp: owner_write_def reset_span_def)
  obtain w4 where w4: "world_return i w3 = Some w4" "world_ok w4" "live w4 = (live w2)(i := None)"
    using heap.release [OF w3(2), of i "reset_span s"] w3(3) by (auto simp: fun_upd_upd)
  have cells: "cells w4 = cells w"
    using world_cells(2) [OF w4(1)] w3(4) by simp
  have "spans (ph w) i = Some s"
    using i(2) by (rule live_span)
  then have run: "release_to_page_heap i c w = Some (c3, w4)"
    unfolding release_to_page_heap_def Let_def
    by (simp only: Option.bind.bind_lunit c1_def [symmetric] c2_def [symmetric])
      (simp add: i1 w1 w2 w3(1) w4(1) c3_def)
  have view: "view (live w4) j = view (live w) j" if "j \<noteq> i" for j
    using relinked_view [OF rel] that by (simp add: w4(3))
  have set: "set (as @ bs) = set L - {i}"
    using dist by (auto simp: L)
  have "dll (live w4) h1 (as @ bs)"
    using seg2 dist by (auto simp: dll_def w4(3) dseg_upd)
  moreover have "\<exists>t. view (live w4) j = Some t \<and> good_span (obj_size c) (span_pages c) (cells w) t (A j)"
    if "j \<in> set (as @ bs)" for j
  proof -
    have "j \<in> set L" "j \<noteq> i"
      using that unfolding set by auto
    then show ?thesis
      using st view [of j] unfolding cfl_state_def by simp
  qed
  moreover have "num_free c3 = u32 (\<Sum>j\<in>set (as @ bs). card (A j))"
    using num_free_without [OF st i set] by (simp add: c3_def c2_def c1_def)
  moreover have "j \<in> set (as @ bs)" if "current_span c3 = Some j" for j
    using that cfl_stateD(7) [OF st, of j] set by (auto simp: c3_def c2_def c1_def split: if_splits)
  ultimately have "cfl_state c3 w4 (as @ bs) A"
    using st dist w4(2) cells c2(2,3) unfolding cfl_state_def by (auto simp: c3_def)
  moreover have "cfl_frame L w w4"
    by (rule frame_without [OF rel _ w4(3) cells]) (use i(1) set in auto)
  moreover have "obj_size c3 = obj_size c" "span_pages c3 = span_pages c" "live w4 i = None"
    using c2 by (simp_all add: c3_def w4(3))
  ultimately show ?thesis
    using run set view cells by blast
qed

end
