(* ===== verification/Object_Source.thy ===== *)
theory Object_Source
  imports Alloc_Prelude "HOL-Library.Monad_Syntax"
begin

text \<open>
  The interface between a central free list and the allocator above it: objects are taken and
  put back, and \<open>rel s g H\<close> says that in state \<open>s\<close> the clients hold the objects \<open>H\<close>. The ghost
  \<open>g\<close> names what the source owns, and \<open>leads\<close> bounds what an operation may do to everything
  else; it is a preorder. \<open>keeps H\<close> says that what the holders of \<open>H\<close> have written there is still
  there. The batch operations are derived from the single ones once, here.
\<close>

primrec take_batch :: "('s \<Rightarrow> (addr \<times> 's) option) \<Rightarrow> nat \<Rightarrow> 's \<Rightarrow> (addr list \<times> 's) option" where
  "take_batch get 0 s = Some ([], s)"
| "take_batch get (Suc n) s = do {
     (p, s1) \<leftarrow> get s;
     if p = 0 then Some ([], s1)
     else do { (ps, s2) \<leftarrow> take_batch get n s1; Some (p # ps, s2) } }"

primrec put_batch :: "(addr \<Rightarrow> 's \<Rightarrow> 's option) \<Rightarrow> addr list \<Rightarrow> 's \<Rightarrow> 's option" where
  "put_batch put [] s = Some s"
| "put_batch put (p # ps) s = do { s1 \<leftarrow> put p s; put_batch put ps s1 }"

locale object_source =
  fixes rel :: "'s \<Rightarrow> 'g \<Rightarrow> addr set \<Rightarrow> bool"
    and leads :: "'s \<Rightarrow> 'g \<Rightarrow> 's \<Rightarrow> 'g \<Rightarrow> bool"
    and keeps :: "addr set \<Rightarrow> 's \<Rightarrow> 's \<Rightarrow> bool"
    and get :: "'s \<Rightarrow> (addr \<times> 's) option"
    and put :: "addr \<Rightarrow> 's \<Rightarrow> 's option"
  assumes leads_refl: "leads s g s g"
    and leads_trans: "leads s g s1 g1 \<Longrightarrow> leads s1 g1 s2 g2 \<Longrightarrow> leads s g s2 g2"
    and keeps_refl: "keeps H s s"
    and keeps_trans: "keeps H s s1 \<Longrightarrow> keeps H s1 s2 \<Longrightarrow> keeps H s s2"
    and keeps_mono: "keeps H s s' \<Longrightarrow> K \<subseteq> H \<Longrightarrow> keeps K s s'"
    and get_ok: "rel s g H \<Longrightarrow> \<exists>p s' g'. get s = Some (p, s') \<and> leads s g s' g'
          \<and> rel s' g' (if p = 0 then H else insert p H) \<and> (p \<noteq> 0 \<longrightarrow> p \<notin> H) \<and> keeps H s s'"
    and put_ok: "rel s g H \<Longrightarrow> p \<in> H \<Longrightarrow> \<exists>s' g'. put p s = Some s' \<and> leads s g s' g'
          \<and> rel s' g' (H - {p}) \<and> p \<noteq> 0 \<and> keeps (H - {p}) s s'"
begin

text \<open>A batch is a set of new objects, each once, none of them null.\<close>

lemma get_batch_ok:
  "rel s g H \<Longrightarrow> \<exists>ps s' g'. take_batch get n s = Some (ps, s') \<and> leads s g s' g'
     \<and> rel s' g' (H \<union> set ps) \<and> distinct ps \<and> set ps \<inter> H = {} \<and> 0 \<notin> set ps \<and> length ps \<le> n \<and> keeps H s s'"
proof (induction n arbitrary: s g H)
  case 0
  then show ?case
    by (auto intro: leads_refl keeps_refl)
next
  case (Suc n)
  obtain p s1 g1 where p: "get s = Some (p, s1)" "leads s g s1 g1" "rel s1 g1 (if p = 0 then H else insert p H)"
      "p \<noteq> 0 \<longrightarrow> p \<notin> H" "keeps H s s1"
    using get_ok [OF Suc.prems] by blast
  show ?case
  proof (cases "p = 0")
    case True
    then show ?thesis
      using p by auto
  next
    case False
    then obtain ps s2 g2 where ps: "take_batch get n s1 = Some (ps, s2)" "leads s1 g1 s2 g2"
        "rel s2 g2 (insert p H \<union> set ps)" "distinct ps" "set ps \<inter> insert p H = {}" "0 \<notin> set ps" "length ps \<le> n" "keeps (insert p H) s1 s2"
      using Suc.IH [of s1 g1 "insert p H"] p(3) by auto
    have "keeps H s s2"
      by (rule keeps_trans [OF p(5) keeps_mono [OF ps(8)]]) auto
    moreover have "insert p H \<union> set ps = H \<union> set (p # ps)"
      by auto
    ultimately show ?thesis
      using p(1,4) False ps leads_trans [OF p(2) ps(2)]
      by (intro exI [of _ "p # ps"] exI [of _ s2] exI [of _ g2]) auto
  qed
qed

lemma put_batch_ok:
  "rel s g H \<Longrightarrow> distinct ps \<Longrightarrow> set ps \<subseteq> H \<Longrightarrow>
     \<exists>s' g'. put_batch put ps s = Some s' \<and> leads s g s' g' \<and> rel s' g' (H - set ps)
        \<and> keeps (H - set ps) s s'"
proof (induction ps arbitrary: s g H)
  case Nil
  then show ?case
    by (auto intro: leads_refl keeps_refl)
next
  case (Cons p ps)
  obtain s1 g1 where s1: "put p s = Some s1" "leads s g s1 g1" "rel s1 g1 (H - {p})" "keeps (H - {p}) s s1"
    using put_ok [OF Cons.prems(1), of p] Cons.prems(3) by auto
  obtain s2 g2 where s2: "put_batch put ps s1 = Some s2" "leads s1 g1 s2 g2" "rel s2 g2 (H - {p} - set ps)"
      "keeps (H - {p} - set ps) s1 s2"
    using Cons.IH [OF s1(3)] Cons.prems(2,3) by auto
  moreover have "H - {p} - set ps = H - set (p # ps)"
    by auto
  moreover have "keeps (H - {p} - set ps) s s2"
    by (rule keeps_trans [OF keeps_mono [OF s1(4)] s2(4)]) auto
  ultimately show ?case
    using s1(1) s2 leads_trans [OF s1(2) s2(2)] by (intro exI [of _ s2] exI [of _ g2]) simp
qed

text \<open>Taking a batch and putting it all back restores what the clients hold.\<close>

lemma get_put_batch:
  assumes "rel s g H"
  shows "\<exists>ps s1 s2 g2. take_batch get n s = Some (ps, s1) \<and> put_batch put ps s1 = Some s2
     \<and> leads s g s2 g2 \<and> rel s2 g2 H"
proof -
  obtain ps s1 g1 where ps: "take_batch get n s = Some (ps, s1)" "leads s g s1 g1" "rel s1 g1 (H \<union> set ps)"
      "distinct ps" "set ps \<inter> H = {}"
    using get_batch_ok [OF assms] by blast
  then obtain s2 g2 where "put_batch put ps s1 = Some s2" "leads s1 g1 s2 g2" "rel s2 g2 (H \<union> set ps - set ps)"
    using put_batch_ok [OF ps(3,4)] by auto
  moreover have "H \<union> set ps - set ps = H"
    using ps(5) by auto
  ultimately show ?thesis
    using ps(1) leads_trans [OF ps(2)] by auto
qed

end

end
