(* ===== verification/Central_Free_List_Ops.thy ===== *)
theory Central_Free_List_Ops
  imports Central_Free_List_Inv Object_Source
begin

text \<open>
  The operations of a central free list refine a set: \<open>H\<close> is the set of the objects its clients
  hold. \<open>cfl_allocate\<close> returns null or adds a new object to it, \<open>cfl_deallocate\<close> removes one;
  carving, fetching spans and giving them back are invisible.
\<close>

definition cfl_rel :: "CentralFreeList \<Rightarrow> World \<Rightarrow> nat list \<Rightarrow> addr set \<Rightarrow> bool" where
  "cfl_rel c w L H \<longleftrightarrow> (\<exists>A. cfl_state c w L A \<and> H = cfl_held c w L A)"

section \<open>Objects and spans\<close>

lemma cfl_held_view:
  assumes "\<And>i. i \<in> set L \<Longrightarrow> view (live w') i = view (live w) i" "obj_size c' = obj_size c"
  shows "cfl_held c' w' L A = cfl_held c w L A"
proof -
  have "held_objects (obj_size c) (the (live w' i)) (A i) = held_objects (obj_size c) (the (live w i)) (A i)"
    if "i \<in> set L" for i
  proof (cases "live w i")
    case None
    then have "live w' i = None"
      using assms(1) [OF that] by (simp add: view_def)
    then show ?thesis
      using None by simp
  next
    case (Some s)
    then have "map_option payload (live w' i) = Some (payload s)"
      using assms(1) [OF that] by (simp add: view_def)
    then obtain t where "live w' i = Some t" "payload t = payload s"
      by auto
    then show ?thesis
      using Some held_objects_payload [of "obj_size c" t] held_objects_payload [of "obj_size c" s] by simp
  qed
  then show ?thesis
    using assms(2) by (simp add: cfl_held_def)
qed

lemma held_objects_iff:
  "p \<in> held_objects sz s A \<longleftrightarrow> (\<exists>k. p = base_of s + k * sz \<and> k < next_uninitialized s \<and> k \<notin> A)"
  by (auto simp: held_objects_def)

text \<open>An address is the address of at most one object of the spans of a list.\<close>

lemma object_unique:
  assumes st: "cfl_state c w L A" and i: "i \<in> set L" "live w i = Some s" "k < next_uninitialized s"
    and j: "j \<in> set L" "live w j = Some t" "l < next_uninitialized t"
    and eq: "base_of s + k * obj_size c = base_of t + l * obj_size c"
  shows "i = j \<and> k = l"
proof -
  have good: "good_span (obj_size c) (span_pages c) (cells w) s (A i)"
    "good_span (obj_size c) (span_pages c) (cells w) t (A j)"
    using cfl_state_span [OF st i(1)] cfl_state_span [OF st j(1)] i(2) j(2) by auto
  have "k < total_objects s" "l < total_objects t"
    using good i(3) j(3) by (auto simp: good_span_def)
  then have "(base_of s + k * obj_size c) div PAGE_SIZE \<in> pages_of s"
      "(base_of s + k * obj_size c) div PAGE_SIZE \<in> pages_of t"
    using object_page [OF good(1), of k "base_of s + k * obj_size c"]
      object_page [OF good(2), of l "base_of t + l * obj_size c"] cfl_stateD(2) [OF st] eq by simp_all
  then have "i = j"
    using heap.live_disjoint [OF cfl_stateD(1) [OF st] i(2) j(2)] by blast
  then show ?thesis
    using eq i(2) j(2) cfl_stateD(2) [OF st] by simp
qed

lemma held_cells:
  assumes st: "cfl_state c w L A" and p: "p \<in> cfl_held c w L A"
  shows "\<exists>i\<in>set L. \<exists>s k. live w i = Some s \<and> p = base_of s + k * obj_size c \<and> k < next_uninitialized s \<and> k \<notin> A i
     \<and> (\<forall>a\<in>{p ..< p + obj_size c}. a div PAGE_SIZE \<in> pages_of s)"
proof -
  obtain i s k where i: "i \<in> set L" "live w i = Some s" "p = base_of s + k * obj_size c"
      "k < next_uninitialized s" "k \<notin> A i"
    using p unfolding cfl_held_iff [OF st] held_objects_iff by blast
  have good: "good_span (obj_size c) (span_pages c) (cells w) s (A i)"
    using cfl_state_span [OF st i(1)] i(2) by auto
  then have "k < total_objects s"
    using i(4) by (auto simp: good_span_def)
  then show ?thesis
    using object_page [OF good] i by blast
qed

text \<open>
  Memory written only in objects of one span that no one of \<open>Q\<close> holds leaves the contents of the
  objects of \<open>Q\<close> as they are.
\<close>

lemma held_untouched:
  assumes st: "cfl_state c w L A" and i: "i \<in> set L" "live w i = Some s" and Q: "Q \<subseteq> cfl_held c w L A"
    and K: "K \<subseteq> {..<total_objects s}" "\<And>l. l \<in> K \<Longrightarrow> l < next_uninitialized s \<Longrightarrow> l \<notin> A i \<Longrightarrow> base_of s + l * obj_size c \<notin> Q"
    and m: "\<forall>a. a \<notin> cells_of (base_of s) (obj_size c) K \<longrightarrow> cells w' a = cells w a"
  shows "cells_kept (obj_size c) Q w w'"
  unfolding cells_kept_def
proof (intro ballI)
  fix p a
  assume p: "p \<in> Q" and a: "a \<in> {p ..< p + obj_size c}"
  have good: "good_span (obj_size c) (span_pages c) (cells w) s (A i)"
    using cfl_state_span [OF st i(1)] i(2) by auto
  obtain j t l where j: "j \<in> set L" "live w j = Some t" "p = base_of t + l * obj_size c" "l < next_uninitialized t" "l \<notin> A j"
      "\<forall>a\<in>{p ..< p + obj_size c}. a div PAGE_SIZE \<in> pages_of t"
    using held_cells [OF st, of p] p Q by blast
  have "a \<notin> cells_of (base_of s) (obj_size c) K"
  proof (cases "j = i")
    case True
    then have "t = s" "l \<notin> K"
      using j i(2) K(2) [of l] p by auto
    then have "{l} \<inter> K = {}" "a \<in> cells_of (base_of s) (obj_size c) {l}"
      using a j(3) by (simp_all add: cells_of_def)
    then show ?thesis
      using cells_of_disjoint by blast
  next
    case False
    then have "a div PAGE_SIZE \<notin> pages_of s"
      using heap.live_disjoint [OF cfl_stateD(1) [OF st] j(2) i(2)] j(6) a by blast
    then show ?thesis
      using objects_page [OF good K(1)] by blast
  qed
  then show "cells w' a = cells w a"
    using m by blast
qed

text \<open>The objects of one span change; those of the others stay.\<close>

lemma cfl_held_split:
  assumes "i \<in> set L" "distinct L"
  shows "cfl_held c w L A = held_objects (obj_size c) (the (live w i)) (A i) \<union>
    (\<Union>j\<in>set L - {i}. held_objects (obj_size c) (the (live w j)) (A j))"
  using assms by (auto simp: cfl_held_def)

lemma cfl_held_write:
  assumes "i \<in> set L" "distinct L" "live w' = (live w)(i \<mapsto> t)" "obj_size c' = obj_size c"
  shows "cfl_held c' w' L (A(i := B)) = held_objects (obj_size c) t B \<union>
    (\<Union>j\<in>set L - {i}. held_objects (obj_size c) (the (live w j)) (A j))"
proof -
  have "held_objects (obj_size c) (the (live w' j)) ((A(i := B)) j) =
      held_objects (obj_size c) (the (live w j)) (A j)" if "j \<in> set L - {i}" for j
    using that assms(3) by simp
  then show ?thesis
    using cfl_held_split [OF assms(1,2), of c' w' "A(i := B)"] assms(3,4) by simp
qed

section \<open>Finding and carving\<close>

lemma span_available:
  "live w i = Some s \<Longrightarrow> span_has_available_objects (Some i) w =
     Some (freelist_head s \<noteq> INVALID_INDEX \<or> next_uninitialized s < total_objects s)"
  by (simp add: span_has_available_objects_def live_span)

lemma find_loop_spec:
  assumes "dseg (live w) p cur xs l nullptr"
  shows "\<exists>r. find_loop cur w = Some r \<and>
     (\<forall>i. r = Some i \<longrightarrow> i \<in> set xs \<and> span_has_available_objects (Some i) w = Some True)"
  using assms
proof (induction xs arbitrary: p cur)
  case Nil
  then show ?case
    by (simp add: find_loop.simps)
next
  case (Cons x xs)
  then obtain s where s: "cur = Some x" "live w x = Some s" "dseg (live w) (Some x) (nxt s) xs l nullptr"
    by auto
  obtain r where r: "find_loop (nxt s) w = Some r"
      "\<forall>i. r = Some i \<longrightarrow> i \<in> set xs \<and> span_has_available_objects (Some i) w = Some True"
    using Cons.IH [OF s(3)] by blast
  show ?case
  proof (cases "freelist_head s \<noteq> INVALID_INDEX \<or> next_uninitialized s < total_objects s")
    case True
    then show ?thesis
      using s span_available [OF s(2)] by (subst find_loop.simps) simp
  next
    case False
    then show ?thesis
      using s r span_available [OF s(2)] by (subst find_loop.simps) (simp add: live_span)
  qed
qed

text \<open>How far one call of \<open>populate_span\<close> carves.\<close>

lemma populate_bounds:
  assumes good: "good_span n k m s {}" and more: "next_uninitialized s < total_objects s"
    and e: "e = min (total_objects s) (u32 (next_uninitialized s + max (PAGE_SIZE div n) 1))"
  shows "total_objects s \<le> 65535" "num_free_objects s = 0" "next_uninitialized s < e" "e \<le> total_objects s"
    "e < 65536" "0 + (e - next_uninitialized s) < 4294967296"
proof -
  show bounds: "total_objects s \<le> 65535" "num_free_objects s = 0"
    using good by (auto simp: good_span_def)
  have "PAGE_SIZE div n \<le> 4096"
    by (simp add: PAGE_SIZE_def)
  then have "u32 (next_uninitialized s + max (PAGE_SIZE div n) 1) = next_uninitialized s + max (PAGE_SIZE div n) 1"
    using bounds more by (simp add: wrap_simps)
  then show "next_uninitialized s < e" "e \<le> total_objects s"
    using more by (auto simp: e)
  then show "e < 65536" "0 + (e - next_uninitialized s) < 4294967296"
    using bounds by linarith+
qed

lemma populate_spec:
  assumes st: "cfl_state c w L A" and i: "i \<in> set L" "live w i = Some s"
    and s: "freelist_head s = INVALID_INDEX" "next_uninitialized s < total_objects s"
  shows "\<exists>c' w' A' s'. populate_span (Some i) c w = Some (c', w') \<and> cfl_state c' w' L A'
     \<and> cfl_held c' w' L A' = cfl_held c w L A \<and> obj_size c' = obj_size c \<and> span_pages c' = span_pages c
     \<and> live w' i = Some s' \<and> freelist_head s' \<noteq> INVALID_INDEX \<and> cfl_frame L w w'
     \<and> cells_kept (obj_size c) (cfl_held c w L A) w w'"
proof -
  have good: "good_span (obj_size c) (span_pages c) (cells w) s (A i)"
    using cfl_state_span [OF st i(1)] i(2) by auto
  note sz = cfl_stateD(2,3) [OF st]
  have "INVALID_INDEX \<notin> A i"
    using good_span_bound [OF good] by blast
  then have empty: "A i = {}"
    using packed_INVALID [of "obj_size c" "cells w" "base_of s" "A i"] good s(1) by (simp add: good_span_def)
  define e where "e = min (total_objects s) (u32 (next_uninitialized s + max (PAGE_SIZE div obj_size c) 1))"
  note pb = populate_bounds [OF good [unfolded empty] s(2) e_def]
  note e = pb(3,4) and small = pb(5,6)
  let ?S = "\<Sum>j\<in>set L. card (A j)" and ?i = "next_uninitialized s"
  obtain h' m' where pop: "populate_loop (base_of s) (obj_size c) (pack_capacity (obj_size c)) e ?i
        INVALID_INDEX 0 (u32 ?S) (cells w) = (h', e - ?i, u32 (?S + (e - ?i)), m')"
      "packed (obj_size c) m' (base_of s) h' {?i ..< e}" "h' < e"
      "\<forall>a. a \<notin> cells_of (base_of s) (obj_size c) {?i ..< e} \<longrightarrow> m' a = cells w a"
    using packed_populate [of "obj_size c" "cells w" "base_of s" INVALID_INDEX "{}" ?i e 0 ?S] packed_empty sz(1) e(1) small
    by auto
  let ?f = "\<lambda>q. q\<lparr>freelist_head := h', num_free_objects := e - ?i, next_uninitialized := e\<rparr>"
  let ?c = "c\<lparr>num_free := u32 (?S + (e - ?i))\<rparr>" and ?B = "{?i ..< e}"
  have goodB: "good_span (obj_size c) (span_pages c) m' (?f s) ?B"
    using good pop(2) e by (auto simp: good_span_def base_of_def)
  have frame: "m' a = cells w a" if "a div PAGE_SIZE \<notin> pages_of s" for a
  proof -
    have "?B \<subseteq> {..<total_objects s}"
      using e(2) by auto
    then show ?thesis
      using that objects_page [OF good, of ?B a] pop(4) by blast
  qed
  have "?S = (\<Sum>j\<in>set L - {i}. card (A j))"
    using i(1) empty by (simp add: sum.remove [of "set L" i])
  then have cnt: "num_free ?c = u32 (card ?B + (\<Sum>j\<in>set L - {i}. card (A j)))"
    by (simp add: add.commute)
  have links: "same_links s (?f s)"
    by (simp add: same_links_def owner_write_def)
  obtain w' where w': "world_write i ?f (w\<lparr>cells := m'\<rparr>) = Some w'" "cfl_state ?c w' L (A(i := ?B))"
      "live w' = (live w)(i \<mapsto> ?f s)" "cfl_frame L w w'" "cells w' = m'"
    using cfl_write_span [where f = ?f and c' = ?c, OF st i links goodB frame _ _ _ _ cnt] cfl_stateD(7) [OF st] by auto
  have "populate_span (Some i) c w = Some (?c, w')"
    using s w'(1) pop(1) pb(2) cfl_stateD(8) [OF st] live_span [OF i(2)]
    by (simp add: populate_span_def Let_def e_def [symmetric, unfolded One_nat_def] flip: base_of_def)
  moreover have "cfl_held ?c w' L (A(i := ?B)) = cfl_held c w L A"
  proof -
    have "held_objects (obj_size c) (?f s) ?B = held_objects (obj_size c) s (A i)"
      using e(1) by (auto simp: held_objects_def empty base_of_def)
    then show ?thesis
      using cfl_held_write [OF i(1) cfl_stateD(5) [OF st] w'(3), of ?c c A ?B]
        cfl_held_split [OF i(1) cfl_stateD(5) [OF st], of c w A] i(2) by simp
  qed
  moreover have "h' \<noteq> INVALID_INDEX"
    using pop(3) e(2) pb(1) by (simp add: INVALID_INDEX_def)
  moreover have "cells_kept (obj_size c) (cfl_held c w L A) w w'"
    by (rule held_untouched [OF st i order.refl, of ?B]) (use e(2) pop(4) w'(5) in auto)
  ultimately show ?thesis
    using w' by (intro exI [of _ ?c] exI [of _ w'] exI [of _ "A(i := ?B)"] exI [of _ "?f s"]) simp
qed

section \<open>One object out\<close>

text \<open>One object more is held.\<close>

lemma held_one_more:
  assumes st: "cfl_state c w L A" and i: "i \<in> set L" "live w i = Some s" and x: "x \<in> A i" "A i \<subseteq> {..<next_uninitialized s}"
    and w': "live w' = (live w)(i \<mapsto> s')" "base_of s' = base_of s" "next_uninitialized s' = next_uninitialized s"
  shows "base_of s + x * obj_size c \<notin> cfl_held c w L A"
    and "cfl_held c w' L (A(i := A i - {x})) = insert (base_of s + x * obj_size c) (cfl_held c w L A)"
proof -
  let ?p = "base_of s + x * obj_size c"
  note dist = cfl_stateD(5) [OF st]
  show "?p \<notin> cfl_held c w L A"
  proof
    assume "?p \<in> cfl_held c w L A"
    then obtain j t l where j: "j \<in> set L" "live w j = Some t" "?p = base_of t + l * obj_size c"
        "l < next_uninitialized t" "l \<notin> A j"
      unfolding cfl_held_iff [OF st] held_objects_iff by blast
    then have "i = j \<and> x = l"
      using object_unique [OF st i _ j(1,2,4,3)] x by auto
    then show False
      using j(5) x(1) by simp
  qed
  have "held_objects (obj_size c) s' (A i - {x}) = insert ?p (held_objects (obj_size c) s (A i))"
    using x w'(2,3) by (auto simp: held_objects_def)
  then show "cfl_held c w' L (A(i := A i - {x})) = insert ?p (cfl_held c w L A)"
    using cfl_held_write [OF i(1) dist w'(1), of c c A "A i - {x}"] cfl_held_split [OF i(1) dist, of c w A] i(2) by simp
qed

lemma pop_spec:
  assumes st: "cfl_state c w L A" and i: "i \<in> set L" "live w i = Some s" and s: "freelist_head s \<noteq> INVALID_INDEX"
  shows "\<exists>p h' m w' A'. pop_object (base_of s) (obj_size c) (freelist_head s) (cells w) = (p, h', m)
     \<and> world_write i (\<lambda>q. q\<lparr>freelist_head := h', num_free_objects := sub32 (num_free_objects q) 1\<rparr>)
         (w\<lparr>cells := m\<rparr>) = Some w'
     \<and> cfl_state (c\<lparr>num_free := sub32 (num_free c) 1\<rparr>) w' L A' \<and> p \<noteq> 0 \<and> p \<notin> cfl_held c w L A
     \<and> cfl_held c w' L A' = insert p (cfl_held c w L A) \<and> cfl_frame L w w'
     \<and> cells_kept (obj_size c) (cfl_held c w L A) w w'"
proof -
  have good: "good_span (obj_size c) (span_pages c) (cells w) s (A i)"
    using cfl_state_span [OF st i(1)] i(2) by auto
  note sz = cfl_stateD(2) [OF st] and dist = cfl_stateD(5) [OF st]
  have A: "A i \<subseteq> {..<next_uninitialized s}" "next_uninitialized s \<le> total_objects s" "total_objects s \<le> 65535"
      "num_free_objects s = card (A i)" "packed (obj_size c) (cells w) (base_of s) (freelist_head s) (A i)"
    using good by (simp_all add: good_span_def)
  obtain x h' m where pop: "pop_object (base_of s) (obj_size c) (freelist_head s) (cells w) =
        (base_of s + x * obj_size c, h', m)" "x \<in> A i" "packed (obj_size c) m (base_of s) h' (A i - {x})"
      "\<forall>a. a \<notin> cells_of (base_of s) (obj_size c) (A i) \<longrightarrow> m a = cells w a"
    using packed_pop [OF A(5) s sz] unfolding index_to_ptr_def by blast
  have fin: "finite (A i)"
    by (rule good_span_finite [OF good])
  then have card: "card (A i - {x}) = card (A i) - 1" "0 < card (A i)" "card (A i) \<le> 65535"
    using pop(2) A(1-3) card_mono [of "{..<next_uninitialized s}" "A i"] by (auto simp: card_gt_0_iff)
  let ?f = "\<lambda>q. q\<lparr>freelist_head := h', num_free_objects := sub32 (num_free_objects q) 1\<rparr>"
  let ?c = "c\<lparr>num_free := sub32 (num_free c) 1\<rparr>" and ?B = "A i - {x}"
  have nf: "sub32 (num_free_objects s) 1 = card ?B"
    using A(4) card by (simp add: wrap_simps)
  have goodB: "good_span (obj_size c) (span_pages c) m (?f s) ?B"
    using good pop(3) nf by (auto simp: good_span_def base_of_def)
  have frame: "m a = cells w a" if "a div PAGE_SIZE \<notin> pages_of s" for a
  proof -
    have "A i \<subseteq> {..<total_objects s}"
      using A(1,2) by auto
    then show ?thesis
      using that objects_page [OF good, of "A i" a] pop(4) by blast
  qed
  have "(\<Sum>j\<in>set L. card (A j)) = card ?B + (\<Sum>j\<in>set L - {i}. card (A j)) + 1"
    using i(1) card by (simp add: sum.remove [of "set L" i])
  then have cnt: "num_free ?c = u32 (card ?B + (\<Sum>j\<in>set L - {i}. card (A j)))"
    using cfl_stateD(8) [OF st] sub32_u32 [of 1] by simp
  have links: "same_links s (?f s)"
    by (simp add: same_links_def owner_write_def)
  obtain w' where w': "world_write i ?f (w\<lparr>cells := m\<rparr>) = Some w'" "cfl_state ?c w' L (A(i := ?B))"
      "live w' = (live w)(i \<mapsto> ?f s)" "cfl_frame L w w'" "cells w' = m"
    using cfl_write_span [where f = ?f and c' = ?c, OF st i links goodB frame _ _ _ _ cnt] cfl_stateD(7) [OF st] by auto
  let ?p = "base_of s + x * obj_size c"
  have new: "?p \<notin> cfl_held c w L A" and held: "cfl_held c w' L (A(i := ?B)) = insert ?p (cfl_held c w L A)"
    using held_one_more [OF st i pop(2) A(1) w'(3)] by (simp_all add: base_of_def)
  have "0 < start s"
    using heap.shape [OF cfl_stateD(1) [OF st] i(2)] by blast
  then have "?p \<noteq> 0"
    by (simp add: base_of_def PAGE_SIZE_def)
  moreover have "cells_kept (obj_size c) (cfl_held c w L A) w w'"
    by (rule held_untouched [OF st i order.refl, of "A i"]) (use A(1,2) pop(4) w'(5) in auto)
  ultimately show ?thesis
    using pop(1) w' new held by blast
qed

section \<open>One object in\<close>

text \<open>One object fewer is held.\<close>

lemma held_less_one:
  assumes st: "cfl_state c w L A" and i: "i \<in> set L" "live w i = Some s" and k: "p = base_of s + k * obj_size c" "k < next_uninitialized s"
    and w': "live w' = (live w)(i \<mapsto> s')" "base_of s' = base_of s" "next_uninitialized s' = next_uninitialized s"
  shows "cfl_held c w' L (A(i := insert k (A i))) = cfl_held c w L A - {p}"
proof -
  note sz = cfl_stateD(2) [OF st] and dist = cfl_stateD(5) [OF st]
  have own: "held_objects (obj_size c) s' (insert k (A i)) = held_objects (obj_size c) s (A i) - {p}"
    using k sz w'(2,3) by (auto simp: held_objects_def)
  have "p \<notin> held_objects (obj_size c) (the (live w j)) (A j)" if j: "j \<in> set L - {i}" for j
  proof
    assume in_j: "p \<in> held_objects (obj_size c) (the (live w j)) (A j)"
    obtain t where t: "live w j = Some t"
      using cfl_state_span [OF st, of j] j by auto
    then obtain l where "p = base_of t + l * obj_size c" "l < next_uninitialized t"
      using in_j unfolding held_objects_iff by auto
    with t show False
      using object_unique [OF st i k(2), of j t l] j k(1) by auto
  qed
  then show ?thesis
    using cfl_held_write [OF i(1) dist w'(1), of c c A "insert k (A i)"] cfl_held_split [OF i(1) dist, of c w A] i(2) own by auto
qed

lemma push_spec:
  assumes st: "cfl_state c w L A" and p: "p \<in> cfl_held c w L A"
  shows "\<exists>i s h' m w' A' s'. world_find p w = Some i \<and> i \<in> set L \<and> live w i = Some s
     \<and> push_object (base_of s) (obj_size c) (freelist_head s) p (cells w) = (h', m)
     \<and> world_write i (\<lambda>q. q\<lparr>freelist_head := h', num_free_objects := u32 (num_free_objects q + 1)\<rparr>)
         (w\<lparr>cells := m\<rparr>) = Some w'
     \<and> cfl_state (c\<lparr>num_free := u32 (num_free c + 1)\<rparr>) w' L A' \<and> live w' i = Some s' \<and> p \<noteq> 0
     \<and> cfl_held c w' L A' = cfl_held c w L A - {p} \<and> cfl_frame L w w'
     \<and> cells_kept (obj_size c) (cfl_held c w L A - {p}) w w'"
proof -
  obtain i s k where i: "i \<in> set L" "live w i = Some s" and k: "p = base_of s + k * obj_size c"
      "k < next_uninitialized s" "k \<notin> A i"
    using p unfolding cfl_held_iff [OF st] held_objects_iff by blast
  have good: "good_span (obj_size c) (span_pages c) (cells w) s (A i)"
    using cfl_state_span [OF st i(1)] i(2) by auto
  note sz = cfl_stateD(2) [OF st] and dist = cfl_stateD(5) [OF st]
  have A: "A i \<subseteq> {..<next_uninitialized s}" "next_uninitialized s \<le> total_objects s" "total_objects s \<le> 65535"
      "num_free_objects s = card (A i)" "packed (obj_size c) (cells w) (base_of s) (freelist_head s) (A i)"
    using good by (simp_all add: good_span_def)
  have kt: "k < total_objects s" "k < INVALID_INDEX"
    using k(2) A(2,3) by (simp_all add: INVALID_INDEX_def)
  have "p div PAGE_SIZE \<in> pages_of s"
    using object_page [OF good kt(1), of p] k(1) sz by simp
  then have find: "world_find p w = Some i"
    by (rule heap.owner_of [OF cfl_stateD(1) [OF st] i(2)])
  obtain h' m where push: "push_object (base_of s) (obj_size c) (freelist_head s) p (cells w) = (h', m)"
      "packed (obj_size c) m (base_of s) h' (insert k (A i))"
      "\<forall>a. a \<notin> cells_of (base_of s) (obj_size c) (insert k (A i)) \<longrightarrow> m a = cells w a"
    using packed_push [OF A(5) sz k(3) kt(2)] unfolding index_to_ptr_def k(1) by blast
  have fin: "finite (A i)"
    by (rule good_span_finite [OF good])
  have card: "card (insert k (A i)) = card (A i) + 1" "card (A i) \<le> 65535"
    using fin k(3) A(1-3) card_mono [of "{..<next_uninitialized s}" "A i"] by auto
  let ?f = "\<lambda>q. q\<lparr>freelist_head := h', num_free_objects := u32 (num_free_objects q + 1)\<rparr>"
  let ?c = "c\<lparr>num_free := u32 (num_free c + 1)\<rparr>" and ?B = "insert k (A i)"
  have nf: "u32 (num_free_objects s + 1) = card ?B"
    using A(4) card by (simp add: wrap_simps)
  have goodB: "good_span (obj_size c) (span_pages c) m (?f s) ?B"
    using good push(2) nf k(2) by (auto simp: good_span_def base_of_def)
  have frame: "m a = cells w a" if "a div PAGE_SIZE \<notin> pages_of s" for a
  proof -
    have "insert k (A i) \<subseteq> {..<total_objects s}"
      using A(1,2) kt(1) by auto
    then show ?thesis
      using that objects_page [OF good, of ?B a] push(3) by blast
  qed
  have "card ?B + (\<Sum>j\<in>set L - {i}. card (A j)) = (\<Sum>j\<in>set L. card (A j)) + 1"
    using i(1) card by (simp add: sum.remove [of "set L" i])
  then have cnt: "num_free ?c = u32 (card ?B + (\<Sum>j\<in>set L - {i}. card (A j)))"
    using cfl_stateD(8) [OF st] by (simp add: u32_def mod_add_left_eq mod_Suc_eq)
  have links: "same_links s (?f s)"
    by (simp add: same_links_def owner_write_def)
  obtain w' where w': "world_write i ?f (w\<lparr>cells := m\<rparr>) = Some w'" "cfl_state ?c w' L (A(i := ?B))"
      "live w' = (live w)(i \<mapsto> ?f s)" "cfl_frame L w w'" "cells w' = m"
    using cfl_write_span [where f = ?f and c' = ?c, OF st i links goodB frame _ _ _ _ cnt] cfl_stateD(7) [OF st] by auto
  have held: "cfl_held c w' L (A(i := ?B)) = cfl_held c w L A - {p}"
    by (rule held_less_one [OF st i k(1,2) w'(3)]) (simp_all add: base_of_def)
  have "0 < start s"
    using heap.shape [OF cfl_stateD(1) [OF st] i(2)] by blast
  then have "p \<noteq> 0"
    by (simp add: k(1) base_of_def PAGE_SIZE_def)
  moreover have "live w' i = Some (?f s)"
    using w'(3) by simp
  moreover have "cells_kept (obj_size c) (cfl_held c w L A - {p}) w w'"
    by (rule held_untouched [OF st i, of _ ?B]) (use A(1,2) kt(1) k(1) push(3) w'(5) in auto)
  ultimately show ?thesis
    using find i push(1) w' held by blast
qed

section \<open>allocate and deallocate\<close>

lemma cfl_held_fields: "obj_size c' = obj_size c \<Longrightarrow> cfl_held c' w L A = cfl_held c w L A"
  by (simp add: cfl_held_def)

text \<open>The current span, or the first of the list with an object.\<close>

lemma choose_spec:
  assumes st: "cfl_state c w L A"
  shows "\<exists>ok cur. span_has_available_objects (current_span c) w = Some ok
     \<and> (if ok then Some (current_span c) else find_available_span c w) = Some cur
     \<and> cfl_state (c\<lparr>current_span := cur\<rparr>) w L A"
proof -
  have ok: "\<exists>ok. span_has_available_objects (current_span c) w = Some ok"
  proof (cases "current_span c")
    case (Some i)
    then show ?thesis
      using cfl_state_span [OF st cfl_stateD(7) [OF st Some]] span_available by auto
  qed (auto simp: span_has_available_objects_def)
  obtain l where "dseg (live w) nullptr (span_list c) L l nullptr"
    using cfl_stateD(4) [OF st] by (auto simp: dll_def)
  then obtain r where r: "find_available_span c w = Some r" "\<forall>i. r = Some i \<longrightarrow> i \<in> set L"
    using find_loop_spec unfolding find_available_span_def by blast
  have "cfl_state (c\<lparr>current_span := cur\<rparr>) w L A" if "\<forall>i. cur = Some i \<longrightarrow> i \<in> set L" for cur
    using st that by (simp add: cfl_state_def)
  then show ?thesis
    using ok r cfl_stateD(7) [OF st] by (metis (full_types))
qed

text \<open>A new span brings no object with it.\<close>

lemma new_span_held:
  assumes st: "cfl_state c w L A" and b: "live w b = None" "live w' b = Some t" "fresh_span c t"
    and view: "view (live w') = (view (live w))(b \<mapsto> payload t)" and c': "obj_size c' = obj_size c"
  shows "cfl_held c' w' (b # L) (A(b := {})) = cfl_held c w L A"
proof -
  have b': "b \<notin> set L"
    using cfl_state_span [OF st, of b] b(1) by auto
  have "held_objects (obj_size c) t {} = {}"
    using b(3) by (simp add: held_objects_def fresh_span_def)
  then have "cfl_held c' w' (b # L) (A(b := {})) = cfl_held c' w' L (A(b := {}))"
    using b(2) c' by (simp add: cfl_held_def)
  also have "\<dots> = cfl_held c' w' L A"
    unfolding cfl_held_def using b' by (intro SUP_cong) auto
  also have "\<dots> = cfl_held c w L A"
  proof (rule cfl_held_view)
    show "view (live w') i = view (live w) i" if "i \<in> set L" for i
      using b' that view by (metis fun_upd_other)
  qed (simp add: c')
  finally show ?thesis .
qed

text \<open>A span to take the object from, fetched when the list has none.\<close>

lemma supply_spec:
  assumes st: "cfl_state c w L A"
  shows "\<exists>c' w' L' A'. (if current_span c = nullptr then fetch_from_page_heap c w else Some (c, w)) = Some (c', w')
     \<and> cfl_state c' w' L' A' \<and> cfl_held c' w' L' A' = cfl_held c w L A
     \<and> obj_size c' = obj_size c \<and> span_pages c' = span_pages c \<and> grows w L L' \<and> cfl_frame L w w'
     \<and> cells w' = cells w"
proof (cases "current_span c = nullptr")
  case False
  then show ?thesis
    using st by (intro exI [of _ c] exI [of _ w] exI [of _ L] exI [of _ A]) auto
next
  case True
  obtain c' w' where f: "fetch_from_page_heap c w = Some (c', w')" and
    cases: "c' = c \<and> world_ok w' \<and> live w' = live w \<and> cells w' = cells w
      \<or> (\<exists>b t. live w b = None \<and> cfl_state c' w' (b # L) (A(b := {})) \<and> c' = c\<lparr>span_list := Some b, current_span := Some b\<rparr>
            \<and> live w' b = Some t \<and> fresh_span c t \<and> view (live w') = (view (live w))(b \<mapsto> payload t)
            \<and> cells w' = cells w \<and> cfl_frame L w w')"
    using fetch_spec [OF st] by blast
  from cases show ?thesis
  proof (elim disjE exE conjE)
    assume *: "c' = c" "world_ok w'" "live w' = live w" "cells w' = cells w"
    have "cfl_frame L w w'"
      using *(3,4) by (simp add: cfl_frame_def)
    then show ?thesis
      using True f * cfl_state_cong [OF st *(2-4)]
      by (intro exI [of _ c] exI [of _ w'] exI [of _ L] exI [of _ A]) (simp add: cfl_held_def)
  next
    fix b t
    assume *: "live w b = None" "cfl_state c' w' (b # L) (A(b := {}))" "c' = c\<lparr>span_list := Some b, current_span := Some b\<rparr>"
      "live w' b = Some t" "fresh_span c t" "view (live w') = (view (live w))(b \<mapsto> payload t)" "cells w' = cells w" "cfl_frame L w w'"
    have "cfl_held c' w' (b # L) (A(b := {})) = cfl_held c w L A"
      using new_span_held [OF st *(1,4,5,6), of c'] *(3) by simp
    moreover have "grows w L (b # L)"
      using *(1) by (simp add: grows_def)
    ultimately show ?thesis
      using True f * by (intro exI [of _ c'] exI [of _ w'] exI [of _ "b # L"] exI [of _ "A(b := {})"]) simp
  qed
qed

lemma refill_spec:
  assumes st: "cfl_state c w L A" and i: "i \<in> set L" "live w i = Some s"
  shows "\<exists>c' w' A' s'. (if freelist_head s = INVALID_INDEX then populate_span (Some i) c w else Some (c, w)) = Some (c', w')
     \<and> cfl_state c' w' L A' \<and> cfl_held c' w' L A' = cfl_held c w L A \<and> live w' i = Some s'
     \<and> obj_size c' = obj_size c \<and> span_pages c' = span_pages c \<and> cfl_frame L w w'
     \<and> cells_kept (obj_size c) (cfl_held c w L A) w w'"
proof (cases "freelist_head s = INVALID_INDEX \<and> next_uninitialized s < total_objects s")
  case True
  then show ?thesis
    using populate_spec [OF st i] by (auto split: if_splits)
next
  case False
  then have "(if freelist_head s = INVALID_INDEX then populate_span (Some i) c w else Some (c, w)) = Some (c, w)"
    using live_span [OF i(2)] by (auto simp: populate_span_def)
  then show ?thesis
    using st i by (auto simp: cells_kept_same)
qed

text \<open>The part of \<open>allocate\<close> behind the choice of the span.\<close>

lemma cfl_allocate_from:
  assumes cur: "span_has_available_objects (current_span c) w = Some ok"
      "(if ok then Some (current_span c) else find_available_span c w) = Some cur"
      "(if cur = nullptr then fetch_from_page_heap (c\<lparr>current_span := cur\<rparr>) w else Some (c\<lparr>current_span := cur\<rparr>, w)) = Some (c2, w2)"
    and st: "cfl_state c2 w2 L A" "current_span c2 = Some i" and H: "cfl_held c2 w2 L A = H"
  shows "\<exists>p c' w'. cfl_allocate c w = Some (p, c', w') \<and> cfl_rel c' w' L (if p = 0 then H else insert p H)
     \<and> (p \<noteq> 0 \<longrightarrow> p \<notin> H) \<and> obj_size c' = obj_size c2 \<and> span_pages c' = span_pages c2
     \<and> cfl_frame L w2 w' \<and> cells_kept (obj_size c2) H w2 w'"
proof -
  have i: "i \<in> set L"
    using cfl_stateD(7) [OF st(1)] st(2) by simp
  obtain s where s: "live w2 i = Some s" "spans (ph w2) i = Some s"
    using cfl_state_span [OF st(1) i] by blast
  obtain c3 w3 A3 s3 where s3: "(if freelist_head s = INVALID_INDEX then populate_span (Some i) c2 w2 else Some (c2, w2)) = Some (c3, w3)"
    and st3: "cfl_state c3 w3 L A3" and held3: "cfl_held c3 w3 L A3 = H" and live3: "live w3 i = Some s3"
    and f3: "obj_size c3 = obj_size c2" "span_pages c3 = span_pages c2" "cfl_frame L w2 w3" "cells_kept (obj_size c2) H w2 w3"
    using refill_spec [OF st(1) i s(1)] H by auto
  note run = cur st(2) s(2) s3 live_span [OF live3]
  show ?thesis
  proof (cases "freelist_head s3 = INVALID_INDEX")
    case True
    then have "cfl_allocate c w = Some (0, c3, w3)"
      using run unfolding cfl_allocate_def Let_def by simp
    then show ?thesis
      using st3 held3 f3 unfolding cfl_rel_def by auto
  next
    case False
    obtain p h' m w4 A4 where p: "pop_object (base_of s3) (obj_size c3) (freelist_head s3) (cells w3) = (p, h', m)"
        "world_write i (\<lambda>q. q\<lparr>freelist_head := h', num_free_objects := sub32 (num_free_objects q) 1\<rparr>)
           (w3\<lparr>cells := m\<rparr>) = Some w4"
        "cfl_state (c3\<lparr>num_free := sub32 (num_free c3) 1\<rparr>) w4 L A4" "p \<noteq> 0" "p \<notin> H"
        "cfl_held c3 w4 L A4 = insert p H" "cfl_frame L w3 w4" "cells_kept (obj_size c2) H w3 w4"
      using pop_spec [OF st3 i live3 False] held3 f3(1) by auto
    let ?c4 = "c3\<lparr>num_free := sub32 (num_free c3) 1\<rparr>"
    have "cfl_allocate c w = Some (p, ?c4, w4)"
      using run False p(1,2) unfolding cfl_allocate_def Let_def base_of_def by simp
    moreover have "cfl_held ?c4 w4 L A4 = insert p H"
      using p(6) cfl_held_fields [of ?c4 c3] by simp
    moreover have "cfl_frame L w2 w4"
      by (rule cfl_frame_trans [OF f3(3) p(7) grows_refl])
    moreover have "cells_kept (obj_size c2) H w2 w4"
      by (rule cells_kept_trans [OF f3(4) p(8)])
    ultimately show ?thesis
      using p(3-5) f3(1,2) unfolding cfl_rel_def
      by (intro exI [of _ p] exI [of _ ?c4] exI [of _ w4]) auto
  qed
qed

lemma cfl_allocate_spec:
  assumes rel: "cfl_rel c w L H"
  shows "\<exists>p c' w' L'. cfl_allocate c w = Some (p, c', w')
     \<and> cfl_rel c' w' L' (if p = 0 then H else insert p H) \<and> (p \<noteq> 0 \<longrightarrow> p \<notin> H)
     \<and> obj_size c' = obj_size c \<and> span_pages c' = span_pages c \<and> grows w L L' \<and> cfl_frame L w w'
     \<and> cells_kept (obj_size c) H w w'"
proof -
  obtain A where st: "cfl_state c w L A" and H: "H = cfl_held c w L A"
    using rel by (auto simp: cfl_rel_def)
  obtain ok cur where cur: "span_has_available_objects (current_span c) w = Some ok"
      "(if ok then Some (current_span c) else find_available_span c w) = Some cur"
      and st1: "cfl_state (c\<lparr>current_span := cur\<rparr>) w L A"
    using choose_spec [OF st] by blast
  let ?c1 = "c\<lparr>current_span := cur\<rparr>"
  obtain c2 w2 L2 A2 where s2: "(if cur = nullptr then fetch_from_page_heap ?c1 w else Some (?c1, w)) = Some (c2, w2)"
    and st2: "cfl_state c2 w2 L2 A2" and held2: "cfl_held c2 w2 L2 A2 = H"
    and f2: "obj_size c2 = obj_size c" "span_pages c2 = span_pages c" "grows w L L2" "cfl_frame L w w2" "cells w2 = cells w"
    using supply_spec [OF st1] cfl_held_fields [of ?c1 c w L A] H by auto
  show ?thesis
  proof (cases "current_span c2")
    case None
    then have "cfl_allocate c w = Some (0, c2, w2)"
      using cur s2 unfolding cfl_allocate_def Let_def by simp
    then show ?thesis
      using st2 held2 f2 cells_kept_same unfolding cfl_rel_def by auto
  next
    case (Some i)
    obtain p c' w' where p: "cfl_allocate c w = Some (p, c', w')" "cfl_rel c' w' L2 (if p = 0 then H else insert p H)"
        "p \<noteq> 0 \<longrightarrow> p \<notin> H" "obj_size c' = obj_size c" "span_pages c' = span_pages c"
        "cfl_frame L2 w2 w'" "cells_kept (obj_size c) H w2 w'"
      using cfl_allocate_from [OF cur s2 st2 Some held2] f2(1,2) by auto
    have "cfl_frame L w w'" "cells_kept (obj_size c) H w w'"
      by (rule cfl_frame_trans [OF f2(4) p(6) f2(3)], rule cells_kept_trans [OF cells_kept_same [OF f2(5)] p(7)])
    then show ?thesis
      using p(1-5) f2(3) by blast
  qed
qed

lemma cfl_deallocate_spec:
  assumes rel: "cfl_rel c w L H" and p: "p \<in> H"
  shows "\<exists>c' w' L'. cfl_deallocate p c w = Some (c', w') \<and> cfl_rel c' w' L' (H - {p}) \<and> p \<noteq> 0
     \<and> obj_size c' = obj_size c \<and> span_pages c' = span_pages c \<and> set L' \<subseteq> set L \<and> cfl_frame L w w'
     \<and> cells_kept (obj_size c) (H - {p}) w w'"
proof -
  obtain A where st: "cfl_state c w L A" and H: "H = cfl_held c w L A"
    using rel by (auto simp: cfl_rel_def)
  have pH: "p \<in> cfl_held c w L A"
    using p H by simp
  obtain i s h' m w1 A1 s1 where
    i: "world_find p w = Some i" "i \<in> set L" "live w i = Some s"
    and push: "push_object (base_of s) (obj_size c) (freelist_head s) p (cells w) = (h', m)"
      "world_write i (\<lambda>q. q\<lparr>freelist_head := h', num_free_objects := u32 (num_free_objects q + 1)\<rparr>)
         (w\<lparr>cells := m\<rparr>) = Some w1"
    and st1: "cfl_state (c\<lparr>num_free := u32 (num_free c + 1)\<rparr>) w1 L A1" and live1: "live w1 i = Some s1"
    and held1: "p \<noteq> 0" "cfl_held c w1 L A1 = H - {p}" "cfl_frame L w w1" "cells_kept (obj_size c) (H - {p}) w w1"
    using push_spec [OF st pH, folded H] by (elim exE conjE) (rule that; assumption)
  let ?c1 = "c\<lparr>num_free := u32 (num_free c + 1)\<rparr>"
  have run: "cfl_deallocate p c w =
      (if num_free_objects s1 = total_objects s1 then release_to_page_heap i ?c1 w1 else Some (?c1, w1))"
    using held1(1) i(1) live_span [OF i(3)] push live_span [OF live1]
    unfolding cfl_deallocate_def Let_def base_of_def by simp
  have held_c1: "cfl_held ?c1 w1 L A1 = H - {p}"
    using held1(2) cfl_held_fields [of ?c1 c] by simp
  show ?thesis
  proof (cases "num_free_objects s1 = total_objects s1")
    case False
    then show ?thesis
      using run st1 held_c1 held1(1,3,4) unfolding cfl_rel_def by auto
  next
    case True
    obtain c2 w2 L2 where r: "release_to_page_heap i ?c1 w1 = Some (c2, w2)" "cfl_state c2 w2 L2 A1"
        "set L2 = set L - {i}" "\<forall>j. j \<noteq> i \<longrightarrow> view (live w2) j = view (live w1) j"
        "obj_size c2 = obj_size c" "span_pages c2 = span_pages c" "cfl_frame L w1 w2" "cells w2 = cells w1"
      using release_spec [OF st1 i(2) live1] by auto
    have good: "good_span (obj_size c) (span_pages c) (cells w1) s1 (A1 i)"
      using cfl_state_span [OF st1 i(2)] live1 by auto
    then have "card (A1 i) = total_objects s1" "A1 i \<subseteq> {..<next_uninitialized s1}" "next_uninitialized s1 \<le> total_objects s1"
      using True by (simp_all add: good_span_def)
    moreover from this have "A1 i = {..<next_uninitialized s1}"
      by (intro card_seteq) simp_all
    ultimately have "held_objects (obj_size c) s1 (A1 i) = {}"
      by (simp add: held_objects_def)
    then have "cfl_held c w1 L A1 = cfl_held c w1 L2 A1"
      using i(2) live1 r(3) unfolding cfl_held_def by auto
    moreover have "cfl_held c2 w2 L2 A1 = cfl_held c w1 L2 A1"
      using r(3,4,5) by (intro cfl_held_view) auto
    ultimately have "cfl_rel c2 w2 L2 (H - {p})"
      using r(2) held1(2) unfolding cfl_rel_def by auto
    moreover have "cfl_frame L w w2"
      by (rule cfl_frame_trans [OF held1(3) r(7)]) simp
    moreover have "cells_kept (obj_size c) (H - {p}) w w2"
      by (rule cells_kept_trans [OF held1(4) cells_kept_same [OF r(8)]])
    ultimately show ?thesis
      using run True r(1,3,5,6) held1(1) by (intro exI [of _ c2] exI [of _ w2] exI [of _ L2]) auto
  qed
qed

section \<open>A central free list is an object source\<close>

definition cfl_leads :: "CentralFreeList \<times> World \<Rightarrow> nat list \<Rightarrow> CentralFreeList \<times> World \<Rightarrow> nat list \<Rightarrow> bool" where
  "cfl_leads s L s' L' \<longleftrightarrow> obj_size (fst s') = obj_size (fst s) \<and> span_pages (fst s') = span_pages (fst s)
     \<and> grows (snd s) L L' \<and> cfl_frame L (snd s) (snd s')"

lemma grows_trans:
  assumes "grows w L L1" "cfl_frame L w w1" "grows w1 L1 L2"
  shows "grows w L L2"
  unfolding grows_def
proof
  fix i
  assume "i \<in> set L2"
  then consider "i \<in> set L1" | "live w1 i = None"
    using assms(3) by (auto simp: grows_def)
  then show "i \<in> set L \<or> live w i = None"
  proof cases
    case 1
    then show ?thesis
      using assms(1) by (auto simp: grows_def)
  next
    case 2
    then show ?thesis
      using assms(2) unfolding cfl_frame_def by (metis option.exhaust option.distinct(1))
  qed
qed

definition cfl_get :: "CentralFreeList \<times> World \<Rightarrow> (addr \<times> CentralFreeList \<times> World) option" where
  "cfl_get s = cfl_allocate (fst s) (snd s)"

definition cfl_put :: "addr \<Rightarrow> CentralFreeList \<times> World \<Rightarrow> (CentralFreeList \<times> World) option" where
  "cfl_put p s = cfl_deallocate p (fst s) (snd s)"

definition cfl_keeps :: "addr set \<Rightarrow> CentralFreeList \<times> World \<Rightarrow> CentralFreeList \<times> World \<Rightarrow> bool" where
  "cfl_keeps H s s' \<longleftrightarrow> obj_size (fst s') = obj_size (fst s) \<and> cells_kept (obj_size (fst s)) H (snd s) (snd s')"

interpretation cfl: object_source "\<lambda>s. cfl_rel (fst s) (snd s)" cfl_leads cfl_keeps cfl_get cfl_put
proof unfold_locales
  show "cfl_leads s g s g" for s g
    by (simp add: cfl_leads_def)
next
  fix s g s1 g1 s2 g2
  assume a: "cfl_leads s g s1 g1" "cfl_leads s1 g1 s2 g2"
  then have "cfl_frame g (snd s) (snd s2)" "grows (snd s) g g2"
    unfolding cfl_leads_def by (blast intro: cfl_frame_trans grows_trans)+
  then show "cfl_leads s g s2 g2"
    using a by (simp add: cfl_leads_def)
next
  show "cfl_keeps H s s" for H s
    by (simp add: cfl_keeps_def cells_kept_same)
next
  show "cfl_keeps H s s1 \<Longrightarrow> cfl_keeps H s1 s2 \<Longrightarrow> cfl_keeps H s s2" for H s s1 s2
    by (auto simp: cfl_keeps_def intro: cells_kept_trans)
next
  show "cfl_keeps H s s' \<Longrightarrow> K \<subseteq> H \<Longrightarrow> cfl_keeps K s s'" for H K s s'
    by (auto simp: cfl_keeps_def intro: cells_kept_mono)
next
  fix s g H
  assume "cfl_rel (fst s) (snd s) g H"
  from cfl_allocate_spec [OF this]
  show "\<exists>p s' g'. cfl_get s = Some (p, s') \<and> cfl_leads s g s' g' \<and>
      cfl_rel (fst s') (snd s') g' (if p = 0 then H else insert p H) \<and> (p \<noteq> 0 \<longrightarrow> p \<notin> H) \<and> cfl_keeps H s s'"
    unfolding cfl_get_def cfl_leads_def cfl_keeps_def by (metis fst_conv snd_conv)
next
  fix s g H p
  assume "cfl_rel (fst s) (snd s) g H" "p \<in> H"
  from cfl_deallocate_spec [OF this]
  show "\<exists>s' g'. cfl_put p s = Some s' \<and> cfl_leads s g s' g' \<and> cfl_rel (fst s') (snd s') g' (H - {p}) \<and> p \<noteq> 0
      \<and> cfl_keeps (H - {p}) s s'"
    unfolding cfl_put_def cfl_leads_def cfl_keeps_def using grows_subset by (metis fst_conv snd_conv)
qed

lemma cfl_allocate_batch_eq: "cfl_allocate_batch n c w = take_batch cfl_get n (c, w)"
  by (induction n arbitrary: c w) (auto simp: cfl_get_def intro!: Option.bind_cong)

lemma cfl_deallocate_batch_eq: "cfl_deallocate_batch ps c w = put_batch cfl_put ps (c, w)"
  by (induction ps arbitrary: c w) (auto simp: cfl_put_def intro!: Option.bind_cong)

end
