(* ===== verification/Object_Pool.thy ===== *)
theory Object_Pool
  imports Alloc_Prelude
begin

text \<open>
  The interface between the allocator and the stores that keep free objects for it. A free
  object is its address; 0 is \<open>nullptr\<close>, which no store holds. The contract comes in two
  strengths: \<open>object_pool\<close> (a put accepts the object or changes nothing, a get hands out an
  object it held or changes nothing), which is all the allocator relies on, and
  \<open>bounded_stack\<close>, the contract of one slab class and of a transfer cache. The two loops the
  allocator runs over a pool are defined here, with the pool's operation as an argument.
\<close>

section \<open>The allocator's loops over a pool\<close>

text \<open>
  \<open>while (drained < n) { p = pop(); if (!p) break; batch[drained++] = p; }\<close>, with \<open>n\<close> the
  number of pops still allowed.
\<close>

fun drain_loop :: "('s \<Rightarrow> addr \<times> 's) \<Rightarrow> nat \<Rightarrow> 's \<Rightarrow> addr list \<times> 's" where
  "drain_loop pop 0 s = ([], s)"
| "drain_loop pop (Suc n) s =
     (case pop s of (p, s1) \<Rightarrow>
        if p = 0 then ([], s1)
        else (case drain_loop pop n s1 of (ps, s2) \<Rightarrow> (p # ps, s2)))"

text \<open>
  \<open>while (got > 0) { if (!push(batch[got - 1])) break; --got; }\<close>: the result is
  \<open>batch[0 .. got)\<close> when the loop ends, the objects no push accepted.
\<close>

function fill_loop :: "(addr \<Rightarrow> 's \<Rightarrow> bool \<times> 's) \<Rightarrow> addr list \<Rightarrow> 's \<Rightarrow> addr list \<times> 's" where
  "fill_loop push batch s =
     (if batch = [] then ([], s)
      else case push (last batch) s of (ok, s1) \<Rightarrow>
        if ok then fill_loop push (butlast batch) s1 else (batch, s1))"
  by pat_completeness auto
termination
  by (relation "measure (\<lambda>(push, batch, s). length batch)") auto

declare fill_loop.simps [simp del]

lemma fill_loop_Nil [simp]: "fill_loop push [] s = ([], s)"
  by (simp add: fill_loop.simps)

lemma fill_loop_snoc [simp]:
  "fill_loop push (xs @ [x]) s =
     (case push x s of (ok, s1) \<Rightarrow> if ok then fill_loop push xs s1 else (xs @ [x], s1))"
  by (subst fill_loop.simps) (simp split: prod.split)

section \<open>Pools\<close>

locale object_pool =
  fixes inv :: "'s \<Rightarrow> bool"
    and objs :: "'s \<Rightarrow> addr multiset"
    and push :: "addr \<Rightarrow> 's \<Rightarrow> bool \<times> 's"
    and pop :: "'s \<Rightarrow> addr \<times> 's"
  assumes push_accept: "inv s \<Longrightarrow> x \<noteq> 0 \<Longrightarrow> push x s = (True, s') \<Longrightarrow> inv s' \<and> objs s' = add_mset x (objs s)"
    and push_reject: "inv s \<Longrightarrow> x \<noteq> 0 \<Longrightarrow> push x s = (False, s') \<Longrightarrow> inv s' \<and> objs s' = objs s"
    and pop_null: "inv s \<Longrightarrow> pop s = (0, s') \<Longrightarrow> inv s' \<and> objs s' = objs s"
    and pop_object: "inv s \<Longrightarrow> pop s = (x, s') \<Longrightarrow> x \<noteq> 0 \<Longrightarrow> inv s' \<and> objs s = add_mset x (objs s')"
begin

lemma drain:
  "inv s \<Longrightarrow> drain_loop pop n s = (ps, s') \<Longrightarrow>
     inv s' \<and> objs s = mset ps + objs s' \<and> length ps \<le> n \<and> 0 \<notin> set ps"
proof (induction n arbitrary: s ps s')
  case (Suc n)
  obtain p s1 where pop: "pop s = (p, s1)"
    by fastforce
  show ?case
  proof (cases "p = 0")
    case True
    then show ?thesis
      using Suc.prems pop pop_null by auto
  next
    case False
    obtain qs s2 where rest: "drain_loop pop n s1 = (qs, s2)"
      by fastforce
    have "inv s1" "objs s = add_mset p (objs s1)"
      using pop_object [OF Suc.prems(1) pop False] by auto
    then show ?thesis
      using Suc.IH [OF _ rest] Suc.prems(2) pop False rest by auto
  qed
qed auto

lemma fill:
  "inv s \<Longrightarrow> 0 \<notin> set batch \<Longrightarrow> fill_loop push batch s = (rest, s') \<Longrightarrow>
     inv s' \<and> (\<exists>pushed. batch = rest @ pushed \<and> objs s' = objs s + mset pushed)"
proof (induction batch arbitrary: s rest rule: rev_induct)
  case Nil
  then show ?case
    by simp
next
  case (snoc x xs)
  obtain ok s1 where push: "push x s = (ok, s1)"
    by fastforce
  show ?case
  proof (cases ok)
    case True
    then have s1: "inv s1" "objs s1 = add_mset x (objs s)"
      using push_accept [of s x s1] snoc.prems push by auto
    obtain pushed where "inv s'" "xs = rest @ pushed" "objs s' = objs s1 + mset pushed"
      using snoc.IH [OF s1(1)] snoc.prems push True by auto
    then show ?thesis
      using s1 by (intro conjI exI [of _ "pushed @ [x]"]) auto
  next
    case False
    then show ?thesis
      using push_reject [of s x s1] snoc.prems push by auto
  qed
qed

text \<open>
  Draining up to \<open>n\<close> objects and filling them back in loses and invents nothing: what the pool
  held is what it holds afterwards and what the refill could not place.
\<close>

lemma drain_fill:
  assumes "inv s" "drain_loop pop n s = (ps, s1)" "fill_loop push ps s1 = (rest, s2)"
  shows "inv s2 \<and> objs s = objs s2 + mset rest"
  using drain [OF assms(1,2)] fill [of s1 ps rest s2] assms(3) by auto

end

section \<open>Bounded stacks\<close>

locale bounded_stack =
  fixes inv :: "'s \<Rightarrow> bool"
    and contents :: "'s \<Rightarrow> addr list"
    and cap :: nat
    and push :: "addr \<Rightarrow> 's \<Rightarrow> bool \<times> 's"
    and pop :: "'s \<Rightarrow> addr \<times> 's"
  assumes bounded: "inv s \<Longrightarrow> length (contents s) \<le> cap"
    and nonnull: "inv s \<Longrightarrow> 0 \<notin> set (contents s)"
    and push_room: "inv s \<Longrightarrow> x \<noteq> 0 \<Longrightarrow> length (contents s) < cap \<Longrightarrow> push x s = (ok, s') \<Longrightarrow>
          ok \<and> inv s' \<and> contents s' = contents s @ [x]"
    and push_full: "inv s \<Longrightarrow> length (contents s) = cap \<Longrightarrow> push x s = (False, s)"
    and pop_empty: "inv s \<Longrightarrow> contents s = [] \<Longrightarrow> pop s = (0, s)"
    and pop_top: "inv s \<Longrightarrow> contents s \<noteq> [] \<Longrightarrow> pop s = (x, s') \<Longrightarrow>
          inv s' \<and> contents s = contents s' @ [x]"
begin

lemma push_iff:
  assumes "inv s" "x \<noteq> 0"
  shows "fst (push x s) \<longleftrightarrow> length (contents s) < cap"
proof (cases "length (contents s) < cap")
  case True
  then show ?thesis
    using push_room [OF assms True, of "fst (push x s)" "snd (push x s)"] by simp
next
  case False
  then have "length (contents s) = cap"
    using bounded [OF assms(1)] by simp
  then show ?thesis
    using push_full [OF assms(1)] by simp
qed

lemma push_pop:
  assumes "inv s" "x \<noteq> 0" "push x s = (True, s1)"
  shows "\<exists>s2. pop s1 = (x, s2) \<and> inv s2 \<and> contents s2 = contents s"
proof -
  have "length (contents s) < cap"
    using push_iff [OF assms(1,2)] assms(3) by simp
  then have s1: "inv s1" "contents s1 = contents s @ [x]"
    using push_room [OF assms(1,2) _ assms(3)] by blast+
  obtain y s2 where pop: "pop s1 = (y, s2)"
    by fastforce
  then have "inv s2" "contents s @ [x] = contents s2 @ [y]"
    using pop_top [OF s1(1) _ pop] s1(2) by simp_all
  then show ?thesis
    using pop by (intro exI [of _ s2]) simp
qed

text \<open>A drain is a run of pops: it returns the top \<open>n\<close> objects, the newest first.\<close>

lemma drain_stack:
  "inv s \<Longrightarrow> drain_loop pop n s = (ps, s') \<Longrightarrow>
     inv s' \<and> contents s = contents s' @ rev ps \<and> length ps = min n (length (contents s))"
proof (induction n arbitrary: s ps s')
  case (Suc n)
  obtain p s1 where pop: "pop s = (p, s1)"
    by fastforce
  show ?case
  proof (cases "contents s = []")
    case True
    then show ?thesis
      using Suc.prems pop_empty [OF Suc.prems(1) True] by auto
  next
    case False
    have s1: "inv s1" "contents s = contents s1 @ [p]"
      using pop_top [OF Suc.prems(1) False pop] by auto
    then have "p \<noteq> 0"
      using nonnull [OF Suc.prems(1)] by auto
    obtain qs s2 where rest: "drain_loop pop n s1 = (qs, s2)"
      by fastforce
    have res: "ps = p # qs" "s' = s2"
      using Suc.prems(2) pop rest \<open>p \<noteq> 0\<close> by simp_all
    from Suc.IH [OF s1(1) rest]
    have "inv s2" "contents s1 = contents s2 @ rev qs" "length qs = min n (length (contents s1))"
      by blast+
    with s1(2) show ?thesis
      unfolding res by simp
  qed
qed auto

end

sublocale bounded_stack \<subseteq> object_pool inv "\<lambda>s. mset (contents s)" push pop
proof unfold_locales
  fix s x s'
  assume "inv s" "x \<noteq> 0" "push x s = (True, s')"
  then show "inv s' \<and> mset (contents s') = add_mset x (mset (contents s))"
    using push_iff [of s x] push_room [of s x True s'] by fastforce
next
  fix s x s'
  assume "inv s" "x \<noteq> 0" "push x s = (False, s')"
  then show "inv s' \<and> mset (contents s') = mset (contents s)"
    using push_room [of s x False s'] push_full [of s x] bounded [of s] by fastforce
next
  fix s s'
  assume "inv s" "pop s = (0, s')"
  then show "inv s' \<and> mset (contents s') = mset (contents s)"
    using pop_empty [of s] pop_top [of s 0 s'] nonnull [of s] by (cases "contents s = []") auto
next
  fix s x s'
  assume "inv s" "pop s = (x, s')" "x \<noteq> 0"
  then show "inv s' \<and> mset (contents s) = add_mset x (mset (contents s'))"
    using pop_empty [of s] pop_top [of s x s'] by (cases "contents s = []") auto
qed

end
