(* ===== verification/Slabs.thy ===== *)
theory Slabs
  imports Slab_Config Object_Pool
begin

text \<open>
  Per-CPU slabs (\<open>slabs.hpp\<close>). A slab holds one 16-bit count per size class and one flat
  pointer array; class \<open>i\<close> uses the slots from \<open>SIZE_CLASS_OFFSETS ! i\<close> on as a stack. The
  region of all slabs is a function of the CPU number; the byte layout behind it (stride,
  pointer offset) is modelled too, with the proof that distinct slots are distinct bytes.
  \<open>slab_pop\<close> and \<open>slab_push\<close> are the wrappers the allocator calls: the restartable sequence
  when available, else the plain C++ fallback on the current CPU. \<open>rseq_slab_pop\<close> and
  \<open>rseq_slab_push\<close> are here the results of an undisturbed run of the assembly.
\<close>

section \<open>Byte layout\<close>

definition align_up :: "nat \<Rightarrow> nat \<Rightarrow> nat" where
  "align_up v a = (if a = 0 then v
     else u64 ((u64 (v + a + 18446744073709551616 - 1) div a) * a))"

definition SLAB_POINTERS_OFFSET :: nat where
  "SLAB_POINTERS_OFFSET = align_up (NUM_SIZE_CLASSES * 2) CACHE_LINE_SIZE"

definition SLAB_RAW_BYTE_SIZE :: nat where
  "SLAB_RAW_BYTE_SIZE = SLAB_POINTERS_OFFSET + SIZE_CLASS_OFFSETS ! NUM_SIZE_CLASSES * 8"

definition SLAB_STRIDE_ALIGNMENT :: nat where
  "SLAB_STRIDE_ALIGNMENT = (if PAGE_ALIGN_SLAB_STRIDE then PAGE_SIZE else CACHE_LINE_SIZE)"

definition SLAB_STRIDE_BYTES :: nat where
  "SLAB_STRIDE_BYTES = align_up SLAB_RAW_BYTE_SIZE SLAB_STRIDE_ALIGNMENT"

text \<open>The address of a CPU's slab, with the bounds check of the wrappers.\<close>

definition get_slabs :: "addr \<Rightarrow> nat \<Rightarrow> addr" where
  "get_slabs base cpu = u64 (base + u64 (cpu * SLAB_STRIDE_BYTES))"

definition get_slabs_checked :: "addr \<Rightarrow> nat \<Rightarrow> nat \<Rightarrow> ptr" where
  "get_slabs_checked base slab_count cpu = (if slab_count \<le> cpu then nullptr else Some (get_slabs base cpu))"

section \<open>One slab\<close>

record Slabs =
  currents :: "nat \<Rightarrow> nat"
  pointers :: "nat \<Rightarrow> addr"

definition empty_slab :: Slabs where
  "empty_slab = \<lparr>currents = (\<lambda>_. 0), pointers = (\<lambda>_. 0)\<rparr>"

text \<open>Slot index in \<open>pointers\<close> of the member functions that return \<open>&pointers[...]\<close>.\<close>

definition push_destination :: "Slabs \<Rightarrow> nat \<Rightarrow> nat" where
  "push_destination s sc = u32 (SIZE_CLASS_OFFSETS ! sc + currents s sc)"

definition commit_push :: "Slabs \<Rightarrow> nat \<Rightarrow> nat \<Rightarrow> Slabs" where
  "commit_push s sc n = s\<lparr>currents := (currents s)(sc := u16 (u32 (currents s sc + n)))\<rparr>"

definition pop_source :: "Slabs \<Rightarrow> nat \<Rightarrow> nat \<Rightarrow> nat" where
  "pop_source s sc n = sub32 (u32 (SIZE_CLASS_OFFSETS ! sc + currents s sc)) n"

definition commit_pop :: "Slabs \<Rightarrow> nat \<Rightarrow> nat \<Rightarrow> Slabs" where
  "commit_pop s sc n = s\<lparr>currents := (currents s)(sc := u16 (sub32 (currents s sc) n))\<rparr>"

definition available :: "Slabs \<Rightarrow> nat \<Rightarrow> nat" where
  "available s sc = currents s sc"

definition remaining :: "Slabs \<Rightarrow> nat \<Rightarrow> nat" where
  "remaining s sc = sub32 (SIZE_CLASS_CAPACITIES ! sc) (currents s sc)"

definition fallback_allocate :: "Slabs \<Rightarrow> nat \<Rightarrow> addr \<times> Slabs" where
  "fallback_allocate slab sc =
     (let cur = currents slab sc in
      if 0 < cur then
        let idx = sub32 (u32 (SIZE_CLASS_OFFSETS ! sc + cur)) 1;
            p = pointers slab idx
        in (p, slab\<lparr>currents := (currents slab)(sc := u16 (cur - 1))\<rparr>)
      else (0, slab))"

definition fallback_deallocate :: "Slabs \<Rightarrow> addr \<Rightarrow> nat \<Rightarrow> bool \<times> Slabs" where
  "fallback_deallocate slab mem sc =
     (let cur = currents slab sc in
      if cur < SIZE_CLASS_CAPACITIES ! sc then
        let idx = u32 (SIZE_CLASS_OFFSETS ! sc + cur) in
        (True, slab\<lparr>pointers := (pointers slab)(idx := mem),
                    currents := (currents slab)(sc := u16 (cur + 1))\<rparr>)
      else (False, slab))"

section \<open>All slabs\<close>

type_synonym slab_region = "nat \<Rightarrow> Slabs"

text \<open>
  What the operating system answers during one slab operation: whether the thread's rseq
  area is registered, the CPU number it holds, and the results of \<open>sched_getcpu\<close> (negative on
  error) and \<open>getcpu\<close> (\<open>None\<close> on error).
\<close>

record cpu_env =
  rseq_available :: bool
  rseq_cpu_id :: nat
  rseq_cpu_id_late :: int
  sched_getcpu :: int
  getcpu :: "nat option"

definition fallback_get_cpu :: "cpu_env \<Rightarrow> nat" where
  "fallback_get_cpu e =
     (if 0 \<le> sched_getcpu e then nat (sched_getcpu e)
      else case getcpu e of Some cpu \<Rightarrow> cpu | None \<Rightarrow> 0)"

definition current_cpu_id :: "cpu_env \<Rightarrow> nat" where
  "current_cpu_id e =
     (if rseq_available e \<and> 0 \<le> rseq_cpu_id_late e then nat (rseq_cpu_id_late e)
      else fallback_get_cpu e)"

text \<open>
  The restartable sequences, run to their end: the result, whether the fast path was used,
  and the region. An unsigned CPU number outside the region leaves by the exit at label 17 or
  27 and touches nothing.
\<close>

definition rseq_slab_pop :: "slab_region \<Rightarrow> nat \<Rightarrow> nat \<Rightarrow> nat \<Rightarrow> (addr \<times> bool) \<times> slab_region" where
  "rseq_slab_pop region slab_count sc cpu =
     (if slab_count \<le> cpu then ((0, False), region)
      else let slab = region cpu; eax = currents slab sc in
        if eax = 0 then ((0, True), region)
        else let edx = eax - 1; slot = u32 (SIZE_CLASS_OFFSETS ! sc + edx) in
          ((pointers slab slot, True),
           region(cpu := slab\<lparr>currents := (currents slab)(sc := u16 edx)\<rparr>)))"

definition rseq_slab_push ::
    "slab_region \<Rightarrow> nat \<Rightarrow> nat \<Rightarrow> addr \<Rightarrow> nat \<Rightarrow> (bool \<times> bool) \<times> slab_region" where
  "rseq_slab_push region slab_count sc p cpu =
     (if slab_count \<le> cpu then ((False, False), region)
      else let slab = region cpu; eax = currents slab sc in
        if SIZE_CLASS_CAPACITIES ! sc \<le> eax then ((False, True), region)
        else let slot = u32 (SIZE_CLASS_OFFSETS ! sc + eax) in
          ((True, True),
           region(cpu := slab\<lparr>pointers := (pointers slab)(slot := p),
                              currents := (currents slab)(sc := u16 (eax + 1))\<rparr>)))"

text \<open>The part of both wrappers after the restartable sequence was not used.\<close>

definition slab_pop_fallback :: "slab_region \<Rightarrow> nat \<Rightarrow> nat \<Rightarrow> nat \<Rightarrow> addr \<times> slab_region" where
  "slab_pop_fallback region slab_count sc cpu =
     (if slab_count \<le> cpu then (0, region)
      else case fallback_allocate (region cpu) sc of (p, slab) \<Rightarrow> (p, region(cpu := slab)))"

definition slab_push_fallback ::
    "slab_region \<Rightarrow> nat \<Rightarrow> nat \<Rightarrow> addr \<Rightarrow> nat \<Rightarrow> bool \<times> slab_region" where
  "slab_push_fallback region slab_count sc p cpu =
     (if slab_count \<le> cpu then (False, region)
      else case fallback_deallocate (region cpu) p sc of (ok, slab) \<Rightarrow> (ok, region(cpu := slab)))"

definition slab_pop :: "cpu_env \<Rightarrow> slab_region \<Rightarrow> nat \<Rightarrow> nat \<Rightarrow> addr \<times> slab_region" where
  "slab_pop e region slab_count sc =
     (if rseq_available e then
        (case rseq_slab_pop region slab_count sc (rseq_cpu_id e) of ((p, fast), region1) \<Rightarrow>
           if fast then (p, region1)
           else slab_pop_fallback region1 slab_count sc (current_cpu_id e))
      else slab_pop_fallback region slab_count sc (current_cpu_id e))"

definition slab_push :: "cpu_env \<Rightarrow> slab_region \<Rightarrow> nat \<Rightarrow> nat \<Rightarrow> addr \<Rightarrow> bool \<times> slab_region" where
  "slab_push e region slab_count sc p =
     (if rseq_available e then
        (case rseq_slab_push region slab_count sc p (rseq_cpu_id e) of ((ok, fast), region1) \<Rightarrow>
           if fast then (ok, region1)
           else slab_push_fallback region1 slab_count sc p (current_cpu_id e))
      else slab_push_fallback region slab_count sc p (current_cpu_id e))"

section \<open>A slab class is a bounded stack\<close>

definition slab_stack :: "Slabs \<Rightarrow> nat \<Rightarrow> addr list" where
  "slab_stack s sc = map (pointers s) [slab_offset sc ..< slab_offset sc + currents s sc]"

definition slab_wf :: "Slabs \<Rightarrow> bool" where
  "slab_wf s \<longleftrightarrow> (\<forall>sc<48. currents s sc \<le> slab_capacity sc \<and> 0 \<notin> set (slab_stack s sc))"

lemma length_slab_stack [simp]: "length (slab_stack s sc) = currents s sc"
  by (simp add: slab_stack_def)

lemma slab_wf_empty: "slab_wf empty_slab"
  by (simp add: slab_wf_def slab_stack_def empty_slab_def)

lemma slab_stack_empty [simp]: "slab_stack empty_slab sc = []"
  by (simp add: slab_stack_def empty_slab_def)

lemma fallback_deallocate_room:
  assumes "sc < 48" "slab_wf s" "x \<noteq> 0" "currents s sc < slab_capacity sc"
    and "fallback_deallocate s x sc = (ok, s')"
  shows "ok \<and> slab_wf s' \<and> slab_stack s' sc = slab_stack s sc @ [x]
       \<and> (\<forall>c<48. c \<noteq> sc \<longrightarrow> slab_stack s' c = slab_stack s c)"
proof -
  let ?i = "slab_offset sc + currents s sc"
  have idx: "u32 ?i = ?i" "u16 (currents s sc + 1) = currents s sc + 1"
    using slice_end_le [OF assms(1)] slab_capacity_le [OF assms(1)] assms(4)
    by (simp_all add: wrap_simps)
  have s': "ok" "s' = s\<lparr>pointers := (pointers s)(?i := x), currents := (currents s)(sc := currents s sc + 1)\<rparr>"
    using assms(4,5) idx by (auto simp: fallback_deallocate_def Let_def)
  have other: "slab_stack s' c = slab_stack s c" if "c < 48" "c \<noteq> sc" for c
  proof -
    have "currents s c \<le> slab_capacity c"
      using assms(2) that by (simp add: slab_wf_def)
    then have "slab_offset c + a \<noteq> ?i" if "a < currents s c" for a
      using slices_disjoint [of c sc a "currents s sc"] assms(1,4) \<open>c < 48\<close> \<open>c \<noteq> sc\<close> that by auto
    then have "?i \<notin> {slab_offset c ..< slab_offset c + currents s c}"
      by (metis add_diff_inverse_nat atLeastLessThan_iff linorder_not_le nat_add_left_cancel_less)
    then show ?thesis
      using that s'(2) by (auto simp: slab_stack_def)
  qed
  have own: "slab_stack s' sc = slab_stack s sc @ [x]"
    using s'(2) by (simp add: slab_stack_def)
  have "slab_wf s'"
    unfolding slab_wf_def
  proof (intro allI impI)
    fix c :: nat
    assume "c < 48"
    then show "currents s' c \<le> slab_capacity c \<and> 0 \<notin> set (slab_stack s' c)"
      using assms own other s'(2) by (cases "c = sc") (auto simp: slab_wf_def)
  qed
  then show ?thesis
    using s'(1) own other by blast
qed

lemma fallback_deallocate_full:
  "slab_capacity sc \<le> currents s sc \<Longrightarrow> fallback_deallocate s x sc = (False, s)"
  by (simp add: fallback_deallocate_def)

lemma fallback_allocate_empty: "currents s sc = 0 \<Longrightarrow> fallback_allocate s sc = (0, s)"
  by (simp add: fallback_allocate_def)

lemma fallback_allocate_top:
  assumes "sc < 48" "slab_wf s" "0 < currents s sc" "fallback_allocate s sc = (x, s')"
  shows "slab_wf s' \<and> slab_stack s sc = slab_stack s' sc @ [x]
       \<and> (\<forall>c. c \<noteq> sc \<longrightarrow> slab_stack s' c = slab_stack s c)"
proof -
  let ?i = "slab_offset sc + (currents s sc - 1)"
  have le: "currents s sc \<le> slab_capacity sc"
    using assms(1,2) by (simp add: slab_wf_def)
  then have "sub32 (u32 (slab_offset sc + currents s sc)) 1 = ?i" "u16 (currents s sc - 1) = currents s sc - 1"
    using slice_end_le [OF assms(1)] slab_capacity_le [OF assms(1)] assms(3)
    by (simp_all add: wrap_simps)
  then have s': "x = pointers s ?i" "s' = s\<lparr>currents := (currents s)(sc := currents s sc - 1)\<rparr>"
    using assms(3,4) by (auto simp: fallback_allocate_def Let_def)
  obtain n where n: "currents s sc = Suc n"
    using assms(3) by (cases "currents s sc") auto
  have own: "slab_stack s sc = slab_stack s' sc @ [x]"
    using s' n by (simp add: slab_stack_def)
  have other: "slab_stack s' c = slab_stack s c" if "c \<noteq> sc" for c
    using that s'(2) by (simp add: slab_stack_def)
  have "slab_wf s'"
    unfolding slab_wf_def
  proof (intro allI impI)
    fix c :: nat
    assume "c < 48"
    then show "currents s' c \<le> slab_capacity c \<and> 0 \<notin> set (slab_stack s' c)"
      using assms(2) le own other s'(2) by (cases "c = sc") (auto simp: slab_wf_def)
  qed
  then show ?thesis
    using own other by blast
qed

interpretation slab_class: bounded_stack
  "\<lambda>s. sc < 48 \<and> slab_wf s" "\<lambda>s. slab_stack s sc" "slab_capacity sc"
  "\<lambda>x s. fallback_deallocate s x sc" "\<lambda>s. fallback_allocate s sc" for sc
proof unfold_locales
  fix s x ok s'
  assume "sc < 48 \<and> slab_wf s" "x \<noteq> 0" "length (slab_stack s sc) < slab_capacity sc"
    "fallback_deallocate s x sc = (ok, s')"
  then show "ok \<and> (sc < 48 \<and> slab_wf s') \<and> slab_stack s' sc = slab_stack s sc @ [x]"
    using fallback_deallocate_room [of sc s x ok s'] by simp
next
  fix s x s'
  assume *: "sc < 48 \<and> slab_wf s" "slab_stack s sc \<noteq> []" "fallback_allocate s sc = (x, s')"
  then have "0 < currents s sc"
    by (metis length_greater_0_conv length_slab_stack)
  then show "(sc < 48 \<and> slab_wf s') \<and> slab_stack s sc = slab_stack s' sc @ [x]"
    using fallback_allocate_top [of sc s x s'] * by simp
qed (auto simp: slab_wf_def fallback_deallocate_full fallback_allocate_empty
      simp flip: length_slab_stack)

section \<open>The wrappers\<close>

lemma u32_pred: "0 < a \<Longrightarrow> sub32 (u32 a) 1 = u32 (a - 1)"
proof -
  assume "0 < a"
  then obtain b where b: "a = Suc b"
    by (cases a) auto
  have "sub32 (u32 (Suc b)) 1 = (4294967295 + Suc b mod 4294967296) mod 4294967296"
    by (simp add: sub32_def u32_def)
  also have "\<dots> = (4294967295 + Suc b) mod 4294967296"
    by (rule mod_add_right_eq)
  also have "\<dots> = b mod 4294967296"
    by simp
  finally show ?thesis
    by (simp add: b u32_def)
qed

text \<open>
  The restartable sequences compute what the plain C++ routines compute on the slab of the CPU
  they run on.
\<close>

lemma rseq_slab_pop_fallback:
  "rseq_slab_pop region slab_count sc cpu =
     (if slab_count \<le> cpu then ((0, False), region)
      else case fallback_allocate (region cpu) sc of (p, slab) \<Rightarrow> ((p, True), region(cpu := slab)))"
  by (auto simp: rseq_slab_pop_def fallback_allocate_def Let_def u32_pred [simplified])

lemma rseq_slab_push_fallback:
  "rseq_slab_push region slab_count sc p cpu =
     (if slab_count \<le> cpu then ((False, False), region)
      else case fallback_deallocate (region cpu) p sc of (ok, slab) \<Rightarrow>
        ((ok, True), region(cpu := slab)))"
  by (auto simp: rseq_slab_push_def fallback_deallocate_def Let_def)

text \<open>The CPU whose slab one wrapper call works on.\<close>

definition slab_cpu :: "cpu_env \<Rightarrow> nat \<Rightarrow> nat" where
  "slab_cpu e slab_count =
     (if rseq_available e \<and> rseq_cpu_id e < slab_count then rseq_cpu_id e else current_cpu_id e)"

lemma slab_pop_eq: "slab_pop e region slab_count sc = slab_pop_fallback region slab_count sc (slab_cpu e slab_count)"
  by (auto simp: slab_pop_def slab_cpu_def rseq_slab_pop_fallback slab_pop_fallback_def
      split: prod.splits)

lemma slab_push_eq:
  "slab_push e region slab_count sc p = slab_push_fallback region slab_count sc p (slab_cpu e slab_count)"
  by (auto simp: slab_push_def slab_cpu_def rseq_slab_push_fallback slab_push_fallback_def
      split: prod.splits)

section \<open>The region is an object pool per class\<close>

definition region_wf :: "nat \<Rightarrow> slab_region \<Rightarrow> bool" where
  "region_wf slab_count region \<longleftrightarrow> (\<forall>cpu<slab_count. slab_wf (region cpu))"

definition region_objs :: "nat \<Rightarrow> nat \<Rightarrow> slab_region \<Rightarrow> addr multiset" where
  "region_objs slab_count sc region = (\<Sum>cpu<slab_count. mset (slab_stack (region cpu) sc))"

lemma region_objs_upd:
  assumes "cpu < slab_count"
  shows "region_objs slab_count sc (region(cpu := slab)) + mset (slab_stack (region cpu) sc)
       = region_objs slab_count sc region + mset (slab_stack slab sc)"
proof -
  have split: "region_objs slab_count sc r = mset (slab_stack (r cpu) sc)
      + (\<Sum>c\<in>{..<slab_count} - {cpu}. mset (slab_stack (r c) sc))" for r
    using assms by (simp add: region_objs_def sum.remove [of "{..<slab_count}" cpu])
  have "(\<Sum>c\<in>{..<slab_count} - {cpu}. mset (slab_stack ((region(cpu := slab)) c) sc))
      = (\<Sum>c\<in>{..<slab_count} - {cpu}. mset (slab_stack (region c) sc))"
    by (rule sum.cong) auto
  then show ?thesis
    by (simp add: split [of "region(cpu := slab)"] split [of region] add_ac)
qed

lemma region_objs_cong:
  "(\<And>cpu. cpu < slab_count \<Longrightarrow> slab_stack (r' cpu) sc = slab_stack (r cpu) sc) \<Longrightarrow>
    region_objs slab_count sc r' = region_objs slab_count sc r"
  by (auto simp: region_objs_def)

lemma region_wf_upd: "region_wf n region \<Longrightarrow> slab_wf slab \<Longrightarrow> region_wf n (region(cpu := slab))"
  by (simp add: region_wf_def)

lemma slab_push_region:
  assumes "sc < 48" "region_wf n region" "p \<noteq> 0" "slab_push e region n sc p = (ok, region')"
  shows "region_wf n region' \<and> region_objs n sc region' = (if ok then {#p#} else {#}) + region_objs n sc region
       \<and> (\<forall>c<48. c \<noteq> sc \<longrightarrow> region_objs n c region' = region_objs n c region)"
proof -
  define cpu where "cpu = slab_cpu e n"
  show ?thesis
  proof (cases "cpu < n \<and> currents (region cpu) sc < slab_capacity sc")
    case False
    then have "ok = False \<and> region' = region"
      using assms(4) fallback_deallocate_full [of sc "region cpu" p]
      by (auto simp: slab_push_eq cpu_def [symmetric] slab_push_fallback_def split: prod.splits if_splits)
    then show ?thesis
      using assms(2) by simp
  next
    case True
    obtain slab where s: "fallback_deallocate (region cpu) p sc = (ok, slab)" "region' = region(cpu := slab)"
      using assms(4) True by (auto simp: slab_push_eq cpu_def [symmetric] slab_push_fallback_def split: prod.splits)
    have wf: "slab_wf (region cpu)"
      using assms(2) True by (simp add: region_wf_def)
    note room = fallback_deallocate_room [OF assms(1) wf assms(3) _ s(1)]
    have ok: ok and slab: "slab_wf slab" "slab_stack slab sc = slab_stack (region cpu) sc @ [p]"
      and other: "\<And>c. c < 48 \<Longrightarrow> c \<noteq> sc \<Longrightarrow> slab_stack slab c = slab_stack (region cpu) c"
      using room True by blast+
    have "region_objs n sc region' = {#p#} + region_objs n sc region"
      using region_objs_upd [of cpu n sc region slab] True s(2) slab(2) by simp
    moreover have "region_objs n c region' = region_objs n c region" if "c < 48" "c \<noteq> sc" for c
      by (rule region_objs_cong) (simp add: s(2) other that)
    ultimately show ?thesis
      using ok region_wf_upd [OF assms(2) slab(1)] s(2) by simp
  qed
qed

lemma slab_pop_region:
  assumes "sc < 48" "region_wf n region" "slab_pop e region n sc = (p, region')"
  shows "region_wf n region' \<and> region_objs n sc region = (if p \<noteq> 0 then {#p#} else {#}) + region_objs n sc region'
       \<and> (\<forall>c<48. c \<noteq> sc \<longrightarrow> region_objs n c region' = region_objs n c region)"
proof -
  define cpu where "cpu = slab_cpu e n"
  show ?thesis
  proof (cases "cpu < n \<and> 0 < currents (region cpu) sc")
    case False
    then have "p = 0 \<and> region' = region"
      using assms(3) fallback_allocate_empty [of "region cpu" sc]
      by (auto simp: slab_pop_eq cpu_def [symmetric] slab_pop_fallback_def split: prod.splits if_splits)
    then show ?thesis
      using assms(2) by simp
  next
    case True
    obtain slab where s: "fallback_allocate (region cpu) sc = (p, slab)" "region' = region(cpu := slab)"
      using assms(3) True by (auto simp: slab_pop_eq cpu_def [symmetric] slab_pop_fallback_def split: prod.splits)
    have wf: "slab_wf (region cpu)"
      using assms(2) True by (simp add: region_wf_def)
    note pops = fallback_allocate_top [OF assms(1) wf conjunct2 [OF True] s(1)]
    have slab: "slab_wf slab" and top: "slab_stack (region cpu) sc = slab_stack slab sc @ [p]"
      and other: "\<And>c. c \<noteq> sc \<Longrightarrow> slab_stack slab c = slab_stack (region cpu) c"
      using pops by blast+
    have "0 \<notin> set (slab_stack (region cpu) sc)"
      using wf assms(1) unfolding slab_wf_def by blast
    then have "p \<noteq> 0"
      using top by simp
    moreover have "region_objs n sc region = {#p#} + region_objs n sc region'"
      using region_objs_upd [of cpu n sc region slab] True s(2) top by simp
    moreover have "region_objs n c region' = region_objs n c region" if "c \<noteq> sc" for c
      by (rule region_objs_cong) (simp add: s(2) other that)
    ultimately show ?thesis
      using region_wf_upd [OF assms(2) slab] s(2) by simp
  qed
qed

text \<open>
  One slab operation per answer of the environment \<open>sched\<close>: the state counts the operations,
  because the thread may have migrated between two of them.
\<close>

definition slab_push_at :: "(nat \<Rightarrow> cpu_env) \<Rightarrow> nat \<Rightarrow> nat \<Rightarrow> addr \<Rightarrow> slab_region \<times> nat \<Rightarrow> bool \<times> slab_region \<times> nat" where
  "slab_push_at sched slab_count sc p = (\<lambda>(region, k).
     case slab_push (sched k) region slab_count sc p of (ok, region1) \<Rightarrow> (ok, region1, Suc k))"

definition slab_pop_at :: "(nat \<Rightarrow> cpu_env) \<Rightarrow> nat \<Rightarrow> nat \<Rightarrow> slab_region \<times> nat \<Rightarrow> addr \<times> slab_region \<times> nat" where
  "slab_pop_at sched slab_count sc = (\<lambda>(region, k).
     case slab_pop (sched k) region slab_count sc of (p, region1) \<Rightarrow> (p, region1, Suc k))"

text \<open>\<open>R\<close> are the objects of the other classes, which no operation on class \<open>sc\<close> touches.\<close>

definition slab_inv :: "nat \<Rightarrow> nat \<Rightarrow> (nat \<Rightarrow> addr multiset) \<Rightarrow> slab_region \<times> nat \<Rightarrow> bool" where
  "slab_inv n sc R s \<longleftrightarrow> sc < 48 \<and> region_wf n (fst s) \<and> (\<forall>c<48. c \<noteq> sc \<longrightarrow> region_objs n c (fst s) = R c)"

definition slab_objs :: "nat \<Rightarrow> nat \<Rightarrow> slab_region \<times> nat \<Rightarrow> addr multiset" where
  "slab_objs n sc s = region_objs n sc (fst s)"

lemma slab_push_at_ok:
  assumes "slab_inv n sc R s" "x \<noteq> 0" "slab_push_at sched n sc x s = (ok, s')"
  shows "slab_inv n sc R s' \<and> slab_objs n sc s' = (if ok then {#x#} else {#}) + slab_objs n sc s"
proof -
  have "slab_push (sched (snd s)) (fst s) n sc x = (ok, fst s')"
    using assms(3) by (auto simp: slab_push_at_def split: prod.splits)
  from slab_push_region [OF _ _ assms(2) this] show ?thesis
    using assms(1) by (simp add: slab_inv_def slab_objs_def)
qed

lemma slab_pop_at_ok:
  assumes "slab_inv n sc R s" "slab_pop_at sched n sc s = (x, s')"
  shows "slab_inv n sc R s' \<and> slab_objs n sc s = (if x \<noteq> 0 then {#x#} else {#}) + slab_objs n sc s'"
proof -
  have "slab_pop (sched (snd s)) (fst s) n sc = (x, fst s')"
    using assms(2) by (auto simp: slab_pop_at_def split: prod.splits)
  from slab_pop_region [OF _ _ this] show ?thesis
    using assms(1) by (simp add: slab_inv_def slab_objs_def)
qed

interpretation slab_pool: object_pool "slab_inv n sc R" "slab_objs n sc" "slab_push_at sched n sc" "slab_pop_at sched n sc"
  for sched n sc R
proof unfold_locales
  fix s x s'
  assume "slab_inv n sc R s" "x \<noteq> 0" "slab_push_at sched n sc x s = (True, s')"
  from slab_push_at_ok [OF this] show "slab_inv n sc R s' \<and> slab_objs n sc s' = add_mset x (slab_objs n sc s)"
    by simp
next
  fix s x s'
  assume "slab_inv n sc R s" "x \<noteq> 0" "slab_push_at sched n sc x s = (False, s')"
  from slab_push_at_ok [OF this] show "slab_inv n sc R s' \<and> slab_objs n sc s' = slab_objs n sc s"
    by simp
next
  fix s s'
  assume "slab_inv n sc R s" "slab_pop_at sched n sc s = (0, s')"
  from slab_pop_at_ok [OF this] show "slab_inv n sc R s' \<and> slab_objs n sc s' = slab_objs n sc s"
    by simp
next
  fix s x s'
  assume "slab_inv n sc R s" "slab_pop_at sched n sc s = (x, s')" "x \<noteq> 0"
  then show "slab_inv n sc R s' \<and> slab_objs n sc s = add_mset x (slab_objs n sc s')"
    using slab_pop_at_ok [of n sc R s sched x s'] by simp
qed

section \<open>Distinct slots are distinct bytes\<close>

text \<open>
  \<open>align_up\<close> on values that do not reach the top of the address space; then the addresses of
  the pointer slots and of the counts in the region.
\<close>

lemma align_up_eq:
  assumes "0 < a" "v + a \<le> 2 ^ 64"
  shows "align_up v a = (v + a - 1) div a * a"
proof -
  have "u64 (v + a + 18446744073709551616 - 1) = v + a - 1"
  proof -
    have "v + a + 18446744073709551616 - 1 = v + a - 1 + 18446744073709551616" "v + a - 1 < 18446744073709551616"
      using assms by simp_all
    then show ?thesis
      unfolding u64_def by (metis mod_add_self2 mod_less)
  qed
  moreover have "u64 ((v + a - 1) div a * a) = (v + a - 1) div a * a"
  proof -
    have "(v + a - 1) div a * a \<le> v + a - 1"
      by (rule div_times_less_eq_dividend)
    also have "\<dots> < 18446744073709551616"
      using assms by simp
    finally show ?thesis
      by (simp add: u64_def)
  qed
  ultimately show ?thesis
    using assms(1) by (simp add: align_up_def)
qed

definition pointer_slot :: "addr \<Rightarrow> nat \<Rightarrow> nat \<Rightarrow> addr" where
  "pointer_slot base cpu i = get_slabs base cpu + SLAB_POINTERS_OFFSET + 8 * i"

definition count_slot :: "addr \<Rightarrow> nat \<Rightarrow> nat \<Rightarrow> addr" where
  "count_slot base cpu sc = get_slabs base cpu + 2 * sc"

lemma slab_layout_values:
  "SLAB_POINTERS_OFFSET = 128" "SLAB_RAW_BYTE_SIZE = 138152" "SLAB_STRIDE_BYTES = 138176"
proof -
  show off: "SLAB_POINTERS_OFFSET = 128"
    by (simp add: SLAB_POINTERS_OFFSET_def align_up_eq CACHE_LINE_SIZE_def)
  show raw: "SLAB_RAW_BYTE_SIZE = 138152"
    by (simp add: SLAB_RAW_BYTE_SIZE_def off SIZE_CLASS_OFFSETS_eq)
  show "SLAB_STRIDE_BYTES = 138176"
    by (simp add: SLAB_STRIDE_BYTES_def SLAB_STRIDE_ALIGNMENT_def raw align_up_eq CACHE_LINE_SIZE_def
        PAGE_ALIGN_SLAB_STRIDE_def)
qed

lemma get_slabs_eq:
  assumes "cpu < slab_count" "base + slab_count * SLAB_STRIDE_BYTES \<le> 2 ^ 64" "0 < base"
  shows "get_slabs base cpu = base + cpu * SLAB_STRIDE_BYTES"
proof -
  have "Suc cpu * SLAB_STRIDE_BYTES \<le> slab_count * SLAB_STRIDE_BYTES"
    using assms(1) by (intro mult_le_mono1) simp
  then have "base + cpu * SLAB_STRIDE_BYTES < 18446744073709551616"
    using assms(2,3) by (simp add: slab_layout_values)
  then show ?thesis
    by (simp add: get_slabs_def u64_def)
qed

section \<open>Properties\<close>

text \<open>
  \<open>align_up\<close> rounds up to the next multiple of the alignment, for every alignment and every
  value that leaves room for it in 64 bits.
\<close>

lemma align_up_least_multiple:
  assumes "0 < a" "v + a \<le> 2 ^ 64"
  shows "a dvd align_up v a \<and> v \<le> align_up v a \<and> align_up v a < v + a"
proof -
  define q where "q = (v + a - 1) div a * a"
  have "v + a - 1 = q + (v + a - 1) mod a" "(v + a - 1) mod a < a"
    using assms(1) by (simp_all add: q_def)
  then have "v \<le> q \<and> q < v + a"
    using assms(1) by linarith
  then show ?thesis
    using align_up_eq [OF assms] by (simp add: q_def)
qed

text \<open>
  No two pointer slots of the region overlap, whatever their CPUs, none overlaps a count, and
  all lie inside the mapping of \<open>slab_count\<close> strides.
\<close>

lemma slab_slots_disjoint:
  assumes "0 < base" "base + n * SLAB_STRIDE_BYTES \<le> 2 ^ 64" "cpu < n" "cpu' < n"
    and "i < SIZE_CLASS_OFFSETS ! NUM_SIZE_CLASSES" "i' < SIZE_CLASS_OFFSETS ! NUM_SIZE_CLASSES"
    and "sc < NUM_SIZE_CLASSES" "(cpu, i) \<noteq> (cpu', i')"
  shows "{pointer_slot base cpu i ..< pointer_slot base cpu i + 8}
           \<inter> {pointer_slot base cpu' i' ..< pointer_slot base cpu' i' + 8} = {}
     \<and> {pointer_slot base cpu i ..< pointer_slot base cpu i + 8}
           \<inter> {count_slot base cpu' sc ..< count_slot base cpu' sc + 2} = {}
     \<and> base \<le> pointer_slot base cpu i \<and> pointer_slot base cpu i + 8 \<le> base + n * SLAB_STRIDE_BYTES"
proof -
  have slots: "pointer_slot base c k = base + c * 138176 + 128 + 8 * k"
      "count_slot base c sc = base + c * 138176 + 2 * sc" if "c < n" for c k
    using get_slabs_eq [OF that assms(2,1)] by (simp_all add: pointer_slot_def count_slot_def slab_layout_values)
  have i: "i < 17253" "i' < 17253" "sc < 48"
    using assms(5-7) by (simp_all add: SIZE_CLASS_OFFSETS_eq)
  have "Suc cpu * 138176 \<le> n * 138176"
    using assms(3) by (intro mult_le_mono1) simp
  moreover have apart: "cpu * 138176 + 138176 \<le> cpu' * 138176 \<or> cpu' * 138176 + 138176 \<le> cpu * 138176 \<or> cpu = cpu'"
    by (cases cpu cpu' rule: linorder_cases) auto
  moreover have "i < i' \<or> i' < i \<or> cpu \<noteq> cpu'"
    using assms(8) by auto
  ultimately show ?thesis
    using i slots [OF assms(3)] slots [OF assms(4)] by (auto simp: slab_layout_values)
qed

text \<open>
  The fast path changes speed only: with or without restartable sequences, \<open>slab_pop\<close> and
  \<open>slab_push\<close> compute what the plain routine computes on the slab of the CPU they chose.
\<close>

lemma slab_fast_path_equivalent:
  "slab_pop e region n sc = slab_pop_fallback region n sc (slab_cpu e n)
   \<and> slab_push e region n sc p = slab_push_fallback region n sc p (slab_cpu e n)"
  by (simp add: slab_pop_eq slab_push_eq)

text \<open>
  \<open>slab_push\<close> either stores the pointer in the class's slots of one CPU or changes nothing, and
  never touches another class; the counts stay within the capacities.
\<close>

lemma slab_push_conserves:
  assumes "sc < NUM_SIZE_CLASSES" "region_wf n region" "p \<noteq> 0" "slab_push e region n sc p = (ok, region')"
  shows "region_wf n region' \<and> region_objs n sc region' = (if ok then {#p#} else {#}) + region_objs n sc region
       \<and> (\<forall>c<48. c \<noteq> sc \<longrightarrow> region_objs n c region' = region_objs n c region)"
  using slab_push_region [OF _ assms(2-4)] assms(1) by simp

text \<open>A machine of one CPU without restartable sequences.\<close>

definition one_cpu :: cpu_env where
  "one_cpu = \<lparr>rseq_available = False, rseq_cpu_id = 0, rseq_cpu_id_late = 0, sched_getcpu = 0, getcpu = None\<rparr>"

lemma region_wf_empty: "region_wf n (\<lambda>_. empty_slab)"
  by (simp add: region_wf_def slab_wf_empty)

text \<open>
  \<open>slab_pop\<close> returns a pointer the class held and removes exactly that one, or null and
  changes nothing; no other class is touched.
\<close>

lemma slab_pop_conserves:
  assumes "sc < NUM_SIZE_CLASSES" "region_wf n region" "slab_pop e region n sc = (p, region')"
  shows "region_wf n region' \<and> region_objs n sc region = (if p \<noteq> 0 then {#p#} else {#}) + region_objs n sc region'
       \<and> (\<forall>c<48. c \<noteq> sc \<longrightarrow> region_objs n c region' = region_objs n c region)"
  using slab_pop_region [OF _ assms(2,3)] assms(1) by simp

text \<open>
  On one slab, the next pop of a class returns the pointer pushed last and restores the
  class's contents (last in, first out).
\<close>

lemma slab_push_pop_round_trip:
  assumes "sc < NUM_SIZE_CLASSES" "slab_wf s" "x \<noteq> 0" "fallback_deallocate s x sc = (True, s1)"
  shows "\<exists>s2. fallback_allocate s1 sc = (x, s2) \<and> slab_wf s2 \<and> slab_stack s2 sc = slab_stack s sc"
proof -
  have "sc < 48 \<and> slab_wf s"
    using assms(1,2) by simp
  from slab_class.push_pop [OF this assms(3,4)] show ?thesis
    by blast
qed

end
