(* ===== verification/Transfer_Cache.thy ===== *)
theory Transfer_Cache
  imports Slab_Config Object_Pool
begin

text \<open>
  The transfer cache (\<open>transfer_cache.hpp\<close>): a fixed array used as a bounded stack, with range
  operations. The array is the list of its \<open>TRANSFER_CACHE_CAPACITY\<close> slots, of which
  \<open>[0, used_slots)\<close> are occupied; \<open>memcpy\<close> writes or reads a run of slots. A batch is the list
  of the pointers in the caller's array.
\<close>

record TransferCache =
  slots :: "addr list"
  used_slots :: nat

definition empty_transfer_cache :: TransferCache where
  "empty_transfer_cache = \<lparr>slots = replicate TRANSFER_CACHE_CAPACITY 0, used_slots = 0\<rparr>"

text \<open>\<open>memcpy(&dst[at], src, length src)\<close> on the array \<open>dst\<close>.\<close>

definition copy_in :: "addr list \<Rightarrow> nat \<Rightarrow> addr list \<Rightarrow> addr list" where
  "copy_in dst at src = take at dst @ src @ drop (at + length src) dst"

definition InsertRange :: "addr list \<Rightarrow> nat \<Rightarrow> TransferCache \<Rightarrow> nat \<times> TransferCache" where
  "InsertRange batch n tc =
     (let space = sub32 TRANSFER_CACHE_CAPACITY (used_slots tc);
          to_insert = min n space
      in if 0 < to_insert then
           (to_insert,
            tc\<lparr>slots := copy_in (slots tc) (used_slots tc) (take to_insert batch),
               used_slots := u32 (used_slots tc + to_insert)\<rparr>)
         else (to_insert, tc))"

text \<open>The result is the pointers written to \<open>batch[0 .. to_remove)\<close>, with their number.\<close>

definition RemoveRange :: "nat \<Rightarrow> TransferCache \<Rightarrow> (addr list \<times> nat) \<times> TransferCache" where
  "RemoveRange n tc =
     (let to_remove = min n (used_slots tc) in
      if 0 < to_remove then
        let used = sub32 (used_slots tc) to_remove in
        ((take to_remove (drop used (slots tc)), to_remove), tc\<lparr>used_slots := used\<rparr>)
      else (([], to_remove), tc))"

section \<open>The stack behind the array\<close>

definition tc_stack :: "TransferCache \<Rightarrow> addr list" where
  "tc_stack tc = take (used_slots tc) (slots tc)"

definition tc_wf :: "TransferCache \<Rightarrow> bool" where
  "tc_wf tc \<longleftrightarrow> length (slots tc) = TRANSFER_CACHE_CAPACITY \<and> used_slots tc \<le> TRANSFER_CACHE_CAPACITY
     \<and> 0 \<notin> set (tc_stack tc)"

lemma tc_wf_empty: "tc_wf empty_transfer_cache"
  by (simp add: tc_wf_def tc_stack_def empty_transfer_cache_def)

lemma tc_stack_empty [simp]: "tc_stack empty_transfer_cache = []"
  by (simp add: tc_stack_def empty_transfer_cache_def)

lemma length_tc_stack: "tc_wf tc \<Longrightarrow> length (tc_stack tc) = used_slots tc"
  by (simp add: tc_wf_def tc_stack_def)

lemma tc_stack_le: "tc_wf tc \<Longrightarrow> length (tc_stack tc) \<le> TRANSFER_CACHE_CAPACITY"
  by (simp add: length_tc_stack tc_wf_def)

lemma InsertRange_stack:
  assumes "tc_wf tc" "n \<le> length batch" "0 \<notin> set batch"
    and "InsertRange batch n tc = (k, tc')"
  shows "k = min n (TRANSFER_CACHE_CAPACITY - length (tc_stack tc)) \<and> tc_wf tc'
       \<and> tc_stack tc' = tc_stack tc @ take k batch"
proof -
  let ?u = "used_slots tc"
  have u: "?u \<le> 100" "length (slots tc) = 100"
    using assms(1) by (auto simp: tc_wf_def TRANSFER_CACHE_CAPACITY_def)
  define k0 where "k0 = min n (100 - ?u)"
  have k0: "k0 \<le> n" "?u + k0 \<le> 100"
    using u by (auto simp: k0_def)
  have space: "sub32 TRANSFER_CACHE_CAPACITY ?u = 100 - ?u" "u32 (?u + k0) = ?u + k0"
    using u(1) k0 by (simp_all add: wrap_simps TRANSFER_CACHE_CAPACITY_def)
  have copied: "length (copy_in (slots tc) ?u (take k0 batch)) = 100"
    "take (?u + k0) (copy_in (slots tc) ?u (take k0 batch)) = tc_stack tc @ take k0 batch"
    using u k0 assms(2) by (simp_all add: copy_in_def tc_stack_def min_absorb2)
  have "0 \<notin> set (tc_stack tc @ take k0 batch)"
    using assms(1,3) by (auto simp: tc_wf_def dest: in_set_takeD)
  then have "k = k0 \<and> tc_wf tc' \<and> tc_stack tc' = tc_stack tc @ take k0 batch"
    using assms(1,4) space copied k0
    by (auto simp: InsertRange_def Let_def k0_def [symmetric] tc_wf_def tc_stack_def
        TRANSFER_CACHE_CAPACITY_def split: if_splits)
  then show ?thesis
    using length_tc_stack [OF assms(1)] by (simp add: k0_def TRANSFER_CACHE_CAPACITY_def)
qed

lemma RemoveRange_stack:
  assumes "tc_wf tc" "RemoveRange n tc = ((batch, k), tc')"
  shows "k = min n (length (tc_stack tc)) \<and> length batch = k \<and> tc_wf tc'
       \<and> tc_stack tc = tc_stack tc' @ batch"
proof -
  let ?u = "used_slots tc"
  have u: "?u \<le> 100" "length (slots tc) = 100"
    using assms(1) by (auto simp: tc_wf_def TRANSFER_CACHE_CAPACITY_def)
  define k0 where "k0 = min n ?u"
  have k0: "k0 \<le> ?u" "sub32 ?u k0 = ?u - k0"
    using u(1) by (simp_all add: k0_def wrap_simps)
  have split: "take ?u (slots tc) = take (?u - k0) (slots tc) @ take k0 (drop (?u - k0) (slots tc))"
    using k0(1) by (metis le_add_diff_inverse2 take_add)
  have res: "k = k0" "batch = take k0 (drop (?u - k0) (slots tc))" "tc' = tc\<lparr>used_slots := ?u - k0\<rparr>"
    using assms(2) k0 by (auto simp: RemoveRange_def Let_def k0_def [symmetric] split: if_splits)
  have stack: "tc_stack tc = tc_stack tc' @ batch"
    unfolding tc_stack_def using split res by simp
  then have "0 \<notin> set (tc_stack tc')"
    using assms(1) unfolding tc_wf_def by (metis UnCI set_append)
  then have "tc_wf tc'"
    using assms(1) res(3) by (auto simp: tc_wf_def)
  moreover have "length batch = k" "k = min n (length (tc_stack tc))"
    using res u k0 length_tc_stack [OF assms(1)] by (simp_all add: k0_def)
  ultimately show ?thesis
    using stack by blast
qed

section \<open>A transfer cache is a bounded stack\<close>

definition tc_push :: "addr \<Rightarrow> TransferCache \<Rightarrow> bool \<times> TransferCache" where
  "tc_push x tc = (case InsertRange [x] 1 tc of (k, tc1) \<Rightarrow> (k = 1, tc1))"

definition tc_pop :: "TransferCache \<Rightarrow> addr \<times> TransferCache" where
  "tc_pop tc = (case RemoveRange 1 tc of ((batch, k), tc1) \<Rightarrow>
     if k = 0 then (0, tc1) else (hd batch, tc1))"

lemma tc_push_room:
  assumes "tc_wf tc" "x \<noteq> 0" "length (tc_stack tc) < TRANSFER_CACHE_CAPACITY" "tc_push x tc = (ok, tc')"
  shows "ok \<and> tc_wf tc' \<and> tc_stack tc' = tc_stack tc @ [x]"
proof -
  obtain k where k: "InsertRange [x] 1 tc = (k, tc')" "ok \<longleftrightarrow> k = 1"
    using assms(4) by (auto simp: tc_push_def split: prod.splits)
  have "k = min 1 (TRANSFER_CACHE_CAPACITY - length (tc_stack tc)) \<and> tc_wf tc'
      \<and> tc_stack tc' = tc_stack tc @ take k [x]"
    using assms(2) by (intro InsertRange_stack [OF assms(1) _ _ k(1)]) auto
  moreover have "min 1 (TRANSFER_CACHE_CAPACITY - length (tc_stack tc)) = 1"
    using assms(3) by linarith
  ultimately show ?thesis
    using k(2) by simp
qed

lemma tc_push_full:
  assumes "tc_wf tc" "length (tc_stack tc) = TRANSFER_CACHE_CAPACITY"
  shows "tc_push x tc = (False, tc)"
proof -
  have "sub32 TRANSFER_CACHE_CAPACITY (used_slots tc) = 0"
    using assms by (simp add: length_tc_stack wrap_simps TRANSFER_CACHE_CAPACITY_def)
  then show ?thesis
    by (simp add: tc_push_def InsertRange_def)
qed

lemma tc_pop_top:
  assumes "tc_wf tc" "tc_stack tc \<noteq> []" "tc_pop tc = (x, tc')"
  shows "tc_wf tc' \<and> tc_stack tc = tc_stack tc' @ [x]"
proof -
  obtain batch k tc1 where r: "RemoveRange 1 tc = ((batch, k), tc1)"
    by (metis surj_pair)
  note s = RemoveRange_stack [OF assms(1) r]
  have "0 < length (tc_stack tc)"
    using assms(2) by simp
  then have k: "k = 1"
    using s by linarith
  have "length batch = 1"
    using s k by metis
  then obtain y where y: "batch = [y]"
    by (cases batch) auto
  have "x = y" "tc' = tc1"
    using r assms(3) k y by (simp_all add: tc_pop_def)
  then show ?thesis
    using s y by blast
qed

interpretation tc: bounded_stack tc_wf tc_stack TRANSFER_CACHE_CAPACITY tc_push tc_pop
proof unfold_locales
  show "0 \<notin> set (tc_stack tc)" if "tc_wf tc" for tc
    using that by (simp add: tc_wf_def)
  show "tc_pop tc = (0, tc)" if "tc_wf tc" "tc_stack tc = []" for tc
    using that length_tc_stack [of tc] by (simp add: tc_pop_def RemoveRange_def)
qed (fact tc_stack_le tc_push_room tc_push_full tc_pop_top)+

section \<open>Properties\<close>

text \<open>
  \<open>InsertRange\<close> moves as many pointers of the batch as fit, from its front, onto the stack,
  and reports their number.
\<close>

lemma InsertRange_refines_push:
  assumes "tc_wf tc" "n \<le> length batch" "0 \<notin> set batch" "InsertRange batch n tc = (k, tc')"
  shows "k = min n (TRANSFER_CACHE_CAPACITY - length (tc_stack tc)) \<and> tc_wf tc'
       \<and> tc_stack tc' = tc_stack tc @ take k batch"
  by (rule InsertRange_stack [OF assms])

text \<open>
  \<open>RemoveRange\<close> takes the top pointers off the stack, as many as asked for or as there are,
  in the order they lie in the cache.
\<close>

lemma RemoveRange_refines_pop:
  assumes "tc_wf tc" "RemoveRange n tc = ((batch, k), tc')"
  shows "k = min n (length (tc_stack tc)) \<and> length batch = k \<and> tc_wf tc'
       \<and> tc_stack tc = tc_stack tc' @ batch"
  by (rule RemoveRange_stack [OF assms])

text \<open>
  What \<open>InsertRange\<close> accepted, \<open>RemoveRange\<close> of the same number gives back, and the cache
  holds what it held before.
\<close>

lemma transfer_cache_round_trip:
  assumes "tc_wf tc" "n \<le> length batch" "0 \<notin> set batch"
    and "InsertRange batch n tc = (k, tc1)" "RemoveRange k tc1 = ((batch', k'), tc2)"
  shows "k' = k \<and> batch' = take k batch \<and> tc_stack tc2 = tc_stack tc"
proof -
  have ins: "k \<le> n" "tc_wf tc1" "tc_stack tc1 = tc_stack tc @ take k batch"
    using InsertRange_stack [OF assms(1-4)] by simp_all
  note rem = RemoveRange_stack [OF ins(2) assms(5)]
  have len: "length (take k batch) = k"
    using ins(1) assms(2) by simp
  then have k': "k' = k" "length batch' = length (take k batch)"
    using rem ins(3) by simp_all
  have "tc_stack tc @ take k batch = tc_stack tc2 @ batch'"
    using rem ins(3) by simp
  then show ?thesis
    using k' by (simp add: append_eq_append_conv)
qed

end
