(* ===== verification/Allocator.thy ===== *)
theory Allocator
  imports Central_Free_List_Ops Slabs Transfer_Cache
begin

text \<open>
  The allocator (\<open>allocator.hpp\<close>) connects the layers: per-CPU slabs in front, one transfer cache
  and one central free list per size class behind them, one page heap below. The page heap is
  the \<open>ph\<close> of the world the central free lists share. The slab region is paired with the number
  of slab operations done so far, which selects the answers of the environment \<open>sched\<close>: the
  thread may be on another CPU at each of them. A batch is the list of the pointers in
  \<open>batch[0 .. got)\<close>.
\<close>

section \<open>State\<close>

record Allocator =
  world :: World
  free_list :: "nat \<Rightarrow> CentralFreeList"
  transfer_caches :: "nat \<Rightarrow> TransferCache"
  per_cpu_caches :: "slab_region \<times> nat"
  slab_count :: nat

text \<open>
  The constructor. \<open>affinity\<close> is the CPU set \<open>sched_getaffinity\<close> fills in, \<open>region\<close> the answer of
  \<open>mmap\<close> for the slabs (fresh pages are zero, so every slab is empty); \<open>None\<close> is the exception
  thrown when it fails.
\<close>

definition CPU_SETSIZE :: nat where
  "CPU_SETSIZE = 1024"

definition count_slabs :: "(nat \<Rightarrow> bool) \<Rightarrow> nat" where
  "count_slabs affinity =
     (let n = fold (\<lambda>cpu n. if affinity cpu then u32 (cpu + 1) else n) [0..<CPU_SETSIZE] 0
      in if n = 0 then 1 else n)"

definition new_Allocator :: "mmap_env \<Rightarrow> (nat \<Rightarrow> bool) \<Rightarrow> addr option \<Rightarrow> Allocator option" where
  "new_Allocator mmap affinity region =
     (case region of
        None \<Rightarrow> None
      | Some base \<Rightarrow> Some \<lparr>world = \<lparr>os = mmap, ph = empty_PageHeap, cells = (\<lambda>_. 0)\<rparr>,
          free_list = (\<lambda>i. new_CentralFreeList (SizeClasses ! i)),
          transfer_caches = (\<lambda>_. empty_transfer_cache),
          per_cpu_caches = (\<lambda>_. empty_slab, 0),
          slab_count = count_slabs affinity\<rparr>)"

section \<open>Batches\<close>

definition refill_batch :: "nat \<Rightarrow> nat \<Rightarrow> Allocator \<Rightarrow> (addr list \<times> Allocator) option" where
  "refill_batch sc_idx cnt a =
     (case RemoveRange cnt (transfer_caches a sc_idx) of ((batch, got), tc) \<Rightarrow>
        let a1 = a\<lparr>transfer_caches := (transfer_caches a)(sc_idx := tc)\<rparr> in
        if got = 0 then do {
          (batch, c, w) \<leftarrow> cfl_allocate_batch cnt (free_list a1 sc_idx) (world a1);
          Some (batch, a1\<lparr>free_list := (free_list a1)(sc_idx := c), world := w\<rparr>) }
        else Some (batch, a1))"

definition release_batch :: "nat \<Rightarrow> addr list \<Rightarrow> Allocator \<Rightarrow> Allocator option" where
  "release_batch sc_idx batch a =
     (case InsertRange batch (length batch) (transfer_caches a sc_idx) of (moved, tc) \<Rightarrow>
        let a1 = a\<lparr>transfer_caches := (transfer_caches a)(sc_idx := tc)\<rparr> in
        if moved < length batch then do {
          (c, w) \<leftarrow> cfl_deallocate_batch (drop moved batch) (free_list a1 sc_idx) (world a1);
          Some (a1\<lparr>free_list := (free_list a1)(sc_idx := c), world := w\<rparr>) }
        else Some a1)"

section \<open>allocate and deallocate\<close>

text \<open>
  \<open>result = batch[--got]\<close> is the last pointer of the batch; the loop that follows is
  \<open>fill_loop\<close> on the others.
\<close>

definition allocate :: "(nat \<Rightarrow> cpu_env) \<Rightarrow> nat \<Rightarrow> Allocator \<Rightarrow> (addr \<times> Allocator) option" where
  "allocate sched input_size a =
     (case round_size_class input_size of (sc, sc_idx) \<Rightarrow>
        if sc_size sc = 0 then Some (0, a)
        else case slab_pop_at sched (slab_count a) sc_idx (per_cpu_caches a) of (p, s1) \<Rightarrow>
          let a1 = a\<lparr>per_cpu_caches := s1\<rparr> in
          if p \<noteq> 0 then Some (p, a1)
          else do {
            (batch, a2) \<leftarrow> refill_batch sc_idx (sc_batch_size sc) a1;
            if batch = [] then Some (0, a2)
            else case fill_loop (slab_push_at sched (slab_count a2) sc_idx) (butlast batch) (per_cpu_caches a2) of
              (rest, s3) \<Rightarrow>
                let a3 = a2\<lparr>per_cpu_caches := s3\<rparr> in
                if rest = [] then Some (last batch, a3)
                else do { a4 \<leftarrow> release_batch sc_idx rest a3; Some (last batch, a4) } })"

definition deallocate :: "(nat \<Rightarrow> cpu_env) \<Rightarrow> addr \<Rightarrow> Allocator \<Rightarrow> Allocator option" where
  "deallocate sched mem a =
     (case world_find mem (world a) of
        None \<Rightarrow> Some a
      | Some i \<Rightarrow> do {
          span \<leftarrow> spans (ph (world a)) i;
          let sc_idx = size_class_to_idx (span_size span);
              sc = SizeClasses ! sc_idx
          in if sc_size sc = 0 then Some a
             else case slab_push_at sched (slab_count a) sc_idx mem (per_cpu_caches a) of (ok, s1) \<Rightarrow>
               if ok then Some (a\<lparr>per_cpu_caches := s1\<rparr>)
               else case drain_loop (slab_pop_at sched (slab_count a) sc_idx) (sc_batch_size sc) s1 of
                 (batch, s2) \<Rightarrow> do {
                   a3 \<leftarrow> (if batch \<noteq> [] then release_batch sc_idx batch (a\<lparr>per_cpu_caches := s2\<rparr>)
                          else Some (a\<lparr>per_cpu_caches := s2\<rparr>));
                   case slab_push_at sched (slab_count a3) sc_idx mem (per_cpu_caches a3) of (ok, s4) \<Rightarrow>
                     let a4 = a3\<lparr>per_cpu_caches := s4\<rparr> in
                     if ok then Some a4
                     else do {
                       (c, w) \<leftarrow> cfl_deallocate mem (free_list a4 sc_idx) (world a4);
                       Some (a4\<lparr>free_list := (free_list a4)(sc_idx := c), world := w\<rparr>) } } })"

end
