(* ===== verification/Allocator_Inv.thy ===== *)
theory Allocator_Inv
  imports Allocator
begin

text \<open>
  The invariant of the allocator. For each class, the objects its central free list has handed
  out are, each exactly once, in the slabs, in the transfer cache, or outside: with the program
  or in a batch on the way (\<open>M i\<close>). Every layer keeps this equation; the central free lists do
  not disturb each other because each one leaves the other clients of the page heap alone.
\<close>

section \<open>The central free lists together\<close>

definition is_class :: "nat \<Rightarrow> bool" where
  "is_class i \<longleftrightarrow> 0 < i \<and> i < 48"

definition central_inv ::
    "World \<Rightarrow> (nat \<Rightarrow> CentralFreeList) \<Rightarrow> (nat \<Rightarrow> nat list) \<Rightarrow> (nat \<Rightarrow> addr set) \<Rightarrow> bool" where
  "central_inv w fl L H \<longleftrightarrow>
     (\<forall>i. is_class i \<longrightarrow> cfl_rel (fl i) w (L i) (H i) \<and> obj_size (fl i) = class_size i
        \<and> span_pages (fl i) = sc_pages (SizeClasses ! i))
   \<and> (\<forall>i j. is_class i \<longrightarrow> is_class j \<longrightarrow> i \<noteq> j \<longrightarrow> set (L i) \<inter> set (L j) = {})"

lemma cfl_rel_live: "cfl_rel c w L H \<Longrightarrow> i \<in> set L \<Longrightarrow> live w i \<noteq> None"
  unfolding cfl_rel_def using cfl_state_span by fastforce

lemma cfl_rel_ok: "cfl_rel c w L H \<Longrightarrow> world_ok w"
  unfolding cfl_rel_def using cfl_stateD(1) by blast

text \<open>An operation of another list is not noticed.\<close>

lemma cfl_rel_frame:
  assumes "cfl_rel c w L H" "cfl_frame K w w'" "set K \<inter> set L = {}" "world_ok w'"
  shows "cfl_rel c w' L H"
proof -
  obtain A where st: "cfl_state c w L A" and H: "H = cfl_held c w L A"
    using assms(1) by (auto simp: cfl_rel_def)
  have same: "live w' i = live w i" "\<And>s a. live w i = Some s \<Longrightarrow> a div PAGE_SIZE \<in> pages_of s \<Longrightarrow> cells w' a = cells w a"
    if "i \<in> set L" for i
  proof -
    have i: "i \<notin> set K"
      using that assms(3) by auto
    obtain s where s: "live w i = Some s"
      using cfl_state_span [OF st \<open>i \<in> set L\<close>] by blast
    then show "live w' i = live w i" "\<And>s a. live w i = Some s \<Longrightarrow> a div PAGE_SIZE \<in> pages_of s \<Longrightarrow> cells w' a = cells w a"
      using assms(2) i unfolding cfl_frame_def by auto
  qed
  have "dll (live w') (span_list c) L"
    using cfl_stateD(4) [OF st] dll_cong [of L "live w'" "live w"] same(1) by simp
  moreover have "\<exists>s. view (live w') i = Some s \<and> good_span (obj_size c) (span_pages c) (cells w') s (A i)" if i: "i \<in> set L" for i
  proof -
    obtain s where s: "live w i = Some s" "good_span (obj_size c) (span_pages c) (cells w) s (A i)"
      using cfl_state_span [OF st i] by blast
    then have "good_span (obj_size c) (span_pages c) (cells w') s (A i)"
      using good_span_cong [OF s(2) cfl_stateD(2) [OF st]] same(2) [OF i] by blast
    then show ?thesis
      using s(1) same(1) [OF i] by (metis good_span_payload view_Some)
  qed
  ultimately have "cfl_state c w' L A"
    using st assms(4) unfolding cfl_state_def by simp
  moreover have "cfl_held c w' L A = cfl_held c w L A"
    unfolding cfl_held_def using same(1) by simp
  ultimately show ?thesis
    using H unfolding cfl_rel_def by blast
qed

lemma central_step:
  assumes inv: "central_inv w fl L H" and i: "is_class i"
    and rel: "cfl_rel c w' L' H'" and leads: "cfl_leads (fl i, w) (L i) (c, w') L'"
  shows "central_inv w' (fl(i := c)) (L(i := L')) (H(i := H'))"
proof -
  have l: "obj_size c = obj_size (fl i)" "span_pages c = span_pages (fl i)" "grows w (L i) L'" "cfl_frame (L i) w w'"
    using leads by (simp_all add: cfl_leads_def)
  have apart: "set L' \<inter> set (L j) = {}" if "is_class j" "j \<noteq> i" for j
  proof -
    have "live w k \<noteq> None" if "k \<in> set (L j)" for k
      using inv cfl_rel_live that \<open>is_class j\<close> unfolding central_inv_def by blast
    moreover have "set (L i) \<inter> set (L j) = {}"
      using inv i that unfolding central_inv_def by metis
    ultimately show ?thesis
      using l(3) unfolding grows_def by blast
  qed
  have "cfl_rel (fl j) w' (L j) (H j)" if "is_class j" "j \<noteq> i" for j
  proof (rule cfl_rel_frame [OF _ l(4)])
    show "cfl_rel (fl j) w (L j) (H j)" "set (L i) \<inter> set (L j) = {}"
      using inv i that unfolding central_inv_def by metis+
    show "world_ok w'"
      by (rule cfl_rel_ok [OF rel])
  qed
  then show ?thesis
    using inv i rel l(1,2) apart unfolding central_inv_def by (simp add: Int_commute)
qed

section \<open>The invariant\<close>

definition stock :: "Allocator \<Rightarrow> nat \<Rightarrow> addr multiset" where
  "stock a i = region_objs (slab_count a) i (fst (per_cpu_caches a)) + mset (tc_stack (transfer_caches a i))"

definition alloc_inv :: "Allocator \<Rightarrow> (nat \<Rightarrow> nat list) \<Rightarrow> (nat \<Rightarrow> addr multiset) \<Rightarrow> bool" where
  "alloc_inv a L M \<longleftrightarrow> region_wf (slab_count a) (fst (per_cpu_caches a))
     \<and> (\<forall>i. is_class i \<longrightarrow> tc_wf (transfer_caches a i))
     \<and> (\<exists>H. central_inv (world a) (free_list a) L H \<and> (\<forall>i. is_class i \<longrightarrow> mset_set (H i) = stock a i + M i))"

lemma cfl_rel_finite: "cfl_rel c w L H \<Longrightarrow> finite H"
  by (auto simp: cfl_rel_def cfl_held_def held_objects_def)

lemma cfl_rel_nonzero: "cfl_rel c w L H \<Longrightarrow> p \<in> H \<Longrightarrow> p \<noteq> 0"
  using cfl_deallocate_spec by blast

text \<open>What is outside is held by the clients of the central free list, each object once.\<close>

lemma alloc_inv_outside:
  assumes "alloc_inv a L M" "is_class i"
  shows "\<exists>Hi. cfl_rel (free_list a i) (world a) (L i) Hi \<and> finite Hi \<and> obj_size (free_list a i) = class_size i
     \<and> M i \<subseteq># mset_set Hi \<and> 0 \<notin># M i"
proof -
  obtain H where H: "central_inv (world a) (free_list a) L H" "mset_set (H i) = stock a i + M i"
    using assms by (auto simp: alloc_inv_def)
  then have rel: "cfl_rel (free_list a i) (world a) (L i) (H i)" "obj_size (free_list a i) = class_size i"
    using assms(2) by (auto simp: central_inv_def)
  have sub: "M i \<subseteq># mset_set (H i)"
    by (simp add: H(2))
  have "x \<noteq> 0" if "x \<in># M i" for x
  proof -
    have "x \<in># mset_set (H i)"
      using mset_subset_eqD [OF sub that] .
    then have "x \<in> H i"
      using cfl_rel_finite [OF rel(1)] by simp
    then show ?thesis
      by (rule cfl_rel_nonzero [OF rel(1)])
  qed
  then have "0 \<notin># M i"
    by blast
  then show ?thesis
    using rel sub cfl_rel_finite [OF rel(1)] by blast
qed

lemma subset_mset_set: "finite A \<Longrightarrow> mset ps \<subseteq># mset_set A \<Longrightarrow> distinct ps \<and> set ps \<subseteq> A"
proof
  assume A: "finite A" "mset ps \<subseteq># mset_set A"
  show "set ps \<subseteq> A"
    using A by (metis elem_mset_set mset_subset_eqD set_mset_mset subsetI)
  have le: "count (mset ps) x \<le> 1" for x
  proof -
    have "count (mset_set A) x \<le> 1"
      by (simp add: count_mset_set')
    then show ?thesis
      using mset_subset_eq_count [OF A(2), of x] by linarith
  qed
  have "count (mset ps) x = (if x \<in> set ps then 1 else 0)" for x
  proof (cases "x \<in> set ps")
    case True
    then have "0 < count (mset ps) x"
      unfolding count_greater_zero_iff by simp
    then have "count (mset ps) x = 1"
      using le [of x] by linarith
    then show ?thesis
      using True by simp
  qed (simp add: count_mset_0_iff)
  then show "distinct ps"
    by (simp add: distinct_count_atmost_1)
qed

section \<open>Steps\<close>

lemma slab_step:
  assumes inv: "alloc_inv a L M" and i: "is_class i"
    and s: "slab_inv (slab_count a) i (\<lambda>c. region_objs (slab_count a) c (fst (per_cpu_caches a))) s"
    and eq: "slab_objs (slab_count a) i (per_cpu_caches a) + M i = slab_objs (slab_count a) i s + B"
  shows "alloc_inv (a\<lparr>per_cpu_caches := s\<rparr>) L (M(i := B))"
proof -
  obtain H where H: "central_inv (world a) (free_list a) L H" "\<forall>j. is_class j \<longrightarrow> mset_set (H j) = stock a j + M j"
    using inv by (auto simp: alloc_inv_def)
  have "mset_set (H j) = stock (a\<lparr>per_cpu_caches := s\<rparr>) j + (M(i := B)) j" if j: "is_class j" for j
  proof (cases "j = i")
    case True
    have "mset_set (H i) = slab_objs (slab_count a) i (per_cpu_caches a) + M i + mset (tc_stack (transfer_caches a i))"
      using H(2) i by (simp add: stock_def slab_objs_def add_ac)
    then show ?thesis
      using True unfolding eq by (simp add: stock_def slab_objs_def add_ac)
  next
    case False
    then show ?thesis
      using H(2) j s by (simp add: stock_def slab_inv_def is_class_def)
  qed
  then show ?thesis
    using inv H(1) s unfolding alloc_inv_def by (auto simp: slab_inv_def)
qed

lemma tc_step:
  assumes inv: "alloc_inv a L M" and i: "is_class i" and tc: "tc_wf tc"
    and eq: "mset (tc_stack (transfer_caches a i)) + M i = mset (tc_stack tc) + B"
  shows "alloc_inv (a\<lparr>transfer_caches := (transfer_caches a)(i := tc)\<rparr>) L (M(i := B))"
proof -
  obtain H where H: "central_inv (world a) (free_list a) L H" "\<forall>j. is_class j \<longrightarrow> mset_set (H j) = stock a j + M j"
    using inv by (auto simp: alloc_inv_def)
  have "mset_set (H i) = region_objs (slab_count a) i (fst (per_cpu_caches a)) + (mset (tc_stack tc) + B)"
    using H(2) i unfolding eq [symmetric] by (simp add: stock_def add_ac)
  then have "mset_set (H j) = stock (a\<lparr>transfer_caches := (transfer_caches a)(i := tc)\<rparr>) j + (M(i := B)) j" if "is_class j" for j
    using H(2) that by (cases "j = i") (simp_all add: stock_def add_ac)
  then show ?thesis
    using inv H(1) tc unfolding alloc_inv_def by auto
qed

lemma cfl_step:
  assumes inv: "alloc_inv a L M" and i: "is_class i" and Hi: "cfl_rel (free_list a i) (world a) (L i) Hi"
    and rel: "cfl_rel c w L' H'" and leads: "cfl_leads (free_list a i, world a) (L i) (c, w) L'"
    and eq: "\<And>H. mset_set H = stock a i + M i \<Longrightarrow> cfl_rel (free_list a i) (world a) (L i) H \<Longrightarrow> mset_set H' = stock a i + B"
  shows "alloc_inv (a\<lparr>free_list := (free_list a)(i := c), world := w\<rparr>) (L(i := L')) (M(i := B))"
proof -
  obtain H where H: "central_inv (world a) (free_list a) L H" "\<forall>j. is_class j \<longrightarrow> mset_set (H j) = stock a j + M j"
    using inv by (auto simp: alloc_inv_def)
  have "cfl_rel (free_list a i) (world a) (L i) (H i)"
    using H(1) i by (simp add: central_inv_def)
  then have "mset_set H' = stock a i + B"
    using eq H(2) i by blast
  then have "mset_set ((H(i := H')) j) = stock (a\<lparr>free_list := (free_list a)(i := c), world := w\<rparr>) j + (M(i := B)) j"
    if "is_class j" for j
    using H(2) that by (simp add: stock_def)
  then show ?thesis
    using inv central_step [OF H(1) i rel leads] unfolding alloc_inv_def
    by (intro conjI exI [of _ "H(i := H')"]) simp_all
qed

end
