(* ===== verification/Allocator_Ops.thy ===== *)
theory Allocator_Ops
  imports Allocator_Inv
begin

text \<open>
  The allocator's operations keep its invariant, return, and move objects between the layers and
  the program without losing or duplicating one.
\<close>

section \<open>Batches of a central free list\<close>

lemma central_of:
  assumes "alloc_inv a L M" "is_class i" "mset_set H = stock a i + M i" "cfl_rel (free_list a i) (world a) (L i) H"
    and "mset ps \<subseteq># M i"
  shows "distinct ps \<and> set ps \<subseteq> H"
proof (rule subset_mset_set)
  show "finite H"
    by (rule cfl_rel_finite [OF assms(4)])
  show "mset ps \<subseteq># mset_set H"
    unfolding assms(3) by (metis assms(5) mset_subset_eq_add_right subset_mset.order_trans)
qed

lemma alloc_inv_central:
  assumes "alloc_inv a L M" "is_class i"
  shows "\<exists>H. mset_set H = stock a i + M i \<and> cfl_rel (free_list a i) (world a) (L i) H"
  using assms unfolding alloc_inv_def central_inv_def by blast

lemma mset_set_unique: "finite A \<Longrightarrow> finite B \<Longrightarrow> mset_set A = mset_set B \<Longrightarrow> A = B"
  by (metis finite_set_mset_mset_set)

text \<open>What the program has written into the objects \<open>M\<close> is still there.\<close>

definition undisturbed :: "(nat \<Rightarrow> addr multiset) \<Rightarrow> Allocator \<Rightarrow> Allocator \<Rightarrow> bool" where
  "undisturbed M a a' \<longleftrightarrow> (\<forall>i. is_class i \<longrightarrow> cells_kept (class_size i) (set_mset (M i)) (world a) (world a'))"

lemma undisturbed_same [simp]: "world a' = world a \<Longrightarrow> undisturbed M a a'"
  by (simp add: undisturbed_def cells_kept_same)

lemma undisturbed_slabs [simp]:
  "undisturbed M (a\<lparr>per_cpu_caches := s\<rparr>) b = undisturbed M a b" "undisturbed M a (b\<lparr>per_cpu_caches := s\<rparr>) = undisturbed M a b"
  by (simp_all add: undisturbed_def)

lemma undisturbed_trans: "undisturbed M a a1 \<Longrightarrow> undisturbed N a1 a2 \<Longrightarrow> (\<And>i. set_mset (M i) \<subseteq> set_mset (N i)) \<Longrightarrow> undisturbed M a a2"
  unfolding undisturbed_def by (meson cells_kept_mono cells_kept_trans)

lemma undisturbed_world: "undisturbed M a a' \<Longrightarrow> world b = world a \<Longrightarrow> world b' = world a' \<Longrightarrow> undisturbed M b b'"
  by (simp add: undisturbed_def)

lemma cfl_undisturbed:
  assumes inv: "alloc_inv a L M" and i: "is_class i" and sub: "\<And>j. set_mset (N j) \<subseteq> set_mset (M j)"
    and keeps: "cfl_keeps (set_mset (N i)) (free_list a i, world a) (c, w)"
    and leads: "cfl_leads (free_list a i, world a) (L i) (c, w) L'"
  shows "undisturbed N a (a\<lparr>free_list := f, world := w\<rparr>)"
  unfolding undisturbed_def
proof (intro allI impI)
  fix j
  assume j: "is_class j"
  show "cells_kept (class_size j) (set_mset (N j)) (world a) (world (a\<lparr>free_list := f, world := w\<rparr>))"
  proof (cases "j = i")
    case True
    moreover have "obj_size (free_list a i) = class_size i"
      using alloc_inv_outside [OF inv i] by blast
    ultimately show ?thesis
      using keeps by (simp add: cfl_keeps_def)
  next
    case False
    obtain H where H: "cfl_rel (free_list a j) (world a) (L j) H" "finite H" "obj_size (free_list a j) = class_size j"
        "M j \<subseteq># mset_set H"
      using alloc_inv_outside [OF inv j] by blast
    obtain A where st: "cfl_state (free_list a j) (world a) (L j) A" "H = cfl_held (free_list a j) (world a) (L j) A"
      using H(1) by (auto simp: cfl_rel_def)
    have apart: "set (L i) \<inter> set (L j) = {}"
      using inv i j False unfolding alloc_inv_def central_inv_def by metis
    show ?thesis
      unfolding cells_kept_def
    proof (intro ballI)
      fix p x
      assume p: "p \<in># N j" and x: "x \<in> {p ..< p + class_size j}"
      have "p \<in># M j"
        using sub p by blast
      then have "p \<in> cfl_held (free_list a j) (world a) (L j) A"
        using mset_subset_eqD [OF H(4)] H(2) st(2) by simp
      then obtain k s where k: "k \<in> set (L j)" "live (world a) k = Some s" "x div PAGE_SIZE \<in> pages_of s"
        using held_cells [OF st(1)] H(3) x by metis
      then have "k \<notin> set (L i)"
        using apart by blast
      then show "cells (world (a\<lparr>free_list := f, world := w\<rparr>)) x = cells (world a) x"
        using leads k(2,3) by (auto simp: cfl_leads_def cfl_frame_def)
    qed
  qed
qed

lemma get_batch_step:
  assumes inv: "alloc_inv a L M" and i: "is_class i"
  shows "\<exists>ps c w L'. cfl_allocate_batch n (free_list a i) (world a) = Some (ps, c, w)
     \<and> alloc_inv (a\<lparr>free_list := (free_list a)(i := c), world := w\<rparr>) L' (M(i := mset ps + M i))
     \<and> 0 \<notin> set ps \<and> length ps \<le> n \<and> undisturbed M a (a\<lparr>free_list := (free_list a)(i := c), world := w\<rparr>)"
proof -
  obtain H where H: "mset_set H = stock a i + M i" "cfl_rel (free_list a i) (world a) (L i) H"
    using alloc_inv_central [OF inv i] by blast
  have fin: "finite H"
    by (rule cfl_rel_finite [OF H(2)])
  obtain ps c w L' where ps: "cfl_allocate_batch n (free_list a i) (world a) = Some (ps, c, w)"
      "cfl_leads (free_list a i, world a) (L i) (c, w) L'" "cfl_rel c w L' (H \<union> set ps)"
      "distinct ps" "set ps \<inter> H = {}" "0 \<notin> set ps" "length ps \<le> n"
      "cfl_keeps H (free_list a i, world a) (c, w)"
    using cfl.get_batch_ok [of "(free_list a i, world a)" "L i" H n] H(2) unfolding cfl_allocate_batch_eq by auto
  have "mset_set (H \<union> set ps) = mset_set H + mset_set (set ps)"
    using ps(5) fin by (intro mset_set_Union) auto
  then have eq: "mset_set (H \<union> set ps) = stock a i + (mset ps + M i)"
    using H(1) ps(4) by (simp add: mset_set_set add_ac)
  have "alloc_inv (a\<lparr>free_list := (free_list a)(i := c), world := w\<rparr>) (L(i := L')) (M(i := mset ps + M i))"
    by (rule cfl_step [OF inv i H(2) ps(3,2) eq])
  moreover have "set_mset (M i) \<subseteq> H"
    using H(1) fin by (metis finite_set_mset_mset_set set_mset_union sup_ge2)
  then have "undisturbed M a (a\<lparr>free_list := (free_list a)(i := c), world := w\<rparr>)"
    by (intro cfl_undisturbed [OF inv i _ cfl.keeps_mono [OF ps(8)] ps(2)]) simp_all
  ultimately show ?thesis
    using ps(1,6,7) by blast
qed

lemma put_batch_step:
  assumes inv: "alloc_inv a L M" and i: "is_class i" and ps: "mset ps \<subseteq># M i"
  shows "\<exists>c w L'. cfl_deallocate_batch ps (free_list a i) (world a) = Some (c, w)
     \<and> alloc_inv (a\<lparr>free_list := (free_list a)(i := c), world := w\<rparr>) L' (M(i := M i - mset ps))
     \<and> undisturbed (M(i := M i - mset ps)) a (a\<lparr>free_list := (free_list a)(i := c), world := w\<rparr>)"
proof -
  obtain H where H: "mset_set H = stock a i + M i" "cfl_rel (free_list a i) (world a) (L i) H"
    using alloc_inv_central [OF inv i] by blast
  have fin: "finite H"
    by (rule cfl_rel_finite [OF H(2)])
  have d: "distinct ps" "set ps \<subseteq> H"
    using central_of [OF inv i H ps] by blast+
  obtain c w L' where r: "cfl_deallocate_batch ps (free_list a i) (world a) = Some (c, w)"
      "cfl_leads (free_list a i, world a) (L i) (c, w) L'" "cfl_rel c w L' (H - set ps)"
      "cfl_keeps (H - set ps) (free_list a i, world a) (c, w)"
    using cfl.put_batch_ok [of "(free_list a i, world a)" "L i" H ps] H(2) d unfolding cfl_deallocate_batch_eq by auto
  have "mset_set (H - set ps) = mset_set H - mset_set (set ps)"
    using d fin by (simp add: mset_set_Diff)
  then have eq: "mset_set (H - set ps) = stock a i + (M i - mset ps)"
    using H(1) d(1) ps by (simp add: mset_set_set)
  have "alloc_inv (a\<lparr>free_list := (free_list a)(i := c), world := w\<rparr>) (L(i := L')) (M(i := M i - mset ps))"
    by (rule cfl_step [OF inv i H(2) r(3,2) eq])
  moreover have "set_mset ((M(i := M i - mset ps)) i) \<subseteq> H - set ps"
    using eq fin by (metis finite_Diff finite_set_mset_mset_set fun_upd_same set_mset_union sup_ge2)
  then have "undisturbed (M(i := M i - mset ps)) a (a\<lparr>free_list := (free_list a)(i := c), world := w\<rparr>)"
    by (intro cfl_undisturbed [OF inv i _ cfl.keeps_mono [OF r(4)] r(2)]) (auto dest: in_diffD)
  ultimately show ?thesis
    using r(1) by blast
qed

lemma put_step:
  assumes inv: "alloc_inv a L M" and i: "is_class i" and p: "p \<in># M i"
  shows "\<exists>c w L'. cfl_deallocate p (free_list a i) (world a) = Some (c, w)
     \<and> alloc_inv (a\<lparr>free_list := (free_list a)(i := c), world := w\<rparr>) L' (M(i := M i - {#p#}))
     \<and> undisturbed (M(i := M i - {#p#})) a (a\<lparr>free_list := (free_list a)(i := c), world := w\<rparr>)"
proof -
  have "mset [p] \<subseteq># M i"
    using p by simp
  from put_batch_step [OF inv i this] show ?thesis
    by (auto split: bind_splits)
qed

section \<open>refill and release\<close>

lemma alloc_inv_tc: "alloc_inv a L M \<Longrightarrow> is_class i \<Longrightarrow> tc_wf (transfer_caches a i)"
  by (simp add: alloc_inv_def)

lemma refill_step:
  assumes inv: "alloc_inv a L M" and i: "is_class i"
  shows "\<exists>batch a' L'. refill_batch i n a = Some (batch, a') \<and> alloc_inv a' L' (M(i := mset batch + M i))
     \<and> slab_count a' = slab_count a \<and> 0 \<notin> set batch \<and> length batch \<le> n \<and> undisturbed M a a'"
proof -
  obtain batch got tc where r: "RemoveRange n (transfer_caches a i) = ((batch, got), tc)"
    by (metis surj_pair)
  note s = RemoveRange_stack [OF alloc_inv_tc [OF inv i] r]
  let ?a = "a\<lparr>transfer_caches := (transfer_caches a)(i := tc)\<rparr>"
  have tc: "tc_wf tc" and stack: "tc_stack (transfer_caches a i) = tc_stack tc @ batch" and len: "length batch = got"
    using s by blast+
  have "got \<le> n"
    using s by linarith
  note len = len this
  have "alloc_inv ?a L (M(i := mset batch + M i))"
    by (rule tc_step [OF inv i tc]) (simp add: stack)
  note inv1 = this
  have zero: "0 \<notin> set batch"
    using alloc_inv_tc [OF inv i] stack by (auto simp: tc_wf_def)
  show ?thesis
  proof (cases "got = 0")
    case False
    then show ?thesis
      using r inv1 zero len by (intro exI [of _ batch] exI [of _ ?a] exI [of _ L]) (simp add: refill_batch_def Let_def)
  next
    case True
    then have "batch = []"
      using len(1) by simp
    then have inv2: "alloc_inv ?a L M"
      using inv1 by simp
    obtain ps c w L' where "cfl_allocate_batch n (free_list ?a i) (world ?a) = Some (ps, c, w)"
        "alloc_inv (?a\<lparr>free_list := (free_list ?a)(i := c), world := w\<rparr>) L' (M(i := mset ps + M i))"
        "0 \<notin> set ps" "length ps \<le> n" "undisturbed M ?a (?a\<lparr>free_list := (free_list ?a)(i := c), world := w\<rparr>)"
      using get_batch_step [OF inv2 i] by blast
    moreover from this(5) have "undisturbed M a (?a\<lparr>free_list := (free_list ?a)(i := c), world := w\<rparr>)"
      by (rule undisturbed_world) simp_all
    ultimately show ?thesis
      using r True by (intro exI [of _ ps]) (simp add: refill_batch_def Let_def, blast)
  qed
qed

lemma release_step:
  assumes inv: "alloc_inv a L M" and i: "is_class i" and batch: "mset batch \<subseteq># M i"
  shows "\<exists>a' L'. release_batch i batch a = Some a' \<and> alloc_inv a' L' (M(i := M i - mset batch))
     \<and> slab_count a' = slab_count a \<and> undisturbed (M(i := M i - mset batch)) a a'"
proof -
  obtain k tc where r: "InsertRange batch (length batch) (transfer_caches a i) = (k, tc)"
    by fastforce
  have "0 \<notin># M i"
    using alloc_inv_outside [OF inv i] by blast
  then have zero: "0 \<notin> set batch"
    using mset_subset_eqD [OF batch] by fastforce
  note s = InsertRange_stack [OF alloc_inv_tc [OF inv i] _ zero r]
  have tc: "tc_wf tc" and stack: "tc_stack tc = tc_stack (transfer_caches a i) @ take k batch"
    using s by simp_all
  let ?a = "a\<lparr>transfer_caches := (transfer_caches a)(i := tc)\<rparr>"
  have take: "mset (take k batch) \<subseteq># M i"
    by (metis batch mset_subset_eq_add_left mset_take_drop subset_mset.order_trans)
  have drop: "M i - mset (take k batch) - mset (drop k batch) = M i - mset batch"
    by (metis diff_diff_add_mset mset_take_drop)
  have inv1: "alloc_inv ?a L (M(i := M i - mset (take k batch)))"
    by (rule tc_step [OF inv i tc]) (use take in \<open>simp add: stack\<close>)
  show ?thesis
  proof (cases "k < length batch")
    case False
    then show ?thesis
      using r inv1 by (intro exI [of _ ?a] exI [of _ L]) (simp add: release_batch_def Let_def)
  next
    case True
    have "mset (drop k batch) \<subseteq># (M(i := M i - mset (take k batch))) i"
      using batch mset_take_drop [of k batch] by (metis add.commute fun_upd_same subset_mset.le_diff_conv2 take)
    from put_batch_step [OF inv1 i this, unfolded fun_upd_upd fun_upd_same drop] obtain c w L' where
      "cfl_deallocate_batch (drop k batch) (free_list ?a i) (world ?a) = Some (c, w)"
      "alloc_inv (?a\<lparr>free_list := (free_list ?a)(i := c), world := w\<rparr>) L' (M(i := M i - mset batch))"
      "undisturbed (M(i := M i - mset batch)) ?a (?a\<lparr>free_list := (free_list ?a)(i := c), world := w\<rparr>)"
      by blast
    moreover from this(3) have "undisturbed (M(i := M i - mset batch)) a (?a\<lparr>free_list := (free_list ?a)(i := c), world := w\<rparr>)"
      by (rule undisturbed_world) simp_all
    ultimately show ?thesis
      using r True by (intro exI [of _ "?a\<lparr>free_list := (free_list ?a)(i := c), world := w\<rparr>"] exI [of _ L'])
        (simp add: release_batch_def Let_def)
  qed
qed

section \<open>The slab operations\<close>

abbreviation others :: "Allocator \<Rightarrow> nat \<Rightarrow> addr multiset" where
  "others a \<equiv> \<lambda>c. region_objs (slab_count a) c (fst (per_cpu_caches a))"

lemma alloc_inv_slab: "alloc_inv a L M \<Longrightarrow> is_class i \<Longrightarrow> slab_inv (slab_count a) i (others a) (per_cpu_caches a)"
  by (simp add: alloc_inv_def slab_inv_def is_class_def)

lemma pop_step:
  assumes inv: "alloc_inv a L M" and i: "is_class i" and r: "slab_pop_at sched (slab_count a) i (per_cpu_caches a) = (p, s)"
  shows "alloc_inv (a\<lparr>per_cpu_caches := s\<rparr>) L (M(i := (if p \<noteq> 0 then {#p#} else {#}) + M i))"
proof (rule slab_step [OF inv i])
  note ok = slab_pop_at_ok [OF alloc_inv_slab [OF inv i] r]
  show "slab_inv (slab_count a) i (others a) s"
    using ok by blast
  show "slab_objs (slab_count a) i (per_cpu_caches a) + M i =
      slab_objs (slab_count a) i s + ((if p \<noteq> 0 then {#p#} else {#}) + M i)"
    using ok by simp
qed

lemma push_step:
  assumes inv: "alloc_inv a L M" and i: "is_class i" and p: "p \<in># M i"
    and r: "slab_push_at sched (slab_count a) i p (per_cpu_caches a) = (ok, s)"
  shows "alloc_inv (a\<lparr>per_cpu_caches := s\<rparr>) L (M(i := if ok then M i - {#p#} else M i))"
proof (rule slab_step [OF inv i])
  have "p \<noteq> 0"
    using alloc_inv_outside [OF inv i] p by metis
  note ok = slab_push_at_ok [OF alloc_inv_slab [OF inv i] this r]
  show "slab_inv (slab_count a) i (others a) s"
    using ok by blast
  show "slab_objs (slab_count a) i (per_cpu_caches a) + M i = slab_objs (slab_count a) i s + (if ok then M i - {#p#} else M i)"
    using ok p by (simp add: add_ac)
qed

lemma drain_step:
  assumes inv: "alloc_inv a L M" and i: "is_class i"
    and r: "drain_loop (slab_pop_at sched (slab_count a) i) n (per_cpu_caches a) = (ps, s)"
  shows "alloc_inv (a\<lparr>per_cpu_caches := s\<rparr>) L (M(i := mset ps + M i))"
proof (rule slab_step [OF inv i])
  note ok = slab_pool.drain [OF alloc_inv_slab [OF inv i] r]
  show "slab_inv (slab_count a) i (others a) s"
    using ok by blast
  show "slab_objs (slab_count a) i (per_cpu_caches a) + M i = slab_objs (slab_count a) i s + (mset ps + M i)"
    using ok by simp
qed

lemma fill_step:
  assumes inv: "alloc_inv a L M" and i: "is_class i" and batch: "mset batch \<subseteq># M i"
    and r: "fill_loop (slab_push_at sched (slab_count a) i) batch (per_cpu_caches a) = (rest, s)"
  shows "alloc_inv (a\<lparr>per_cpu_caches := s\<rparr>) L (M(i := M i - mset batch + mset rest))"
proof (rule slab_step [OF inv i])
  have "0 \<notin># M i"
    using alloc_inv_outside [OF inv i] by blast
  then have "0 \<notin> set batch"
    using mset_subset_eqD [OF batch] by fastforce
  from slab_pool.fill [OF alloc_inv_slab [OF inv i] this r]
  obtain pushed where ok: "slab_inv (slab_count a) i (others a) s" "batch = rest @ pushed"
      "slab_objs (slab_count a) i s = slab_objs (slab_count a) i (per_cpu_caches a) + mset pushed"
    by blast
  show "slab_inv (slab_count a) i (others a) s"
    by (rule ok(1))
  have "M i = M i - mset batch + mset batch"
    using batch by (rule subset_mset.diff_add [symmetric])
  also have "\<dots> = M i - mset batch + mset rest + mset pushed"
    by (subst (2) ok(2)) (simp add: add.assoc)
  finally have "M i = M i - mset batch + mset rest + mset pushed" .
  then show "slab_objs (slab_count a) i (per_cpu_caches a) + M i = slab_objs (slab_count a) i s + (M i - mset batch + mset rest)"
    unfolding ok(3) by (metis add.assoc add.commute)
qed

section \<open>allocate\<close>

lemma first_class_is_class: "sc_size (SizeClasses ! first_class n) \<noteq> 0 \<Longrightarrow> is_class (first_class n)"
  using first_class_less [of n] by (cases "first_class n = 0") (auto simp: is_class_def)

lemma add_last:
  assumes "batch \<noteq> []"
  shows "mset batch + N - mset (butlast batch) + mset rest = mset rest + add_mset (last batch) (N :: 'a multiset)"
proof -
  have "mset batch = add_mset (last batch) (mset (butlast batch))"
    using assms by (metis append_butlast_last_id mset.simps(2) mset_append add.commute add_mset_add_single mset_single_iff_right mset.simps(1))
  then show ?thesis
    by simp
qed

text \<open>
  One object more outside, of the class of the request; or null, and the objects outside are the
  same.
\<close>

text \<open>What \<open>allocate\<close> does with a batch that is not empty: the last object is the result, the slab
  takes what it can of the others, the rest goes back.\<close>

lemma deliver_step:
  assumes inv: "alloc_inv a L (M(i := mset batch + M i))" and i: "is_class i" and b: "batch \<noteq> []"
    and fill: "fill_loop (slab_push_at sched (slab_count a) i) (butlast batch) (per_cpu_caches a) = (rest, s)"
  shows "\<exists>a' L'. (if rest \<noteq> [] then release_batch i rest (a\<lparr>per_cpu_caches := s\<rparr>) else Some (a\<lparr>per_cpu_caches := s\<rparr>)) = Some a'
     \<and> slab_count a' = slab_count a \<and> alloc_inv a' L' (M(i := add_mset (last batch) (M i))) \<and> undisturbed M a a'"
proof -
  let ?a3 = "a\<lparr>per_cpu_caches := s\<rparr>"
  have "mset (butlast batch) \<subseteq># mset batch + M i"
    by (metis append_butlast_last_id b mset_append mset_subset_eq_add_left subset_mset.order_trans)
  then have "mset (butlast batch) \<subseteq># (M(i := mset batch + M i)) i"
    by simp
  note inv3 = fill_step [OF inv i this fill, unfolded fun_upd_upd fun_upd_same add_last [OF b]]
  show ?thesis
  proof (cases "rest = []")
    case True
    then show ?thesis
      using inv3 by (intro exI [of _ ?a3] exI [of _ L]) simp
  next
    case False
    have "mset rest \<subseteq># (M(i := mset rest + add_mset (last batch) (M i))) i"
      by simp
    from release_step [OF inv3 i this, unfolded fun_upd_upd fun_upd_same] obtain a4 L4 where rel: "release_batch i rest ?a3 = Some a4"
        "alloc_inv a4 L4 (M(i := add_mset (last batch) (M i)))" "slab_count a4 = slab_count a"
        "undisturbed (M(i := add_mset (last batch) (M i))) ?a3 a4"
      by auto
    have "undisturbed M ?a3 a4"
      by (rule undisturbed_trans [OF undisturbed_same rel(4)]) auto
    then have "undisturbed M a a4"
      by (rule undisturbed_world) simp_all
    then show ?thesis
      using rel False by auto
  qed
qed

lemma allocate_step:
  assumes inv: "alloc_inv a L M"
  shows "\<exists>p a' L'. allocate sched n a = Some (p, a') \<and> slab_count a' = slab_count a
     \<and> alloc_inv a' L' (if p = 0 then M else M(first_class n := add_mset p (M (first_class n))))
     \<and> (p \<noteq> 0 \<longrightarrow> is_class (first_class n)) \<and> undisturbed M a a'"
proof (cases "sc_size (SizeClasses ! first_class n) = 0")
  case True
  then have "allocate sched n a = Some (0, a)"
    by (simp add: allocate_def round_size_class_eq)
  then show ?thesis
    using inv by auto
next
  case False
  define i where "i = first_class n"
  have i: "is_class i"
    using first_class_is_class [OF False] by (simp add: i_def)
  have sc: "round_size_class n = (SizeClasses ! i, i)" "class_size i \<noteq> 0"
    using False by (simp_all add: round_size_class_eq i_def)
  obtain p s1 where pop: "slab_pop_at sched (slab_count a) i (per_cpu_caches a) = (p, s1)"
    by (rule prod.exhaust)
  note inv1 = pop_step [OF inv i pop]
  let ?a1 = "a\<lparr>per_cpu_caches := s1\<rparr>"
  show ?thesis
  proof (cases "p = 0")
    case False
    then have "allocate sched n a = Some (p, ?a1)"
      using sc pop by (simp add: allocate_def)
    then show ?thesis
      using inv1 False i by (intro exI [of _ p] exI [of _ ?a1] exI [of _ L]) (simp add: i_def)
  next
    case True
    then have inv1: "alloc_inv ?a1 L M"
      using inv1 by simp
    obtain batch a2 L2 where refill: "refill_batch i (sc_batch_size (SizeClasses ! i)) ?a1 = Some (batch, a2)"
        "alloc_inv a2 L2 (M(i := mset batch + M i))" "slab_count a2 = slab_count a" "0 \<notin> set batch" "undisturbed M ?a1 a2"
      using refill_step [OF inv1 i, of "sc_batch_size (SizeClasses ! i)"] by auto
    have und: "undisturbed M a a2"
      by (rule undisturbed_world [OF refill(5)]) simp_all
    show ?thesis
    proof (cases "batch = []")
      case b: True
      then have "allocate sched n a = Some (0, a2)"
        using sc pop True refill(1) by (simp add: allocate_def)
      then show ?thesis
        using refill(2,3) b und by auto
    next
      case b: False
      obtain rest s3 where fill: "fill_loop (slab_push_at sched (slab_count a2) i) (butlast batch) (per_cpu_caches a2) = (rest, s3)"
        by (rule prod.exhaust)
      obtain a4 L4 where a4: "(if rest \<noteq> [] then release_batch i rest (a2\<lparr>per_cpu_caches := s3\<rparr>) else Some (a2\<lparr>per_cpu_caches := s3\<rparr>)) = Some a4"
          "slab_count a4 = slab_count a2" "alloc_inv a4 L4 (M(i := add_mset (last batch) (M i)))" "undisturbed M a2 a4"
        using deliver_step [OF refill(2) i b fill] by blast
      have nz: "last batch \<noteq> 0"
        using refill(4) last_in_set [OF b] by metis
      have "allocate sched n a = Some (last batch, a4)"
        using a4(1) sc pop True refill(1) b fill by (cases "rest = []") (simp_all add: allocate_def)
      then show ?thesis
        using a4(2,3) nz i refill(3) undisturbed_trans [OF und a4(4)] by (intro exI [of _ "last batch"] exI [of _ a4] exI [of _ L4]) (simp add: i_def)
    qed
  qed
qed

section \<open>deallocate\<close>

lemma object_span:
  assumes "cfl_rel c w L H" "p \<in> H"
  shows "\<exists>j s. world_find p w = Some j \<and> j \<in> set L \<and> spans (ph w) j = Some s \<and> span_size s = obj_size c"
proof -
  obtain A where st: "cfl_state c w L A" "p \<in> cfl_held c w L A"
    using assms by (auto simp: cfl_rel_def)
  obtain j where "world_find p w = Some j" "j \<in> set L"
    using push_spec [OF st] by blast
  then show ?thesis
    using cfl_state_span [OF st(1), of j] by (auto simp: good_span_def)
qed

text \<open>The slab is full: a batch is drained and released, and the push is tried again. What does
  not fit then goes to the central free list.\<close>

lemma drain_release_step:
  assumes inv: "alloc_inv a L M" and i: "is_class i"
    and drain: "drain_loop (slab_pop_at sched (slab_count a) i) n (per_cpu_caches a) = (batch, s)"
  shows "\<exists>a' L'. (if batch \<noteq> [] then release_batch i batch (a\<lparr>per_cpu_caches := s\<rparr>) else Some (a\<lparr>per_cpu_caches := s\<rparr>)) = Some a'
     \<and> alloc_inv a' L' M \<and> slab_count a' = slab_count a \<and> undisturbed M a a'"
proof -
  let ?a2 = "a\<lparr>per_cpu_caches := s\<rparr>"
  have inv2: "alloc_inv ?a2 L (M(i := mset batch + M i))"
    using drain_step [OF inv i, of sched n] drain by simp
  show ?thesis
  proof (cases "batch = []")
    case True
    then show ?thesis
      using inv2 by (intro exI [of _ ?a2] exI [of _ L]) simp
  next
    case False
    have "mset batch \<subseteq># (M(i := mset batch + M i)) i"
      by simp
    from release_step [OF inv2 i this, unfolded fun_upd_upd fun_upd_same] obtain a' L' where r: "release_batch i batch ?a2 = Some a'"
        "alloc_inv a' L' M" "slab_count a' = slab_count a" "undisturbed M ?a2 a'"
      by auto
    have "undisturbed M a a'"
      by (rule undisturbed_world [OF r(4)]) simp_all
    then show ?thesis
      using r False by auto
  qed
qed

lemma retry_step:
  assumes inv: "alloc_inv a L M" and i: "is_class i" and p: "p \<in># M i"
    and push: "slab_push_at sched (slab_count a) i p (per_cpu_caches a) = (ok, s)"
  shows "\<exists>a' L'. (if ok then Some (a\<lparr>per_cpu_caches := s\<rparr>) else do {
       (c, w) \<leftarrow> cfl_deallocate p (free_list a i) (world a);
       Some (a\<lparr>per_cpu_caches := s, free_list := (free_list a)(i := c), world := w\<rparr>) }) = Some a'
     \<and> slab_count a' = slab_count a \<and> alloc_inv a' L' (M(i := M i - {#p#})) \<and> undisturbed (M(i := M i - {#p#})) a a'"
proof -
  let ?a4 = "a\<lparr>per_cpu_caches := s\<rparr>"
  note inv4 = push_step [OF inv i p push]
  show ?thesis
  proof (cases ok)
    case True
    then show ?thesis
      using inv4 by (intro exI [of _ ?a4] exI [of _ L]) simp
  next
    case False
    then have inv5: "alloc_inv ?a4 L M"
      using inv4 by simp
    obtain c w L5 where put: "cfl_deallocate p (free_list ?a4 i) (world ?a4) = Some (c, w)"
        "alloc_inv (?a4\<lparr>free_list := (free_list ?a4)(i := c), world := w\<rparr>) L5 (M(i := M i - {#p#}))"
        "undisturbed (M(i := M i - {#p#})) ?a4 (?a4\<lparr>free_list := (free_list ?a4)(i := c), world := w\<rparr>)"
      using put_step [OF inv5 i p] by blast
    have "undisturbed (M(i := M i - {#p#})) a (?a4\<lparr>free_list := (free_list ?a4)(i := c), world := w\<rparr>)"
      by (rule undisturbed_world [OF put(3)]) simp_all
    then show ?thesis
      using False put by auto
  qed
qed

lemma deallocate_step:
  assumes inv: "alloc_inv a L M" and i: "is_class i" and p: "p \<in># M i"
  shows "\<exists>a' L'. deallocate sched p a = Some a' \<and> slab_count a' = slab_count a \<and> alloc_inv a' L' (M(i := M i - {#p#}))
     \<and> undisturbed (M(i := M i - {#p#})) a a'"
proof -
  obtain H where H: "cfl_rel (free_list a i) (world a) (L i) H" "obj_size (free_list a i) = class_size i"
      "finite H" "M i \<subseteq># mset_set H"
    using alloc_inv_outside [OF inv i] by blast
  have "p \<in> H"
    using mset_subset_eqD [OF H(4) p] H(3) by simp
  then obtain j span where j: "world_find p (world a) = Some j" "spans (ph (world a)) j = Some span" "span_size span = class_size i"
    using object_span [OF H(1)] H(2) by metis
  have idx: "size_class_to_idx (span_size span) = i" "class_size i \<noteq> 0"
    using i size_class_to_idx_class_size [of i] class_size_pos [of i] j(3) by (auto simp: is_class_def)
  obtain ok s1 where push: "slab_push_at sched (slab_count a) i p (per_cpu_caches a) = (ok, s1)"
    by (rule prod.exhaust)
  note inv1 = push_step [OF inv i p push]
  show ?thesis
  proof (cases ok)
    case True
    then have "deallocate sched p a = Some (a\<lparr>per_cpu_caches := s1\<rparr>)"
      using j idx push by (simp add: deallocate_def Let_def)
    then show ?thesis
      using inv1 True by auto
  next
    case False
    let ?a1 = "a\<lparr>per_cpu_caches := s1\<rparr>"
    have inv1: "alloc_inv ?a1 L M"
      using inv1 False by simp
    obtain batch s2 where drain: "drain_loop (slab_pop_at sched (slab_count a) i) (sc_batch_size (SizeClasses ! i)) s1 = (batch, s2)"
      by (rule prod.exhaust)
    obtain a3 L3 where a3: "(if batch \<noteq> [] then release_batch i batch (a\<lparr>per_cpu_caches := s2\<rparr>) else Some (a\<lparr>per_cpu_caches := s2\<rparr>)) = Some a3"
        "alloc_inv a3 L3 M" "slab_count a3 = slab_count a" "undisturbed M a a3"
    proof -
      have "drain_loop (slab_pop_at sched (slab_count ?a1) i) (sc_batch_size (SizeClasses ! i)) (per_cpu_caches ?a1) = (batch, s2)"
        using drain by simp
      from drain_release_step [OF inv1 i this] obtain a' L' where r: "(if batch \<noteq> [] then release_batch i batch (?a1\<lparr>per_cpu_caches := s2\<rparr>)
            else Some (?a1\<lparr>per_cpu_caches := s2\<rparr>)) = Some a'"
          "alloc_inv a' L' M" "slab_count a' = slab_count ?a1" "undisturbed M ?a1 a'"
        by blast
      have "undisturbed M a a'"
        by (rule undisturbed_world [OF r(4)]) simp_all
      then show ?thesis
        using r(1-3) by (intro that [of a' L']; cases "batch = []") simp_all
    qed
    obtain ok4 s4 where push4: "slab_push_at sched (slab_count a3) i p (per_cpu_caches a3) = (ok4, s4)"
      by (rule prod.exhaust)
    obtain a5 L5 where a5: "(if ok4 then Some (a3\<lparr>per_cpu_caches := s4\<rparr>) else do {
          (c, w) \<leftarrow> cfl_deallocate p (free_list a3 i) (world a3);
          Some (a3\<lparr>per_cpu_caches := s4, free_list := (free_list a3)(i := c), world := w\<rparr>) }) = Some a5"
        "slab_count a5 = slab_count a3" "alloc_inv a5 L5 (M(i := M i - {#p#}))" "undisturbed (M(i := M i - {#p#})) a3 a5"
      using retry_step [OF a3(2) i p push4] by blast
    have "undisturbed (M(i := M i - {#p#})) a a3"
      by (rule undisturbed_trans [OF undisturbed_same a3(4)]) (auto dest: in_diffD split: if_splits)
    from undisturbed_trans [OF this a5(4)] have "undisturbed (M(i := M i - {#p#})) a a5"
      by simp
    moreover have "deallocate sched p a = Some a5"
      using j idx push False drain a3(1) push4 a5(1)
      by (cases "batch = []"; cases ok4) (auto simp: deallocate_def Let_def)
    ultimately show ?thesis
      using a5(2,3) a3(3) by auto
  qed
qed

end
