(* ===== verification/Central_Free_List_Supply.thy ===== *)
theory Central_Free_List_Supply
  imports Central_Free_List_Ops
begin

text \<open>
  When \<open>CentralFreeList::allocate\<close> gives null: only when the system refused the memory for a new
  span, as long as a span of the class holds at least one object. Also, no operation exchanges
  the operating system it runs on.
\<close>

section \<open>The operating system stays\<close>

lemma world_write_os: "world_write i f w = Some w' \<Longrightarrow> os w' = os w"
  by (auto simp: world_write_def bind_eq_Some_conv)

lemma world_alloc_os: "world_alloc n sz w = Some (r, w') \<Longrightarrow> os w' = os w"
  by (auto simp: world_alloc_def bind_eq_Some_conv)

lemma world_return_os: "world_return i w = Some w' \<Longrightarrow> os w' = os w"
  by (auto simp: world_return_def bind_eq_Some_conv)

lemma populate_os: "populate_span s c w = Some (c', w') \<Longrightarrow> os w' = os w"
  by (auto simp: populate_span_def bind_eq_Some_conv Let_def split: option.splits if_splits prod.splits
      dest!: world_write_os)

lemma fetch_os: "fetch_from_page_heap c w = Some (c', w') \<Longrightarrow> os w' = os w"
  by (auto simp: fetch_from_page_heap_def bind_eq_Some_conv Let_def split: option.splits if_splits
      dest!: world_write_os world_alloc_os)

lemma release_os: "release_to_page_heap i c w = Some (c', w') \<Longrightarrow> os w' = os w"
  by (auto simp: release_to_page_heap_def bind_eq_Some_conv Let_def split: option.splits if_splits
      dest!: world_write_os world_return_os)

lemma cfl_allocate_os: "cfl_allocate c w = Some (p, c', w') \<Longrightarrow> os w' = os w"
  by (auto simp: cfl_allocate_def Let_def elim!: bind_SomeE split: option.split_asm if_split_asm prod.split_asm
      dest!: world_write_os populate_os fetch_os)

lemma cfl_deallocate_os: "cfl_deallocate p c w = Some (c', w') \<Longrightarrow> os w' = os w"
  by (auto simp: cfl_deallocate_def bind_eq_Some_conv Let_def split_beta split: option.split_asm if_split_asm
      dest!: world_write_os release_os)

lemma cfl_allocate_batch_os: "cfl_allocate_batch n c w = Some (ps, c', w') \<Longrightarrow> os w' = os w"
  by (induction n arbitrary: c w ps) (auto simp: bind_eq_Some_conv split: if_splits dest!: cfl_allocate_os)

lemma cfl_deallocate_batch_os: "cfl_deallocate_batch ps c w = Some (c', w') \<Longrightarrow> os w' = os w"
  by (induction ps arbitrary: c w) (auto simp: bind_eq_Some_conv dest!: cfl_deallocate_os)

section \<open>Null results\<close>

lemma choose_available:
  assumes st: "cfl_state c w L A" and ok: "span_has_available_objects (current_span c) w = Some ok"
    and cur: "(if ok then Some (current_span c) else find_available_span c w) = Some (Some i)"
  shows "i \<in> set L \<and> span_has_available_objects (Some i) w = Some True"
proof (cases ok)
  case True
  then show ?thesis
    using ok cur cfl_stateD(7) [OF st] by simp
next
  case False
  obtain l where "dseg (live w) nullptr (span_list c) L l nullptr"
    using cfl_stateD(4) [OF st] by (auto simp: dll_def)
  from find_loop_spec [OF this] show ?thesis
    using cur False by (auto simp: find_available_span_def)
qed

lemma fetch_null:
  assumes "fetch_from_page_heap c w = Some (c', w')" "current_span c = nullptr" "current_span c' = nullptr"
    and "0 < obj_size c" "0 < span_pages c"
  shows "\<exists>w1. world_alloc (span_pages c) (obj_size c) w = Some (nullptr, w1)"
proof -
  obtain r w1 where r: "world_alloc (span_pages c) (obj_size c) w = Some (r, w1)"
    using assms(1,4,5) by (auto simp: fetch_from_page_heap_def bind_eq_Some_conv)
  have "r = nullptr"
  proof (rule ccontr)
    assume "r \<noteq> nullptr"
    then obtain b where "r = Some b"
      by auto
    then have "current_span c' = Some b"
      using assms(1,4,5) r by (auto simp: fetch_from_page_heap_def Let_def bind_eq_Some_conv split: if_split_asm)
    then show False
      using assms(3) by simp
  qed
  then show ?thesis
    using r by blast
qed

lemma world_alloc_null:
  assumes ok: "world_ok w" and run: "world_alloc n sz w = Some (nullptr, w')" and n: "0 < n" "n \<le> MAX_PAGES" "sz < 4294967295"
  shows "os w (mmap_calls (ph w)) (page_map (ph w)) n = None"
proof -
  obtain h where h: "allocate_span (os w) n sz (ph w) = Some (nullptr, h)"
    using run unfolding world_alloc_def by (auto elim!: bind_SomeE)
  obtain F where F: "ph_inv F {} (ph w)" "mmap_ok (os w)"
    using ok by (auto simp: world_ok_def page_heap_ok_def)
  obtain r h' where r: "allocate_span (os w) n sz (ph w) = Some (r, h')"
      "case r of None \<Rightarrow> used h' = used (ph w) \<and> first_list F n = None \<and> os w (mmap_calls (ph w)) (page_map (ph w)) n = None
        | Some b \<Rightarrow> \<exists>t. used (ph w) b = None \<and> used h' = (used (ph w))(b \<mapsto> t) \<and> num_pages t = n \<and> span_size t = sz
            \<and> dom (page_map h') = dom (page_map (ph w)) \<union> pages_of t"
    using allocate_span_cases [OF F n] by blast
  then have "r = nullptr"
    using h by simp
  then show ?thesis
    using r(2) by simp
qed

text \<open>The span the object is taken from has one, or can be carved.\<close>

lemma supply_available:
  assumes st: "cfl_state c w L A" and fits: "obj_size c \<le> span_pages c * PAGE_SIZE"
    and cur: "\<And>i. current_span c = Some i \<Longrightarrow> span_has_available_objects (Some i) w = Some True"
    and run: "(if current_span c = nullptr then fetch_from_page_heap c w else Some (c, w)) = Some (c', w')"
    and i: "current_span c' = Some i"
  shows "span_has_available_objects (Some i) w' = Some True"
proof (cases "current_span c")
  case (Some j)
  then show ?thesis
    using cur run i by simp
next
  case None
  then have "c' \<noteq> c" "fetch_from_page_heap c w = Some (c', w')"
    using run i by auto
  then obtain b t where b: "live w' b = Some t" "fresh_span c t" "c' = c\<lparr>span_list := Some b, current_span := Some b\<rparr>"
    using fetch_spec [OF st] by auto
  have "0 < span_pages c * PAGE_SIZE div obj_size c"
    using fits cfl_stateD(2) [OF st] by (simp add: div_greater_zero_iff)
  then show ?thesis
    using b i span_available [OF b(1)] by (simp add: fresh_span_def)
qed

lemma cfl_allocate_null:
  assumes rel: "cfl_rel c w L H" and fits: "obj_size c \<le> span_pages c * PAGE_SIZE" and pg: "span_pages c \<le> MAX_PAGES"
    and run: "cfl_allocate c w = Some (0, c', w')"
  shows "os w (mmap_calls (ph w)) (page_map (ph w)) (span_pages c) = None"
proof -
  obtain A where st: "cfl_state c w L A"
    using rel by (auto simp: cfl_rel_def)
  have pos: "0 < obj_size c" "0 < span_pages c"
    using cfl_stateD(2) [OF st] fits by (auto simp: PAGE_SIZE_def intro: gr0I)
  obtain ok cur where cur: "span_has_available_objects (current_span c) w = Some ok"
      "(if ok then Some (current_span c) else find_available_span c w) = Some cur"
      and st1: "cfl_state (c\<lparr>current_span := cur\<rparr>) w L A"
    using choose_spec [OF st] by blast
  let ?c1 = "c\<lparr>current_span := cur\<rparr>"
  obtain c2 w2 L2 A2 where s2: "(if current_span ?c1 = nullptr then fetch_from_page_heap ?c1 w else Some (?c1, w)) = Some (c2, w2)"
    and st2: "cfl_state c2 w2 L2 A2"
    using supply_spec [OF st1] by blast
  show ?thesis
  proof (cases "current_span c2")
    case None
    then have "cur = nullptr" "fetch_from_page_heap ?c1 w = Some (c2, w2)"
      using s2 by (auto split: if_splits)
    then obtain w1 where "world_alloc (span_pages c) (obj_size c) w = Some (nullptr, w1)"
      using fetch_null [of ?c1 w c2 w2] None pos by auto
    then show ?thesis
      using world_alloc_null [OF cfl_stateD(1) [OF st] _ pos(2) pg cfl_stateD(3) [OF st]] by blast
  next
    case (Some i)
    have "span_has_available_objects (Some i) w2 = Some True"
      by (rule supply_available [OF st1 _ _ s2 Some]) (use fits choose_available [OF st cur(1)] cur(2) in auto)
    moreover obtain s where s: "live w2 i = Some s" "spans (ph w2) i = Some s"
      using cfl_state_span [OF st2 cfl_stateD(7) [OF st2 Some]] by blast
    ultimately have av: "freelist_head s \<noteq> INVALID_INDEX \<or> next_uninitialized s < total_objects s"
      using span_available by simp
    note i = cfl_stateD(7) [OF st2 Some]
    obtain c3 w3 A3 s3 where s3: "(if freelist_head s = INVALID_INDEX then populate_span (Some i) c2 w2 else Some (c2, w2)) = Some (c3, w3)"
      and st3: "cfl_state c3 w3 L2 A3" and live3: "live w3 i = Some s3" and ne: "freelist_head s3 \<noteq> INVALID_INDEX"
    proof (cases "freelist_head s = INVALID_INDEX")
      case True
      then show ?thesis
        using populate_spec [OF st2 i s(1) True] av that by auto
    next
      case False
      then show ?thesis
        using that [of c2 w2 A2 s] st2 s(1) by simp
    qed
    obtain p h' m w4 A4 where p: "pop_object (base_of s3) (obj_size c3) (freelist_head s3) (cells w3) = (p, h', m)"
        "world_write i (\<lambda>q. q\<lparr>freelist_head := h', num_free_objects := sub32 (num_free_objects q) 1\<rparr>)
           (w3\<lparr>cells := m\<rparr>) = Some w4" "p \<noteq> 0"
      using pop_spec [OF st3 i live3 ne] by auto
    have "cfl_allocate c w = Some (p, c3\<lparr>num_free := sub32 (num_free c3) 1\<rparr>, w4)"
      using cur s2 Some s(2) s3 live_span [OF live3] ne p(1,2) unfolding cfl_allocate_def Let_def base_of_def by simp
    then show ?thesis
      using run p(3) by simp
  qed
qed

end
