(* ===== verification/Page_Heap_Props.thy ===== *)
theory Page_Heap_Props
  imports Span_Provider
begin

text \<open>
  The page heap as its clients see it: the runs of its operations, the properties of every
  reachable heap, and the contracts of the single operations, each applied to a concrete heap.
\<close>

section \<open>Runs\<close>

text \<open>
  A step is one call of a public operation with arguments a client may pass: any page count, a
  live span to return, any span to deallocate; or a write of an owner to its span.
\<close>

inductive ph_step :: "mmap_env \<Rightarrow> PageHeap \<Rightarrow> PageHeap \<Rightarrow> bool" for mmap where
  allocate: "sz < 4294967295 \<Longrightarrow> allocate_span mmap n sz h = Some (r, h') \<Longrightarrow> ph_step mmap h h'"
| give_back: "used h i = Some s \<Longrightarrow> return_span (Some i) h = Some h' \<Longrightarrow> ph_step mmap h h'"
| deallocate: "spans h i = Some s \<Longrightarrow> deallocate_span b (Some i) h = Some (r, h') \<Longrightarrow> ph_step mmap h h'"
| owner: "used h i = Some s \<Longrightarrow> owner_write s (f s) \<Longrightarrow> upd_span i f h = Some h' \<Longrightarrow> ph_step mmap h h'"

inductive ph_reach :: "mmap_env \<Rightarrow> PageHeap \<Rightarrow> bool" for mmap where
  init: "ph_reach mmap empty_PageHeap"
| step: "ph_reach mmap h \<Longrightarrow> ph_step mmap h h' \<Longrightarrow> ph_reach mmap h'"

lemma page_heap_ok_empty: "page_heap_ok empty_PageHeap"
  using empty_PageHeap_inv by (auto simp: page_heap_ok_def)

lemma return_span_ok:
  assumes "page_heap_ok h" "used h i = Some s"
  shows "\<exists>h'. return_span (Some i) h = Some h' \<and> page_heap_ok h' \<and> used h' = (used h)(i := None)
     \<and> dom (page_map h') = dom (page_map h)"
  using assms return_span_inv [of _ h i s] unfolding page_heap_ok_def by blast

lemma deallocate_span_ok:
  assumes "page_heap_ok h" "spans h i = Some s"
  shows "\<exists>h'. deallocate_span b (Some i) h = Some (b, h') \<and> page_heap_ok h' \<and> used h' = (used h)(i := None)
     \<and> dom (page_map h') = dom (page_map h) - pages_of s"
  using assms deallocate_span_inv [of _ h i s] unfolding page_heap_ok_def by blast

lemma owner_write_ok:
  assumes "page_heap_ok h" "used h i = Some s" "owner_write s (f s)"
  shows "\<exists>h'. upd_span i f h = Some h' \<and> page_heap_ok h' \<and> used h' = (used h)(i \<mapsto> f s)"
proof -
  have "spans h i = Some s" "\<not> is_free s"
    using assms(2) by (simp_all add: used_Some)
  then show ?thesis
    using assms ph_inv_retag [of _ "{}" h i s "f s"] unfolding page_heap_ok_def owner_write_def
    by auto
qed

lemma ph_step_ok:
  assumes "page_heap_ok h" "mmap_ok mmap" "ph_step mmap h h'"
  shows "page_heap_ok h'"
  using assms(3)
proof (cases rule: ph_step.cases)
  case (allocate sz n r)
  then show ?thesis
    using allocate_span_ok [OF assms(1,2), of sz n] by auto
next
  case (give_back i s)
  then show ?thesis
    using return_span_ok [OF assms(1), of i s] by auto
next
  case (deallocate i s b r)
  then show ?thesis
    using deallocate_span_ok [OF assms(1), of i s b] by auto
next
  case (owner i s f)
  then show ?thesis
    using owner_write_ok [OF assms(1), of i s f] by auto
qed

lemma ph_reach_ok: "ph_reach mmap h \<Longrightarrow> mmap_ok mmap \<Longrightarrow> page_heap_ok h"
  by (induction rule: ph_reach.induct) (auto intro: page_heap_ok_empty ph_step_ok)

section \<open>An operating system for the examples\<close>

text \<open>It hands out ever higher addresses, 1024 pages apart, and refuses what is already mapped.\<close>

definition bump_mmap :: mmap_env where
  "bump_mmap k mapped n =
     (if k < 1000 \<and> n \<le> 1024 \<and> list_all (\<lambda>p. mapped p = None) [1024 * Suc k ..< 1024 * Suc k + n]
      then Some (1024 * Suc k * PAGE_SIZE) else None)"

lemma bump_mmap_ok: "mmap_ok bump_mmap"
  unfolding mmap_ok_def
proof (intro allI impI)
  fix k mapped n raw
  assume "bump_mmap k mapped n = Some raw"
  then have k: "k < 1000" "n \<le> 1024" "raw = 1024 * Suc k * PAGE_SIZE"
      "\<forall>p\<in>set [1024 * Suc k ..< 1024 * Suc k + n]. mapped p = None"
    by (simp_all add: bump_mmap_def list_all_iff split: if_splits)
  moreover have "raw div PAGE_SIZE = 1024 * Suc k"
    using k(3) by (simp add: PAGE_SIZE_def)
  moreover have "raw + n * PAGE_SIZE \<le> 2 ^ 64"
    using k(1-3) by (simp add: PAGE_SIZE_def)
  ultimately show "PAGE_SIZE dvd raw \<and> 0 < raw \<and> raw + n * PAGE_SIZE \<le> 2 ^ 64
      \<and> (\<forall>p. raw div PAGE_SIZE \<le> p \<and> p < raw div PAGE_SIZE + n \<longrightarrow> mapped p = None)"
    by (auto simp: PAGE_SIZE_def)
qed

lemma bump_mmap_first: "bump_mmap 0 Map.empty 255 = Some (1024 * PAGE_SIZE)"
  by (simp add: bump_mmap_def list_all_iff)

text \<open>A heap with one mapping of 255 pages, first in use, then free.\<close>

definition demo_span :: Span where
  "demo_span = new_Span\<lparr>start := 1024, num_pages := 255, span_size := 64\<rparr>"

definition demo_in_use :: PageHeap where
  "demo_in_use = empty_PageHeap\<lparr>spans := [1 \<mapsto> demo_span], fresh := 2, mmap_calls := 1,
     page_map := paint {1024 ..< 1279} (Some 1) Map.empty\<rparr>"

definition demo_free :: PageHeap where
  "demo_free = demo_in_use\<lparr>spans := [1 \<mapsto> demo_span\<lparr>is_free := True, span_size := 0\<rparr>],
     free_lists := (\<lambda>_. nullptr)(255 := Some 1)\<rparr>"

lemma demo_alloc: "allocate_span bump_mmap 255 64 empty_PageHeap = Some (Some 1, demo_in_use)"
proof -
  have "alloc_search 255 255 64 empty_PageHeap = Some (nullptr, empty_PageHeap)"
    by (simp add: alloc_search.simps MAX_PAGES_def empty_PageHeap_def)
  moreover have "1024 * PAGE_SIZE div PAGE_SIZE = 1024"
    by (simp add: PAGE_SIZE_def)
  ultimately show ?thesis
    using bump_mmap_first
    by (simp add: allocate_span_def MAX_PAGES_def empty_PageHeap_def new_object_def register_span_eq
        demo_in_use_def demo_span_def pages_of_def)
qed

lemma demo_in_use_ok: "page_heap_ok demo_in_use" "used demo_in_use = [1 \<mapsto> demo_span]"
  using allocate_span_ok [OF page_heap_ok_empty bump_mmap_ok, of 64 255] demo_alloc
  by (auto simp: demo_in_use_def used_def demo_span_def new_Span_def fun_eq_iff)

lemma demo_return: "return_span (Some 1) demo_in_use = Some demo_free"
  by (simp add: return_span_def demo_in_use_def demo_free_def demo_span_def new_Span_def coalesce_def
      coalesce_left_def coalesce_right_def lookup_def paint_def empty_PageHeap_def carve_loop.simps
      insert_span_def MAX_PAGES_def)

lemma demo_free_ok: "page_heap_ok demo_free"
  using return_span_ok [OF demo_in_use_ok(1), of 1 demo_span] demo_return demo_in_use_ok(2) by simp

section \<open>Properties of every reachable heap\<close>

text \<open>
  C23: in every state a client can bring the page heap into, two different spans, free or in use,
  share no page, and the page map sends exactly the pages of a span to it.
\<close>

theorem reachable_heap_safe:
  assumes "ph_reach mmap h" "mmap_ok mmap"
  shows "(\<forall>i j s t. spans h i = Some s \<and> spans h j = Some t \<and> i \<noteq> j \<longrightarrow> pages_of s \<inter> pages_of t = {})
     \<and> (\<forall>k i. page_map h k = Some i \<longleftrightarrow> (\<exists>s. spans h i = Some s \<and> k \<in> pages_of s))"
proof -
  obtain F where "ph_inv F {} h"
    using ph_reach_ok [OF assms] by (auto simp: page_heap_ok_def)
  then show ?thesis
    using ph_inv_disjoint ph_inv_map by blast
qed

lemma demo_reach: "ph_reach bump_mmap demo_in_use" "ph_reach bump_mmap demo_free"
proof -
  show "ph_reach bump_mmap demo_in_use"
    by (rule ph_reach.step [OF ph_reach.init ph_step.allocate [OF _ demo_alloc]]) simp
  then show "ph_reach bump_mmap demo_free"
    by (rule ph_reach.step [OF _ ph_step.give_back [OF _ demo_return, of demo_span]])
      (simp add: demo_in_use_ok)
qed

theorem reachable_heap_safe_witness:
  "page_map demo_free 1100 = Some 1 \<longleftrightarrow> (\<exists>s. spans demo_free 1 = Some s \<and> 1100 \<in> pages_of s)"
  using reachable_heap_safe [OF demo_reach(2) bump_mmap_ok] by blast

text \<open>
  C24: in a reachable heap the doubly linked list of page count \<open>n\<close> is null-terminated, its \<open>prev\<close>
  pointers match, its spans are in strictly increasing address order, and it holds exactly the
  free spans of \<open>n\<close> pages. A span of the heap is never empty and a free one has at most
  \<open>MAX_PAGES\<close> pages.
\<close>

theorem reachable_free_lists:
  assumes "ph_reach mmap h" "mmap_ok mmap" "n \<le> MAX_PAGES"
  shows "\<exists>xs. dll (spans h) (free_lists h n) xs \<and> sorted_wrt (<) (map (start_of h) xs)
     \<and> set xs = {i. \<exists>s. spans h i = Some s \<and> is_free s \<and> num_pages s = n}
     \<and> (\<forall>i s. spans h i = Some s \<longrightarrow> 0 < num_pages s \<and> (is_free s \<longrightarrow> num_pages s \<le> MAX_PAGES))"
proof -
  obtain F where F: "ph_inv F {} h"
    using ph_reach_ok [OF assms(1,2)] by (auto simp: page_heap_ok_def)
  have listed: "i \<in> set (F m) \<longleftrightarrow> (\<exists>s. spans h i = Some s \<and> is_free s \<and> num_pages s = m)" for i m
    using ph_inv_listed [OF F, of i m] ph_inv_free_listed [OF F, of i] by auto
  have start: "start (the (view (spans h) i)) = start_of h i" if "i \<in> set (F n)" for i
    using ph_inv_listed [OF F that] by auto
  have "sorted_wrt (<) (map (start_of h) (F n))"
    using ph_absD(2) [OF ph_invD [OF F], of n] sorted_map_cong [of "F n", OF start] by simp
  moreover have "0 < num_pages s \<and> (is_free s \<longrightarrow> num_pages s \<le> MAX_PAGES)" if "spans h i = Some s" for i s
    using ph_inv_space [OF F that] listed [of i "num_pages s"] ph_inv_listed [OF F, of i "num_pages s"] that
    by (auto simp: span_ok_def)
  ultimately show ?thesis
    using ph_inv_dll [OF F assms(3)] listed by (intro exI [of _ "F n"]) auto
qed

theorem reachable_free_lists_witness:
  "\<exists>xs. dll (spans demo_free) (free_lists demo_free 255) xs
     \<and> set xs = {i. \<exists>s. spans demo_free i = Some s \<and> is_free s \<and> num_pages s = 255}"
  using reachable_free_lists [OF demo_reach(2) bump_mmap_ok, of 255] by (auto simp: MAX_PAGES_def)

section \<open>Contracts of the operations\<close>

text \<open>
  C25: \<open>allocate_span\<close> always returns and keeps the invariant. A null result leaves the spans in use
  as they were; otherwise the span was not in use before, has exactly the pages and the object
  size asked for, and is the only change to the spans in use.
\<close>

theorem allocate_span_contract:
  assumes "page_heap_ok h" "mmap_ok mmap" "sz < 4294967295"
  shows "\<exists>r h'. allocate_span mmap n sz h = Some (r, h') \<and> page_heap_ok h'
     \<and> (case r of None \<Rightarrow> used h' = used h
        | Some b \<Rightarrow> used h b = None \<and> (\<exists>t. used h' = (used h)(b \<mapsto> t) \<and> num_pages t = n \<and> span_size t = sz))"
  by (rule allocate_span_ok [OF assms])

theorem allocate_span_contract_witness:
  "\<exists>r h'. allocate_span bump_mmap 3 64 demo_in_use = Some (r, h') \<and> page_heap_ok h'"
  using allocate_span_contract [OF demo_in_use_ok(1) bump_mmap_ok, of 64 3] by auto

text \<open>
  C27: \<open>allocate_span\<close> is first fit by page count and address: when some free span is long enough, it
  succeeds without calling \<open>mmap\<close>, on the span of the smallest sufficient page count with the
  lowest address, and hands out the first \<open>n\<close> pages of it.
\<close>

theorem allocate_span_best_fit:
  assumes ok: "page_heap_ok h" and n: "0 < n" "n \<le> MAX_PAGES" and sz: "sz < 4294967295"
    and j: "spans h j = Some q" "is_free q" "n \<le> num_pages q"
  shows "\<exists>b s h' t. allocate_span mmap n sz h = Some (Some b, h') \<and> spans h b = Some s \<and> is_free s
     \<and> (\<forall>i p. spans h i = Some p \<and> is_free p \<and> n \<le> num_pages p \<longrightarrow>
           num_pages s < num_pages p \<or> num_pages s = num_pages p \<and> start s \<le> start p)
     \<and> used h' b = Some t \<and> start t = start s \<and> num_pages t = n \<and> mmap_calls h' = mmap_calls h"
proof -
  obtain F where F: "ph_inv F {} h"
    using ok by (auto simp: page_heap_ok_def)
  have j': "j \<in> set (F (num_pages q))" "num_pages q \<le> MAX_PAGES"
    using ph_inv_free_listed [OF F j(1,2)] ph_inv_listed [OF F, of j "num_pages q"] by auto
  have "F (num_pages q) \<noteq> []"
    using j'(1) by auto
  then have "first_list F n \<noteq> None"
    using j(3) j'(2) by (auto simp: first_list_def find_None_iff simp del: upt_Suc intro!: exI [of _ "num_pages q"])
  then obtain m where m: "first_list F n = Some m"
    by blast
  note fst_m = first_list_Some [OF m]
  define b where "b = hd (F m)"
  obtain bs where Fm: "F m = b # bs"
    using fst_m by (cases "F m") (auto simp: b_def)
  obtain s where s: "spans h b = Some s" "is_free s" "num_pages s = m"
    using ph_inv_listed [OF F, of b m] Fm by auto
  have best: "num_pages s < num_pages p \<or> num_pages s = num_pages p \<and> start s \<le> start p"
    if p: "spans h i = Some p" "is_free p" "n \<le> num_pages p" for i p
  proof -
    have i: "i \<in> set (F (num_pages p))"
      using ph_inv_free_listed [OF F p(1,2)] by simp
    then have "\<not> num_pages p < m"
      using fst_m p(3) by fastforce
    moreover have "start s \<le> start p" if "num_pages p = m"
      using ph_absD(2) [OF ph_invD [OF F], of m] i Fm that s(1) p(1) by auto
    ultimately show ?thesis
      using s(3) by linarith
  qed
  obtain h' F' t where h': "alloc_search n n sz h = Some (Some b, h')" "used h' = (used h)(b \<mapsto> t)"
      "start t = start_of h b" "num_pages t = n" "mmap_calls h' = mmap_calls h"
    using alloc_search_some [OF F sz n(1) m] unfolding b_def by blast
  have "allocate_span mmap n sz h = Some (Some b, h')"
    using h'(1) n by (simp add: allocate_span_def)
  then show ?thesis
    using s best h' by (intro exI [of _ b] exI [of _ s] exI [of _ h'] exI [of _ t]) auto
qed

theorem allocate_span_best_fit_witness:
  "\<exists>b h' t. allocate_span bump_mmap 254 32 demo_free = Some (Some b, h') \<and> used h' b = Some t \<and> num_pages t = 254"
  using allocate_span_best_fit [OF demo_free_ok, of 254 32 1 "demo_span\<lparr>is_free := True, span_size := 0\<rparr>" bump_mmap]
  by (auto simp: MAX_PAGES_def demo_free_def demo_span_def)

text \<open>
  C26: \<open>return_span\<close> of a span in use returns (its loops end), keeps the invariant, takes exactly
  that span out of use and keeps every page in the page map, whatever it coalesces and carves.
\<close>

theorem return_span_contract:
  assumes "page_heap_ok h" "used h i = Some s"
  shows "\<exists>h'. return_span (Some i) h = Some h' \<and> page_heap_ok h' \<and> used h' = (used h)(i := None)
     \<and> dom (page_map h') = dom (page_map h)"
  by (rule return_span_ok [OF assms])

theorem return_span_contract_witness:
  "\<exists>h'. return_span (Some 1) demo_in_use = Some h' \<and> page_heap_ok h' \<and> used h' 1 = None
     \<and> dom (page_map h') = dom (page_map demo_in_use)"
  using return_span_contract [OF demo_in_use_ok(1), of 1 demo_span] demo_in_use_ok(2) by auto

text \<open>
  \<open>deallocate_span\<close> of any span, free or in use, keeps the invariant, reports the answer of
  \<open>munmap\<close>, and removes exactly the pages of that span from the page map.
\<close>

lemma deallocate_span_contract:
  assumes "page_heap_ok h" "spans h i = Some s"
  shows "\<exists>h'. deallocate_span b (Some i) h = Some (b, h') \<and> page_heap_ok h' \<and> used h' = (used h)(i := None)
     \<and> dom (page_map h') = dom (page_map h) - pages_of s"
  by (rule deallocate_span_ok [OF assms])

text \<open>
  \<open>span_for\<close> resolves every address inside a span, not only its first, and no other address.
\<close>

lemma span_for_correct:
  assumes "page_heap_ok h"
  shows "span_for p h = Some i \<longleftrightarrow>
     (\<exists>s. spans h i = Some s \<and> start s * PAGE_SIZE \<le> p \<and> p < (start s + num_pages s) * PAGE_SIZE)"
proof -
  have "p div PAGE_SIZE \<in> pages_of s \<longleftrightarrow> start s * PAGE_SIZE \<le> p \<and> p < (start s + num_pages s) * PAGE_SIZE" for s :: Span
    by (simp add: pages_of_def PAGE_SIZE_def less_eq_div_iff_mult_less_eq div_less_iff_less_mult)
  moreover obtain F where "ph_inv F {} h"
    using assms by (auto simp: page_heap_ok_def)
  ultimately show ?thesis
    using ph_inv_map [of F "{}" h "p div PAGE_SIZE" i] by (simp add: span_for_def lookup_def)
qed

text \<open>
  The destructor returns, unmaps exactly the extents of the free spans and deletes exactly
  these, empties every list and the page map; spans still in use are neither unmapped nor deleted.
\<close>

lemma destroy_PageHeap_frees:
  assumes "page_heap_ok h"
  shows "\<exists>us h'. destroy_PageHeap h = Some (us, h') \<and> spans h' = used h \<and> page_map h' = Map.empty
     \<and> (\<forall>n\<le>MAX_PAGES. free_lists h' n = nullptr)
     \<and> set us = {extent s | s i. spans h i = Some s \<and> is_free s}"
  using assms destroy_PageHeap_inv unfolding page_heap_ok_def by blast

end
