(* ===== verification/Central_Free_List_Props.thy ===== *)
theory Central_Free_List_Props
  imports Central_Free_List_Ops Page_Heap_Props
begin

text \<open>
  The properties of a central free list, each applied to a concrete list: what a call promises,
  what clients may do to the memory they hold, and when spans go back to the page heap.
\<close>

section \<open>Starting, and giving everything back\<close>

lemma new_cfl_rel:
  assumes "world_ok w" "4 \<le> sc_size sc" "sc_size sc < 4294967295" "sc_pages sc * PAGE_SIZE div sc_size sc \<le> 65535"
  shows "cfl_rel (new_CentralFreeList sc) w [] {}"
  unfolding cfl_rel_def
  using assms by (intro exI [of _ "\<lambda>_. {}"]) (simp add: cfl_state_def cfl_held_def new_CentralFreeList_def u32_def)

lemma return_spans_spec:
  assumes "world_ok w" "dseg (live w) p cur xs l nullptr" "distinct xs"
  shows "\<exists>w'. return_spans cur w = Some w' \<and> world_ok w' \<and> live w' = live w |` (- set xs) \<and> cells w' = cells w"
  using assms
proof (induction xs arbitrary: p cur w)
  case Nil
  then show ?case
    by (simp add: return_spans.simps)
next
  case (Cons x xs)
  then obtain s where s: "cur = Some x" "live w x = Some s" "dseg (live w) (Some x) (nxt s) xs l nullptr"
    by auto
  obtain w1 where w1: "world_write x reset_span w = Some w1" "world_ok w1" "live w1 = (live w)(x \<mapsto> reset_span s)"
      "cells w1 = cells w"
    using write_live [OF Cons.prems(1) s(2), of reset_span] by (auto simp: owner_write_def reset_span_def)
  obtain w2 where w2: "world_return x w1 = Some w2" "world_ok w2" "live w2 = (live w)(x := None)"
    using heap.release [OF w1(2), of x "reset_span s"] w1(3) by (auto simp: fun_upd_upd)
  have cells2: "cells w2 = cells w"
    using world_cells(2) [OF w2(1)] w1(4) by simp
  have "dseg (live w2) (Some x) (nxt s) xs l nullptr"
    using s(3) Cons.prems(3) by (simp add: w2(3) dseg_upd)
  then obtain w3 where w3: "return_spans (nxt s) w2 = Some w3" "world_ok w3" "live w3 = live w2 |` (- set xs)"
      "cells w3 = cells w2"
    using Cons.IH [OF w2(2)] Cons.prems(3) by auto
  have "live w3 = live w |` (- set (x # xs))"
    by (auto simp: w3(3) w2(3) restrict_map_def fun_eq_iff)
  then show ?case
    using s(1,2) w1(1) w2(1) w3 cells2 by (subst return_spans.simps) (simp add: live_span)
qed

section \<open>A concrete list\<close>

definition world0 :: World where
  "world0 = \<lparr>os = bump_mmap, ph = empty_PageHeap, cells = (\<lambda>_. 0)\<rparr>"

lemma world0_ok: "world_ok world0"
  by (simp add: world_ok_def world0_def bump_mmap_ok page_heap_ok_empty)

definition sc4096 :: SizeClassInfo where
  "sc4096 = sci 4096 1 16 8000"

definition demo_cfl :: CentralFreeList where
  "demo_cfl = new_CentralFreeList sc4096"

lemma demo_cfl_rel: "cfl_rel demo_cfl world0 [] {}"
  unfolding demo_cfl_def by (rule new_cfl_rel [OF world0_ok]) (simp_all add: sc4096_def sci_def PAGE_SIZE_def)

lemma bump_first: "bump_mmap 0 Map.empty (Suc 0) = Some 4194304"
  by (simp add: bump_mmap_def PAGE_SIZE_def)

lemma demo_search: "alloc_search (Suc 0) (Suc 0) 4096 empty_PageHeap = Some (nullptr, empty_PageHeap)"
  by (rule alloc_search_none [OF empty_PageHeap_inv]) (simp_all add: first_list_def find_None_iff)

lemma empty_PageHeap_sel [simp]:
  "spans empty_PageHeap = Map.empty" "page_map empty_PageHeap = Map.empty" "fresh empty_PageHeap = 1"
  "mmap_calls empty_PageHeap = 0"
  by (simp_all add: empty_PageHeap_def)

text \<open>The first object of the class of 4096 bytes is the first byte of the first mapping.\<close>

lemma demo_first: "\<exists>c w. cfl_allocate demo_cfl world0 = Some (4194304, c, w)"
  by (simp add: cfl_allocate_def demo_cfl_def new_CentralFreeList_def sc4096_def sci_def world0_def
      span_has_available_objects_def find_available_span_def find_loop.simps fetch_from_page_heap_def
      world_alloc_def allocate_span_def demo_search MAX_PAGES_def bump_first new_object_def
      register_span_def world_write_def PAGE_SIZE_def u32_def populate_span_def Let_def
      populate_loop.simps pack_loop.simps index_to_ptr_def next_idx_def node_count_def pop_object_def
      pack_capacity_def INVALID_INDEX_def u16_def new_Span_def)

lemma demo_allocated:
  "\<exists>c w L. cfl_allocate demo_cfl world0 = Some (4194304, c, w) \<and> cfl_rel c w L {4194304}"
  using cfl_allocate_spec [OF demo_cfl_rel] demo_first by auto

section \<open>The geometry of objects\<close>

lemma objects_apart: "k \<noteq> (l :: nat) \<Longrightarrow> {b + k * sz ..< b + k * sz + sz} \<inter> {b + l * sz ..< b + l * sz + sz} = {}"
  using object_apart [of k l sz] object_apart [of l k sz] by (cases "k < l") auto

lemma held_apart:
  assumes st: "cfl_state c w L A" and p: "p \<in> cfl_held c w L A" and j: "j \<in> set L" "live w j = Some t"
    and l: "l < total_objects t" "\<not> (p = base_of t + l * obj_size c)"
  shows "{p ..< p + obj_size c} \<inter> {base_of t + l * obj_size c ..< base_of t + l * obj_size c + obj_size c} = {}"
proof -
  obtain i s k where i: "i \<in> set L" "live w i = Some s" "p = base_of s + k * obj_size c"
      "\<forall>a\<in>{p ..< p + obj_size c}. a div PAGE_SIZE \<in> pages_of s"
    using held_cells [OF st p] by blast
  have good: "good_span (obj_size c) (span_pages c) (cells w) t (A j)"
    using cfl_state_span [OF st j(1)] j(2) by auto
  show ?thesis
  proof (cases "i = j")
    case True
    then show ?thesis
      using objects_apart [of k l "base_of t" "obj_size c"] i j l(2) by auto
  next
    case False
    then show ?thesis
      using heap.live_disjoint [OF cfl_stateD(1) [OF st] i(2) j(2)] i(4) object_page [OF good l(1)] by blast
  qed
qed

text \<open>
  Writes into objects in use, and anywhere outside the spans of the list, do not disturb it.
\<close>

lemma cfl_rel_writes:
  assumes "cfl_rel c w L H" and wr: "\<forall>a. m a \<noteq> cells w a \<longrightarrow> (\<exists>p\<in>H. a \<in> {p ..< p + obj_size c})
      \<or> (\<forall>i\<in>set L. \<forall>s. live w i = Some s \<longrightarrow> a div PAGE_SIZE \<notin> pages_of s)"
  shows "cfl_rel c (w\<lparr>cells := m\<rparr>) L H"
proof -
  obtain A where st: "cfl_state c w L A" and H: "H = cfl_held c w L A"
    using assms(1) by (auto simp: cfl_rel_def)
  have "good_span (obj_size c) (span_pages c) m s (A i)" if i: "i \<in> set L" "live w i = Some s" for i s
  proof -
    have good: "good_span (obj_size c) (span_pages c) (cells w) s (A i)"
      using cfl_state_span [OF st i(1)] i(2) by auto
    have "m a = cells w a" if a: "a \<in> cells_of (base_of s) (obj_size c) (A i)" for a
    proof (rule ccontr)
      assume changed: "m a \<noteq> cells w a"
      have "A i \<subseteq> {..<total_objects s}"
        using good by (auto simp: good_span_def)
      then have "a div PAGE_SIZE \<in> pages_of s"
        using objects_page [OF good _ a] by blast
      then obtain p where p: "p \<in> cfl_held c w L A" "a \<in> {p ..< p + obj_size c}"
        using wr H changed i by blast
      obtain k where k: "k \<in> A i" "a \<in> {base_of s + k * obj_size c ..< base_of s + k * obj_size c + obj_size c}"
        using a by (auto simp: cells_of_def)
      have lt: "k < next_uninitialized s" "k < total_objects s"
        using good k(1) by (auto simp: good_span_def)
      have "p \<noteq> base_of s + k * obj_size c"
      proof
        assume eq: "p = base_of s + k * obj_size c"
        obtain j t l where j: "j \<in> set L" "live w j = Some t" "p = base_of t + l * obj_size c"
            "l < next_uninitialized t" "l \<notin> A j"
          using held_cells [OF st p(1)] by blast
        then have "j = i \<and> l = k"
          using object_unique [OF st j(1,2,4) i lt(1)] eq by simp
        then show False
          using j(5) k(1) by simp
      qed
      then show False
        using held_apart [OF st p(1) i lt(2)] p(2) k(2) by blast
    qed
    then show ?thesis
      using good packed_cong [of "obj_size c" "cells w" "base_of s" "freelist_head s" "A i" m] cfl_stateD(2) [OF st]
      by (simp add: good_span_def)
  qed
  then have good: "\<exists>s. view (live w) i = Some s \<and> good_span (obj_size c) (span_pages c) m s (A i)" if "i \<in> set L" for i
    using cfl_state_span [OF st that] by (metis good_span_payload that view_Some)
  have "cfl_state c (w\<lparr>cells := m\<rparr>) L A"
    using st good unfolding cfl_state_def by simp
  moreover have "cfl_held c (w\<lparr>cells := m\<rparr>) L A = cfl_held c w L A"
    by (simp add: cfl_held_def)
  ultimately show ?thesis
    using H unfolding cfl_rel_def by blast
qed

section \<open>Properties\<close>

text \<open>
  C28: \<open>CentralFreeList::allocate\<close> always returns. Either it gives null and the objects its clients
  hold are the same, or it gives an object nobody holds; no live span of another client of the
  page heap, nor the memory of its pages, is changed, nor a byte of an object a client holds.
\<close>

theorem cfl_allocate_contract:
  assumes "cfl_rel c w L H"
  shows "\<exists>p c' w' L'. cfl_allocate c w = Some (p, c', w')
     \<and> cfl_rel c' w' L' (if p = 0 then H else insert p H) \<and> (p \<noteq> 0 \<longrightarrow> p \<notin> H)
     \<and> obj_size c' = obj_size c \<and> span_pages c' = span_pages c \<and> grows w L L' \<and> cfl_frame L w w'
     \<and> cells_kept (obj_size c) H w w'"
  by (rule cfl_allocate_spec [OF assms])

theorem cfl_allocate_contract_witness:
  "\<exists>c w L. cfl_allocate demo_cfl world0 = Some (4194304, c, w) \<and> cfl_rel c w L {4194304}"
  using cfl_allocate_contract [OF demo_cfl_rel] demo_first by auto

text \<open>
  C29: \<open>CentralFreeList::deallocate\<close> of an object its clients hold returns and takes exactly this
  object from them; with the last object of a fully carved span the whole span goes back to the
  page heap; nothing of the other clients changes, nor a byte of the other objects held.
\<close>

theorem cfl_deallocate_contract:
  assumes "cfl_rel c w L H" "p \<in> H"
  shows "\<exists>c' w' L'. cfl_deallocate p c w = Some (c', w') \<and> cfl_rel c' w' L' (H - {p}) \<and> p \<noteq> 0
     \<and> obj_size c' = obj_size c \<and> span_pages c' = span_pages c \<and> set L' \<subseteq> set L \<and> cfl_frame L w w'
     \<and> cells_kept (obj_size c) (H - {p}) w w'"
  by (rule cfl_deallocate_spec [OF assms])

theorem cfl_deallocate_contract_witness:
  "\<exists>c w L c' w' L'. cfl_rel c w L {4194304} \<and> cfl_deallocate 4194304 c w = Some (c', w') \<and> cfl_rel c' w' L' {}"
  using demo_allocated cfl_deallocate_contract [of _ _ _ "{4194304}" 4194304] by fastforce

text \<open>
  \<open>allocate_batch\<close> returns at most the number asked for, pairwise different objects that nobody
  held before.
\<close>

lemma cfl_allocate_batch_distinct:
  assumes "cfl_rel c w L H"
  shows "\<exists>ps c' w' L'. cfl_allocate_batch n c w = Some (ps, c', w') \<and> cfl_rel c' w' L' (H \<union> set ps)
     \<and> distinct ps \<and> set ps \<inter> H = {} \<and> 0 \<notin> set ps \<and> length ps \<le> n"
  using cfl.get_batch_ok [of "(c, w)" L H n] assms unfolding cfl_allocate_batch_eq by auto

text \<open>
  Giving a batch straight back leaves the clients with what they held before, whatever spans
  were fetched or returned on the way.
\<close>

lemma cfl_batch_round_trip:
  assumes "cfl_rel c w L H"
  shows "\<exists>ps c1 w1 c2 w2 L2. cfl_allocate_batch n c w = Some (ps, c1, w1)
     \<and> cfl_deallocate_batch ps c1 w1 = Some (c2, w2) \<and> cfl_rel c2 w2 L2 H"
proof -
  have "cfl_rel (fst (c, w)) (snd (c, w)) L H"
    using assms by simp
  from cfl.get_put_batch [OF this, of n] show ?thesis
    unfolding cfl_allocate_batch_eq cfl_deallocate_batch_eq by (metis prod.collapse)
qed

text \<open>
  The objects clients hold do not overlap, and each lies within the pages of one live span of
  the list.
\<close>

lemma cfl_objects_disjoint:
  assumes "cfl_rel c w L H" "p \<in> H"
  shows "(\<exists>i\<in>set L. \<exists>s. live w i = Some s \<and> (\<forall>a\<in>{p ..< p + obj_size c}. a div PAGE_SIZE \<in> pages_of s))
     \<and> (\<forall>q\<in>H. q \<noteq> p \<longrightarrow> {p ..< p + obj_size c} \<inter> {q ..< q + obj_size c} = {})"
proof -
  obtain A where st: "cfl_state c w L A" and H: "H = cfl_held c w L A"
    using assms(1) by (auto simp: cfl_rel_def)
  have p: "p \<in> cfl_held c w L A"
    using assms(2) H by simp
  have "{p ..< p + obj_size c} \<inter> {q ..< q + obj_size c} = {}" if q: "q \<in> H" "q \<noteq> p" for q
  proof -
    obtain j t l where j: "j \<in> set L" "live w j = Some t" "q = base_of t + l * obj_size c" "l < next_uninitialized t"
      using held_cells [OF st, of q] q(1) H by blast
    then have "l < total_objects t"
      using cfl_state_span [OF st j(1)] by (auto simp: good_span_def)
    then show ?thesis
      using held_apart [OF st p j(1,2)] j(3) q(2) by simp
  qed
  then show ?thesis
    using held_cells [OF st p] by blast
qed

text \<open>
  The free lists live in the memory of free objects only: a client that writes anything into
  the objects it holds, and nowhere else, leaves the list intact.
\<close>

lemma cfl_client_writes:
  assumes "cfl_rel c w L H" and wr: "\<forall>a. m a \<noteq> cells w a \<longrightarrow> (\<exists>p\<in>H. a \<in> {p ..< p + obj_size c})"
  shows "cfl_rel c (w\<lparr>cells := m\<rparr>) L H"
  using cfl_rel_writes [OF assms(1)] wr by blast

text \<open>
  \<open>deallocate\<close> returns the span of the object to the page heap exactly when the free objects of
  the span, with this one, are as many as the span can hold; so a span of which a part has never
  been carved stays with the list even when all its objects have come back.
\<close>

lemma cfl_release_condition:
  assumes "cfl_rel c w L H" "p \<in> H" "world_find p w = Some i" "live w i = Some s"
  shows "\<exists>c' w'. cfl_deallocate p c w = Some (c', w') \<and>
     (live w' i = None \<longleftrightarrow> Suc (num_free_objects s) = total_objects s)"
proof -
  obtain A where st: "cfl_state c w L A" and pH: "p \<in> cfl_held c w L A"
    using assms(1,2) by (auto simp: cfl_rel_def)
  obtain j t h' m w1 A1 s1 where
    j: "world_find p w = Some j" "j \<in> set L" "live w j = Some t"
    and push: "push_object (base_of t) (obj_size c) (freelist_head t) p (cells w) = (h', m)"
      "world_write j (\<lambda>q. q\<lparr>freelist_head := h', num_free_objects := u32 (num_free_objects q + 1)\<rparr>)
         (w\<lparr>cells := m\<rparr>) = Some w1"
    and st1: "cfl_state (c\<lparr>num_free := u32 (num_free c + 1)\<rparr>) w1 L A1" and live1: "live w1 j = Some s1"
    and held1: "p \<noteq> 0" "cfl_held c w1 L A1 = cfl_held c w L A - {p}" "cfl_frame L w w1"
    using push_spec [OF st pH] by (elim exE conjE) (rule that; assumption)
  have ij: "j = i" "t = s"
    using j assms(3,4) by simp_all
  let ?c1 = "c\<lparr>num_free := u32 (num_free c + 1)\<rparr>"
  have run: "cfl_deallocate p c w =
      (if num_free_objects s1 = total_objects s1 then release_to_page_heap j ?c1 w1 else Some (?c1, w1))"
    using held1(1) j(1) live_span [OF j(3)] push live_span [OF live1]
    unfolding cfl_deallocate_def Let_def base_of_def by simp
  have "spans (ph w1) j = Some (t\<lparr>freelist_head := h', num_free_objects := u32 (num_free_objects t + 1)\<rparr>)"
    using push(2) live_span [OF j(3)] by (auto simp: world_write_def)
  then have "s1 = s\<lparr>freelist_head := h', num_free_objects := u32 (num_free_objects s + 1)\<rparr>"
    using live_span [OF live1] ij by simp
  then have s1: "num_free_objects s1 = u32 (num_free_objects s + 1)" "total_objects s1 = total_objects s"
    by simp_all
  have good: "good_span (obj_size c) (span_pages c) (cells w) s (A i)"
    using cfl_state_span [OF st, of i] j ij by auto
  have "num_free_objects s \<le> 65535"
    using good card_mono [of "{..<next_uninitialized s}" "A i"] by (auto simp: good_span_def)
  then have full: "num_free_objects s1 = total_objects s1 \<longleftrightarrow> Suc (num_free_objects s) = total_objects s"
    using s1 by (simp add: wrap_simps)
  show ?thesis
  proof (cases "num_free_objects s1 = total_objects s1")
    case True
    then show ?thesis
      using run full release_spec [OF st1 j(2) live1] ij(1) by auto
  next
    case False
    then show ?thesis
      using run full live1 ij(1) by auto
  qed
qed

text \<open>
  The destructor returns every span of the list to the page heap, also those with objects
  still held, and no other span.
\<close>

lemma cfl_destroy_returns_spans:
  assumes "cfl_rel c w L H"
  shows "\<exists>c' w'. destroy_CentralFreeList c w = Some (c', w') \<and> world_ok w' \<and> live w' = live w |` (- set L)
     \<and> cells w' = cells w \<and> span_list c' = nullptr \<and> current_span c' = nullptr \<and> num_free c' = 0"
proof -
  obtain A where st: "cfl_state c w L A"
    using assms by (auto simp: cfl_rel_def)
  obtain l where "dseg (live w) nullptr (span_list c) L l nullptr"
    using cfl_stateD(4) [OF st] by (auto simp: dll_def)
  from return_spans_spec [OF cfl_stateD(1) [OF st] this cfl_stateD(5) [OF st]]
  show ?thesis
    by (auto simp: destroy_CentralFreeList_def)
qed

section \<open>Classes without objects\<close>

lemma no_object_available:
  assumes st: "cfl_state c w L A" and none: "span_pages c * PAGE_SIZE < obj_size c" and i: "i \<in> set L"
  shows "span_has_available_objects (Some i) w = Some False"
proof -
  obtain s where s: "live w i = Some s" "good_span (obj_size c) (span_pages c) (cells w) s (A i)"
    using cfl_state_span [OF st i] by blast
  then have "total_objects s = 0" "A i = {}" "packed (obj_size c) (cells w) (base_of s) (freelist_head s) (A i)"
    using none by (auto simp: good_span_def)
  then show ?thesis
    using packed_nonempty [of "obj_size c" "cells w" "base_of s" "freelist_head s" "A i"] span_available [OF s(1)]
    by auto
qed

lemma fetch_new_span:
  assumes "fetch_from_page_heap c w = Some (c', w')" "world_alloc (span_pages c) (obj_size c) w = Some (Some b, w1)"
    and "0 < obj_size c" "0 < span_pages c"
  shows "c' = c\<lparr>span_list := Some b, current_span := Some b\<rparr>"
  using assms by (auto simp: fetch_from_page_heap_def Let_def Option.bind_eq_Some_conv split: if_splits)

text \<open>In a list whose objects do not fit their spans no span is chosen.\<close>

lemma oversized_chooses_none:
  assumes st: "cfl_state c w L A" and none: "span_pages c * PAGE_SIZE < obj_size c"
  shows "span_has_available_objects (current_span c) w = Some False \<and> find_available_span c w = Some nullptr"
proof -
  obtain ok cur where cur: "span_has_available_objects (current_span c) w = Some ok"
      "(if ok then Some (current_span c) else find_available_span c w) = Some cur"
    using choose_spec [OF st] by blast
  have "\<not> ok"
    using cur(1) no_object_available [OF st none cfl_stateD(7) [OF st]]
    by (cases "current_span c") (auto simp: span_has_available_objects_def)
  moreover have "cur = nullptr"
  proof -
    obtain l where "dseg (live w) nullptr (span_list c) L l nullptr"
      using cfl_stateD(4) [OF st] by (auto simp: dll_def)
    from find_loop_spec [OF this] show ?thesis
      using cur(2) \<open>\<not> ok\<close> no_object_available [OF st none] unfolding find_available_span_def
      by (cases cur) fastforce+
  qed
  ultimately show ?thesis
    using cur by simp
qed

text \<open>
  When a span of the class is smaller than one object, \<open>allocate\<close> always gives null, and when
  the page heap had a span for it, that span is added to the list and stays live.
\<close>

lemma cfl_oversized_class_leaks:
  assumes rel: "cfl_rel c w L H" and none: "span_pages c * PAGE_SIZE < obj_size c" and pg: "0 < span_pages c"
    and alloc: "world_alloc (span_pages c) (obj_size c) w = Some (Some b, w1)"
  shows "\<exists>c' w'. cfl_allocate c w = Some (0, c', w') \<and> live w b = None
     \<and> span_list c' = Some b \<and> live w' b \<noteq> None \<and> cfl_rel c' w' (b # L) H"
proof -
  obtain A where st: "cfl_state c w L A" and H: "H = cfl_held c w L A"
    using rel by (auto simp: cfl_rel_def)
  have cur': "find_available_span c w = Some nullptr" "span_has_available_objects (current_span c) w = Some False"
    using oversized_chooses_none [OF st none] by simp_all
  define c1 where "c1 = c\<lparr>current_span := nullptr\<rparr>"
  have st1: "cfl_state c1 w L A"
    using st by (simp add: cfl_state_def c1_def)
  obtain c2 w2 where f: "fetch_from_page_heap c1 w = Some (c2, w2)" and
    cases: "c2 = c1 \<and> world_ok w2 \<and> live w2 = live w \<and> cells w2 = cells w
      \<or> (\<exists>b t. live w b = None \<and> cfl_state c2 w2 (b # L) (A(b := {})) \<and> c2 = c1\<lparr>span_list := Some b, current_span := Some b\<rparr>
            \<and> live w2 b = Some t \<and> fresh_span c1 t \<and> view (live w2) = (view (live w))(b \<mapsto> payload t)
            \<and> cells w2 = cells w \<and> cfl_frame L w w2)"
    using fetch_spec [OF st1] by blast
  have c2: "c2 = c1\<lparr>span_list := Some b, current_span := Some b\<rparr>"
    using fetch_new_span [OF f, of b w1] alloc none pg by (simp add: c1_def)
  then have "c2 \<noteq> c1"
    by (metis CentralFreeList.select_convs(2) CentralFreeList.surjective CentralFreeList.update_convs(1,2) c1_def option.distinct(1))
  then obtain b' t where b': "live w b' = None" "cfl_state c2 w2 (b' # L) (A(b' := {}))"
      "c2 = c1\<lparr>span_list := Some b', current_span := Some b'\<rparr>" "live w2 b' = Some t" "fresh_span c1 t"
    using cases by blast
  have "current_span c2 = Some b" "current_span c2 = Some b'"
    by (subst c2, simp) (subst b'(3), simp)
  then have "b' = b"
    by simp
  note b' = b' [unfolded this]
  have t: "spans (ph w2) b = Some t" "freelist_head t = INVALID_INDEX" "total_objects t = 0" "next_uninitialized t = 0"
    using live_span [OF b'(4)] b'(5) none by (simp_all add: fresh_span_def c1_def)
  have "cfl_allocate c w = Some (0, c2, w2)"
    using cur' f c2 t unfolding cfl_allocate_def c1_def by (simp add: populate_span_def)
  moreover have "cfl_held c2 w2 (b # L) (A(b := {})) = H"
  proof -
    have "fresh_span c t" "obj_size c2 = obj_size c"
      using b'(5) c2 by (simp_all add: fresh_span_def c1_def)
    moreover have "view (live w2) = (view (live w))(b \<mapsto> payload t)"
      using cases \<open>c2 \<noteq> c1\<close> \<open>current_span c2 = Some b\<close> b'(4) by auto
    ultimately show ?thesis
      using new_span_held [OF st b'(1,4)] H by simp
  qed
  ultimately show ?thesis
    using b' c2 unfolding cfl_rel_def by (intro exI [of _ c2] exI [of _ w2]) auto
qed

text \<open>These rows of the table are such classes, because their page counts are meant for pages of 8 KB.\<close>

definition sc8192 :: SizeClassInfo where
  "sc8192 = sci 8192 1 8 4000"

lemma sc8192_row: "sc8192 \<in> set SizeClasses"
  by (simp add: sc8192_def SizeClasses_def)

lemma demo_8192_rel: "cfl_rel (new_CentralFreeList sc8192) world0 [] {}"
  by (rule new_cfl_rel [OF world0_ok]) (simp_all add: sc8192_def sci_def PAGE_SIZE_def)

lemma demo_search_8192: "alloc_search (Suc 0) (Suc 0) 8192 empty_PageHeap = Some (nullptr, empty_PageHeap)"
  by (rule alloc_search_none [OF empty_PageHeap_inv]) (simp_all add: first_list_def find_None_iff)

lemma demo_8192_alloc: "\<exists>w1. world_alloc 1 8192 world0 = Some (Some 1, w1)"
  by (simp add: world_alloc_def world0_def allocate_span_def demo_search_8192 MAX_PAGES_def bump_first
      new_object_def register_span_def)

end
