(* ===== verification/Allocator_Reach.thy ===== *)
theory Allocator_Reach
  imports Allocator_Ops Central_Free_List_Supply Central_Free_List_Props
begin

text \<open>
  The runs of the allocator: \<open>allocate\<close>, \<open>deallocate\<close> and the program's own writes into the
  objects it holds. Every reachable state satisfies the invariant; what this says about the
  addresses the program holds is derived here.
\<close>

section \<open>The initial state\<close>

lemma class_rows: "is_class i \<Longrightarrow> sc_pages (SizeClasses ! i) * PAGE_SIZE div class_size i \<le> 65535
    \<and> 8 \<le> class_size i \<and> class_size i \<le> 262144 \<and> sc_batch_size (SizeClasses ! i) \<le> MAX_BATCH_SIZE
    \<and> 0 < sc_batch_size (SizeClasses ! i) \<and> 8 dvd class_size i \<and> sc_pages (SizeClasses ! i) \<le> 255"
proof -
  have "\<forall>i\<in>set (tl [0..<48]). sc_pages (SizeClasses ! i) * PAGE_SIZE div class_size i \<le> 65535
    \<and> 8 \<le> class_size i \<and> class_size i \<le> 262144 \<and> sc_batch_size (SizeClasses ! i) \<le> MAX_BATCH_SIZE
    \<and> 0 < sc_batch_size (SizeClasses ! i) \<and> 8 dvd class_size i \<and> sc_pages (SizeClasses ! i) \<le> 255"
    unfolding upt_48 by (simp add: SizeClasses_def sci_def PAGE_SIZE_def MAX_BATCH_SIZE_def)
  then show "is_class i \<Longrightarrow> ?thesis"
    by (auto simp: is_class_def)
qed

lemma new_Allocator_inv:
  assumes "new_Allocator mmap affinity region = Some a" "mmap_ok mmap"
  shows "alloc_inv a (\<lambda>_. []) (\<lambda>_. {#})"
proof -
  obtain base where a: "a = \<lparr>world = \<lparr>os = mmap, ph = empty_PageHeap, cells = (\<lambda>_. 0)\<rparr>,
          free_list = (\<lambda>i. new_CentralFreeList (SizeClasses ! i)),
          transfer_caches = (\<lambda>_. empty_transfer_cache),
          per_cpu_caches = (\<lambda>_. empty_slab, 0), slab_count = count_slabs affinity\<rparr>"
    using assms(1) by (auto simp: new_Allocator_def split: option.splits)
  have ok: "world_ok (world a)"
    using assms(2) page_heap_ok_empty by (simp add: a world_ok_def)
  have "cfl_rel (free_list a i) (world a) [] {} \<and> obj_size (free_list a i) = class_size i
      \<and> span_pages (free_list a i) = sc_pages (SizeClasses ! i)" if "is_class i" for i
    using new_cfl_rel [OF ok, of "SizeClasses ! i"] class_rows [OF that] by (simp add: a new_CentralFreeList_def)
  then have "central_inv (world a) (free_list a) (\<lambda>_. []) (\<lambda>_. {})"
    by (simp add: central_inv_def)
  then show ?thesis
    unfolding alloc_inv_def
    by (auto simp: a region_wf_empty tc_wf_empty stock_def region_objs_def intro!: exI [of _ "\<lambda>_. {}"])
qed

section \<open>The geometry of objects\<close>

lemma alloc_inv_object:
  assumes inv: "alloc_inv a L M" and i: "is_class i" and p: "p \<in># M i"
  shows "\<exists>A j s k. cfl_state (free_list a i) (world a) (L i) A \<and> p \<in> cfl_held (free_list a i) (world a) (L i) A
     \<and> j \<in> set (L i) \<and> live (world a) j = Some s \<and> p = base_of s + k * class_size i \<and> k < total_objects s
     \<and> (\<forall>x\<in>{p ..< p + class_size i}. x div PAGE_SIZE \<in> pages_of s)"
proof -
  obtain H where H: "cfl_rel (free_list a i) (world a) (L i) H" "obj_size (free_list a i) = class_size i"
      "finite H" "M i \<subseteq># mset_set H"
    using alloc_inv_outside [OF inv i] by blast
  have "p \<in> H"
    using mset_subset_eqD [OF H(4) p] H(3) by simp
  then obtain A where st: "cfl_state (free_list a i) (world a) (L i) A" "p \<in> cfl_held (free_list a i) (world a) (L i) A"
    using H(1) by (auto simp: cfl_rel_def)
  obtain j s k where j: "j \<in> set (L i)" "live (world a) j = Some s" "p = base_of s + k * class_size i"
      "k < next_uninitialized s" "\<forall>x\<in>{p ..< p + class_size i}. x div PAGE_SIZE \<in> pages_of s"
    using held_cells [OF st] H(2) by auto
  have "k < total_objects s"
    using cfl_state_span [OF st(1) j(1)] j(2,4) by (auto simp: good_span_def)
  then show ?thesis
    using st j by blast
qed

lemma lists_disjoint: "alloc_inv a L M \<Longrightarrow> is_class i \<Longrightarrow> is_class j \<Longrightarrow> i \<noteq> j \<Longrightarrow> set (L i) \<inter> set (L j) = {}"
  unfolding alloc_inv_def central_inv_def by blast

lemma alloc_inv_world: "alloc_inv a L M \<Longrightarrow> is_class i \<Longrightarrow> world_ok (world a)"
  using alloc_inv_central cfl_rel_ok by blast

text \<open>Two objects the program holds do not overlap, whatever their classes.\<close>

lemma outside_apart:
  assumes inv: "alloc_inv a L M" and i: "is_class i" "p \<in># M i" and j: "is_class j" "q \<in># M j" and ne: "i \<noteq> j \<or> p \<noteq> q"
  shows "{p ..< p + class_size i} \<inter> {q ..< q + class_size j} = {}"
proof -
  obtain A b s k where s: "cfl_state (free_list a i) (world a) (L i) A" "p \<in> cfl_held (free_list a i) (world a) (L i) A"
      "b \<in> set (L i)" "live (world a) b = Some s" "\<forall>x\<in>{p ..< p + class_size i}. x div PAGE_SIZE \<in> pages_of s"
    using alloc_inv_object [OF inv i] by blast
  obtain d t l where t: "d \<in> set (L j)" "live (world a) d = Some t" "q = base_of t + l * class_size j" "l < total_objects t"
      "\<forall>x\<in>{q ..< q + class_size j}. x div PAGE_SIZE \<in> pages_of t"
    using alloc_inv_object [OF inv j] by blast
  show ?thesis
  proof (cases "i = j")
    case True
    have "obj_size (free_list a i) = class_size i"
      using alloc_inv_outside [OF inv i(1)] by blast
    then show ?thesis
      using held_apart [OF s(1,2), of d t l] t True ne by simp
  next
    case False
    then have "b \<noteq> d"
      using lists_disjoint [OF inv i(1) j(1)] s(3) t(1) by blast
    then show ?thesis
      using heap.live_disjoint [OF alloc_inv_world [OF inv i(1)] s(4) t(2)] s(5) t(5) by blast
  qed
qed

text \<open>An object is outside at most once.\<close>

lemma outside_once: "alloc_inv a L M \<Longrightarrow> is_class i \<Longrightarrow> count (M i) p \<le> 1"
proof -
  assume "alloc_inv a L M" "is_class i"
  then obtain H where "M i \<subseteq># mset_set H"
    using alloc_inv_outside by blast
  moreover have "count (mset_set H) p \<le> 1"
    by (simp add: count_mset_set')
  ultimately show ?thesis
    using mset_subset_eq_count [of "M i" "mset_set H" p] by linarith
qed

text \<open>The program writes 16-bit cells of objects it holds.\<close>

definition program_write :: "(nat \<Rightarrow> addr multiset) \<Rightarrow> (addr \<Rightarrow> nat) \<Rightarrow> (addr \<Rightarrow> nat) \<Rightarrow> bool" where
  "program_write M m m' \<longleftrightarrow> (\<forall>x. m' x \<noteq> m x \<longrightarrow>
     m' x < 65536 \<and> (\<exists>i p. is_class i \<and> p \<in># M i \<and> x \<in> {p ..< p + class_size i}))"

definition set_cells :: "(addr \<Rightarrow> nat) \<Rightarrow> Allocator \<Rightarrow> Allocator" where
  "set_cells m a = a\<lparr>world := (world a)\<lparr>cells := m\<rparr>\<rparr>"

lemma program_write_ok:
  assumes inv: "alloc_inv a L M" and wr: "program_write M (cells (world a)) m"
  shows "alloc_inv (set_cells m a) L M"
proof -
  obtain H where H: "central_inv (world a) (free_list a) L H" "\<forall>i. is_class i \<longrightarrow> mset_set (H i) = stock a i + M i"
    using inv by (auto simp: alloc_inv_def)
  have "cfl_rel (free_list a j) ((world a)\<lparr>cells := m\<rparr>) (L j) (H j)" if j: "is_class j" for j
  proof (rule cfl_rel_writes)
    show rel: "cfl_rel (free_list a j) (world a) (L j) (H j)"
      using H(1) j by (simp add: central_inv_def)
    have sz: "obj_size (free_list a j) = class_size j"
      using H(1) j by (simp add: central_inv_def)
    show "\<forall>x. m x \<noteq> cells (world a) x \<longrightarrow> (\<exists>p\<in>H j. x \<in> {p ..< p + obj_size (free_list a j)})
        \<or> (\<forall>b\<in>set (L j). \<forall>s. live (world a) b = Some s \<longrightarrow> x div PAGE_SIZE \<notin> pages_of s)"
    proof (intro allI impI)
      fix x
      assume "m x \<noteq> cells (world a) x"
      then obtain i p where i: "is_class i" "p \<in># M i" "x \<in> {p ..< p + class_size i}"
        using wr by (auto simp: program_write_def)
      show "(\<exists>p\<in>H j. x \<in> {p ..< p + obj_size (free_list a j)})
        \<or> (\<forall>b\<in>set (L j). \<forall>s. live (world a) b = Some s \<longrightarrow> x div PAGE_SIZE \<notin> pages_of s)"
      proof (cases "i = j")
        case True
        have "p \<in># mset_set (H j)"
          using H(2) j i(2) True by simp
        then have "p \<in> H j"
          using cfl_rel_finite [OF rel] by simp
        then show ?thesis
          using i(3) True sz by auto
      next
        case False
        obtain b s where b: "b \<in> set (L i)" "live (world a) b = Some s" "x div PAGE_SIZE \<in> pages_of s"
          using alloc_inv_object [OF inv i(1,2)] i(3) by blast
        have "x div PAGE_SIZE \<notin> pages_of t" if d: "d \<in> set (L j)" "live (world a) d = Some t" for d t
        proof -
          have "b \<noteq> d"
            using lists_disjoint [OF inv i(1) j False] b(1) d(1) by blast
          then show ?thesis
            using heap.live_disjoint [OF alloc_inv_world [OF inv j] b(2) d(2)] b(3) by blast
        qed
        then show ?thesis
          by blast
      qed
    qed
  qed
  then have "central_inv (world (set_cells m a)) (free_list (set_cells m a)) L H"
    using H(1) by (simp add: central_inv_def set_cells_def)
  then show ?thesis
    using inv H(2) unfolding alloc_inv_def by (auto simp: set_cells_def stock_def)
qed

section \<open>Runs\<close>

text \<open>
  \<open>M i\<close> collects the objects of class \<open>i\<close> the program holds: allocated and not yet given back.
  The program may free an object it holds, and write what it likes into the objects it holds.
\<close>

inductive alloc_reach :: "mmap_env \<Rightarrow> Allocator \<Rightarrow> (nat \<Rightarrow> addr multiset) \<Rightarrow> bool" for mmap where
  start: "new_Allocator mmap affinity region = Some a \<Longrightarrow> alloc_reach mmap a (\<lambda>_. {#})"
| null: "alloc_reach mmap a M \<Longrightarrow> allocate sched n a = Some (0, a') \<Longrightarrow> alloc_reach mmap a' M"
| alloc: "alloc_reach mmap a M \<Longrightarrow> allocate sched n a = Some (p, a') \<Longrightarrow> p \<noteq> 0 \<Longrightarrow>
    alloc_reach mmap a' (M(first_class n := add_mset p (M (first_class n))))"
| free: "alloc_reach mmap a M \<Longrightarrow> is_class i \<Longrightarrow> p \<in># M i \<Longrightarrow> deallocate sched p a = Some a' \<Longrightarrow>
    alloc_reach mmap a' (M(i := M i - {#p#}))"
| use: "alloc_reach mmap a M \<Longrightarrow> program_write M (cells (world a)) m \<Longrightarrow> alloc_reach mmap (set_cells m a) M"

lemma reach_inv: "alloc_reach mmap a M \<Longrightarrow> mmap_ok mmap \<Longrightarrow> \<exists>L. alloc_inv a L M"
proof (induction rule: alloc_reach.induct)
  case (start affinity region a)
  then show ?case
    using new_Allocator_inv by blast
next
  case (null a M sched n a')
  then obtain L where "alloc_inv a L M"
    by blast
  from allocate_step [OF this, of sched n] null.hyps show ?case
    by auto
next
  case (alloc a M sched n p a')
  then obtain L where "alloc_inv a L M"
    by blast
  from allocate_step [OF this, of sched n] obtain L' where
      "alloc_inv a' L' (M(first_class n := add_mset p (M (first_class n))))"
    using alloc.hyps by auto
  then show ?case
    by blast
next
  case (free a M i p sched a')
  then obtain L where "alloc_inv a L M"
    by blast
  from deallocate_step [OF this free.hyps(2,3), of sched] obtain L' where
      "alloc_inv a' L' (M(i := M i - {#p#}))"
    using free.hyps(4) by auto
  then show ?case
    by blast
next
  case (use a M m)
  then show ?case
    using program_write_ok by blast
qed

text \<open>The addresses of objects.\<close>

lemma outside_address:
  assumes inv: "alloc_inv a L M" and i: "is_class i" "p \<in># M i"
  shows "0 < p \<and> 8 dvd p \<and> (\<exists>j s. spans (ph (world a)) j = Some s \<and> \<not> is_free s \<and> span_size s = class_size i
     \<and> (\<forall>x\<in>{p ..< p + class_size i}. x div PAGE_SIZE \<in> pages_of s \<and> world_find x (world a) = Some j))"
proof -
  obtain A j s k where o: "cfl_state (free_list a i) (world a) (L i) A" "j \<in> set (L i)" "live (world a) j = Some s"
      "p = base_of s + k * class_size i" "k < total_objects s"
      "\<forall>x\<in>{p ..< p + class_size i}. x div PAGE_SIZE \<in> pages_of s"
    using alloc_inv_object [OF inv i] by blast
  have ok: "world_ok (world a)"
    by (rule alloc_inv_world [OF inv i(1)])
  have s: "spans (ph (world a)) j = Some s" "\<not> is_free s"
    using o(3) by (simp_all add: live_def used_Some)
  have p: "p \<in> {p ..< p + class_size i}"
    using class_rows [OF i(1)] by simp
  have sz: "span_size s = class_size i"
    using cfl_state_span [OF o(1,2)] o(3) alloc_inv_outside [OF inv i(1)] by (auto simp: good_span_def)
  have find: "world_find x (world a) = Some j" if "x div PAGE_SIZE \<in> pages_of s" for x
    using page_heap_ok_disjoint [OF _ s(1)] ok that
    by (simp add: world_find_def span_for_def lookup_def world_ok_def)
  have "0 \<notin># M i"
    using alloc_inv_outside [OF inv i(1)] by blast
  then have "0 < p"
    using i(2) by (metis gr0I)
  moreover have "8 dvd p"
    using o(4) class_rows [OF i(1)] by (auto simp: base_of_def PAGE_SIZE_def)
  ultimately show ?thesis
    using s sz o(6) find by blast
qed

section \<open>The operating system and null results\<close>

lemma refill_os: "refill_batch i n a = Some (batch, a') \<Longrightarrow> os (world a') = os (world a)"
  by (auto simp: refill_batch_def Let_def elim!: bind_SomeE split: if_split_asm prod.split_asm dest!: cfl_allocate_batch_os)

lemma release_batch_os: "release_batch i batch a = Some a' \<Longrightarrow> os (world a') = os (world a)"
  by (auto simp: release_batch_def Let_def elim!: bind_SomeE split: if_split_asm prod.split_asm dest!: cfl_deallocate_batch_os)

lemma allocate_os: "allocate sched n a = Some (p, a') \<Longrightarrow> os (world a') = os (world a)"
  by (auto simp: allocate_def Let_def elim!: bind_SomeE split: if_split_asm prod.split_asm dest!: refill_os release_batch_os)

lemma deallocate_os: "deallocate sched p a = Some a' \<Longrightarrow> os (world a') = os (world a)"
  by (auto simp: deallocate_def Let_def elim!: bind_SomeE split: if_split_asm prod.split_asm option.split_asm
      dest!: release_batch_os cfl_deallocate_os)

lemma reach_os: "alloc_reach mmap a M \<Longrightarrow> os (world a) = mmap"
proof (induction rule: alloc_reach.induct)
  case (start affinity region a)
  then show ?case
    by (auto simp: new_Allocator_def split: option.split_asm)
qed (auto simp: allocate_os deallocate_os set_cells_def)

text \<open>
  Refilling a class whose span holds an object gives nothing only when the transfer cache is empty
  and the system refuses the pages of one span.
\<close>

lemma refill_empty:
  assumes inv: "alloc_inv a L M" and i: "is_class i" and fits: "class_size i \<le> sc_pages (SizeClasses ! i) * PAGE_SIZE"
    and n: "0 < n" and run: "refill_batch i n a = Some ([], a')"
  shows "os (world a) (mmap_calls (ph (world a))) (page_map (ph (world a))) (sc_pages (SizeClasses ! i)) = None"
proof -
  obtain H where H: "cfl_rel (free_list a i) (world a) (L i) H" "obj_size (free_list a i) = class_size i"
      "span_pages (free_list a i) = sc_pages (SizeClasses ! i)"
    using inv i unfolding alloc_inv_def central_inv_def by blast
  obtain batch got tc where r: "RemoveRange n (transfer_caches a i) = ((batch, got), tc)"
    by (metis surj_pair)
  have "got = 0"
  proof (rule ccontr)
    assume "got \<noteq> 0"
    moreover from this have "batch = []"
      using run r by (simp add: refill_batch_def Let_def)
    moreover have "length batch = got"
      using RemoveRange_stack [OF alloc_inv_tc [OF inv i] r] by blast
    ultimately show False
      by simp
  qed
  then obtain c w where "cfl_allocate_batch n (free_list a i) (world a) = Some ([], c, w)"
    using run r by (auto simp: refill_batch_def Let_def elim!: bind_SomeE)
  moreover obtain m where "n = Suc m"
    using n by (cases n) auto
  ultimately obtain c w where "cfl_allocate (free_list a i) (world a) = Some (0, c, w)"
    by (auto elim!: bind_SomeE split: if_split_asm)
  moreover have "sc_pages (SizeClasses ! i) \<le> MAX_PAGES"
    using class_rows [OF i] by (simp add: MAX_PAGES_def)
  ultimately show ?thesis
    using cfl_allocate_null [OF H(1)] H(2,3) fits by simp
qed

lemma allocate_null:
  assumes inv: "alloc_inv a L M" and n: "n \<le> 262144"
    and fits: "class_size (first_class n) \<le> sc_pages (SizeClasses ! first_class n) * PAGE_SIZE"
    and run: "allocate sched n a = Some (0, a')"
  shows "os (world a) (mmap_calls (ph (world a))) (page_map (ph (world a))) (sc_pages (SizeClasses ! first_class n)) = None"
proof -
  let ?i = "first_class n"
  have i: "is_class ?i" "class_size ?i \<noteq> 0"
    using first_class_Some [OF n] class_size_pos [of ?i] by (auto simp: is_class_def)
  have sc: "round_size_class n = (SizeClasses ! ?i, ?i)"
    by (rule round_size_class_eq)
  obtain p s1 where pop: "slab_pop_at sched (slab_count a) ?i (per_cpu_caches a) = (p, s1)"
    by (rule prod.exhaust)
  let ?a1 = "a\<lparr>per_cpu_caches := s1\<rparr>"
  have p0: "p = 0"
    using run sc i(2) pop by (cases "p = 0") (simp_all add: allocate_def Let_def)
  then have inv1: "alloc_inv ?a1 L M"
    using pop_step [OF inv i(1) pop] by simp
  obtain batch a2 L2 where refill: "refill_batch ?i (sc_batch_size (SizeClasses ! ?i)) ?a1 = Some (batch, a2)" "0 \<notin> set batch"
    using refill_step [OF inv1 i(1), of "sc_batch_size (SizeClasses ! ?i)"] by auto
  have "batch = []"
  proof (rule ccontr)
    assume b: "batch \<noteq> []"
    then have "last batch \<noteq> 0"
      using refill(2) last_in_set by metis
    then show False
      using run sc i(2) pop p0 refill(1) b
      by (auto simp: allocate_def Let_def elim!: bind_SomeE split: if_split_asm prod.split_asm)
  qed
  then have "refill_batch ?i (sc_batch_size (SizeClasses ! ?i)) ?a1 = Some ([], a2)"
    using refill(1) by simp
  from refill_empty [OF inv1 i(1) fits _ this] show ?thesis
    using class_rows [OF i(1)] by simp
qed

end
