(* ===== verification/Threads.thy ===== *)
theory Threads
  imports Allocator_Reach
begin

text \<open>
  The allocator with several threads. Each call of \<open>allocate\<close> or \<open>deallocate\<close> is cut at every
  point where the code holds no lock and is in no restartable sequence, and the parts of different
  calls run in any order. A part is
  \<^item> one operation on a slab. By \<open>Rseq_Props\<close> it is atomic, unless an interrupt falls between its
    committing store and the end of the section; this window, and the fallback without
    restartable sequences, which nothing makes atomic, are left out here;
  \<^item> one call under the mutex of a transfer cache;
  \<^item> one call of \<open>allocate\<close> or \<open>deallocate\<close> of a central free list. It takes the mutex of the page
    heap inside that of the list, at one point at most. \<open>deallocate\<close> looks up the span before it
    takes the mutex; the answer cannot change, since the object at hand keeps its span in use.
  The batch is a local array of the thread. Its phase says which part of the call comes next and
  what the thread has in its hands.
\<close>

section \<open>Phases\<close>

text \<open>
  The first argument is \<open>sc_idx\<close>. \<open>Alloc_Central i k b\<close>: \<open>k\<close> objects still to be taken, \<open>b\<close>
  taken. \<open>Alloc_Push i r b\<close>: \<open>r\<close> is \<open>result\<close> and \<open>b\<close> is \<open>batch[0 .. got)\<close>. In \<open>Dealloc_Find i p\<close>
  the class is not known to the code yet; it is the class as which the program got \<open>p\<close>.
\<close>

datatype phase =
    Idle
  | Alloc_Pop nat
  | Alloc_Remove nat
  | Alloc_Central nat nat "addr list"
  | Alloc_Push nat addr "addr list"
  | Alloc_Insert nat addr "addr list"
  | Alloc_Give nat addr "addr list"
  | Alloc_Return nat addr
  | Dealloc_Find nat addr
  | Dealloc_Push nat addr
  | Dealloc_Drain nat addr "addr list"
  | Dealloc_Insert nat addr "addr list"
  | Dealloc_Give nat addr "addr list"
  | Dealloc_Retry nat addr
  | Dealloc_Central nat addr
  | Dealloc_Return

fun active :: "phase \<Rightarrow> bool" where
  "active Idle = False"
| "active (Alloc_Return i p) = False"
| "active Dealloc_Return = False"
| "active _ = True"

abbreviation batch_size_of :: "nat \<Rightarrow> nat" where
  "batch_size_of i \<equiv> sc_batch_size (SizeClasses ! i)"

section \<open>The parts of a call\<close>

definition start_allocate :: "nat \<Rightarrow> phase" where
  "start_allocate input_size = (case round_size_class input_size of (sc, sc_idx) \<Rightarrow>
     if sc_size sc = 0 then Alloc_Return sc_idx 0 else Alloc_Pop sc_idx)"

definition with_slabs :: "slab_region \<times> nat \<Rightarrow> Allocator \<Rightarrow> Allocator" where
  "with_slabs s a = a\<lparr>per_cpu_caches := s\<rparr>"

definition with_tc :: "nat \<Rightarrow> TransferCache \<Rightarrow> Allocator \<Rightarrow> Allocator" where
  "with_tc i tc a = a\<lparr>transfer_caches := (transfer_caches a)(i := tc)\<rparr>"

definition with_central :: "nat \<Rightarrow> CentralFreeList \<times> World \<Rightarrow> Allocator \<Rightarrow> Allocator" where
  "with_central i cw a = a\<lparr>free_list := (free_list a)(i := fst cw), world := snd cw\<rparr>"

text \<open>\<open>refill_batch\<close> has ended with \<open>batch\<close>.\<close>

definition refilled :: "nat \<Rightarrow> addr list \<Rightarrow> phase" where
  "refilled i batch = (if batch = [] then Alloc_Return i 0 else Alloc_Push i (last batch) (butlast batch))"

definition drained :: "nat \<Rightarrow> addr \<Rightarrow> addr list \<Rightarrow> phase" where
  "drained i p batch = (if batch = [] then Dealloc_Retry i p else Dealloc_Insert i p batch)"

definition insert_step :: "nat \<Rightarrow> addr list \<Rightarrow> (addr list \<Rightarrow> phase) \<Rightarrow> phase \<Rightarrow> Allocator \<Rightarrow> phase \<times> Allocator" where
  "insert_step i batch give after a =
     (case InsertRange batch (length batch) (transfer_caches a i) of (moved, tc) \<Rightarrow>
        (if moved < length batch then give (drop moved batch) else after, with_tc i tc a))"

definition give_step :: "nat \<Rightarrow> addr list \<Rightarrow> (addr list \<Rightarrow> phase) \<Rightarrow> phase \<Rightarrow> Allocator \<Rightarrow> (phase \<times> Allocator) option" where
  "give_step i batch give after a =
     (case batch of
        [] \<Rightarrow> Some (after, a)
      | p # ps \<Rightarrow> do {
          cw \<leftarrow> cfl_deallocate p (free_list a i) (world a);
          Some (give ps, with_central i cw a) })"

fun thread_step :: "(nat \<Rightarrow> cpu_env) \<Rightarrow> phase \<Rightarrow> Allocator \<Rightarrow> (phase \<times> Allocator) option" where
  "thread_step sched (Alloc_Pop i) a =
     (case slab_pop_at sched (slab_count a) i (per_cpu_caches a) of (p, s) \<Rightarrow>
        Some (if p \<noteq> 0 then Alloc_Return i p else Alloc_Remove i, with_slabs s a))"
| "thread_step sched (Alloc_Remove i) a =
     (case RemoveRange (batch_size_of i) (transfer_caches a i) of ((batch, got), tc) \<Rightarrow>
        Some (if got = 0 then Alloc_Central i (batch_size_of i) [] else refilled i batch, with_tc i tc a))"
| "thread_step sched (Alloc_Central i 0 batch) a = Some (refilled i batch, a)"
| "thread_step sched (Alloc_Central i (Suc k) batch) a = do {
     (p, cw) \<leftarrow> cfl_allocate (free_list a i) (world a);
     Some (if p = 0 then refilled i batch else Alloc_Central i k (batch @ [p]), with_central i cw a) }"
| "thread_step sched (Alloc_Push i r batch) a =
     (if batch = [] then Some (Alloc_Return i r, a)
      else case slab_push_at sched (slab_count a) i (last batch) (per_cpu_caches a) of (ok, s) \<Rightarrow>
        Some (if ok then Alloc_Push i r (butlast batch) else Alloc_Insert i r batch, with_slabs s a))"
| "thread_step sched (Alloc_Insert i r batch) a = Some (insert_step i batch (Alloc_Give i r) (Alloc_Return i r) a)"
| "thread_step sched (Alloc_Give i r batch) a = give_step i batch (Alloc_Give i r) (Alloc_Return i r) a"
| "thread_step sched (Dealloc_Find _ p) a =
     (case world_find p (world a) of
        None \<Rightarrow> Some (Dealloc_Return, a)
      | Some j \<Rightarrow> do {
          span \<leftarrow> spans (ph (world a)) j;
          let i = size_class_to_idx (span_size span);
          Some (if class_size i = 0 then Dealloc_Return else Dealloc_Push i p, a) })"
| "thread_step sched (Dealloc_Push i p) a =
     (case slab_push_at sched (slab_count a) i p (per_cpu_caches a) of (ok, s) \<Rightarrow>
        Some (if ok then Dealloc_Return else Dealloc_Drain i p [], with_slabs s a))"
| "thread_step sched (Dealloc_Drain i p batch) a =
     (if length batch < batch_size_of i
      then case slab_pop_at sched (slab_count a) i (per_cpu_caches a) of (q, s) \<Rightarrow>
        Some (if q = 0 then drained i p batch else Dealloc_Drain i p (batch @ [q]), with_slabs s a)
      else Some (drained i p batch, a))"
| "thread_step sched (Dealloc_Insert i p batch) a = Some (insert_step i batch (Dealloc_Give i p) (Dealloc_Retry i p) a)"
| "thread_step sched (Dealloc_Give i p batch) a = give_step i batch (Dealloc_Give i p) (Dealloc_Retry i p) a"
| "thread_step sched (Dealloc_Retry i p) a =
     (case slab_push_at sched (slab_count a) i p (per_cpu_caches a) of (ok, s) \<Rightarrow>
        Some (if ok then Dealloc_Return else Dealloc_Central i p, with_slabs s a))"
| "thread_step sched (Dealloc_Central i p) a = do {
     cw \<leftarrow> cfl_deallocate p (free_list a i) (world a);
     Some (Dealloc_Return, with_central i cw a) }"
| "thread_step sched Idle a = None"
| "thread_step sched (Alloc_Return i p) a = None"
| "thread_step sched Dealloc_Return a = None"

text \<open>A call that runs alone.\<close>

partial_function (option) run_alone :: "(nat \<Rightarrow> cpu_env) \<Rightarrow> phase \<Rightarrow> Allocator \<Rightarrow> (phase \<times> Allocator) option" where
  "run_alone sched pc a =
     (if active pc then do { (pc1, a1) \<leftarrow> thread_step sched pc a; run_alone sched pc1 a1 }
      else Some (pc, a))"

section \<open>What a thread has in its hands\<close>

fun phase_class :: "phase \<Rightarrow> nat" where
  "phase_class (Alloc_Pop i) = i"
| "phase_class (Alloc_Remove i) = i"
| "phase_class (Alloc_Central i k batch) = i"
| "phase_class (Alloc_Push i r batch) = i"
| "phase_class (Alloc_Insert i r batch) = i"
| "phase_class (Alloc_Give i r batch) = i"
| "phase_class (Alloc_Return i r) = i"
| "phase_class (Dealloc_Find i p) = i"
| "phase_class (Dealloc_Push i p) = i"
| "phase_class (Dealloc_Drain i p batch) = i"
| "phase_class (Dealloc_Insert i p batch) = i"
| "phase_class (Dealloc_Give i p batch) = i"
| "phase_class (Dealloc_Retry i p) = i"
| "phase_class (Dealloc_Central i p) = i"
| "phase_class _ = 0"

fun hands :: "phase \<Rightarrow> addr multiset" where
  "hands (Alloc_Central i k batch) = mset batch"
| "hands (Alloc_Push i r batch) = add_mset r (mset batch)"
| "hands (Alloc_Insert i r batch) = add_mset r (mset batch)"
| "hands (Alloc_Give i r batch) = add_mset r (mset batch)"
| "hands (Alloc_Return i r) = (if r = 0 then {#} else {#r#})"
| "hands (Dealloc_Find i p) = {#p#}"
| "hands (Dealloc_Push i p) = {#p#}"
| "hands (Dealloc_Drain i p batch) = add_mset p (mset batch)"
| "hands (Dealloc_Insert i p batch) = add_mset p (mset batch)"
| "hands (Dealloc_Give i p batch) = add_mset p (mset batch)"
| "hands (Dealloc_Retry i p) = {#p#}"
| "hands (Dealloc_Central i p) = {#p#}"
| "hands _ = {#}"

text \<open>The objects outside of the allocator's stock: with the program, or in the hands of a thread.\<close>

definition hands_of :: "nat \<Rightarrow> phase \<Rightarrow> addr multiset" where
  "hands_of i pc = (if phase_class pc = i then hands pc else {#})"

definition in_flight :: "phase list \<Rightarrow> nat \<Rightarrow> addr multiset" where
  "in_flight pcs i = sum_list (map (hands_of i) pcs)"

definition outside :: "(nat \<Rightarrow> addr multiset) \<Rightarrow> phase list \<Rightarrow> nat \<Rightarrow> addr multiset" where
  "outside M pcs i = M i + in_flight pcs i"

text \<open>An upper bound for the number of steps left in the call.\<close>

fun steps_left :: "phase \<Rightarrow> nat" where
  "steps_left (Alloc_Pop i) = 4 * batch_size_of i + 14"
| "steps_left (Alloc_Remove i) = 4 * batch_size_of i + 13"
| "steps_left (Alloc_Central i k batch) = 4 * k + 3 * length batch + 12"
| "steps_left (Alloc_Push i r batch) = 2 * length batch + 6"
| "steps_left (Alloc_Insert i r batch) = length batch + 4"
| "steps_left (Alloc_Give i r batch) = length batch + 2"
| "steps_left (Dealloc_Find i p) = 2 * batch_size_of i + 9"
| "steps_left (Dealloc_Push i p) = 2 * batch_size_of i + 8"
| "steps_left (Dealloc_Drain i p batch) = 2 * (batch_size_of i - length batch) + length batch + 7"
| "steps_left (Dealloc_Insert i p batch) = length batch + 5"
| "steps_left (Dealloc_Give i p batch) = length batch + 3"
| "steps_left (Dealloc_Retry i p) = 2"
| "steps_left (Dealloc_Central i p) = 1"
| "steps_left _ = 0"

section \<open>The system of all threads\<close>

inductive threads_reach ::
  "mmap_env \<Rightarrow> Allocator \<Rightarrow> phase list \<Rightarrow> (nat \<Rightarrow> addr multiset) \<Rightarrow> bool" for mmap where
  start: "new_Allocator mmap affinity region = Some a \<Longrightarrow> threads_reach mmap a (replicate n Idle) (\<lambda>_. {#})"
| call_allocate: "threads_reach mmap a pcs M \<Longrightarrow> t < length pcs \<Longrightarrow> pcs ! t = Idle \<Longrightarrow>
    threads_reach mmap a (pcs[t := start_allocate n]) M"
| call_deallocate: "threads_reach mmap a pcs M \<Longrightarrow> t < length pcs \<Longrightarrow> pcs ! t = Idle \<Longrightarrow>
    is_class i \<Longrightarrow> p \<in># M i \<Longrightarrow>
    threads_reach mmap a (pcs[t := Dealloc_Find i p]) (M(i := M i - {#p#}))"
| step: "threads_reach mmap a pcs M \<Longrightarrow> t < length pcs \<Longrightarrow> thread_step sched (pcs ! t) a = Some (pc1, a1) \<Longrightarrow>
    threads_reach mmap a1 (pcs[t := pc1]) M"
| return_allocate: "threads_reach mmap a pcs M \<Longrightarrow> t < length pcs \<Longrightarrow> pcs ! t = Alloc_Return i p \<Longrightarrow>
    threads_reach mmap a (pcs[t := Idle]) (if p = 0 then M else M(i := add_mset p (M i)))"
| return_deallocate: "threads_reach mmap a pcs M \<Longrightarrow> t < length pcs \<Longrightarrow> pcs ! t = Dealloc_Return \<Longrightarrow>
    threads_reach mmap a (pcs[t := Idle]) M"
| use: "threads_reach mmap a pcs M \<Longrightarrow> program_write M (cells (world a)) m \<Longrightarrow> threads_reach mmap (set_cells m a) pcs M"

end
