(* ===== verification/Threads_Inv.thy ===== *)
theory Threads_Inv
  imports Threads
begin

text \<open>
  Every part of a call keeps the allocator's invariant, if the objects in the hands of the thread
  are counted with the objects outside; it returns, brings the call nearer to its end, and leaves
  the memory of everybody else's objects alone. The sequential lemmas on the operations of the
  layers carry over, because none of them assumes anything on who else holds objects.
\<close>

section \<open>One thread among others\<close>

text \<open>\<open>N\<close> are the objects outside that are not in the hands of the thread.\<close>

definition holding :: "(nat \<Rightarrow> addr multiset) \<Rightarrow> phase \<Rightarrow> nat \<Rightarrow> addr multiset" where
  "holding N pc = N(phase_class pc := hands pc + N (phase_class pc))"

fun phase_ok :: "phase \<Rightarrow> bool" where
  "phase_ok (Alloc_Pop i) = is_class i"
| "phase_ok (Alloc_Remove i) = is_class i"
| "phase_ok (Alloc_Central i k batch) = (is_class i \<and> k + length batch \<le> batch_size_of i \<and> 0 < k + length batch \<and> 0 \<notin> set batch)"
| "phase_ok (Alloc_Push i r batch) = (is_class i \<and> length batch < batch_size_of i \<and> r \<noteq> 0)"
| "phase_ok (Alloc_Insert i r batch) = (is_class i \<and> length batch < batch_size_of i \<and> r \<noteq> 0)"
| "phase_ok (Alloc_Give i r batch) = (is_class i \<and> length batch < batch_size_of i \<and> r \<noteq> 0)"
| "phase_ok (Alloc_Return i r) = (r \<noteq> 0 \<longrightarrow> is_class i)"
| "phase_ok (Dealloc_Find i p) = is_class i"
| "phase_ok (Dealloc_Push i p) = is_class i"
| "phase_ok (Dealloc_Drain i p batch) = (is_class i \<and> length batch \<le> batch_size_of i)"
| "phase_ok (Dealloc_Insert i p batch) = (is_class i \<and> length batch \<le> batch_size_of i)"
| "phase_ok (Dealloc_Give i p batch) = (is_class i \<and> length batch \<le> batch_size_of i)"
| "phase_ok (Dealloc_Retry i p) = is_class i"
| "phase_ok (Dealloc_Central i p) = is_class i"
| "phase_ok _ = True"

definition good_step ::
    "(nat \<Rightarrow> addr multiset) \<Rightarrow> phase \<Rightarrow> Allocator \<Rightarrow> (phase \<times> Allocator) option \<Rightarrow> bool" where
  "good_step N pc a r \<longleftrightarrow> (\<exists>pc1 a1 L1. r = Some (pc1, a1) \<and> alloc_inv a1 L1 (holding N pc1) \<and> phase_ok pc1
     \<and> steps_left pc1 < steps_left pc \<and> undisturbed N a a1)"

lemma good_stepI:
  assumes "r = Some (pc1, a1)" "alloc_inv a1 L1 M1" "M1 = holding N pc1" "phase_ok pc1"
    and "steps_left pc1 < steps_left pc" "undisturbed N a a1"
  shows "good_step N pc a r"
  using assms unfolding good_step_def by blast

lemma holding_upd: "(holding N pc)(phase_class pc := X) = N(phase_class pc := X)"
  by (simp add: holding_def)

lemma undisturbed_mono: "undisturbed M a a1 \<Longrightarrow> (\<And>j. N j \<subseteq># M j) \<Longrightarrow> undisturbed N a a1"
  unfolding undisturbed_def by (meson cells_kept_mono set_mset_mono)

lemma with_slabs_world [simp]: "world (with_slabs s a) = world a"
  and with_tc_world [simp]: "world (with_tc i tc a) = world a"
  by (simp_all add: with_slabs_def with_tc_def)

text \<open>One object of a central free list.\<close>

lemma get_step:
  assumes inv: "alloc_inv a L M" and i: "is_class i"
  shows "\<exists>p cw L1. cfl_allocate (free_list a i) (world a) = Some (p, cw)
     \<and> alloc_inv (with_central i cw a) L1 (M(i := (if p = 0 then {#} else {#p#}) + M i)) \<and> undisturbed M a (with_central i cw a)"
proof -
  obtain ps c w L1 where r: "cfl_allocate_batch 1 (free_list a i) (world a) = Some (ps, c, w)"
      "alloc_inv (with_central i (c, w) a) L1 (M(i := mset ps + M i))" "0 \<notin> set ps" "undisturbed M a (with_central i (c, w) a)"
    using get_batch_step [OF inv i, of 1] by (auto simp: with_central_def)
  obtain p where "cfl_allocate (free_list a i) (world a) = Some (p, c, w)" "ps = (if p = 0 then [] else [p])"
    using r(1) by (auto elim!: bind_SomeE split: if_split_asm)
  then show ?thesis
    using r by (intro exI [of _ p] exI [of _ "(c, w)"] exI [of _ L1]) auto
qed

section \<open>The parts of allocate\<close>

lemma alloc_pop_good:
  assumes inv: "alloc_inv a L (holding N (Alloc_Pop i))" and i: "is_class i"
  shows "good_step N (Alloc_Pop i) a (thread_step sched (Alloc_Pop i) a)"
proof -
  obtain p s where pop: "slab_pop_at sched (slab_count a) i (per_cpu_caches a) = (p, s)"
    by (rule prod.exhaust)
  show ?thesis
    by (rule good_stepI [OF _ pop_step [OF inv i pop, folded with_slabs_def], of _ "if p \<noteq> 0 then Alloc_Return i p else Alloc_Remove i"])
      (use i pop in \<open>auto simp: holding_def\<close>)
qed

lemma refilled_good:
  assumes "is_class i" "length batch \<le> batch_size_of i" "0 \<notin> set batch"
  shows "phase_ok (refilled i batch)" "hands (refilled i batch) = mset batch" "phase_class (refilled i batch) = i"
    and "steps_left (refilled i batch) < 2 * length batch + 12"
proof -
  have "refilled i batch = Alloc_Return i 0" if "batch = []"
    using that by (simp add: refilled_def)
  moreover have "refilled i (xs @ [x]) = Alloc_Push i x xs" for xs x
    by (simp add: refilled_def)
  ultimately show "phase_ok (refilled i batch)" "hands (refilled i batch) = mset batch" "phase_class (refilled i batch) = i"
      "steps_left (refilled i batch) < 2 * length batch + 12"
    using assms by (cases batch rule: rev_cases; simp)+
qed

lemma alloc_remove_good:
  assumes inv: "alloc_inv a L (holding N (Alloc_Remove i))" and i: "is_class i"
  shows "good_step N (Alloc_Remove i) a (thread_step sched (Alloc_Remove i) a)"
proof -
  obtain batch got tc where r: "RemoveRange (batch_size_of i) (transfer_caches a i) = ((batch, got), tc)"
    by (metis surj_pair)
  note s = RemoveRange_stack [OF alloc_inv_tc [OF inv i] r]
  have tc: "tc_wf tc" and stack: "tc_stack (transfer_caches a i) = tc_stack tc @ batch" and len: "length batch = got" "got \<le> batch_size_of i"
    using s by linarith+
  have zero: "0 \<notin> set batch"
    using alloc_inv_tc [OF inv i] stack by (auto simp: tc_wf_def)
  have inv1: "alloc_inv (with_tc i tc a) L ((holding N (Alloc_Remove i))(i := mset batch + N i))"
    unfolding with_tc_def by (rule tc_step [OF inv i tc]) (simp add: stack holding_def)
  let ?pc = "if got = 0 then Alloc_Central i (batch_size_of i) [] else refilled i batch"
  show ?thesis
    by (rule good_stepI [OF _ inv1, of _ ?pc]) (use r i len zero refilled_good [of i batch] class_rows [OF i] in \<open>auto simp: holding_def\<close>)
qed

lemma alloc_central_good:
  assumes inv: "alloc_inv a L (holding N (Alloc_Central i k batch))" and ok: "phase_ok (Alloc_Central i k batch)"
  shows "good_step N (Alloc_Central i k batch) a (thread_step sched (Alloc_Central i k batch) a)"
proof -
  have i: "is_class i" and len: "k + length batch \<le> batch_size_of i" and zero: "0 \<notin> set batch"
    using ok by simp_all
  note refilled = refilled_good [OF i _ zero]
  show ?thesis
  proof (cases k)
    case 0
    then show ?thesis
      by (intro good_stepI [OF _ inv, of _ "refilled i batch"]) (use len refilled in \<open>auto simp: holding_def\<close>)
  next
    case (Suc n)
    obtain p cw L1 where r: "cfl_allocate (free_list a i) (world a) = Some (p, cw)"
        "alloc_inv (with_central i cw a) L1 ((holding N (Alloc_Central i k batch))(i := (if p = 0 then {#} else {#p#}) + (mset batch + N i)))"
        "undisturbed (holding N (Alloc_Central i k batch)) a (with_central i cw a)"
      using get_step [OF inv i] by (auto simp: holding_def)
    let ?pc = "if p = 0 then refilled i batch else Alloc_Central i n (batch @ [p])"
    show ?thesis
      by (rule good_stepI [OF _ r(2), of _ ?pc])
        (use r(1) Suc i len zero refilled undisturbed_mono [OF r(3)] in \<open>auto simp: holding_def\<close>)
  qed
qed

section \<open>Giving objects away\<close>

lemma push_part:
  assumes inv: "alloc_inv a L (holding N pc)" and i: "is_class i" "phase_class pc = i" and p: "hands pc = add_mset p X"
    and r: "slab_push_at sched (slab_count a) i p (per_cpu_caches a) = (ok, s)"
  shows "alloc_inv (with_slabs s a) L (N(i := (if ok then X else add_mset p X) + N i))"
proof -
  have "p \<in># holding N pc i"
    using p i by (simp add: holding_def)
  note s = push_step [OF inv i(1) this r, unfolded holding_upd [of N pc, unfolded i(2)], folded with_slabs_def]
  have "(if ok then holding N pc i - {#p#} else holding N pc i) = (if ok then X else add_mset p X) + N i"
    using p i by (simp add: holding_def)
  then show ?thesis
    using s by simp
qed

lemma insert_part:
  assumes inv: "alloc_inv a L (holding N pc)" and i: "is_class i" "phase_class pc = i" and h: "hands pc = mset batch + X"
    and give: "\<And>b. length b \<le> length batch \<Longrightarrow> phase_class (give b) = i \<and> hands (give b) = mset b + X
        \<and> phase_ok (give b) \<and> steps_left (give b) < steps_left pc"
    and after: "phase_class after = i" "hands after = X" "phase_ok after" "steps_left after < steps_left pc"
  shows "good_step N pc a (Some (insert_step i batch give after a))"
proof -
  obtain k tc where r: "InsertRange batch (length batch) (transfer_caches a i) = (k, tc)"
    by fastforce
  have "0 \<notin># holding N pc i"
    using alloc_inv_outside [OF inv i(1)] by blast
  then have zero: "0 \<notin> set batch"
    using h i(2) by (simp add: holding_def)
  note s = InsertRange_stack [OF alloc_inv_tc [OF inv i(1)] order_refl zero r]
  have split: "mset batch = mset (take k batch) + mset (drop k batch)"
    by (simp flip: mset_append)
  have inv1: "alloc_inv (with_tc i tc a) L ((holding N pc)(i := mset (drop k batch) + X + N i))"
    unfolding with_tc_def
    by (rule tc_step [OF inv i(1)]) (use s in \<open>simp_all add: holding_def h i(2) split add_ac\<close>)
  show ?thesis
    by (rule good_stepI [OF _ inv1, of _ "if k < length batch then give (drop k batch) else after"])
      (use r i give after in \<open>auto simp: holding_def insert_step_def\<close>)
qed

lemma give_part:
  assumes inv: "alloc_inv a L (holding N pc)" and i: "is_class i" "phase_class pc = i" and h: "hands pc = mset batch + X"
    and give: "\<And>b. length b < length batch \<Longrightarrow> phase_class (give b) = i \<and> hands (give b) = mset b + X
        \<and> phase_ok (give b) \<and> steps_left (give b) < steps_left pc"
    and after: "phase_class after = i" "hands after = X" "phase_ok after" "steps_left after < steps_left pc"
  shows "good_step N pc a (give_step i batch give after a)"
proof (cases batch)
  case Nil
  then show ?thesis
    by (intro good_stepI [OF _ inv, of _ after]) (use h i after in \<open>simp_all add: holding_def give_step_def\<close>)
next
  case (Cons p ps)
  then have p: "p \<in># holding N pc i"
    using h i(2) by (simp add: holding_def)
  have eq: "holding N pc i - {#p#} = mset ps + X + N i"
    using h i(2) Cons by (simp add: holding_def)
  obtain c w L1 where r: "cfl_deallocate p (free_list a i) (world a) = Some (c, w)"
      "alloc_inv (with_central i (c, w) a) L1 (N(i := mset ps + X + N i))"
      "undisturbed (N(i := mset ps + X + N i)) a (with_central i (c, w) a)"
    using put_step [OF inv i(1) p, unfolded holding_upd [of N pc, unfolded i(2)] eq] by (auto simp: with_central_def)
  show ?thesis
    by (rule good_stepI [OF _ r(2), of _ "give ps"])
      (use r(1) Cons i give undisturbed_mono [OF r(3), of N] in \<open>auto simp: holding_def give_step_def\<close>)
qed

lemma alloc_push_good:
  assumes inv: "alloc_inv a L (holding N (Alloc_Push i r batch))" and ok: "phase_ok (Alloc_Push i r batch)"
  shows "good_step N (Alloc_Push i r batch) a (thread_step sched (Alloc_Push i r batch) a)"
proof (cases batch rule: rev_cases)
  case Nil
  then show ?thesis
    by (intro good_stepI [OF _ inv, of _ "Alloc_Return i r"]) (use ok in \<open>simp_all add: holding_def\<close>)
next
  case (snoc xs x)
  obtain b s where r: "slab_push_at sched (slab_count a) i x (per_cpu_caches a) = (b, s)"
    by (rule prod.exhaust)
  have "hands (Alloc_Push i r batch) = add_mset x (add_mset r (mset xs))"
    using snoc by simp
  note inv1 = push_part [OF inv _ _ this r]
  show ?thesis
    by (rule good_stepI [OF _ inv1, of _ "if b then Alloc_Push i r xs else Alloc_Insert i r batch"])
      (use ok r snoc in \<open>auto simp: holding_def\<close>)
qed

section \<open>The parts of deallocate\<close>

lemma dealloc_push_good:
  assumes inv: "alloc_inv a L (holding N pc)" and i: "is_class i" and pc: "pc = Dealloc_Push i p \<or> pc = Dealloc_Retry i p"
  shows "good_step N pc a (thread_step sched pc a)"
proof -
  obtain b s where r: "slab_push_at sched (slab_count a) i p (per_cpu_caches a) = (b, s)"
    by (rule prod.exhaust)
  have "hands pc = add_mset p {#}" "phase_class pc = i"
    using pc by auto
  note inv1 = push_part [OF inv i this(2,1) r]
  from pc show ?thesis
  proof
    assume pc: "pc = Dealloc_Push i p"
    show ?thesis
      by (rule good_stepI [OF _ inv1, of _ "if b then Dealloc_Return else Dealloc_Drain i p []"])
        (use i r in \<open>auto simp: pc holding_def\<close>)
  next
    assume pc: "pc = Dealloc_Retry i p"
    show ?thesis
      by (rule good_stepI [OF _ inv1, of _ "if b then Dealloc_Return else Dealloc_Central i p"])
        (use i r in \<open>auto simp: pc holding_def\<close>)
  qed
qed

lemma drained_good:
  assumes "is_class i" "length batch \<le> batch_size_of i"
  shows "phase_ok (drained i p batch)" "hands (drained i p batch) = add_mset p (mset batch)" "phase_class (drained i p batch) = i"
    and "steps_left (drained i p batch) < length batch + 7"
  using assms by (simp_all add: drained_def)

lemma dealloc_drain_good:
  assumes inv: "alloc_inv a L (holding N (Dealloc_Drain i p batch))" and i: "is_class i" and len: "length batch \<le> batch_size_of i"
  shows "good_step N (Dealloc_Drain i p batch) a (thread_step sched (Dealloc_Drain i p batch) a)"
proof (cases "length batch < batch_size_of i")
  case False
  then show ?thesis
    by (intro good_stepI [OF _ inv, of _ "drained i p batch"]) (use drained_good [OF i len, of p] in \<open>auto simp: holding_def\<close>)
next
  case True
  obtain q s where pop: "slab_pop_at sched (slab_count a) i (per_cpu_caches a) = (q, s)"
    by (rule prod.exhaust)
  show ?thesis
    by (rule good_stepI [OF _ pop_step [OF inv i pop, folded with_slabs_def], of _ "if q = 0 then drained i p batch else Dealloc_Drain i p (batch @ [q])"])
      (use i pop True drained_good [OF i len, of p] in \<open>auto simp: holding_def\<close>)
qed

lemma dealloc_find_good:
  assumes inv: "alloc_inv a L (holding N (Dealloc_Find i p))" and i: "is_class i"
  shows "good_step N (Dealloc_Find i p) a (thread_step sched (Dealloc_Find i p) a)"
proof -
  have p: "p \<in># holding N (Dealloc_Find i p) i"
    by (simp add: holding_def)
  obtain j span where j: "world_find p (world a) = Some j" "spans (ph (world a)) j = Some span" "span_size span = class_size i"
    using outside_address [OF inv i p] class_rows [OF i] by (metis atLeastLessThan_iff le_refl less_add_same_cancel1 zero_less_numeral less_le_trans)
  have "size_class_to_idx (span_size span) = i" "class_size i \<noteq> 0"
    using i size_class_to_idx_class_size [of i] class_size_pos [of i] j(3) by (auto simp: is_class_def)
  then show ?thesis
    by (intro good_stepI [OF _ inv, of _ "Dealloc_Push i p"]) (use i j in \<open>simp_all add: holding_def\<close>)
qed

lemma dealloc_central_good:
  assumes inv: "alloc_inv a L (holding N (Dealloc_Central i p))" and i: "is_class i"
  shows "good_step N (Dealloc_Central i p) a (thread_step sched (Dealloc_Central i p) a)"
proof -
  have p: "p \<in># holding N (Dealloc_Central i p) i"
    by (simp add: holding_def)
  have eq: "(holding N (Dealloc_Central i p))(i := holding N (Dealloc_Central i p) i - {#p#}) = N"
    by (simp add: holding_def)
  obtain c w L1 where r: "cfl_deallocate p (free_list a i) (world a) = Some (c, w)"
      "alloc_inv (with_central i (c, w) a) L1 N" "undisturbed N a (with_central i (c, w) a)"
    using put_step [OF inv i p, unfolded eq] by (auto simp: with_central_def)
  show ?thesis
    by (rule good_stepI [OF _ r(2), of _ Dealloc_Return]) (use r in \<open>simp_all add: holding_def\<close>)
qed

section \<open>Every part\<close>

theorem thread_step_good:
  assumes inv: "alloc_inv a L (holding N pc)" and ok: "phase_ok pc" and act: "active pc"
  shows "good_step N pc a (thread_step sched pc a)"
proof (cases pc)
  case (Alloc_Insert i r batch)
  show ?thesis
    unfolding Alloc_Insert thread_step.simps
    by (rule insert_part [OF inv [unfolded Alloc_Insert], of i _ "{#r#}"]) (use ok Alloc_Insert in simp_all)
next
  case (Alloc_Give i r batch)
  show ?thesis
    unfolding Alloc_Give thread_step.simps
    by (rule give_part [OF inv [unfolded Alloc_Give], of i _ "{#r#}"]) (use ok Alloc_Give in simp_all)
next
  case (Dealloc_Insert i p batch)
  show ?thesis
    unfolding Dealloc_Insert thread_step.simps
    by (rule insert_part [OF inv [unfolded Dealloc_Insert], of i _ "{#p#}"]) (use ok Dealloc_Insert in simp_all)
next
  case (Dealloc_Give i p batch)
  show ?thesis
    unfolding Dealloc_Give thread_step.simps
    by (rule give_part [OF inv [unfolded Dealloc_Give], of i _ "{#p#}"]) (use ok Dealloc_Give in simp_all)
next
  case (Alloc_Pop i)
  show ?thesis
    unfolding Alloc_Pop by (rule alloc_pop_good [OF inv [unfolded Alloc_Pop]]) (use ok Alloc_Pop in simp_all)
next
  case (Alloc_Remove i)
  show ?thesis
    unfolding Alloc_Remove by (rule alloc_remove_good [OF inv [unfolded Alloc_Remove]]) (use ok Alloc_Remove in simp_all)
next
  case (Alloc_Central i k batch)
  show ?thesis
    unfolding Alloc_Central by (rule alloc_central_good [OF inv [unfolded Alloc_Central]]) (use ok Alloc_Central in simp_all)
next
  case (Alloc_Push i r batch)
  show ?thesis
    unfolding Alloc_Push by (rule alloc_push_good [OF inv [unfolded Alloc_Push]]) (use ok Alloc_Push in simp_all)
next
  case (Dealloc_Find i p)
  show ?thesis
    unfolding Dealloc_Find by (rule dealloc_find_good [OF inv [unfolded Dealloc_Find]]) (use ok Dealloc_Find in simp_all)
next
  case (Dealloc_Drain i p batch)
  show ?thesis
    unfolding Dealloc_Drain by (rule dealloc_drain_good [OF inv [unfolded Dealloc_Drain]]) (use ok Dealloc_Drain in simp_all)
next
  case (Dealloc_Central i p)
  show ?thesis
    unfolding Dealloc_Central by (rule dealloc_central_good [OF inv [unfolded Dealloc_Central]]) (use ok Dealloc_Central in simp_all)
next
  case (Dealloc_Push i p)
  then show ?thesis
    by (intro dealloc_push_good [OF inv, of i p]) (use ok in simp_all)
next
  case (Dealloc_Retry i p)
  then show ?thesis
    by (intro dealloc_push_good [OF inv, of i p]) (use ok in simp_all)
qed (use act in simp_all)

end
