(* ===== verification/Threads_Run.thy ===== *)
theory Threads_Run
  imports Threads_Inv
begin

text \<open>
  The runs of the system of all threads keep the allocator's invariant, and a call that is not
  interrupted does what the model of the whole call says.
\<close>

section \<open>The invariant of the system\<close>

lemma in_flight_upd:
  assumes "t < length pcs"
  shows "in_flight (pcs[t := pc]) i = hands_of i pc + in_flight (take t pcs @ drop (Suc t) pcs) i"
  using assms by (simp add: in_flight_def upd_conv_take_nth_drop add_ac)

lemma in_flight_swap:
  assumes "t < length pcs"
  shows "in_flight (pcs[t := pc]) i + hands_of i (pcs ! t) = in_flight pcs i + hands_of i pc"
  using in_flight_upd [OF assms, of pc i] in_flight_upd [OF assms, of "pcs ! t" i] by (simp add: add_ac)

lemma outside_upd:
  assumes "t < length pcs"
  shows "outside M (pcs[t := pc]) = holding (outside M (take t pcs @ drop (Suc t) pcs)) pc"
  using in_flight_upd [OF assms, of pc] by (auto simp: outside_def holding_def hands_of_def fun_eq_iff add_ac)

lemma in_flight_replicate_Idle [simp]: "in_flight (replicate n Idle) i = {#}"
  by (induction n) (simp_all add: in_flight_def hands_of_def)

lemma outside_replicate_Idle [simp]: "outside M (replicate n Idle) = M"
  by (simp add: outside_def fun_eq_iff)

definition phases_ok :: "phase list \<Rightarrow> bool" where
  "phases_ok pcs \<longleftrightarrow> (\<forall>pc\<in>set pcs. phase_ok pc)"

lemma phases_ok_nth: "phases_ok pcs \<Longrightarrow> t < length pcs \<Longrightarrow> phase_ok (pcs ! t)"
  by (simp add: phases_ok_def)

lemma phases_ok_upd: "phases_ok pcs \<Longrightarrow> phase_ok pc \<Longrightarrow> phases_ok (pcs[t := pc])"
  unfolding phases_ok_def using set_update_subset_insert [of pcs t pc] by blast

lemma start_allocate_ok [simp]:
  "phase_ok (start_allocate n)" "hands (start_allocate n) = {#}" "phase_class (start_allocate n) = first_class n"
  using first_class_is_class [of n] by (auto simp: start_allocate_def round_size_class_eq)

text \<open>A step of thread \<open>t\<close>.\<close>

lemma step_good:
  assumes inv: "alloc_inv a L (outside M pcs)" and ok: "phases_ok pcs" and t: "t < length pcs" "active (pcs ! t)"
  shows "\<exists>pc1 a1 L1. thread_step sched (pcs ! t) a = Some (pc1, a1) \<and> alloc_inv a1 L1 (outside M (pcs[t := pc1]))
     \<and> phases_ok (pcs[t := pc1]) \<and> steps_left pc1 < steps_left (pcs ! t) \<and> undisturbed M a a1"
proof -
  let ?N = "outside M (take t pcs @ drop (Suc t) pcs)"
  have "alloc_inv a L (holding ?N (pcs ! t))"
    using inv outside_upd [OF t(1), of M "pcs ! t"] by simp
  from thread_step_good [OF this phases_ok_nth [OF ok t(1)] t(2), of sched] obtain pc1 a1 L1 where
      s: "thread_step sched (pcs ! t) a = Some (pc1, a1)" "alloc_inv a1 L1 (holding ?N pc1)" "phase_ok pc1"
        "steps_left pc1 < steps_left (pcs ! t)" "undisturbed ?N a a1"
    unfolding good_step_def by blast
  have "undisturbed M a a1"
    by (rule undisturbed_mono [OF s(5)]) (simp add: outside_def)
  then show ?thesis
    using s(1,2,4) outside_upd [OF t(1), of M pc1] phases_ok_upd [OF ok s(3)] by auto
qed

lemma step_active: "thread_step sched pc a = Some r \<Longrightarrow> active pc"
  by (cases pc) simp_all

lemma call_outside:
  assumes "t < length pcs" "\<And>i. M1 i + hands_of i pc = M i + hands_of i (pcs ! t)"
  shows "outside M1 (pcs[t := pc]) = outside M pcs"
proof
  fix i
  have "M1 i + in_flight (pcs[t := pc]) i + (hands_of i pc + hands_of i (pcs ! t))
      = M i + in_flight pcs i + (hands_of i pc + hands_of i (pcs ! t))"
    using in_flight_swap [OF assms(1), of pc i] assms(2) [of i]
    by (metis (no_types, lifting) add.assoc add.commute)
  then show "outside M1 (pcs[t := pc]) i = outside M pcs i"
    by (simp add: outside_def)
qed

lemma threads_reach_inv:
  "threads_reach mmap a pcs M \<Longrightarrow> mmap_ok mmap \<Longrightarrow> (\<exists>L. alloc_inv a L (outside M pcs)) \<and> phases_ok pcs"
proof (induction rule: threads_reach.induct)
  case (start affinity region a n)
  then have "alloc_inv a (\<lambda>_. []) (\<lambda>_. {#})"
    using new_Allocator_inv by blast
  then show ?case
    by (auto simp: phases_ok_def)
next
  case (call_allocate a pcs M t n)
  then show ?case
    using call_outside [of t pcs M "start_allocate n" M] by (simp add: phases_ok_upd hands_of_def)
next
  case (call_deallocate a pcs M t i p)
  have "outside (M(i := M i - {#p#})) (pcs[t := Dealloc_Find i p]) = outside M pcs"
    by (rule call_outside) (use call_deallocate.hyps in \<open>auto simp: hands_of_def\<close>)
  then show ?case
    using call_deallocate by (simp add: phases_ok_upd del: fun_upd_apply)
next
  case (step a pcs M t sched pc1 a1)
  then show ?case
    using step_good [of a _ M pcs t sched] step_active by fastforce
next
  case (return_allocate a pcs M t i p)
  have "outside (if p = 0 then M else M(i := add_mset p (M i))) (pcs[t := Idle]) = outside M pcs"
    by (rule call_outside) (use return_allocate.hyps in \<open>auto simp: hands_of_def\<close>)
  then show ?case
    using return_allocate by (simp add: phases_ok_upd)
next
  case (return_deallocate a pcs M t)
  have "outside M (pcs[t := Idle]) = outside M pcs"
    by (rule call_outside) (use return_deallocate.hyps in \<open>auto simp: hands_of_def\<close>)
  then show ?case
    using return_deallocate by (simp add: phases_ok_upd)
next
  case (use a pcs M m)
  then obtain L where inv: "alloc_inv a L (outside M pcs)"
    by blast
  have "program_write (outside M pcs) (cells (world a)) m"
    using use.hyps(2) by (auto simp: program_write_def outside_def) (metis union_iff)
  then show ?case
    using program_write_ok [OF inv] use.IH use.prems by blast
qed

text \<open>The length of a call, in steps of its thread.\<close>

lemma steps_left_bound: "phase_ok pc \<Longrightarrow> steps_left pc \<le> 4 * MAX_BATCH_SIZE + 14"
  by (cases pc) (auto dest!: class_rows)

section \<open>Null results\<close>

lemma thread_step_os: "thread_step sched pc a = Some (pc1, a1) \<Longrightarrow> os (world a1) = os (world a)"
  by (induction sched pc a rule: thread_step.induct)
    (auto simp: give_step_def insert_step_def with_central_def Let_def elim!: bind_SomeE
      split: if_split_asm prod.split_asm option.split_asm list.split_asm dest!: cfl_allocate_os cfl_deallocate_os)

lemma threads_reach_os: "threads_reach mmap a pcs M \<Longrightarrow> os (world a) = mmap"
proof (induction rule: threads_reach.induct)
  case (start affinity region a n)
  then show ?case
    by (auto simp: new_Allocator_def split: option.split_asm)
qed (auto simp: thread_step_os set_cells_def)

lemma refilled_null: "0 \<notin> set batch \<Longrightarrow> refilled i batch = Alloc_Return j 0 \<Longrightarrow> batch = []"
  by (cases batch rule: rev_cases) (auto simp: refilled_def)

text \<open>The step with which a call of \<open>allocate\<close> decides to return null.\<close>

lemma null_step:
  assumes inv: "alloc_inv a L (outside M pcs)" and ok: "phase_ok pc" and step: "thread_step sched pc a = Some (Alloc_Return i 0, a1)"
  shows "\<exists>k cw. pc = Alloc_Central i (Suc k) [] \<and> cfl_allocate (free_list a i) (world a) = Some (0, cw)"
proof (cases pc)
  case (Alloc_Remove j)
  then have j: "is_class j"
    using ok by simp
  obtain batch got tc where r: "RemoveRange (batch_size_of j) (transfer_caches a j) = ((batch, got), tc)"
    by (metis surj_pair)
  have "tc_stack (transfer_caches a j) = tc_stack tc @ batch" "length batch = got"
    using RemoveRange_stack [OF alloc_inv_tc [OF inv j] r] by blast+
  moreover from this have "0 \<notin> set batch"
    using alloc_inv_tc [OF inv j] by (auto simp: tc_wf_def)
  ultimately show ?thesis
    using step refilled_null [of batch j i] by (simp add: Alloc_Remove r split: if_split_asm)
next
  case (Alloc_Central j k batch)
  show ?thesis
  proof (cases k)
    case 0
    then show ?thesis
      using step ok refilled_null [of batch j i] by (auto simp: Alloc_Central)
  next
    case (Suc n)
    then obtain p cw where p: "cfl_allocate (free_list a j) (world a) = Some (p, cw)"
        "(if p = 0 then refilled j batch else Alloc_Central j n (batch @ [p])) = Alloc_Return i 0"
      using step by (auto simp: Alloc_Central elim!: bind_SomeE)
    then have "p = 0" "batch = []"
      using ok refilled_null [of batch j i] by (auto simp: Alloc_Central split: if_split_asm)
    then show ?thesis
      using p Suc by (auto simp: Alloc_Central refilled_def)
  qed
qed (use step ok in \<open>auto simp: give_step_def insert_step_def drained_def Let_def elim!: bind_SomeE
      split: if_split_asm prod.split_asm option.split_asm list.split_asm\<close>)

section \<open>A call that runs alone\<close>

lemma alone_done [simp]: "\<not> active pc \<Longrightarrow> run_alone sched pc a = Some (pc, a)"
  by (simp add: run_alone.simps)

lemma alone_step: "active pc \<Longrightarrow> run_alone sched pc a = do { (pc1, a1) \<leftarrow> thread_step sched pc a; run_alone sched pc1 a1 }"
  by (simp add: run_alone.simps [of sched pc a])

lemma with_same [simp]:
  "with_slabs (per_cpu_caches a) a = a" "with_central i (free_list a i, world a) a = a"
  "with_slabs s (with_slabs s1 a) = with_slabs s a" "with_central i cw (with_central i cw1 a) = with_central i cw a"
  by (simp_all add: with_slabs_def with_central_def)

lemma with_fields [simp]:
  "per_cpu_caches (with_slabs s a) = s" "slab_count (with_slabs s a) = slab_count a"
  "free_list (with_central i cw a) i = fst cw" "world (with_central i cw a) = snd cw"
  by (simp_all add: with_slabs_def with_central_def)

lemma alone_give:
  assumes "\<And>b a. thread_step sched (give b) a = give_step i b give after a" "\<And>b. active (give b)"
  shows "run_alone sched (give ps) a =
    do { cw \<leftarrow> cfl_deallocate_batch ps (free_list a i) (world a); run_alone sched after (with_central i cw a) }"
proof (induction ps arbitrary: a)
  case Nil
  then show ?case
    by (simp add: alone_step assms give_step_def)
next
  case (Cons p ps)
  show ?case
    by (subst alone_step [OF assms(2)]) (auto simp: assms(1) give_step_def Cons.IH split: bind_splits)
qed

lemma alone_insert:
  assumes "thread_step sched pc a = Some (insert_step i batch give after a)" "active pc"
    and "\<And>b a. thread_step sched (give b) a = give_step i b give after a" "\<And>b. active (give b)"
  shows "run_alone sched pc a = do { a1 \<leftarrow> release_batch i batch a; run_alone sched after a1 }"
proof -
  obtain k tc where r: "InsertRange batch (length batch) (transfer_caches a i) = (k, tc)"
    by fastforce
  show ?thesis
    by (subst alone_step [OF assms(2)])
      (auto simp: assms(1) alone_give [OF assms(3,4)] r insert_step_def release_batch_def with_tc_def with_central_def split: bind_splits)
qed

lemma alone_return: "run_alone sched (Alloc_Return i r) = (\<lambda>a. Some (Alloc_Return i r, a))"
  by (simp add: fun_eq_iff)

lemma alone_push:
  "run_alone sched (Alloc_Push i r batch) a =
     (case fill_loop (slab_push_at sched (slab_count a) i) batch (per_cpu_caches a) of (rest, s) \<Rightarrow>
        do { a1 \<leftarrow> if rest = [] then Some (with_slabs s a) else release_batch i rest (with_slabs s a);
             Some (Alloc_Return i r, a1) })"
proof (induction batch arbitrary: a rule: rev_induct)
  case Nil
  then show ?case
    by (simp add: alone_step)
next
  case (snoc x xs)
  have ins: "run_alone sched (Alloc_Insert i r (xs @ [x])) b = do { a1 \<leftarrow> release_batch i (xs @ [x]) b; Some (Alloc_Return i r, a1) }" for b
    by (subst alone_insert [where give = "Alloc_Give i r" and after = "Alloc_Return i r" and batch = "xs @ [x]" and i = i]) (simp_all add: alone_return)
  show ?case
    by (subst alone_step) (auto simp: snoc.IH ins split: prod.split)
qed

lemma alone_central:
  "run_alone sched (Alloc_Central i k batch) a =
     do { (ps, cw) \<leftarrow> cfl_allocate_batch k (free_list a i) (world a); run_alone sched (refilled i (batch @ ps)) (with_central i cw a) }"
proof (induction k arbitrary: batch a)
  case 0
  show ?case
    by (subst alone_step) simp_all
next
  case (Suc k)
  show ?case
    by (subst alone_step) (auto simp: Suc.IH split: bind_splits)
qed

lemma alone_refilled:
  "run_alone sched (refilled i batch) a =
     (if batch = [] then Some (Alloc_Return i 0, a)
      else case fill_loop (slab_push_at sched (slab_count a) i) (butlast batch) (per_cpu_caches a) of (rest, s) \<Rightarrow>
        do { a1 \<leftarrow> if rest = [] then Some (with_slabs s a) else release_batch i rest (with_slabs s a);
             Some (Alloc_Return i (last batch), a1) })"
  by (simp add: refilled_def alone_push)

lemma alone_remove:
  "run_alone sched (Alloc_Remove i) a =
     do { (batch, a1) \<leftarrow> refill_batch i (batch_size_of i) a; run_alone sched (refilled i batch) a1 }"
proof -
  obtain batch got tc where r: "RemoveRange (batch_size_of i) (transfer_caches a i) = ((batch, got), tc)"
    by (metis surj_pair)
  show ?thesis
    by (subst alone_step) (auto simp: r alone_central refill_batch_def with_tc_def with_central_def split: bind_splits)
qed

theorem allocate_alone:
  "run_alone sched (start_allocate n) a = do { (p, a1) \<leftarrow> allocate sched n a; Some (Alloc_Return (first_class n) p, a1) }"
proof (cases "class_size (first_class n) = 0")
  case True
  then show ?thesis
    by (simp add: start_allocate_def allocate_def round_size_class_eq)
next
  case False
  obtain p s where pop: "slab_pop_at sched (slab_count a) (first_class n) (per_cpu_caches a) = (p, s)"
    by (rule prod.exhaust)
  show ?thesis
    using False
    by (auto simp: start_allocate_def allocate_def round_size_class_eq alone_step [of "Alloc_Pop _"] alone_remove alone_refilled pop
        with_slabs_def Let_def split: bind_splits prod.split)
qed

lemma alone_retry:
  "run_alone sched (Dealloc_Retry i p) a =
     (case slab_push_at sched (slab_count a) i p (per_cpu_caches a) of (ok, s) \<Rightarrow>
        if ok then Some (Dealloc_Return, with_slabs s a)
        else do { cw \<leftarrow> cfl_deallocate p (free_list (with_slabs s a) i) (world (with_slabs s a));
                  Some (Dealloc_Return, with_central i cw (with_slabs s a)) })"
  by (subst alone_step) (auto simp: alone_step [of "Dealloc_Central _ _"] split: bind_splits prod.split)

lemma alone_drained:
  "run_alone sched (drained i p batch) a =
     do { a1 \<leftarrow> if batch = [] then Some a else release_batch i batch a; run_alone sched (Dealloc_Retry i p) a1 }"
proof -
  have "run_alone sched (Dealloc_Insert i p batch) a = do { a1 \<leftarrow> release_batch i batch a; run_alone sched (Dealloc_Retry i p) a1 }"
    by (rule alone_insert [where give = "Dealloc_Give i p"]) simp_all
  then show ?thesis
    by (simp add: drained_def)
qed

lemma alone_drain:
  "length batch + n = batch_size_of i \<Longrightarrow>
   run_alone sched (Dealloc_Drain i p batch) a =
     (case drain_loop (slab_pop_at sched (slab_count a) i) n (per_cpu_caches a) of (ps, s) \<Rightarrow>
        run_alone sched (drained i p (batch @ ps)) (with_slabs s a))"
proof (induction n arbitrary: batch a)
  case 0
  then show ?case
    by (subst alone_step) simp_all
next
  case (Suc n)
  then show ?case
    by (subst alone_step) (auto split: prod.split)
qed

theorem deallocate_alone:
  "run_alone sched (Dealloc_Find i p) a = do { a1 \<leftarrow> deallocate sched p a; Some (Dealloc_Return, a1) }"
proof -
  have "run_alone sched (Dealloc_Push j p) a = (case slab_push_at sched (slab_count a) j p (per_cpu_caches a) of (ok, s1) \<Rightarrow>
       if ok then Some (Dealloc_Return, with_slabs s1 a)
       else case drain_loop (slab_pop_at sched (slab_count a) j) (batch_size_of j) s1 of (batch, s2) \<Rightarrow>
         run_alone sched (drained j p batch) (with_slabs s2 a))" for j
    by (subst alone_step) (auto simp: alone_drain [of "[]"] split: prod.split)
  then show ?thesis
    by (subst alone_step) (auto simp: deallocate_def Let_def alone_drained alone_retry with_slabs_def with_central_def
      split: option.split bind_splits prod.split)
qed

section \<open>Sequential runs are runs of the threads\<close>

lemma alone_reach:
  assumes "run_alone sched pc a = Some (pc1, a1)" "threads_reach mmap a pcs M" "t < length pcs" "pcs ! t = pc"
  shows "threads_reach mmap a1 (pcs[t := pc1]) M"
proof -
  define P where "P = (\<lambda>(sched :: nat \<Rightarrow> cpu_env) pc a r. \<forall>pcs. threads_reach mmap a pcs M \<longrightarrow> t < length pcs \<longrightarrow> pcs ! t = pc \<longrightarrow>
      threads_reach mmap (snd r) (pcs[t := fst r]) M)"
  have "P sched pc a (pc1, a1)"
    using _ assms(1)
  proof (rule run_alone.raw_induct)
    fix run sched pc a r
    assume IH: "\<And>sched pc a r. run sched pc a = Some r \<Longrightarrow> P sched pc a r"
      and r: "(if active pc then do { (pc1, a1) \<leftarrow> thread_step sched pc a; run sched pc1 a1 } else Some (pc, a)) = Some r"
    show "P sched pc a r"
      unfolding P_def
    proof (intro allI impI)
      fix pcs
      assume pcs: "threads_reach mmap a pcs M" "t < length pcs" "pcs ! t = pc"
      show "threads_reach mmap (snd r) (pcs[t := fst r]) M"
      proof (cases "active pc")
        case False
        then show ?thesis
          using r pcs list_update_id [of pcs t] by auto
      next
        case True
        then obtain pc1 a1 where s: "thread_step sched pc a = Some (pc1, a1)" "run sched pc1 a1 = Some r"
          using r by (auto elim!: bind_SomeE)
        have "threads_reach mmap a1 (pcs[t := pc1]) M"
          by (rule threads_reach.step [OF pcs(1,2), of sched]) (simp add: pcs(3) s(1))
        then show ?thesis
          using IH [OF s(2)] pcs(2) unfolding P_def by fastforce
      qed
    qed
  qed
  then show ?thesis
    using assms(2-4) unfolding P_def by simp
qed

lemma idle_upd: "t < n \<Longrightarrow> (replicate n Idle)[t := pc, t := Idle] = replicate n Idle"
  by (simp add: list_eq_iff_nth_eq nth_list_update)

theorem sequential_run:
  assumes "alloc_reach mmap a M" "0 < n"
  shows "threads_reach mmap a (replicate n Idle) M"
  using assms(1)
proof (induction rule: alloc_reach.induct)
  case (start affinity region a)
  then show ?case
    by (rule threads_reach.start)
next
  case (null a M sched k a')
  have "threads_reach mmap a ((replicate n Idle)[0 := start_allocate k]) M"
    by (rule threads_reach.call_allocate [OF null.IH]) (use assms(2) in simp_all)
  from alone_reach [OF _ this, of sched _ _ _ 0]
  have "threads_reach mmap a' ((replicate n Idle)[0 := start_allocate k, 0 := Alloc_Return (first_class k) 0]) M"
    using allocate_alone [of sched k a] null.hyps(2) assms(2) by simp
  from threads_reach.return_allocate [OF this, of 0] show ?case
    using assms(2) idle_upd [of 0 n] by simp
next
  case (alloc a M sched k p a')
  have "threads_reach mmap a ((replicate n Idle)[0 := start_allocate k]) M"
    by (rule threads_reach.call_allocate [OF alloc.IH]) (use assms(2) in simp_all)
  from alone_reach [OF _ this, of sched _ _ _ 0]
  have "threads_reach mmap a' ((replicate n Idle)[0 := start_allocate k, 0 := Alloc_Return (first_class k) p]) M"
    using allocate_alone [of sched k a] alloc.hyps(2) assms(2) by simp
  from threads_reach.return_allocate [OF this, of 0] show ?case
    using assms(2) alloc.hyps(3) idle_upd [of 0 n] by (simp del: fun_upd_apply)
next
  case (free a M i p sched a')
  have "threads_reach mmap a ((replicate n Idle)[0 := Dealloc_Find i p]) (M(i := M i - {#p#}))"
    by (rule threads_reach.call_deallocate [OF free.IH]) (use assms(2) free.hyps in simp_all)
  from alone_reach [OF _ this, of sched _ _ _ 0]
  have "threads_reach mmap a' ((replicate n Idle)[0 := Dealloc_Find i p, 0 := Dealloc_Return]) (M(i := M i - {#p#}))"
    using deallocate_alone [of sched i p a] free.hyps(4) assms(2) by simp
  from threads_reach.return_deallocate [OF this, of 0] show ?case
    using assms(2) idle_upd [of 0 n] by (simp del: fun_upd_apply)
next
  case (use a M m)
  then show ?case
    by (intro threads_reach.use)
qed

end
