(* ===== verification/Allocator_Props.thy ===== *)
theory Allocator_Props
  imports Allocator_Reach
begin

text \<open>
  The contracts of \<open>allocate\<close> and \<open>deallocate\<close> and what holds in every reachable state, each
  applied to a concrete run.
\<close>

section \<open>A concrete run\<close>

definition demo0 :: Allocator where
  "demo0 = the (new_Allocator bump_mmap (\<lambda>cpu. cpu = 0) (Some 4096))"

definition demo_sched :: "nat \<Rightarrow> cpu_env" where
  "demo_sched = (\<lambda>_. one_cpu)"

lemma count_demo: "count_slabs (\<lambda>cpu. cpu = 0) = 1"
proof -
  have "fold (\<lambda>cpu n. if cpu = 0 then u32 (cpu + 1) else n) xs n = n" if "0 \<notin> set xs" for xs n
    using that by (induction xs) auto
  moreover have "0 < CPU_SETSIZE"
    by (simp add: CPU_SETSIZE_def)
  then have "[0..<CPU_SETSIZE] = 0 # [Suc 0..<CPU_SETSIZE]"
    by (rule upt_conv_Cons)
  ultimately show ?thesis
    by (simp add: count_slabs_def u32_def)
qed

lemma demo0_new: "new_Allocator bump_mmap (\<lambda>cpu. cpu = 0) (Some 4096) = Some demo0"
  by (simp add: demo0_def new_Allocator_def)

lemma demo0_inv: "alloc_inv demo0 (\<lambda>_. []) (\<lambda>_. {#})"
  by (rule new_Allocator_inv [OF demo0_new bump_mmap_ok])

lemma no_free_span: "\<forall>i. free_lists h i = nullptr \<Longrightarrow> alloc_search i n sz h = Some (nullptr, h)"
  by (induction i n sz h rule: alloc_search.induct) (subst alloc_search.simps, simp)

lemma bump_7: "bump_mmap 0 Map.empty 7 = Some 4194304"
  "\<forall>p. 1031 \<le> p \<longrightarrow> m p = None \<Longrightarrow> bump_mmap (Suc 0) m 7 = Some 8388608"
  by (auto simp: bump_mmap_def PAGE_SIZE_def list_all_iff)

lemma demo_class: "round_size_class 28672 = (sci 28672 7 2 2000, 35)"
  by (simp add: round_size_class_eq first_class_def upt_rec SizeClasses_def sci_def)

text \<open>Two objects of 28672 bytes: each takes a mapping of its own.\<close>

lemma empty_PageHeap_lists [simp]: "free_lists empty_PageHeap = (\<lambda>_. nullptr)"
  by (simp add: empty_PageHeap_def)

lemma bump_second: "bump_mmap (Suc 0) (register_pages 1024 (Suc 0) 7 (\<lambda>x. nullptr)) 7 = Some 8388608"
  by (rule bump_7(2)) (simp add: eval_nat_numeral)

lemma demo_batch: "\<exists>c w. cfl_allocate_batch 2 (new_CentralFreeList (sci 28672 7 2 2000)) world0 =
    Some ([4194304, 8388608], c, w)"
  by (simp add: numeral_2_eq_2 cfl_allocate_def new_CentralFreeList_def sci_def world0_def
      span_has_available_objects_def find_available_span_def find_loop.simps fetch_from_page_heap_def
      world_alloc_def allocate_span_def no_free_span MAX_PAGES_def bump_7(1) bump_second new_object_def
      register_span_def world_write_def PAGE_SIZE_def u32_def populate_span_def Let_def
      populate_loop.simps pack_loop.simps index_to_ptr_def next_idx_def node_count_def pop_object_def
      pack_capacity_def INVALID_INDEX_def u16_def new_Span_def)

lemma demo_refill: "\<exists>a. refill_batch 35 2 (demo0\<lparr>per_cpu_caches := s\<rparr>) = Some ([4194304, 8388608], a)
    \<and> slab_count a = 1"
proof -
  obtain c w where b: "cfl_allocate_batch 2 (new_CentralFreeList (sci 28672 7 2 2000)) world0 =
      Some ([4194304, 8388608], c, w)"
    using demo_batch by blast
  have "SizeClasses ! 35 = sci 28672 7 2 2000"
    by (simp add: SizeClasses_def)
  moreover obtain batch got tc where r: "RemoveRange 2 empty_transfer_cache = ((batch, got), tc)"
    by (metis prod.exhaust)
  moreover have "got = 0"
    using RemoveRange_stack [OF tc_wf_empty r] by simp
  ultimately show ?thesis
    using b by (simp add: refill_batch_def demo0_def new_Allocator_def world0_def count_demo)
qed

lemma demo_pop: "slab_pop_at demo_sched 1 i (\<lambda>_. empty_slab, 0) = (0, (\<lambda>_. empty_slab), 1)"
  by (simp add: slab_pop_at_def demo_sched_def slab_pop_def one_cpu_def slab_pop_fallback_def current_cpu_id_def
      fallback_get_cpu_def fallback_allocate_empty empty_slab_def fun_eq_iff)

lemma demo_allocate: "\<exists>a. allocate demo_sched 28672 demo0 = Some (8388608, a)"
proof -
  have d: "slab_count demo0 = 1" "per_cpu_caches demo0 = (\<lambda>_. empty_slab, 0)"
    by (simp_all add: demo0_def new_Allocator_def count_demo)
  obtain a where r: "refill_batch 35 2 (demo0\<lparr>per_cpu_caches := (\<lambda>_. empty_slab, 1)\<rparr>) = Some ([4194304, 8388608], a)"
      "slab_count a = 1"
    using demo_refill by blast
  obtain p a' L where res: "allocate demo_sched 28672 demo0 = Some (p, a')"
    using allocate_step [OF demo0_inv, of demo_sched 28672] by blast
  obtain rest s3 where f: "fill_loop (slab_push_at demo_sched 1 35) [4194304] (per_cpu_caches a) = (rest, s3)"
    by (rule prod.exhaust)
  show ?thesis
    using res unfolding allocate_def demo_class
    by (auto simp: d demo_pop [simplified] r [simplified] f [simplified] Let_def sci_def bind_eq_Some_conv split: if_splits)
qed

definition demo1 :: Allocator where
  "demo1 = snd (the (allocate demo_sched 28672 demo0))"

definition demo_held :: "nat \<Rightarrow> addr multiset" where
  "demo_held = (\<lambda>_. {#})(35 := {#8388608#})"

lemma demo1_run: "allocate demo_sched 28672 demo0 = Some (8388608, demo1)"
  using demo_allocate by (auto simp: demo1_def)

lemma demo_class_35: "first_class 28672 = 35"
  using demo_class by (simp add: round_size_class_eq)

lemma demo1_reach: "alloc_reach bump_mmap demo1 demo_held"
  using alloc_reach.alloc [OF alloc_reach.start [OF demo0_new] demo1_run]
  by (simp add: demo_class_35 demo_held_def)

lemma demo1_slabs: "slab_count demo1 = 1"
proof -
  have "slab_count demo0 = 1"
    by (simp add: demo0_def new_Allocator_def count_demo)
  then show ?thesis
    using allocate_step [OF demo0_inv, of demo_sched 28672] demo1_run by auto
qed

lemma demo_held_class: "is_class i \<Longrightarrow> p \<in># demo_held i \<longleftrightarrow> i = 35 \<and> p = 8388608"
  by (auto simp: demo_held_def)

lemma is_class_35: "is_class 35"
  by (simp add: is_class_def)

section \<open>Safety\<close>

text \<open>
  In every state the allocator can reach, the program holds every object at most once, at a
  non-null 8-byte aligned address, and two objects it holds share no byte, whatever their
  classes and whichever layer handed them out.
\<close>

lemma reachable_objects_apart:
  assumes "mmap_ok mmap" "alloc_reach mmap a M" "is_class i" "p \<in># M i" "is_class j" "q \<in># M j"
  shows "count (M i) p = 1 \<and> 0 < p \<and> 8 dvd p
       \<and> (i \<noteq> j \<or> p \<noteq> q \<longrightarrow> {p ..< p + class_size i} \<inter> {q ..< q + class_size j} = {})"
proof -
  obtain L where inv: "alloc_inv a L M"
    using reach_inv [OF assms(2,1)] by blast
  have "count (M i) p = 1"
    using outside_once [OF inv assms(3), of p] assms(4) by (simp add: count_greater_zero_iff [symmetric] del: count_greater_zero_iff)
  then show ?thesis
    using outside_address [OF inv assms(3,4)] outside_apart [OF inv assms(3-6)] by blast
qed

text \<open>
  No object is lost or duplicated on the way between the layers. In every reachable state and
  for every class, the objects the central free list has handed out are, each exactly once, in
  one of the per-CPU slabs, in the transfer cache, or with the program.
\<close>

lemma reachable_conservation:
  assumes "mmap_ok mmap" "alloc_reach mmap a M" "is_class i"
  shows "\<exists>L H. cfl_rel (free_list a i) (world a) L H
     \<and> mset_set H = region_objs (slab_count a) i (fst (per_cpu_caches a)) + mset (tc_stack (transfer_caches a i)) + M i"
proof -
  obtain L where "alloc_inv a L M"
    using reach_inv [OF assms(2,1)] by blast
  then show ?thesis
    using assms(3) unfolding alloc_inv_def central_inv_def stock_def by metis
qed

text \<open>An object just handed out overlaps none that the program held before.\<close>

lemma handed_out_apart:
  assumes inv: "alloc_inv a L (M(c := add_mset p (M c)))" and c: "is_class c" and le: "n \<le> class_size c"
    and q: "is_class i" "q \<in># M i"
  shows "{p ..< p + n} \<inter> {q ..< q + class_size i} = {}"
proof -
  have p_in: "p \<in># (M(c := add_mset p (M c))) c"
    by simp
  have "i \<noteq> c \<or> q \<noteq> p"
  proof (rule ccontr)
    assume "\<not> ?thesis"
    then have "p \<in># M c"
      using q(2) by simp
    moreover have "count (M c) p = 0"
      using outside_once [OF inv c, of p] by simp
    ultimately show False
      by (metis not_in_iff)
  qed
  moreover have "q \<in># (M(c := add_mset p (M c))) i"
    using q(2) by (cases "i = c") auto
  ultimately show ?thesis
    using outside_apart [OF inv c p_in q(1)] le by fastforce
qed

text \<open>
  C1: \<open>allocate\<close> returns in every reachable state. A non-null result lies, over the whole size of
  the request, in the pages of one span that is in use and recorded with the size of the class,
  the look-up finds that span from every byte of it, and it overlaps no object the program
  already held.
\<close>

theorem allocate_contract:
  assumes "mmap_ok mmap" "alloc_reach mmap a M"
  shows "\<exists>p a'. allocate sched n a = Some (p, a') \<and>
     (p \<noteq> 0 \<longrightarrow> is_class (first_class n) \<and> n \<le> class_size (first_class n)
       \<and> (\<exists>j s. spans (ph (world a')) j = Some s \<and> \<not> is_free s \<and> span_size s = class_size (first_class n)
            \<and> (\<forall>x\<in>{p ..< p + n}. x div PAGE_SIZE \<in> pages_of s \<and> span_for x (ph (world a')) = Some j))
       \<and> (\<forall>i q. is_class i \<longrightarrow> q \<in># M i \<longrightarrow> {p ..< p + n} \<inter> {q ..< q + class_size i} = {}))"
proof -
  let ?i = "first_class n"
  obtain L where inv: "alloc_inv a L M"
    using reach_inv [OF assms(2,1)] by blast
  obtain p a' L' where run: "allocate sched n a = Some (p, a')"
      and inv': "alloc_inv a' L' (if p = 0 then M else M(?i := add_mset p (M ?i)))" and cls: "p \<noteq> 0 \<longrightarrow> is_class ?i"
    using allocate_step [OF inv, of sched n] by blast
  have "is_class ?i \<and> n \<le> class_size ?i
       \<and> (\<exists>j s. spans (ph (world a')) j = Some s \<and> \<not> is_free s \<and> span_size s = class_size ?i
            \<and> (\<forall>x\<in>{p ..< p + n}. x div PAGE_SIZE \<in> pages_of s \<and> span_for x (ph (world a')) = Some j))
       \<and> (\<forall>i q. is_class i \<longrightarrow> q \<in># M i \<longrightarrow> {p ..< p + n} \<inter> {q ..< q + class_size i} = {})" if p: "p \<noteq> 0"
  proof -
    have i: "is_class ?i" and inv2: "alloc_inv a' L' (M(?i := add_mset p (M ?i)))"
      using cls inv' p by simp_all
    have p_in: "p \<in># (M(?i := add_mset p (M ?i))) ?i"
      by simp
    have le: "n \<le> class_size ?i"
      using i first_class_Some [of n] first_class_None [of n] by (cases "n \<le> 262144") (auto simp: is_class_def)
    have apart: "{p ..< p + n} \<inter> {q ..< q + class_size i} = {}" if "is_class i" "q \<in># M i" for i q
      by (rule handed_out_apart [OF inv2 i le that])
    obtain j s where s: "spans (ph (world a')) j = Some s" "\<not> is_free s" "span_size s = class_size ?i"
        "\<forall>x\<in>{p ..< p + class_size ?i}. x div PAGE_SIZE \<in> pages_of s \<and> world_find x (world a') = Some j"
      using outside_address [OF inv2 i p_in] by blast
    then have "\<forall>x\<in>{p ..< p + n}. x div PAGE_SIZE \<in> pages_of s \<and> span_for x (ph (world a')) = Some j"
      using le by (auto simp: world_find_def)
    then show ?thesis
      using i le apart s(1-3) by blast
  qed
  then show ?thesis
    using run by blast
qed

theorem allocate_contract_witness:
  "28672 \<le> class_size (first_class 28672) \<and> span_for 8388608 (ph (world demo1)) \<noteq> nullptr"
  using allocate_contract [OF bump_mmap_ok alloc_reach.start [OF demo0_new], of demo_sched 28672] demo1_run by auto



text \<open>
  C15: what the program has written into the objects it holds survives every call. \<open>allocate\<close>
  changes no byte of an object the program holds, and \<open>deallocate\<close> no byte of the others: the
  packed free lists, kept in the same memory, never reach into objects that are in use.
\<close>

theorem contents_preserved:
  assumes "mmap_ok mmap" "alloc_reach mmap a M" "is_class j" "q \<in># M j" "x \<in> {q ..< q + class_size j}"
  shows "(\<forall>p a'. allocate sched n a = Some (p, a') \<longrightarrow> cells (world a') x = cells (world a) x)
     \<and> (\<forall>i p a'. is_class i \<longrightarrow> p \<in># M i \<longrightarrow> i \<noteq> j \<or> p \<noteq> q \<longrightarrow> deallocate sched p a = Some a' \<longrightarrow>
          cells (world a') x = cells (world a) x)"
proof -
  obtain L where inv: "alloc_inv a L M"
    using reach_inv [OF assms(2,1)] by blast
  have alloc: "cells (world a') x = cells (world a) x" if "allocate sched n a = Some (p, a')" for p a'
  proof -
    have "undisturbed M a a'"
      using allocate_step [OF inv, of sched n] that by auto
    then show ?thesis
      using assms(3-5) by (auto simp: undisturbed_def cells_kept_def)
  qed
  have dealloc: "cells (world a') x = cells (world a) x"
    if p: "is_class i" "p \<in># M i" "i \<noteq> j \<or> p \<noteq> q" "deallocate sched p a = Some a'" for i p a'
  proof -
    have "undisturbed (M(i := M i - {#p#})) a a'"
      using deallocate_step [OF inv p(1,2), of sched] p(4) by auto
    moreover have "q \<in># (M(i := M i - {#p#})) j"
      using assms(4) p(3) by (cases "i = j") (simp_all add: in_diff_count)
    ultimately show ?thesis
      using assms(3,5) unfolding undisturbed_def cells_kept_def by blast
  qed
  show ?thesis
    using alloc dealloc by blast
qed

theorem contents_preserved_witness:
  "\<exists>p a'. allocate demo_sched 100 demo1 = Some (p, a') \<and> cells (world a') 8388610 = cells (world demo1) 8388610"
proof -
  obtain L where "alloc_inv demo1 L demo_held"
    using reach_inv [OF demo1_reach bump_mmap_ok] by blast
  then obtain p a' where "allocate demo_sched 100 demo1 = Some (p, a')"
    using allocate_step [of demo1 L demo_held demo_sched 100] by blast
  moreover have "class_size 35 = 28672"
    by (simp add: SizeClasses_def sci_def)
  ultimately show ?thesis
    using contents_preserved [OF bump_mmap_ok demo1_reach is_class_35, of 8388608 8388610 demo_sched 100]
    by (simp add: demo_held_def)
qed

text \<open>
  A request of at most 262144 bytes whose class fits its span is served whenever the system
  would grant the pages of one more span: \<open>allocate\<close> never gives up while memory is available.
\<close>

lemma allocate_succeeds:
  assumes "mmap_ok mmap" "alloc_reach mmap a M" "n \<le> 262144"
    and "class_size (first_class n) \<le> sc_pages (SizeClasses ! first_class n) * PAGE_SIZE"
    and "mmap (mmap_calls (ph (world a))) (page_map (ph (world a))) (sc_pages (SizeClasses ! first_class n)) \<noteq> None"
  shows "\<exists>p a'. allocate sched n a = Some (p, a') \<and> p \<noteq> 0"
proof -
  obtain L where inv: "alloc_inv a L M"
    using reach_inv [OF assms(2,1)] by blast
  obtain p a' where run: "allocate sched n a = Some (p, a')"
    using allocate_step [OF inv, of sched n] by blast
  have "p \<noteq> 0"
    using allocate_null [OF inv assms(3,4), of sched a'] run assms(5) reach_os [OF assms(2)] by auto
  then show ?thesis
    using run by blast
qed

section \<open>Reuse\<close>

text \<open>One slab operation of a thread that stays on the CPU \<open>slab_cpu e n\<close>.\<close>

lemma push_at_on_cpu:
  assumes "slab_cpu e n < n"
  shows "slab_push_at (\<lambda>_. e) n i p (region, k) =
     (case fallback_deallocate (region (slab_cpu e n)) p i of (ok, slab) \<Rightarrow> (ok, region(slab_cpu e n := slab), Suc k))"
  using assms by (simp add: slab_push_at_def slab_push_eq slab_push_fallback_def split: prod.split)

lemma pop_at_on_cpu:
  assumes "slab_cpu e n < n"
  shows "slab_pop_at (\<lambda>_. e) n i (region, k) =
     (case fallback_allocate (region (slab_cpu e n)) i of (p, slab) \<Rightarrow> (p, region(slab_cpu e n := slab), Suc k))"
  using assms by (simp add: slab_pop_at_def slab_pop_eq slab_pop_fallback_def split: prod.split)

lemma push_then_pop:
  assumes cpu: "slab_cpu e n < n" and i: "i < 48" and wf: "region_wf n (fst s)" and p: "p \<noteq> 0"
    and push: "slab_push_at (\<lambda>_. e) n i p s = (True, s')"
  shows "\<exists>s''. slab_pop_at (\<lambda>_. e) n i s' = (p, s'')"
proof -
  let ?cpu = "slab_cpu e n"
  obtain region k where s: "s = (region, k)"
    by fastforce
  obtain slab where d: "fallback_deallocate (region ?cpu) p i = (True, slab)" and s': "s' = (region(?cpu := slab), Suc k)"
    using push unfolding s push_at_on_cpu [OF cpu] by (auto split: prod.split_asm)
  have "i < 48 \<and> slab_wf (region ?cpu)"
    using i wf cpu by (simp add: s region_wf_def)
  from slab_class.push_pop [OF this p d] obtain slab2 where "fallback_allocate slab i = (p, slab2)"
    by blast
  then show ?thesis
    unfolding s' pop_at_on_cpu [OF cpu] by simp
qed

text \<open>Draining frees room in the slab of that CPU.\<close>

lemma pop_at_currents:
  assumes cpu: "slab_cpu e n < n" and i: "i < 48" and wf: "region_wf n (fst s)"
    and pop: "slab_pop_at (\<lambda>_. e) n i s = (p, s')"
  shows "region_wf n (fst s') \<and> (p = 0 \<longleftrightarrow> currents (fst s (slab_cpu e n)) i = 0)
     \<and> currents (fst s' (slab_cpu e n)) i = currents (fst s (slab_cpu e n)) i - 1"
proof -
  let ?cpu = "slab_cpu e n"
  obtain region k where s: "s = (region, k)"
    by fastforce
  have slab: "slab_wf (region ?cpu)"
    using wf cpu by (simp add: s region_wf_def)
  obtain slab where d: "fallback_allocate (region ?cpu) i = (p, slab)" and s': "s' = (region(?cpu := slab), Suc k)"
    using pop unfolding s pop_at_on_cpu [OF cpu] by (auto split: prod.split_asm)
  show ?thesis
  proof (cases "currents (region ?cpu) i = 0")
    case True
    then have "p = 0" "slab = region ?cpu"
      using d fallback_allocate_empty by auto
    then show ?thesis
      using True wf by (simp add: s s')
  next
    case False
    note top = fallback_allocate_top [OF i slab _ d]
    have "p \<noteq> 0"
      using top False slab i by (auto simp: slab_wf_def)
    moreover have "currents slab i = currents (region ?cpu) i - 1"
      using top False length_slab_stack [of slab i] length_slab_stack [of "region ?cpu" i] by simp
    ultimately show ?thesis
      using False top region_wf_upd [of n region slab ?cpu] wf by (simp add: s s')
  qed
qed

lemma drain_currents:
  assumes cpu: "slab_cpu e n < n" and i: "i < 48"
  shows "region_wf n (fst s) \<Longrightarrow> drain_loop (slab_pop_at (\<lambda>_. e) n i) m s = (ps, s') \<Longrightarrow>
     region_wf n (fst s') \<and> currents (fst s' (slab_cpu e n)) i \<le> currents (fst s (slab_cpu e n)) i
     \<and> (0 < m \<and> 0 < currents (fst s (slab_cpu e n)) i \<longrightarrow> currents (fst s' (slab_cpu e n)) i < currents (fst s (slab_cpu e n)) i)"
proof (induction m arbitrary: s ps)
  case (Suc m)
  obtain p s1 where pop: "slab_pop_at (\<lambda>_. e) n i s = (p, s1)"
    by (rule prod.exhaust)
  note c = pop_at_currents [OF cpu i Suc.prems(1) pop]
  show ?case
  proof (cases "p = 0")
    case True
    then show ?thesis
      using Suc.prems(2) pop c by simp
  next
    case False
    obtain qs s2 where "drain_loop (slab_pop_at (\<lambda>_. e) n i) m s1 = (qs, s2)"
      by (rule prod.exhaust)
    then show ?thesis
      using Suc.IH [of s1 qs] Suc.prems(2) pop c False by auto
  qed
qed simp

lemma push_at_room:
  assumes cpu: "slab_cpu e n < n" and i: "i < 48" and wf: "region_wf n (fst s)" and p: "p \<noteq> 0"
  shows "fst (slab_push_at (\<lambda>_. e) n i p s) \<longleftrightarrow> currents (fst s (slab_cpu e n)) i < slab_capacity i"
proof -
  obtain region k where s: "s = (region, k)"
    by fastforce
  have "slab_wf (region (slab_cpu e n))"
    using wf cpu by (simp add: s region_wf_def)
  then have "fst (fallback_deallocate (region (slab_cpu e n)) p i) \<longleftrightarrow> currents (region (slab_cpu e n)) i < slab_capacity i"
    using fallback_deallocate_room [OF i _ p] fallback_deallocate_full by (metis fst_conv not_less prod.collapse)
  then show ?thesis
    unfolding s push_at_on_cpu [OF cpu] by (simp add: split_beta)
qed

lemma slab_capacity_pos: "is_class i \<Longrightarrow> 0 < slab_capacity i"
proof -
  have "\<forall>i\<in>set (tl [0..<48]). 0 < slab_capacity i"
    unfolding upt_48 by (simp add: SIZE_CLASS_CAPACITIES_eq)
  then show "is_class i \<Longrightarrow> 0 < slab_capacity i"
    by (auto simp: is_class_def)
qed

lemma release_batch_caches:
  "release_batch i batch a = Some a' \<Longrightarrow> per_cpu_caches a' = per_cpu_caches a \<and> slab_count a' = slab_count a"
  by (auto simp: release_batch_def Let_def elim!: bind_SomeE split: if_split_asm prod.split_asm)

text \<open>After \<open>deallocate\<close> on a CPU with a slab, the object is the last one pushed there.\<close>

lemma deallocate_pushes:
  assumes inv: "alloc_inv a L M" and i: "is_class i" and p: "p \<in># M i"
    and cpu: "slab_cpu e (slab_count a) < slab_count a" and run: "deallocate (\<lambda>_. e) p a = Some a'"
  shows "slab_count a' = slab_count a \<and>
     (\<exists>s. region_wf (slab_count a) (fst s) \<and> slab_push_at (\<lambda>_. e) (slab_count a) i p s = (True, per_cpu_caches a'))"
proof -
  let ?n = "slab_count a" and ?cpu = "slab_cpu e (slab_count a)"
  have i48: "i < 48"
    using i by (simp add: is_class_def)
  have wf: "region_wf ?n (fst (per_cpu_caches a))"
    using inv by (simp add: alloc_inv_def)
  have p0: "p \<noteq> 0"
    using alloc_inv_outside [OF inv i] p by metis
  obtain j span where j: "world_find p (world a) = Some j" "spans (ph (world a)) j = Some span" "span_size span = class_size i"
    using outside_address [OF inv i p] class_rows [OF i] by (metis atLeastLessThan_iff le_refl less_add_same_cancel1 less_le_trans zero_less_numeral)
  have idx: "size_class_to_idx (span_size span) = i" "class_size i \<noteq> 0"
    using i size_class_to_idx_class_size [of i] class_size_pos [of i] j(3) by (auto simp: is_class_def)
  obtain ok s1 where push: "slab_push_at (\<lambda>_. e) ?n i p (per_cpu_caches a) = (ok, s1)"
    by (rule prod.exhaust)
  show ?thesis
  proof (cases ok)
    case True
    then have "a' = a\<lparr>per_cpu_caches := s1\<rparr>"
      using run j idx push by (simp add: deallocate_def Let_def)
    then show ?thesis
      using push True wf by (intro conjI exI [of _ "per_cpu_caches a"]) simp_all
  next
    case False
    have "slab_capacity i \<le> currents (fst (per_cpu_caches a) ?cpu) i"
      using push_at_room [OF cpu i48 wf p0] push False by simp
    moreover have s1: "fst s1 = fst (per_cpu_caches a)"
    proof -
      obtain region k where s: "per_cpu_caches a = (region, k)"
        by fastforce
      have "fallback_deallocate (region ?cpu) p i = (False, region ?cpu)"
        using calculation by (simp add: s fallback_deallocate_full)
      then show ?thesis
        using push unfolding s push_at_on_cpu [OF cpu] by auto
    qed
    ultimately have full: "0 < currents (fst s1 ?cpu) i" "region_wf ?n (fst s1)"
        "currents (fst s1 ?cpu) i \<le> slab_capacity i"
      using slab_capacity_pos [OF i] wf cpu i48 by (auto simp: region_wf_def slab_wf_def)
    obtain batch s2 where drain: "drain_loop (slab_pop_at (\<lambda>_. e) ?n i) (sc_batch_size (SizeClasses ! i)) s1 = (batch, s2)"
      by (rule prod.exhaust)
    have s2: "region_wf ?n (fst s2)" "currents (fst s2 ?cpu) i < slab_capacity i"
      using drain_currents [OF cpu i48 full(2) drain] full(1,3) class_rows [OF i] by auto
    obtain s4 where push4: "slab_push_at (\<lambda>_. e) ?n i p s2 = (True, s4)"
      using push_at_room [OF cpu i48 s2(1) p0] s2(2) by (metis prod.collapse)
    have "slab_count a' = ?n \<and> per_cpu_caches a' = s4"
    proof (cases "batch = []")
      case True
      then show ?thesis
        using run j idx push False drain push4 by (auto simp: deallocate_def Let_def)
    next
      case ne: False
      then show ?thesis
        using run j idx push False drain push4
        by (auto simp: deallocate_def Let_def elim!: bind_SomeE split: if_split_asm prod.split_asm dest!: release_batch_caches)
    qed
    then show ?thesis
      using s2(1) push4 by (intro conjI exI [of _ s2]) simp_all
  qed
qed

text \<open>
  C16: the object freed last is handed out first. When a thread stays on a CPU that has a slab, an
  \<open>allocate\<close> of the same class right after a \<open>deallocate\<close> returns the same address, also when
  the slab was full and a batch had to be drained.
\<close>

theorem free_then_allocate:
  assumes "mmap_ok mmap" "alloc_reach mmap a M" "is_class i" "p \<in># M i" "first_class n = i"
    and "slab_cpu e (slab_count a) < slab_count a" "deallocate (\<lambda>_. e) p a = Some a'"
  shows "\<exists>a''. allocate (\<lambda>_. e) n a' = Some (p, a'')"
proof -
  obtain L where inv: "alloc_inv a L M"
    using reach_inv [OF assms(2,1)] by blast
  have p0: "p \<noteq> 0"
    using alloc_inv_outside [OF inv assms(3)] assms(4) by metis
  have i48: "i < 48" and sz: "class_size i \<noteq> 0"
    using assms(3) class_size_pos [of i] by (auto simp: is_class_def)
  obtain s where s: "slab_count a' = slab_count a" "region_wf (slab_count a) (fst s)"
      "slab_push_at (\<lambda>_. e) (slab_count a) i p s = (True, per_cpu_caches a')"
    using deallocate_pushes [OF inv assms(3,4,6,7)] by blast
  obtain s'' where "slab_pop_at (\<lambda>_. e) (slab_count a) i (per_cpu_caches a') = (p, s'')"
    using push_then_pop [OF assms(6) i48 s(2) p0 s(3)] by blast
  then show ?thesis
    using assms(5) sz p0 s(1) by (simp add: allocate_def round_size_class_eq Let_def)
qed

theorem free_then_allocate_witness:
  "\<exists>a' a''. deallocate (\<lambda>_. one_cpu) 8388608 demo1 = Some a' \<and> allocate (\<lambda>_. one_cpu) 28672 a' = Some (8388608, a'')"
proof -
  obtain L where inv: "alloc_inv demo1 L demo_held"
    using reach_inv [OF demo1_reach bump_mmap_ok] by blast
  have held: "8388608 \<in># demo_held 35"
    by (simp add: demo_held_def)
  obtain a' where run: "deallocate (\<lambda>_. one_cpu) 8388608 demo1 = Some a'"
    using deallocate_step [OF inv is_class_35 held, of "\<lambda>_. one_cpu"] by blast
  have "slab_cpu one_cpu (slab_count demo1) < slab_count demo1"
    by (simp add: demo1_slabs slab_cpu_def one_cpu_def current_cpu_id_def fallback_get_cpu_def)
  from free_then_allocate [OF bump_mmap_ok demo1_reach is_class_35 held demo_class_35 this run] show ?thesis
    using run by blast
qed

section \<open>Requests that fail\<close>

text \<open>
  \<open>deallocate\<close> of null, or of an address in no span, returns and leaves the allocator as it is.
\<close>

lemma deallocate_foreign:
  assumes "mmap_ok mmap" "alloc_reach mmap a M"
    and "p = 0 \<or> (\<forall>j s. spans (ph (world a)) j = Some s \<longrightarrow> p div PAGE_SIZE \<notin> pages_of s)"
  shows "deallocate sched p a = Some a"
proof -
  obtain L where "alloc_inv a L M"
    using reach_inv [OF assms(2,1)] by blast
  then have "world_ok (world a)"
    using alloc_inv_world is_class_35 by blast
  then have ok: "page_heap_ok (ph (world a))"
    by (simp add: world_ok_def)
  have "world_find p (world a) = None"
  proof (rule ccontr)
    assume "world_find p (world a) \<noteq> None"
    then obtain j where j: "page_map (ph (world a)) (p div PAGE_SIZE) = Some j"
      by (auto simp: world_find_def span_for_def lookup_def)
    obtain s where s: "spans (ph (world a)) j = Some s" "span_ok s"
      using ok j ph_inv_map ph_inv_space unfolding page_heap_ok_def by metis
    then have "p div PAGE_SIZE \<in> pages_of s"
      using page_heap_ok_disjoint [OF ok s(1)] j by blast
    then show False
      using assms(3) s by (auto simp: pages_of_def span_ok_def PAGE_SIZE_def)
  qed
  then show ?thesis
    by (simp add: deallocate_def)
qed

text \<open>
  A request above 262144 bytes gets null and leaves the allocator unchanged: there is no
  path for large allocations.
\<close>

lemma large_request_null: "262144 < n \<Longrightarrow> allocate sched n a = Some (0, a)"
  by (simp add: allocate_def round_size_class_eq first_class_None SizeClasses_def sci_def)

text \<open>The classes whose span is smaller than one object.\<close>

definition oversized_class :: "nat \<Rightarrow> bool" where
  "oversized_class i \<longleftrightarrow> is_class i \<and> sc_pages (SizeClasses ! i) * PAGE_SIZE < class_size i"

text \<open>
  C30: a request that rounds to a class whose object is larger than the class's span always gets
  null, in every reachable state, however much memory the system has.
\<close>

theorem oversized_request_fails:
  assumes "mmap_ok mmap" "alloc_reach mmap a M" "oversized_class (first_class n)"
  shows "\<exists>a'. allocate sched n a = Some (0, a')"
proof -
  let ?i = "first_class n"
  have i: "is_class ?i" "sc_pages (SizeClasses ! ?i) * PAGE_SIZE < class_size ?i"
    using assms(3) by (simp_all add: oversized_class_def)
  obtain L where inv: "alloc_inv a L M"
    using reach_inv [OF assms(2,1)] by blast
  obtain p a' L' where run: "allocate sched n a = Some (p, a')"
      and inv': "alloc_inv a' L' (if p = 0 then M else M(?i := add_mset p (M ?i)))"
    using allocate_step [OF inv, of sched n] by blast
  have "p = 0"
  proof (rule ccontr)
    assume "p \<noteq> 0"
    then have inv2: "alloc_inv a' L' (M(?i := add_mset p (M ?i)))"
      using inv' by simp
    have "p \<in># (M(?i := add_mset p (M ?i))) ?i"
      by simp
    then obtain A j s k where o: "cfl_state (free_list a' ?i) (world a') (L' ?i) A" "j \<in> set (L' ?i)"
        "live (world a') j = Some s" "k < total_objects s"
      using alloc_inv_object [OF inv2 i(1)] by blast
    have "obj_size (free_list a' ?i) = class_size ?i \<and> span_pages (free_list a' ?i) = sc_pages (SizeClasses ! ?i)"
      using inv2 i(1) unfolding alloc_inv_def central_inv_def by blast
    then have "total_objects s = 0"
      using cfl_state_span [OF o(1,2)] o(3) i(2) by (auto simp: good_span_def)
    then show False
      using o(4) by simp
  qed
  then show ?thesis
    using run by blast
qed

theorem oversized_request_fails_witness: "\<exists>a'. allocate demo_sched 8000 demo0 = Some (0, a')"
  by (rule oversized_request_fails [OF bump_mmap_ok alloc_reach.start [OF demo0_new]])
    (simp add: oversized_class_def is_class_def first_class_def upt_rec SizeClasses_def sci_def PAGE_SIZE_def)

lemma first_class_le:
  assumes "n \<le> 262144" "0 < k" "k < 48"
  shows "first_class n \<le> k \<longleftrightarrow> n \<le> class_size k"
proof
  assume "first_class n \<le> k"
  then have "\<not> k < first_class n"
    by simp
  then have "\<not> class_size k < class_size (first_class n)"
    using class_size_less_iff [of k "first_class n"] assms(3) first_class_less [of n] by blast
  then show "n \<le> class_size k"
    using first_class_Some [OF assms(1)] by linarith
next
  assume "n \<le> class_size k"
  then have "\<not> class_size k < n"
    by simp
  then have "\<not> k < first_class n"
    using first_class_Some [OF assms(1)] assms(2) by blast
  then show "first_class n \<le> k"
    by simp
qed

lemma oversized_iff: "oversized_class i \<longleftrightarrow> i = 30 \<or> i = 33 \<or> 36 \<le> i \<and> i \<le> 47"
proof -
  let ?l = "filter (\<lambda>i. sc_pages (SizeClasses ! i) * PAGE_SIZE < class_size i) (tl [0..<48])"
  have e: "?l = [30, 33, 36, 37, 38, 39, 40, 41, 42, 43, 44, 45, 46, 47]"
    unfolding upt_48 by (simp add: SizeClasses_def sci_def PAGE_SIZE_def)
  have "oversized_class i \<longleftrightarrow> i \<in> set ?l"
    by (auto simp: oversized_class_def is_class_def simp del: upt.simps)
  also have "\<dots> \<longleftrightarrow> i \<in> set [30, 33, 36, 37, 38, 39, 40, 41, 42, 43, 44, 45, 46, 47]"
    unfolding e ..
  also have "\<dots> \<longleftrightarrow> i = 30 \<or> i = 33 \<or> 36 \<le> i \<and> i \<le> 47"
    by simp arith
  finally show ?thesis .
qed

text \<open>
  The requests of that kind are exactly those of 6145 to 8192, 12289 to 16384 and 28673 to
  262144 bytes (14 of the 47 classes).
\<close>

lemma oversized_requests:
  "oversized_class (first_class n) = (6144 < n \<and> n \<le> 8192 \<or> 12288 < n \<and> n \<le> 16384 \<or> 28672 < n \<and> n \<le> 262144)"
proof (cases "n \<le> 262144")
  case True
  have sizes: "class_size 29 = 6144" "class_size 30 = 8192" "class_size 32 = 12288" "class_size 33 = 16384"
      "class_size 35 = 28672"
    by (simp_all add: SizeClasses_def sci_def)
  note le = first_class_le [OF True]
  have "first_class n \<le> 29 \<longleftrightarrow> n \<le> 6144" "first_class n \<le> 30 \<longleftrightarrow> n \<le> 8192" "first_class n \<le> 32 \<longleftrightarrow> n \<le> 12288"
      "first_class n \<le> 33 \<longleftrightarrow> n \<le> 16384" "first_class n \<le> 35 \<longleftrightarrow> n \<le> 28672"
    using le [of 29] le [of 30] le [of 32] le [of 33] le [of 35] by (simp_all add: sizes)
  moreover have "first_class n \<le> 47"
    using first_class_less [of n] by simp
  ultimately show ?thesis
    unfolding oversized_iff using True by arith
next
  case False
  then show ?thesis
    using first_class_None [of n] by (simp add: oversized_class_def is_class_def)
qed

section \<open>Batches\<close>

lemma drain_loop_length: "length (fst (drain_loop pop n s)) \<le> n"
proof (induction n arbitrary: s)
  case (Suc n)
  obtain p s1 ps s2 where "pop s = (p, s1)" "drain_loop pop n s1 = (ps, s2)"
    by (metis prod.exhaust)
  then show ?case
    using Suc.IH [of s1] by simp
qed simp

text \<open>
  Neither batch overruns its array of \<open>MAX_BATCH_SIZE\<close> pointers: refilling asks for, and
  draining collects, at most the batch size of a class, which is at most \<open>MAX_BATCH_SIZE\<close>.
\<close>

lemma batches_fit:
  assumes "mmap_ok mmap" "alloc_reach mmap a M" "is_class i"
  shows "(\<exists>batch a'. refill_batch i (sc_batch_size (SizeClasses ! i)) a = Some (batch, a') \<and> length batch \<le> MAX_BATCH_SIZE)
     \<and> length (fst (drain_loop (slab_pop_at sched (slab_count a) i) (sc_batch_size (SizeClasses ! i))
                     (per_cpu_caches a))) \<le> MAX_BATCH_SIZE"
proof
  obtain L where inv: "alloc_inv a L M"
    using reach_inv [OF assms(2,1)] by blast
  have le: "sc_batch_size (SizeClasses ! i) \<le> MAX_BATCH_SIZE"
    using class_rows [OF assms(3)] by blast
  moreover obtain batch a' where "refill_batch i (sc_batch_size (SizeClasses ! i)) a = Some (batch, a')"
      "length batch \<le> sc_batch_size (SizeClasses ! i)"
    using refill_step [OF inv assms(3)] by blast
  ultimately show "\<exists>batch a'. refill_batch i (sc_batch_size (SizeClasses ! i)) a = Some (batch, a') \<and> length batch \<le> MAX_BATCH_SIZE"
    by (meson order.trans)
  show "length (fst (drain_loop (slab_pop_at sched (slab_count a) i) (sc_batch_size (SizeClasses ! i))
                     (per_cpu_caches a))) \<le> MAX_BATCH_SIZE"
    by (rule order.trans [OF drain_loop_length le])
qed

end
