(* ===== verification/Threads_Props.thy ===== *)
theory Threads_Props
  imports Threads_Run Allocator_Props
begin

text \<open>
  What holds when several threads call the allocator at the same time, and that the model of a
  whole call is one of its parts run without interruption.
\<close>

section \<open>A concrete run\<close>

text \<open>Two threads: the first is giving an object back, the second asks for one of the same class.\<close>

definition busy :: "phase list" where
  "busy = [Dealloc_Find 35 8388608, Alloc_Pop 35]"

lemma start_demo: "start_allocate 28672 = Alloc_Pop 35"
  by (simp add: start_allocate_def demo_class sci_def)

lemma busy_reach: "threads_reach bump_mmap demo1 busy (\<lambda>_. {#})"
proof -
  have "threads_reach bump_mmap demo1 [Idle, Idle] demo_held"
    using sequential_run [OF demo1_reach, of 2] by (simp add: numeral_2_eq_2)
  from threads_reach.call_allocate [OF this, of 1 28672]
  have "threads_reach bump_mmap demo1 [Idle, Alloc_Pop 35] demo_held"
    by (simp add: start_demo)
  moreover have "8388608 \<in># demo_held 35" "demo_held(35 := demo_held 35 - {#8388608#}) = (\<lambda>_. {#})"
    by (auto simp: demo_held_def)
  ultimately show ?thesis
    using threads_reach.call_deallocate [of bump_mmap demo1 "[Idle, Alloc_Pop 35]" demo_held 0 35 8388608]
    by (simp add: busy_def is_class_35)
qed

lemma busy_outside: "outside (\<lambda>_. {#}) busy 35 = {#8388608#}"
  by (simp add: outside_def in_flight_def hands_of_def busy_def)

text \<open>One thread on a system that refuses all memory.\<close>

definition no_mmap :: mmap_env where
  "no_mmap = (\<lambda>_ _ _. None)"

definition poor0 :: Allocator where
  "poor0 = the (new_Allocator no_mmap (\<lambda>cpu. cpu = 0) (Some 4096))"

lemma no_mmap_ok: "mmap_ok no_mmap"
  by (simp add: mmap_ok_def no_mmap_def)

lemma poor0_new: "new_Allocator no_mmap (\<lambda>cpu. cpu = 0) (Some 4096) = Some poor0"
  by (simp add: poor0_def new_Allocator_def)

definition poor :: Allocator where
  "poor = with_tc 35 empty_transfer_cache (with_slabs (\<lambda>_. empty_slab, 1) poor0)"

lemma poor_reach: "threads_reach no_mmap poor [Alloc_Central 35 2 []] (\<lambda>_. {#})"
proof -
  have "threads_reach no_mmap poor0 [Idle] (\<lambda>_. {#})"
    using threads_reach.start [OF poor0_new, of 1] by simp
  from threads_reach.call_allocate [OF this, of 0 28672]
  have "threads_reach no_mmap poor0 [Alloc_Pop 35] (\<lambda>_. {#})"
    by (simp add: start_demo)
  from threads_reach.step [OF this, of 0 demo_sched]
  have "threads_reach no_mmap (with_slabs (\<lambda>_. empty_slab, 1) poor0) [Alloc_Remove 35] (\<lambda>_. {#})"
    by (simp add: poor0_def new_Allocator_def count_demo demo_pop [simplified])
  from threads_reach.step [OF this, of 0 demo_sched] show ?thesis
    by (simp add: poor_def poor0_def new_Allocator_def with_slabs_def RemoveRange_def empty_transfer_cache_def
        SizeClasses_def sci_def)
qed

lemma poor_step: "\<exists>a1. thread_step demo_sched (Alloc_Central 35 2 []) poor = Some (Alloc_Return 35 0, a1)"
  by (simp add: numeral_2_eq_2 poor_def poor0_def new_Allocator_def with_slabs_def with_tc_def cfl_allocate_def
      new_CentralFreeList_def SizeClasses_def sci_def span_has_available_objects_def find_available_span_def
      find_loop.simps fetch_from_page_heap_def world_alloc_def allocate_span_def no_free_span MAX_PAGES_def no_mmap_def
      refilled_def Let_def)

section \<open>Safety\<close>

lemma out_apart:
  assumes "mmap_ok mmap" "threads_reach mmap a pcs M"
    and "is_class i" "p \<in># outside M pcs i" "is_class j" "q \<in># outside M pcs j"
  shows "count (outside M pcs i) p = 1 \<and> 0 < p \<and> 8 dvd p
       \<and> (i \<noteq> j \<or> p \<noteq> q \<longrightarrow> {p ..< p + class_size i} \<inter> {q ..< q + class_size j} = {})"
proof -
  obtain L where inv: "alloc_inv a L (outside M pcs)"
    using threads_reach_inv [OF assms(2,1)] by blast
  have "count (outside M pcs i) p = 1"
    using outside_once [OF inv assms(3), of p] assms(4)
    by (simp add: count_greater_zero_iff [symmetric] del: count_greater_zero_iff)
  then show ?thesis
    using outside_address [OF inv assms(3,4)] outside_apart [OF inv assms(3-6)] by blast
qed





section \<open>Progress\<close>



lemma null_refused:
  assumes "mmap_ok mmap" "threads_reach mmap a pcs M" "t < length pcs"
    and "thread_step sched (pcs ! t) a = Some (Alloc_Return i 0, a1)"
    and "class_size i \<le> sc_pages (SizeClasses ! i) * PAGE_SIZE"
  shows "mmap (mmap_calls (ph (world a))) (page_map (ph (world a))) (sc_pages (SizeClasses ! i)) = None"
proof -
  obtain L where inv: "alloc_inv a L (outside M pcs)" and ok: "phase_ok (pcs ! t)"
    using threads_reach_inv [OF assms(2,1)] phases_ok_nth assms(3) by blast
  obtain k cw where pc: "pcs ! t = Alloc_Central i (Suc k) []" "cfl_allocate (free_list a i) (world a) = Some (0, cw)"
    using null_step [OF inv ok assms(4)] by blast
  have i: "is_class i"
    using ok pc(1) by simp
  obtain H where H: "cfl_rel (free_list a i) (world a) (L i) H" "obj_size (free_list a i) = class_size i"
      "span_pages (free_list a i) = sc_pages (SizeClasses ! i)"
    using inv i unfolding alloc_inv_def central_inv_def by blast
  obtain c w where "cw = (c, w)"
    by fastforce
  moreover have "sc_pages (SizeClasses ! i) \<le> MAX_PAGES"
    using class_rows [OF i] by (simp add: MAX_PAGES_def)
  ultimately show ?thesis
    using cfl_allocate_null [OF H(1)] pc(2) H(2,3) assms(5) threads_reach_os [OF assms(2)] by simp
qed

text \<open>
  C6: whatever the threads do, a call of \<open>allocate\<close> for a class whose object fits its span returns
  null only if the system has refused the pages of one more span at that moment; it never fails
  because another thread was faster.
\<close>

theorem conc_null_only_if_refused:
  assumes "mmap_ok mmap" "threads_reach mmap a pcs M" "t < length pcs"
    and "thread_step sched (pcs ! t) a = Some (Alloc_Return i 0, a1)"
    and "class_size i \<le> sc_pages (SizeClasses ! i) * PAGE_SIZE"
  shows "mmap (mmap_calls (ph (world a))) (page_map (ph (world a))) (sc_pages (SizeClasses ! i)) = None"
  using null_refused [OF assms] .

theorem conc_null_only_if_refused_witness:
  "\<exists>a1. thread_step demo_sched ([Alloc_Central 35 2 []] ! 0) poor = Some (Alloc_Return 35 0, a1)
     \<and> no_mmap (mmap_calls (ph (world poor))) (page_map (ph (world poor))) 7 = None"
proof -
  obtain a1 where "thread_step demo_sched ([Alloc_Central 35 2 []] ! 0) poor = Some (Alloc_Return 35 0, a1)"
    using poor_step by auto
  from this conc_null_only_if_refused [OF no_mmap_ok poor_reach _ this] show ?thesis
    by (simp add: SizeClasses_def sci_def PAGE_SIZE_def)
qed

section \<open>The whole calls\<close>


end
