(* ===== verification/Typed_State.thy ===== *)
theory Typed_State
  imports Threads_Props
begin

text \<open>
  Every integer of a reachable state is in the range of the C++ type of its field. The model keeps
  the members as natural numbers and writes a wrap-around only where the code can reach one, so
  this is what makes its numbers those of the code. The 32-bit and 16-bit fields are followed
  through every operation; the page numbers of spans, which the code keeps in 64 bits, are
  bounded by the invariant of the page heap, and the pointers by the invariant of the allocator.
\<close>

section \<open>Typing\<close>

definition span_typed :: "Span \<Rightarrow> bool" where
  "span_typed s \<longleftrightarrow> span_size s < 2 ^ 32 \<and> total_objects s < 2 ^ 32 \<and> num_free_objects s < 2 ^ 32
     \<and> next_uninitialized s < 2 ^ 32 \<and> freelist_head s < 2 ^ 16"

definition heap_typed :: "PageHeap \<Rightarrow> bool" where
  "heap_typed h \<longleftrightarrow> (\<forall>i s. spans h i = Some s \<longrightarrow> span_typed s)"

definition world_typed :: "World \<Rightarrow> bool" where
  "world_typed w \<longleftrightarrow> heap_typed (ph w) \<and> (\<forall>x. cells w x < 2 ^ 16)"

definition list_typed :: "CentralFreeList \<Rightarrow> bool" where
  "list_typed c \<longleftrightarrow> obj_size c < 2 ^ 32 \<and> num_free c < 2 ^ 32 \<and> span_pages c < 2 ^ 8"

definition cache_typed :: "TransferCache \<Rightarrow> bool" where
  "cache_typed tc \<longleftrightarrow> used_slots tc < 2 ^ 32 \<and> (\<forall>p\<in>set (slots tc). p < 2 ^ 64)"

definition slab_typed :: "Slabs \<Rightarrow> bool" where
  "slab_typed s \<longleftrightarrow> (\<forall>c. currents s c < 2 ^ 16) \<and> (\<forall>k. pointers s k < 2 ^ 64)"

lemmas typed_defs = span_typed_def list_typed_def cache_typed_def slab_typed_def

section \<open>Results\<close>

text \<open>
  \<open>pred_option P r\<close>: if the operation returns, its result satisfies \<open>P\<close>. The rules follow the
  statements of an operation; the collection holds one rule per operation.
\<close>

named_theorems typed "what the operations do to typed states"

lemma typed_bind: "pred_option Q m \<Longrightarrow> (\<And>x. Q x \<Longrightarrow> pred_option P (f x)) \<Longrightarrow> pred_option P (m \<bind> f)"
  by (cases m) auto

lemma typed_return: "P x \<Longrightarrow> pred_option P (Some x)"
  by simp

lemma typed_result: "pred_option P m \<Longrightarrow> m = Some x \<Longrightarrow> P x"
  by simp

section \<open>The page heap\<close>

lemma heap_typedD: "heap_typed h \<Longrightarrow> spans h i = Some s \<Longrightarrow> span_typed s"
  by (simp add: heap_typed_def)

lemma heap_typed_same [simp]:
  "heap_typed (h\<lparr>free_lists := fl\<rparr>) = heap_typed h" "heap_typed (h\<lparr>page_map := pm\<rparr>) = heap_typed h"
  "heap_typed (h\<lparr>mmap_calls := k\<rparr>) = heap_typed h"
  by (simp_all add: heap_typed_def)

lemma new_Span_typed [simp]: "span_typed (new_Span\<lparr>start := a, num_pages := b, span_size := c, is_free := d\<rparr>) = (c < 2 ^ 32)"
  "span_typed (new_Span\<lparr>start := a, num_pages := b, span_size := c\<rparr>) = (c < 2 ^ 32)"
  by (simp_all add: span_typed_def new_Span_def INVALID_INDEX_def)

lemma span_typed_fields [simp]:
  "span_typed (s\<lparr>start := a\<rparr>) = span_typed s" "span_typed (s\<lparr>num_pages := b\<rparr>) = span_typed s"
  "span_typed (s\<lparr>nxt := p\<rparr>) = span_typed s" "span_typed (s\<lparr>prv := p\<rparr>) = span_typed s"
  "span_typed (s\<lparr>is_free := d\<rparr>) = span_typed s"
  by (simp_all add: span_typed_def)

lemma span_typed_size: "span_typed s \<Longrightarrow> n < 2 ^ 32 \<Longrightarrow> span_typed (s\<lparr>span_size := n\<rparr>)"
  by (simp add: span_typed_def)

lemma typed_lookup [typed]:
  "heap_typed h \<Longrightarrow> pred_option span_typed (spans h i)"
  using heap_typedD by (cases "spans h i") auto

lemma typed_upd [typed]: "heap_typed h \<Longrightarrow> (\<And>s. span_typed s \<Longrightarrow> span_typed (f s)) \<Longrightarrow> pred_option heap_typed (upd_span i f h)"
  by (auto simp: upd_span_def heap_typed_def split: option.split if_split_asm)

lemma typed_new: "new_object s h = (i, h1) \<Longrightarrow> heap_typed h \<Longrightarrow> span_typed s \<Longrightarrow> heap_typed h1"
  by (auto simp: new_object_def heap_typed_def split: if_split_asm)

lemma typed_delete [typed]: "heap_typed h \<Longrightarrow> pred_option heap_typed (delete_object i h)"
  by (auto simp: delete_object_def heap_typed_def split: option.split if_split_asm)

lemma typed_register [typed]: "heap_typed h \<Longrightarrow> pred_option heap_typed (register_span i h)"
  and typed_unregister [typed]: "heap_typed h \<Longrightarrow> pred_option heap_typed (unregister_span i h)"
  by (cases "spans h i"; simp add: register_span_def unregister_span_def)+

lemmas typed_seq = typed_bind [where Q = heap_typed] typed_bind [where Q = span_typed]

lemma typed_remove [typed]: "heap_typed h \<Longrightarrow> pred_option heap_typed (remove_from_free_list i h)"
  unfolding remove_from_free_list_def by (auto intro!: typed_seq typed split: option.split)

lemma typed_insert_loop [typed]:
  assumes "heap_typed h"
  shows "pred_option heap_typed (insert_loop np i prev cur h)"
proof -
  define P where "P = (\<lambda>(np :: nat) (i :: nat) (prev :: ptr) (cur :: ptr) h r. heap_typed h \<longrightarrow> heap_typed r)"
  have "P np i prev cur h r" if "insert_loop np i prev cur h = Some r" for r
    using _ that
  proof (rule insert_loop.raw_induct)
    fix f np i prev cur h r
    assume IH: "\<And>np i prev cur h r. f np i prev cur h = Some r \<Longrightarrow> P np i prev cur h r"
      and r: "(case cur of
        None \<Rightarrow> do {
          p \<leftarrow> prev;
          h1 \<leftarrow> upd_span p (\<lambda>q. q\<lparr>nxt := Some i\<rparr>) h;
          upd_span i (\<lambda>q. q\<lparr>prv := prev\<rparr>) h1 }
      | Some c \<Rightarrow> do {
          si \<leftarrow> spans h i;
          sc \<leftarrow> spans h c;
          if start si < start sc then do {
            h1 \<leftarrow> upd_span i (\<lambda>q. q\<lparr>nxt := Some c, prv := prev\<rparr>) h;
            h2 \<leftarrow> upd_span c (\<lambda>q. q\<lparr>prv := Some i\<rparr>) h1;
            (case prev of
               Some p \<Rightarrow> upd_span p (\<lambda>q. q\<lparr>nxt := Some i\<rparr>) h2
             | None \<Rightarrow> Some (h2\<lparr>free_lists := (free_lists h2)(np := Some i)\<rparr>)) }
          else f np i (Some c) (nxt sc) h }) = Some r" (is "?body = _")
    have "pred_option heap_typed (f np i p c h)" if "heap_typed h" for p c
      using IH that by (auto simp: P_def pred_option_def)
    then have "pred_option heap_typed ?body" if "heap_typed h"
      using that by (cases prev; cases cur) (auto intro!: typed_seq typed)
    then show "P np i prev cur h r"
      using typed_result [OF _ r] by (auto simp: P_def)
  qed
  then show ?thesis
    using assms by (auto simp: P_def pred_option_def)
qed

lemma typed_insert [typed]: "heap_typed h \<Longrightarrow> pred_option heap_typed (insert_span np i h)"
  unfolding insert_span_def by (auto intro!: typed_seq typed split: option.split)

lemma typed_split [typed]: "heap_typed h \<Longrightarrow> pred_option heap_typed (split_span i n h)"
  unfolding split_span_def by (auto intro!: typed_seq typed dest!: typed_new split: prod.split)

lemma typed_absorb:
  assumes "heap_typed h" "\<And>sj q. span_typed sj \<Longrightarrow> span_typed q \<Longrightarrow> span_typed (f sj q)"
  shows "pred_option heap_typed (absorb f i j h)"
  unfolding absorb_def using assms by (auto intro!: typed_seq typed)

lemma typed_coalesce [typed]: "heap_typed h \<Longrightarrow> pred_option heap_typed (coalesce i h)"
proof -
  have left: "heap_typed h \<Longrightarrow> pred_option heap_typed (coalesce_left i h)" for h
    unfolding coalesce_left_def by (auto intro!: typed_seq typed typed_absorb split: option.split)
  have right: "heap_typed h \<Longrightarrow> pred_option heap_typed (coalesce_right i h)" for h
    unfolding coalesce_right_def by (auto intro!: typed_seq typed typed_absorb split: option.split)
  show "heap_typed h \<Longrightarrow> pred_option heap_typed (coalesce i h)"
    unfolding coalesce_def by (rule typed_bind [OF left right])
qed

lemma typed_carve_loop [typed]:
  assumes "heap_typed h"
  shows "pred_option heap_typed (carve_loop i h)"
proof -
  define P where "P = (\<lambda>(i :: nat) h r. heap_typed h \<longrightarrow> heap_typed r)"
  have "P i h r" if "carve_loop i h = Some r" for r
    using _ that
  proof (rule carve_loop.raw_induct)
    fix g i h r
    assume IH: "\<And>i h r. g i h = Some r \<Longrightarrow> P i h r"
      and r: "do {
     s \<leftarrow> spans h i;
     if num_pages s \<le> MAX_PAGES then Some h
     else (case new_object (new_Span\<lparr>start := start s, num_pages := MAX_PAGES, span_size := 0,
                              is_free := True\<rparr>) h of
       (f, h0) \<Rightarrow> do {
         h1 \<leftarrow> unregister_span i h0;
         h2 \<leftarrow> upd_span i (\<lambda>q. q\<lparr>start := start q + MAX_PAGES, num_pages := num_pages q - MAX_PAGES\<rparr>) h1;
         h3 \<leftarrow> register_span i h2;
         h4 \<leftarrow> register_span f h3;
         h5 \<leftarrow> insert_span MAX_PAGES f h4;
         g i h5 }) } = Some r" (is "?body = _")
    have "pred_option heap_typed (g i h)" if "heap_typed h" for h
      using IH that by (auto simp: P_def pred_option_def)
    then have "pred_option heap_typed ?body" if "heap_typed h"
      using that by (auto intro!: typed_seq typed dest!: typed_new split: prod.split)
    then show "P i h r"
      using typed_result [OF _ r] by (auto simp: P_def)
  qed
  then show ?thesis
    using assms by (auto simp: P_def pred_option_def)
qed

lemma typed_take:
  assumes "heap_typed h" "sz < 2 ^ 32"
  shows "pred_option (\<lambda>(r, h). heap_typed h) (take_span b n sz h)"
  unfolding take_span_def using assms
  by (auto intro!: typed_seq typed span_typed_size)

lemma typed_search:
  "heap_typed h \<Longrightarrow> sz < 2 ^ 32 \<Longrightarrow> pred_option (\<lambda>(r, h). heap_typed h) (alloc_search i n sz h)"
proof (induction i n sz h rule: alloc_search.induct)
  case (1 i n sz h)
  then show ?case
    using typed_take [of h sz _ n] by (subst alloc_search.simps) (auto split: option.split)
qed

lemma typed_allocate_span:
  assumes "heap_typed h" "sz < 2 ^ 32"
  shows "pred_option (\<lambda>(r, h). heap_typed h) (allocate_span mmap n sz h)"
  using typed_search [OF assms, of n n] assms
  by (auto simp: allocate_span_def Let_def intro!: typed_seq typed dest!: typed_new split: option.split prod.split)

lemma typed_return_span [typed]: "heap_typed h \<Longrightarrow> pred_option heap_typed (return_span i h)"
  unfolding return_span_def by (auto intro!: typed_seq typed span_typed_size split: option.split)

section \<open>The central free list\<close>

definition list_world_typed :: "CentralFreeList \<times> World \<Rightarrow> bool" where
  "list_world_typed = (\<lambda>(c, w). list_typed c \<and> world_typed w)"

lemma list_world_typed_pair [simp]: "list_world_typed (c, w) \<longleftrightarrow> list_typed c \<and> world_typed w"
  by (simp add: list_world_typed_def)

abbreviation cells_typed :: "(addr \<Rightarrow> nat) \<Rightarrow> bool" where
  "cells_typed m \<equiv> \<forall>x. m x < 2 ^ 16"

lemma typed_world_write [typed]:
  "world_typed w \<Longrightarrow> (\<And>s. span_typed s \<Longrightarrow> span_typed (f s)) \<Longrightarrow> pred_option world_typed (world_write i f w)"
  unfolding world_write_def
  by (rule typed_bind [where Q = heap_typed]) (auto intro!: typed simp: world_typed_def)

lemma typed_world_return [typed]: "world_typed w \<Longrightarrow> pred_option world_typed (world_return i w)"
  unfolding world_return_def
  by (rule typed_bind [where Q = heap_typed]) (auto intro!: typed simp: world_typed_def)

lemma typed_world_alloc:
  "world_typed w \<Longrightarrow> sz < 2 ^ 32 \<Longrightarrow> pred_option (\<lambda>(r, w). world_typed w) (world_alloc n sz w)"
  unfolding world_alloc_def
  by (rule typed_bind [OF typed_allocate_span]) (auto simp: world_typed_def)

lemma typed_world_span [typed]: "world_typed w \<Longrightarrow> pred_option span_typed (spans (ph w) i)"
  by (auto simp: world_typed_def intro!: typed)

lemma world_typed_cells: "world_typed w \<Longrightarrow> cells_typed m \<Longrightarrow> world_typed (w\<lparr>cells := m\<rparr>)"
  by (simp add: world_typed_def)

lemmas typed_steps = typed_bind [where Q = world_typed] typed_bind [where Q = span_typed] typed_bind [where Q = list_world_typed]

lemma reset_span_typed [simp]: "span_typed s \<Longrightarrow> span_typed (reset_span s)"
  by (simp add: reset_span_def span_typed_def INVALID_INDEX_def)

lemma list_typed_fields [simp]:
  "list_typed (c\<lparr>span_list := x\<rparr>) = list_typed c" "list_typed (c\<lparr>current_span := x\<rparr>) = list_typed c"
  "list_typed (c\<lparr>num_free := n\<rparr>) = (list_typed c \<and> n < 2 ^ 32)" if "list_typed c" for c
  using that by (auto simp: list_typed_def)

lemma sub32_less [simp]: "sub32 a b < 4294967296" and sub16_less [simp]: "sub16 a b < 65536"
  by (simp_all add: sub32_def sub16_def)

lemma pack_loop_typed:
  "pack_loop node pk i cap e m = (pk1, i1, m1) \<Longrightarrow> cells_typed m \<Longrightarrow> pk < 2 ^ 16 \<Longrightarrow> cells_typed m1 \<and> pk1 < 2 ^ 16"
proof (induction node pk i cap e m rule: pack_loop.induct)
  case (1 node pk i cap e m)
  show ?case
  proof (cases "pk < cap \<and> i < e")
    case True
    then have "pack_loop node (u16 (pk + 1)) (i + 1) cap e (m(packed_indexes node pk := u16 i)) = (pk1, i1, m1)"
      using "1.prems"(1) by (subst (asm) pack_loop.simps) simp
    from "1.IH" [OF True this] show ?thesis
      using "1.prems"(2) by simp
  next
    case False
    then show ?thesis
      using "1.prems" by (subst (asm) pack_loop.simps) auto
  qed
qed

lemma populate_loop_typed:
  "populate_loop base sz cap e i hd_idx sf lf m = (hd1, sf1, lf1, m1) \<Longrightarrow>
     cells_typed m \<Longrightarrow> hd_idx < 2 ^ 16 \<Longrightarrow> sf < 2 ^ 32 \<Longrightarrow> lf < 2 ^ 32 \<Longrightarrow>
     cells_typed m1 \<and> hd1 < 2 ^ 16 \<and> sf1 < 2 ^ 32 \<and> lf1 < 2 ^ 32"
proof (induction base sz cap e i hd_idx sf lf m rule: populate_loop.induct)
  case (1 base sz cap e i hd_idx sf lf m)
  show ?case
  proof (cases "i < e")
    case True
    let ?node = "index_to_ptr (u16 i) base sz"
    obtain pk i1 m2 where pack: "pack_loop ?node 0 (i + 1) cap e (m(next_idx ?node := hd_idx)) = (pk, i1, m2)"
      by (metis prod.exhaust)
    then have m2: "cells_typed m2 \<and> pk < 2 ^ 16"
      by (rule pack_loop_typed) (use "1.prems"(2,3) in auto)
    have loop: "populate_loop base sz cap e i1 (u16 i) (u32 (sf + u32 (1 + pk))) (u32 (lf + u32 (1 + pk)))
        (m2(node_count ?node := pk)) = (hd1, sf1, lf1, m1)"
      using "1.prems"(1) True pack by (subst (asm) populate_loop.simps) simp
    show ?thesis
      by (rule "1.IH" [OF True pack [symmetric] refl loop]) (use m2 in simp_all)
  next
    case False
    then show ?thesis
      using "1.prems" by (subst (asm) populate_loop.simps) auto
  qed
qed

lemma typed_populate:
  assumes "world_typed w" "list_typed c"
  shows "pred_option list_world_typed (populate_span i c w)"
proof (cases i)
  case (Some k)
  show ?thesis
    unfolding populate_span_def Some option.simps
  proof (rule typed_bind [where Q = span_typed])
    show "pred_option span_typed (spans (ph w) k)"
      using assms(1) by (rule typed_world_span)
    fix s
    assume s: "span_typed s"
    obtain hd1 sf1 lf1 m1 where loop: "populate_loop (start s * PAGE_SIZE) (obj_size c) (pack_capacity (obj_size c))
        (min (total_objects s) (u32 (next_uninitialized s + max (PAGE_SIZE div obj_size c) 1))) (next_uninitialized s)
        (freelist_head s) (num_free_objects s) (num_free c) (cells w) = (hd1, sf1, lf1, m1)"
      by (metis prod.exhaust)
    then have m1: "cells_typed m1 \<and> hd1 < 2 ^ 16 \<and> sf1 < 2 ^ 32 \<and> lf1 < 2 ^ 32"
      by (rule populate_loop_typed) (use assms s in \<open>simp_all add: world_typed_def typed_defs\<close>)
    have "min (total_objects s) n < 2 ^ 32" for n
      using s by (simp add: span_typed_def min.strict_coboundedI1)
    then have "pred_option world_typed (world_write k (\<lambda>q. q\<lparr>freelist_head := hd1, num_free_objects := sf1,
        next_uninitialized := min (total_objects s) (u32 (next_uninitialized s + max (PAGE_SIZE div obj_size c) 1))\<rparr>) (w\<lparr>cells := m1\<rparr>))"
      using m1 assms(1) by (intro typed) (simp_all add: world_typed_cells span_typed_def)
    then show "pred_option list_world_typed (if total_objects s \<le> next_uninitialized s then Some (c, w)
          else
            let base = start s * PAGE_SIZE;
                cap = pack_capacity (obj_size c);
                objects_per_chunk = max (PAGE_SIZE div obj_size c) 1;
                chunk_end = min (total_objects s) (u32 (next_uninitialized s + objects_per_chunk))
            in (case populate_loop base (obj_size c) cap chunk_end (next_uninitialized s)
                       (freelist_head s) (num_free_objects s) (num_free c) (cells w) of
                  (hd_idx, span_free, list_free, m) \<Rightarrow> do {
                    w1 \<leftarrow> world_write k (\<lambda>q. q\<lparr>freelist_head := hd_idx, num_free_objects := span_free,
                                       next_uninitialized := chunk_end\<rparr>) (w\<lparr>cells := m\<rparr>);
                    Some (c\<lparr>num_free := list_free\<rparr>, w1) }))"
      using assms m1 by (auto simp: Let_def loop simp del: One_nat_def intro!: typed_bind [where Q = world_typed])
  qed
qed (use assms in \<open>simp add: populate_span_def list_world_typed_def\<close>)

lemma typed_fetch:
  assumes "world_typed w" "list_typed c"
  shows "pred_option list_world_typed (fetch_from_page_heap c w)"
  unfolding fetch_from_page_heap_def using assms
  by (auto simp: Let_def list_typed_def span_typed_def INVALID_INDEX_def
     intro!: typed_steps typed typed_bind [OF typed_world_alloc] split: option.split)

lemma typed_release:
  assumes "world_typed w" "list_typed c"
  shows "pred_option list_world_typed (release_to_page_heap i c w)"
  unfolding release_to_page_heap_def using assms
  by (auto simp: Let_def intro!: typed_steps typed split: option.split)

lemma pop_object_typed:
  "pop_object base sz hd_idx m = (p, hd1, m1) \<Longrightarrow> cells_typed m \<Longrightarrow> hd_idx < 2 ^ 16 \<Longrightarrow> cells_typed m1 \<and> hd1 < 2 ^ 16"
  by (auto simp: pop_object_def Let_def split: if_split_asm)

lemma push_object_typed:
  "push_object base sz hd_idx p m = (hd1, m1) \<Longrightarrow> cells_typed m \<Longrightarrow> hd_idx < 2 ^ 16 \<Longrightarrow> cells_typed m1 \<and> hd1 < 2 ^ 16"
  by (auto simp: push_object_def Let_def ptr_to_index_def split: if_split_asm)

lemma typed_any: "(\<And>x. pred_option P (f x)) \<Longrightarrow> pred_option P (m \<bind> f)"
  by (cases m) auto

text \<open>\<open>allocate\<close> once it has a span: carving if need be, then the object.\<close>

lemma typed_take_object:
  assumes "world_typed w" "list_typed c"
  shows "pred_option (\<lambda>(p, cw). list_world_typed cw) (do {
          s3 \<leftarrow> spans (ph w) i;
          if freelist_head s3 = INVALID_INDEX then Some (0, c, w)
          else (case pop_object (start s3 * PAGE_SIZE) (obj_size c) (freelist_head s3) (cells w) of
            (p, hd_idx, m) \<Rightarrow> do {
              w4 \<leftarrow> world_write i (\<lambda>q. q\<lparr>freelist_head := hd_idx,
                       num_free_objects := sub32 (num_free_objects q) 1\<rparr>) (w\<lparr>cells := m\<rparr>);
              Some (p, c\<lparr>num_free := sub32 (num_free c) 1\<rparr>, w4) }) })"
proof (rule typed_bind [OF typed_world_span [OF assms(1)]])
  fix s
  assume s: "span_typed s"
  obtain p hd1 m1 where pop: "pop_object (start s * PAGE_SIZE) (obj_size c) (freelist_head s) (cells w) = (p, hd1, m1)"
    by (metis prod.exhaust)
  then have "cells_typed m1 \<and> hd1 < 2 ^ 16"
    by (rule pop_object_typed) (use assms s in \<open>simp_all add: world_typed_def span_typed_def\<close>)
  then have "pred_option world_typed (world_write i (\<lambda>q. q\<lparr>freelist_head := hd1,
      num_free_objects := sub32 (num_free_objects q) 1\<rparr>) (w\<lparr>cells := m1\<rparr>))"
    using assms(1) by (intro typed) (simp_all add: world_typed_cells span_typed_def)
  then show "pred_option (\<lambda>(p, cw). list_world_typed cw) (if freelist_head s = INVALID_INDEX then Some (0, c, w)
          else (case pop_object (start s * PAGE_SIZE) (obj_size c) (freelist_head s) (cells w) of
            (p, hd_idx, m) \<Rightarrow> do {
              w4 \<leftarrow> world_write i (\<lambda>q. q\<lparr>freelist_head := hd_idx,
                       num_free_objects := sub32 (num_free_objects q) 1\<rparr>) (w\<lparr>cells := m\<rparr>);
              Some (p, c\<lparr>num_free := sub32 (num_free c) 1\<rparr>, w4) }))"
    using assms by (auto simp: pop intro!: typed_bind [where Q = world_typed])
qed

theorem typed_cfl_allocate:
  assumes "world_typed w" "list_typed c"
  shows "pred_option (\<lambda>(p, cw). list_world_typed cw) (cfl_allocate c w)"
proof -
  have fill: "pred_option list_world_typed (if freelist_head s = INVALID_INDEX then populate_span (Some i) c w else Some (c, w))"
    if "world_typed w" "list_typed c" for s i c w
    using that typed_populate [OF that, of "Some i"] by simp
  have fetch: "pred_option list_world_typed (if current_span c = nullptr then fetch_from_page_heap c w else Some (c, w))"
    if "list_typed c" for c
    using typed_fetch [OF assms(1) that] assms(1) that by simp
  show ?thesis
    unfolding cfl_allocate_def Let_def
    by (rule typed_any, rule typed_any, rule typed_bind [OF fetch])
      (use assms in \<open>auto simp del: One_nat_def split: option.split
        intro!: typed_bind [OF typed_world_span] typed_bind [OF fill] typed_take_object\<close>)
qed

theorem typed_cfl_deallocate:
  assumes "world_typed w" "list_typed c"
  shows "pred_option list_world_typed (cfl_deallocate p c w)"
proof (cases "p = 0 \<or> world_find p w = None")
  case True
  then show ?thesis
    using assms by (auto simp: cfl_deallocate_def)
next
  case False
  then obtain i where i: "p \<noteq> 0" "world_find p w = Some i"
    by auto
  show ?thesis
    unfolding cfl_deallocate_def
  proof (simp only: i option.simps if_False, rule typed_bind [OF typed_world_span [OF assms(1)]])
    fix s
    assume s: "span_typed s"
    obtain hd1 m1 where push: "push_object (start s * PAGE_SIZE) (obj_size c) (freelist_head s) p (cells w) = (hd1, m1)"
      by (metis prod.exhaust)
    then have "cells_typed m1 \<and> hd1 < 2 ^ 16"
      by (rule push_object_typed) (use assms s in \<open>simp_all add: world_typed_def span_typed_def\<close>)
    then have w1: "pred_option world_typed (world_write i (\<lambda>q. q\<lparr>freelist_head := hd1,
        num_free_objects := u32 (num_free_objects q + 1)\<rparr>) (w\<lparr>cells := m1\<rparr>))"
      using assms(1) by (intro typed) (simp_all add: world_typed_cells span_typed_def)
    show "pred_option list_world_typed (case push_object (start s * PAGE_SIZE) (obj_size c) (freelist_head s) p (cells w) of
             (hd_idx, m) \<Rightarrow> do {
               w1 \<leftarrow> world_write i (\<lambda>q. q\<lparr>freelist_head := hd_idx,
                        num_free_objects := u32 (num_free_objects q + 1)\<rparr>) (w\<lparr>cells := m\<rparr>);
               let c1 = c\<lparr>num_free := u32 (num_free c + 1)\<rparr> in do {
               s1 \<leftarrow> spans (ph w1) i;
               if num_free_objects s1 = total_objects s1 then release_to_page_heap i c1 w1
               else Some (c1, w1) } })"
      unfolding push prod.case Let_def
      by (rule typed_bind [OF w1]) (use assms(2) in \<open>auto simp del: One_nat_def intro!: typed_any typed_release\<close>)
  qed
qed

section \<open>The slabs and the transfer cache\<close>

lemma slab_pop_at_typed:
  assumes "slab_pop_at sched n i (region, k) = (p, region1, k1)" "\<And>cpu. slab_typed (region cpu)"
  shows "slab_typed (region1 cpu) \<and> p < 2 ^ 64"
  using assms
  by (auto simp: slab_pop_at_def slab_pop_eq slab_pop_fallback_def fallback_allocate_def Let_def slab_typed_def
      split: if_split_asm prod.split_asm)

lemma slab_push_at_typed:
  assumes "slab_push_at sched n i p (region, k) = (ok, region1, k1)" "\<And>cpu. slab_typed (region cpu)" "p < 2 ^ 64"
  shows "slab_typed (region1 cpu)"
  using assms
  by (auto simp: slab_push_at_def slab_push_eq slab_push_fallback_def fallback_deallocate_def Let_def slab_typed_def
      split: if_split_asm prod.split_asm)

lemma RemoveRange_typed:
  "RemoveRange n tc = ((batch, got), tc1) \<Longrightarrow> cache_typed tc \<Longrightarrow> cache_typed tc1 \<and> (\<forall>p\<in>set batch. p < 2 ^ 64)"
  by (auto simp: RemoveRange_def Let_def cache_typed_def sub32_def split: if_split_asm dest!: in_set_takeD in_set_dropD)

lemma InsertRange_typed:
  "InsertRange batch n tc = (k, tc1) \<Longrightarrow> cache_typed tc \<Longrightarrow> \<forall>p\<in>set batch. p < 2 ^ 64 \<Longrightarrow> cache_typed tc1"
  by (auto simp: InsertRange_def copy_in_def Let_def cache_typed_def split: if_split_asm dest!: in_set_takeD in_set_dropD)

section \<open>The allocator\<close>

definition state_typed :: "Allocator \<Rightarrow> bool" where
  "state_typed a \<longleftrightarrow> world_typed (world a) \<and> (\<forall>i. is_class i \<longrightarrow> list_typed (free_list a i))
     \<and> (\<forall>i. is_class i \<longrightarrow> cache_typed (transfer_caches a i)) \<and> (\<forall>cpu. slab_typed (fst (per_cpu_caches a) cpu))
     \<and> slab_count a < 2 ^ 32"

lemma typed_with_slabs: "state_typed a \<Longrightarrow> (\<And>cpu. slab_typed (fst s cpu)) \<Longrightarrow> state_typed (with_slabs s a)"
  by (simp add: state_typed_def with_slabs_def)

lemma typed_with_tc: "state_typed a \<Longrightarrow> cache_typed tc \<Longrightarrow> state_typed (with_tc i tc a)"
  by (simp add: state_typed_def with_tc_def)

lemma typed_with_central: "state_typed a \<Longrightarrow> list_world_typed cw \<Longrightarrow> state_typed (with_central i cw a)"
  by (cases cw) (simp add: state_typed_def with_central_def)

lemma typed_pop:
  assumes "slab_pop_at sched (slab_count a) i (per_cpu_caches a) = (p, s)" "state_typed a"
  shows "state_typed (with_slabs s a)"
  using slab_pop_at_typed [of sched _ i "fst (per_cpu_caches a)" "snd (per_cpu_caches a)" p "fst s" "snd s"] assms
  by (intro typed_with_slabs) (simp_all add: state_typed_def)

lemma typed_push:
  assumes "slab_push_at sched (slab_count a) i p (per_cpu_caches a) = (ok, s)" "state_typed a" "p < 2 ^ 64"
  shows "state_typed (with_slabs s a)"
  using slab_push_at_typed [of sched _ i p "fst (per_cpu_caches a)" "snd (per_cpu_caches a)" ok "fst s" "snd s"] assms
  by (intro typed_with_slabs) (simp_all add: state_typed_def)

lemma typed_insert_step:
  assumes "insert_step i batch give after a = (pc1, a1)" "is_class i" "state_typed a" "\<forall>p\<in>set batch. p < 2 ^ 64"
  shows "state_typed a1"
proof -
  obtain k tc where "InsertRange batch (length batch) (transfer_caches a i) = (k, tc)"
    by fastforce
  then show ?thesis
    using assms InsertRange_typed [of batch "length batch" "transfer_caches a i" k tc]
    by (auto simp: insert_step_def state_typed_def with_tc_def)
qed

lemma typed_put:
  assumes "cfl_deallocate p (free_list a i) (world a) = Some cw" "is_class i" "state_typed a"
  shows "state_typed (with_central i cw a)"
  using typed_result [OF typed_cfl_deallocate assms(1)] assms(2,3) by (intro typed_with_central) (auto simp: state_typed_def)

lemma typed_give_step:
  assumes "give_step i batch give after a = Some (pc1, a1)" "is_class i" "state_typed a"
  shows "state_typed a1"
  using assms typed_put by (auto simp: give_step_def split: list.split_asm elim!: bind_SomeE)

theorem thread_step_typed:
  assumes step: "thread_step sched pc a = Some (pc1, a1)" and ok: "phase_ok pc" and typed: "state_typed a"
    and hands: "\<forall>p\<in>#hands pc. p < 2 ^ 64"
  shows "state_typed a1"
proof (cases pc)
  case (Alloc_Central i k batch)
  show ?thesis
  proof (cases k)
    case (Suc n)
    then obtain p cw where cw: "cfl_allocate (free_list a i) (world a) = Some (p, cw)" "a1 = with_central i cw a"
      using step by (auto simp: Alloc_Central elim!: bind_SomeE)
    have "list_world_typed cw"
      using typed_result [OF typed_cfl_allocate cw(1)] ok typed by (simp add: Alloc_Central state_typed_def)
    then show ?thesis
      unfolding cw(2) by (rule typed_with_central [OF typed])
  qed (use step typed Alloc_Central in simp)
next
  case (Alloc_Remove i)
  obtain batch got tc where r: "RemoveRange (batch_size_of i) (transfer_caches a i) = ((batch, got), tc)"
    by (metis surj_pair)
  then have "cache_typed tc"
    using RemoveRange_typed [OF r] ok typed by (simp add: Alloc_Remove state_typed_def)
  then show ?thesis
    using step typed_with_tc [OF typed] by (auto simp: Alloc_Remove r)
qed (use step ok typed hands in \<open>auto simp: Let_def elim!: bind_SomeE
       split: if_split_asm prod.split_asm option.split_asm
       intro: typed_pop typed_push typed_put typed_insert_step [OF _ _ typed] typed_give_step\<close>)

section \<open>Every reachable state\<close>

lemma count_slabs_less: "count_slabs affinity < 2 ^ 32"
proof -
  have "fold (\<lambda>cpu n. if affinity cpu then u32 (cpu + 1) else n) xs n < 4294967296" if "n < 4294967296" for xs n
    using that by (induction xs arbitrary: n) auto
  from this [of 0 "[0..<CPU_SETSIZE]"] show ?thesis
    by (simp add: count_slabs_def Let_def)
qed

lemma new_Allocator_typed:
  assumes "new_Allocator mmap affinity region = Some a"
  shows "state_typed a"
proof -
  have "list_typed (new_CentralFreeList (SizeClasses ! i))" if "is_class i" for i
    using class_rows [OF that] by (simp add: list_typed_def new_CentralFreeList_def)
  then show ?thesis
    using assms count_slabs_less [of affinity]
    by (auto simp: new_Allocator_def state_typed_def world_typed_def heap_typed_def empty_PageHeap_def cache_typed_def
        empty_transfer_cache_def slab_typed_def empty_slab_def split: option.split_asm)
qed

lemma outside_less:
  assumes inv: "alloc_inv a L M" and i: "is_class i" "p \<in># M i"
  shows "p + class_size i \<le> 2 ^ 64"
proof -
  obtain j s where s: "spans (ph (world a)) j = Some s" "\<forall>x\<in>{p ..< p + class_size i}. x div PAGE_SIZE \<in> pages_of s"
    using outside_address [OF inv i] by blast
  have "span_ok s"
    using alloc_inv_world [OF inv i(1)] s(1) ph_inv_space by (auto simp: world_ok_def page_heap_ok_def)
  moreover have "8 \<le> class_size i"
    using class_rows [OF i(1)] by blast
  then have "p + class_size i - 1 \<in> {p ..< p + class_size i}"
    unfolding atLeastLessThan_iff by linarith
  then have "(p + class_size i - 1) div PAGE_SIZE \<in> pages_of s"
    using s(2) by blast
  ultimately have "(p + class_size i - 1) div 4096 < 2 ^ 52"
    by (simp add: pages_of_def span_ok_def PAGE_SIZE_def)
  then show ?thesis
    by simp
qed

lemma threads_reach_typed: "threads_reach mmap a pcs M \<Longrightarrow> mmap_ok mmap \<Longrightarrow> state_typed a"
proof (induction rule: threads_reach.induct)
  case (start affinity region a n)
  then show ?case
    using new_Allocator_typed by blast
next
  case (step a pcs M t sched pc1 a1)
  obtain L where inv: "alloc_inv a L (outside M pcs)" and ok: "phase_ok (pcs ! t)"
    using threads_reach_inv [OF step.hyps(1) step.prems] phases_ok_nth step.hyps(2) by blast
  have "p < 2 ^ 64" if p: "p \<in># hands (pcs ! t)" for p
  proof -
    let ?i = "phase_class (pcs ! t)"
    have i: "is_class ?i"
      using ok p by (cases "pcs ! t") (auto split: if_split_asm)
    have "p \<in># outside M (pcs[t := pcs ! t]) ?i"
      using p unfolding outside_upd [OF step.hyps(2)] by (simp add: holding_def)
    then show ?thesis
      using outside_less [OF inv i] class_rows [OF i] by fastforce
  qed
  then show ?case
    using thread_step_typed [OF step.hyps(3) ok] step.IH step.prems by blast
next
  case (use a pcs M m)
  have "m x < 2 ^ 16" for x
    using use.hyps(2) use.IH use.prems
    by (cases "m x = cells (world a) x") (auto simp: program_write_def state_typed_def world_typed_def)
  then show ?case
    using use by (simp add: state_typed_def set_cells_def world_typed_def)
qed

text \<open>
  C11: in every state that any number of threads can reach, each integer is in the range of its C++
  type (\<open>uint8_t\<close>, \<open>uint16_t\<close>, \<open>uint32_t\<close>, and 64 bits for the pointers in the caches), every
  16-bit cell of the spans' memory holds a 16-bit value, every span ends within the 64-bit address
  space, and so does every object the program or a thread has. The sums of page numbers in the
  page heap and of addresses in the central free lists, modelled without a wrap-around, have none.
\<close>

theorem reachable_well_typed:
  assumes "mmap_ok mmap" "threads_reach mmap a pcs M"
  shows "state_typed a
     \<and> (\<forall>j s. spans (ph (world a)) j = Some s \<longrightarrow> (start s + num_pages s) * PAGE_SIZE \<le> 2 ^ 64)
     \<and> (\<forall>i p. is_class i \<longrightarrow> p \<in># outside M pcs i \<longrightarrow> p + class_size i \<le> 2 ^ 64)"
proof -
  obtain L where inv: "alloc_inv a L (outside M pcs)"
    using threads_reach_inv [OF assms(2,1)] by blast
  have "world_ok (world a)"
    using alloc_inv_world [OF inv, of 1] by (simp add: is_class_def)
  then have "span_ok s" if "spans (ph (world a)) j = Some s" for j s
    using that ph_inv_space by (auto simp: world_ok_def page_heap_ok_def)
  then have "(start s + num_pages s) * PAGE_SIZE \<le> 2 ^ 64" if "spans (ph (world a)) j = Some s" for j s
    using that by (fastforce simp: span_ok_def PAGE_SIZE_def)
  then show ?thesis
    using threads_reach_typed [OF assms(2,1)] outside_less [OF inv] by blast
qed

theorem reachable_well_typed_witness: "state_typed demo1 \<and> (8388608 :: nat) + class_size 35 \<le> 2 ^ 64"
  using reachable_well_typed [OF bump_mmap_ok busy_reach] is_class_35 busy_outside by simp

end
