(* ===== verification/Locks.thy ===== *)
theory Locks
  imports Threads_Props
begin

text \<open>
  The mutexes. In \<open>Threads\<close> each part of a call is one step; here it is the sequence of the mutexes
  it takes and gives back, with the step at the point where the part takes effect. A central free
  list takes the mutex of the page heap inside its own when it needs a span or gives one back.
  The order is the same everywhere, so no set of threads can wait for each other in a circle,
  and each part touches the shared data only while it holds the mutexes that protect it.
\<close>

section \<open>Mutexes and what a part does with them\<close>

text \<open>The mutex of a transfer cache, of a central free list, and of the page heap.\<close>

datatype mutex = Cache_Mutex nat | List_Mutex nat | Heap_Mutex

datatype event = Acquire mutex | Release mutex | Effect

definition locked :: "mutex \<Rightarrow> event list \<Rightarrow> event list" where
  "locked m es = Acquire m # es @ [Release m]"

text \<open>\<open>InsertRange\<close> and \<open>RemoveRange\<close>; \<open>span_for\<close>.\<close>

definition cache_events :: "nat \<Rightarrow> event list" where
  "cache_events i = locked (Cache_Mutex i) [Effect]"

definition span_for_events :: "event list \<Rightarrow> event list" where
  "span_for_events es = locked Heap_Mutex es"

text \<open>
  \<open>allocate\<close> and \<open>deallocate\<close> of a central free list; \<open>b\<close> says whether it calls the page heap inside.
  \<open>deallocate\<close> looks up the span before it takes its own mutex.
\<close>

definition list_allocate_events :: "nat \<Rightarrow> bool \<Rightarrow> event list" where
  "list_allocate_events i b = locked (List_Mutex i) (if b then locked Heap_Mutex [Effect] else [Effect])"

definition list_deallocate_events :: "nat \<Rightarrow> bool \<Rightarrow> event list" where
  "list_deallocate_events i b =
     span_for_events [] @ locked (List_Mutex i) (if b then locked Heap_Mutex [Effect] else [Effect])"

fun part_events :: "phase \<Rightarrow> bool \<Rightarrow> event list" where
  "part_events (Alloc_Remove i) b = cache_events i"
| "part_events (Alloc_Central i (Suc k) batch) b = list_allocate_events i b"
| "part_events (Alloc_Insert i r batch) b = cache_events i"
| "part_events (Alloc_Give i r (p # ps)) b = list_deallocate_events i b"
| "part_events (Dealloc_Find i p) b = span_for_events [Effect]"
| "part_events (Dealloc_Insert i p batch) b = cache_events i"
| "part_events (Dealloc_Give i p (q # qs)) b = list_deallocate_events i b"
| "part_events (Dealloc_Central i p) b = list_deallocate_events i b"
| "part_events _ b = [Effect]"

text \<open>The mutex that protects the data a part works on.\<close>

fun guards :: "phase \<Rightarrow> mutex set" where
  "guards (Alloc_Remove i) = {Cache_Mutex i}"
| "guards (Alloc_Central i (Suc k) batch) = {List_Mutex i}"
| "guards (Alloc_Insert i r batch) = {Cache_Mutex i}"
| "guards (Alloc_Give i r (p # ps)) = {List_Mutex i}"
| "guards (Dealloc_Find i p) = {Heap_Mutex}"
| "guards (Dealloc_Insert i p batch) = {Cache_Mutex i}"
| "guards (Dealloc_Give i p (q # qs)) = {List_Mutex i}"
| "guards (Dealloc_Central i p) = {List_Mutex i}"
| "guards _ = {}"

section \<open>The system with mutexes\<close>

text \<open>\<open>todo ! t\<close> are the events left in the part thread \<open>t\<close> is in.\<close>

record Locked_System =
  shared :: Allocator
  phases :: "phase list"
  todo :: "event list list"
  holder :: "mutex \<Rightarrow> nat option"

definition perform :: "(nat \<Rightarrow> cpu_env) \<Rightarrow> nat \<Rightarrow> event \<Rightarrow> Locked_System \<Rightarrow> Locked_System option" where
  "perform sched t e s =
     (case e of
        Acquire m \<Rightarrow> if holder s m = None then Some (s\<lparr>holder := (holder s)(m := Some t)\<rparr>) else None
      | Release m \<Rightarrow> Some (s\<lparr>holder := (holder s)(m := None)\<rparr>)
      | Effect \<Rightarrow> (case thread_step sched (phases s ! t) (shared s) of
            None \<Rightarrow> None
          | Some (pc, a) \<Rightarrow> Some (s\<lparr>shared := a, phases := (phases s)[t := pc]\<rparr>)))"

definition thread_event :: "(nat \<Rightarrow> cpu_env) \<Rightarrow> nat \<Rightarrow> Locked_System \<Rightarrow> Locked_System option" where
  "thread_event sched t s =
     (case todo s ! t of
        [] \<Rightarrow> None
      | e # es \<Rightarrow> map_option (\<lambda>s1. s1\<lparr>todo := (todo s)[t := es]\<rparr>) (perform sched t e s))"

inductive locked_reach :: "mmap_env \<Rightarrow> Locked_System \<Rightarrow> (nat \<Rightarrow> addr multiset) \<Rightarrow> bool" for mmap where
  start: "new_Allocator mmap affinity region = Some a \<Longrightarrow>
    locked_reach mmap \<lparr>shared = a, phases = replicate n Idle, todo = replicate n [], holder = (\<lambda>_. None)\<rparr> (\<lambda>_. {#})"
| call_allocate: "locked_reach mmap s M \<Longrightarrow> t < length (phases s) \<Longrightarrow> phases s ! t = Idle \<Longrightarrow> todo s ! t = [] \<Longrightarrow>
    locked_reach mmap (s\<lparr>phases := (phases s)[t := start_allocate n]\<rparr>) M"
| call_deallocate: "locked_reach mmap s M \<Longrightarrow> t < length (phases s) \<Longrightarrow> phases s ! t = Idle \<Longrightarrow> todo s ! t = [] \<Longrightarrow>
    is_class i \<Longrightarrow> p \<in># M i \<Longrightarrow>
    locked_reach mmap (s\<lparr>phases := (phases s)[t := Dealloc_Find i p]\<rparr>) (M(i := M i - {#p#}))"
| enter: "locked_reach mmap s M \<Longrightarrow> t < length (phases s) \<Longrightarrow> active (phases s ! t) \<Longrightarrow> todo s ! t = [] \<Longrightarrow>
    locked_reach mmap (s\<lparr>todo := (todo s)[t := part_events (phases s ! t) b]\<rparr>) M"
| event: "locked_reach mmap s M \<Longrightarrow> t < length (phases s) \<Longrightarrow> thread_event sched t s = Some s1 \<Longrightarrow> locked_reach mmap s1 M"
| return_allocate: "locked_reach mmap s M \<Longrightarrow> t < length (phases s) \<Longrightarrow> phases s ! t = Alloc_Return i p \<Longrightarrow> todo s ! t = [] \<Longrightarrow>
    locked_reach mmap (s\<lparr>phases := (phases s)[t := Idle]\<rparr>) (if p = 0 then M else M(i := add_mset p (M i)))"
| return_deallocate: "locked_reach mmap s M \<Longrightarrow> t < length (phases s) \<Longrightarrow> phases s ! t = Dealloc_Return \<Longrightarrow> todo s ! t = [] \<Longrightarrow>
    locked_reach mmap (s\<lparr>phases := (phases s)[t := Idle]\<rparr>) M"
| use: "locked_reach mmap s M \<Longrightarrow> program_write M (cells (world (shared s))) m \<Longrightarrow>
    locked_reach mmap (s\<lparr>shared := set_cells m (shared s)\<rparr>) M"

section \<open>The order of the mutexes\<close>

fun rank :: "mutex \<Rightarrow> nat" where
  "rank Heap_Mutex = 1"
| "rank _ = 0"

text \<open>
  \<open>events_ok G H es\<close>: a thread that holds \<open>H\<close> and is left with \<open>es\<close> takes mutexes in ascending rank, gives
  back what it holds, has its effect under \<open>G\<close>, and ends with none.
\<close>

fun events_ok :: "mutex set \<Rightarrow> mutex set \<Rightarrow> event list \<Rightarrow> bool" where
  "events_ok G H [] = (H = {})"
| "events_ok G H (Acquire m # es) = ((\<forall>m1\<in>H. rank m1 < rank m) \<and> events_ok G (insert m H) es)"
| "events_ok G H (Release m # es) = (m \<in> H \<and> events_ok G (H - {m}) es)"
| "events_ok G H (Effect # es) = (G \<subseteq> H \<and> Effect \<notin> set es \<and> events_ok G H es)"

lemma part_events_ok: "events_ok (guards pc) {} (part_events pc b)"
  by (cases "(pc, b)" rule: part_events.cases)
    (auto simp: cache_events_def span_for_events_def list_allocate_events_def list_deallocate_events_def locked_def insert_Diff_if)

lemma events_ok_change: "events_ok G H es \<Longrightarrow> Effect \<notin> set es \<Longrightarrow> events_ok G1 H es"
  by (induction G H es rule: events_ok.induct) auto

definition held_by :: "Locked_System \<Rightarrow> nat \<Rightarrow> mutex set" where
  "held_by s t = {m. holder s m = Some t}"

definition locks_inv :: "Locked_System \<Rightarrow> bool" where
  "locks_inv s \<longleftrightarrow> length (todo s) = length (phases s)
     \<and> (\<forall>m t. holder s m = Some t \<longrightarrow> t < length (phases s))
     \<and> (\<forall>t<length (phases s). events_ok (guards (phases s ! t)) (held_by s t) (todo s ! t)
          \<and> (Effect \<in> set (todo s ! t) \<longrightarrow> active (phases s ! t)))"

lemma locks_invD:
  assumes "locks_inv s" "t < length (phases s)"
  shows "events_ok (guards (phases s ! t)) (held_by s t) (todo s ! t)" "Effect \<in> set (todo s ! t) \<Longrightarrow> active (phases s ! t)"
    "length (todo s) = length (phases s)"
  using assms by (simp_all add: locks_inv_def)

text \<open>A change of one thread.\<close>

lemma locks_invI:
  assumes inv: "locks_inv s" and t: "t < length (phases s)"
    and "todo s1 = (todo s)[t := es]" "phases s1 = (phases s)[t := pc]"
    and "\<And>u. u \<noteq> t \<Longrightarrow> held_by s1 u = held_by s u"
    and "events_ok (guards pc) (held_by s1 t) es" "Effect \<in> set es \<Longrightarrow> active pc"
  shows "locks_inv s1"
proof -
  have "u < length (phases s)" if "holder s1 m = Some u" for m u
  proof (cases "u = t")
    case False
    then have "m \<in> held_by s u"
      using assms(5) that by (auto simp: held_by_def)
    then show ?thesis
      using inv by (simp add: held_by_def locks_inv_def)
  qed (use t in simp)
  then show ?thesis
    using assms by (simp add: locks_inv_def nth_list_update)
qed

lemma event_inv:
  assumes inv: "locks_inv s" and t: "t < length (phases s)" and ev: "thread_event sched t s = Some s1"
  shows "locks_inv s1"
proof -
  obtain e es where todo: "todo s ! t = e # es"
    using ev by (auto simp: thread_event_def split: list.split_asm)
  note ok = locks_invD [OF inv t, unfolded todo]
  have len: "phases s = (phases s)[t := phases s ! t]"
    by simp
  show ?thesis
  proof (cases e)
    case (Acquire m)
    then have free: "holder s m = None" and s1: "s1 = s\<lparr>holder := (holder s)(m := Some t), todo := (todo s)[t := es]\<rparr>"
      using ev by (auto simp: thread_event_def todo perform_def split: if_split_asm)
    have "held_by s1 t = insert m (held_by s t)" "\<And>u. u \<noteq> t \<Longrightarrow> held_by s1 u = held_by s u"
      using free by (auto simp: s1 held_by_def)
    then show ?thesis
      using ok Acquire by (intro locks_invI [OF inv t, of s1 es "phases s ! t"]) (simp_all add: s1)
  next
    case (Release m)
    then have s1: "s1 = s\<lparr>holder := (holder s)(m := None), todo := (todo s)[t := es]\<rparr>"
      using ev by (auto simp: thread_event_def todo perform_def)
    have "holder s m = Some t"
      using ok(1) Release by (simp add: held_by_def)
    then have "held_by s1 t = held_by s t - {m}" "\<And>u. u \<noteq> t \<Longrightarrow> held_by s1 u = held_by s u"
      by (auto simp: s1 held_by_def)
    then show ?thesis
      using ok Release by (intro locks_invI [OF inv t, of s1 es "phases s ! t"]) (simp_all add: s1)
  next
    case Effect
    then obtain pc a where s1: "s1 = s\<lparr>shared := a, phases := (phases s)[t := pc], todo := (todo s)[t := es]\<rparr>"
      using ev by (auto simp: thread_event_def todo perform_def split: option.split_asm)
    have "held_by s1 u = held_by s u" for u
      by (simp add: s1 held_by_def)
    then show ?thesis
      using ok Effect events_ok_change [of "guards (phases s ! t)" "held_by s t" es "guards pc"]
      by (intro locks_invI [OF inv t, of s1 es pc]) (simp_all add: s1)
  qed
qed

lemma idle_inv:
  assumes inv: "locks_inv s" and t: "t < length (phases s)" "todo s ! t = []"
  shows "locks_inv (s\<lparr>phases := (phases s)[t := pc]\<rparr>)"
  using locks_invD [OF inv t(1)] t(2) list_update_id [of "todo s" t]
  by (intro locks_invI [OF inv t(1), of _ "[]" pc]) (simp_all add: held_by_def)

theorem locked_reach_inv: "locked_reach mmap s M \<Longrightarrow> locks_inv s"
proof (induction rule: locked_reach.induct)
  case (enter s M t b)
  note ok = locks_invD [OF enter.IH enter.hyps(2), unfolded enter.hyps(4)]
  show ?case
    using ok enter.hyps(3) part_events_ok [of "phases s ! t" b] list_update_id [of "phases s" t]
    by (intro locks_invI [OF enter.IH enter.hyps(2), of _ "part_events (phases s ! t) b" "phases s ! t"])
      (simp_all add: held_by_def)
next
  case (start affinity region a n)
  show ?case
    by (simp add: locks_inv_def held_by_def)
next
  case (use s M m)
  then show ?case
    by (simp add: locks_inv_def held_by_def)
qed (auto intro: idle_inv event_inv)

text \<open>Without the mutexes, the runs of this system are runs of the threads.\<close>

lemma event_unlocked:
  assumes "thread_event sched t s = Some s1"
  shows "(shared s1 = shared s \<and> phases s1 = phases s)
     \<or> (\<exists>pc. thread_step sched (phases s ! t) (shared s) = Some (pc, shared s1) \<and> phases s1 = (phases s)[t := pc])"
  using assms by (auto simp: thread_event_def perform_def split: list.split_asm event.split_asm if_split_asm option.split_asm)

theorem locked_reach_threads: "locked_reach mmap s M \<Longrightarrow> threads_reach mmap (shared s) (phases s) M"
proof (induction rule: locked_reach.induct)
  case (event s M t sched s1)
  then show ?case
    using event_unlocked [OF event.hyps(3)] threads_reach.step [OF event.IH event.hyps(2), of sched] by metis
next
  case (return_allocate s M t i p)
  then show ?case
    using threads_reach.return_allocate [OF return_allocate.IH] by simp
next
  case (use s M m)
  then show ?case
    using threads_reach.use [OF use.IH] by simp
qed (auto intro: threads_reach.intros simp del: fun_upd_apply)

section \<open>Somebody can always go on\<close>

text \<open>A thread is blocked only by a mutex that another thread holds.\<close>

lemma next_event:
  assumes mmap: "mmap_ok mmap" and reach: "locked_reach mmap s M" and t: "t < length (phases s)" "todo s ! t = e # es"
    and free: "\<And>m. e = Acquire m \<Longrightarrow> holder s m = None"
  shows "thread_event sched t s \<noteq> None"
proof (cases e)
  case Effect
  then have "active (phases s ! t)"
    using locks_invD(2) [OF locked_reach_inv [OF reach] t(1)] t(2) by simp
  then obtain pc a where "thread_step sched (phases s ! t) (shared s) = Some (pc, a)"
    using threads_reach_inv [OF locked_reach_threads [OF reach] mmap] step_good t(1) by blast
  then show ?thesis
    by (simp add: thread_event_def t(2) perform_def Effect)
qed (use t(2) free in \<open>simp_all add: thread_event_def perform_def\<close>)

lemma holder_has_events:
  assumes "locks_inv s" "holder s m = Some t"
  shows "\<exists>e es. t < length (phases s) \<and> todo s ! t = e # es \<and> (\<forall>m1. e = Acquire m1 \<longrightarrow> rank m < rank m1)"
proof -
  have t: "t < length (phases s)"
    using assms by (simp add: locks_inv_def)
  have "m \<in> held_by s t"
    using assms(2) by (simp add: held_by_def)
  then show ?thesis
    using locks_invD(1) [OF assms(1) t] t by (cases "todo s ! t") auto
qed

lemma no_deadlock:
  assumes mmap: "mmap_ok mmap" and reach: "locked_reach mmap s M" and t: "t < length (phases s)" "todo s ! t \<noteq> []"
  shows "\<exists>u<length (phases s). thread_event sched u s \<noteq> None"
proof -
  note inv = locked_reach_inv [OF reach]
  note go = next_event [OF mmap reach]
  show ?thesis
  proof (cases "holder s Heap_Mutex")
    case (Some u)
    then obtain e es where "u < length (phases s)" "todo s ! u = e # es" "\<forall>m1. e = Acquire m1 \<longrightarrow> rank Heap_Mutex < rank m1"
      using holder_has_events [OF inv] by blast
    moreover have "rank m \<le> rank Heap_Mutex" for m
      by (cases m) simp_all
    ultimately show ?thesis
      using go [of u e es sched] by (metis leD)
  next
    case None
    obtain e es where e: "todo s ! t = e # es"
      using t(2) by (cases "todo s ! t") auto
    show ?thesis
    proof (cases "\<exists>m u. e = Acquire m \<and> holder s m = Some u")
      case True
      then obtain m u where m: "holder s m = Some u"
        by blast
      then obtain e1 es1 where u: "u < length (phases s)" "todo s ! u = e1 # es1" "\<forall>m1. e1 = Acquire m1 \<longrightarrow> rank m < rank m1"
        using holder_has_events [OF inv] by blast
      have "holder s m1 = None" if "e1 = Acquire m1" for m1
        using u(3) that None by (cases m1) auto
      then show ?thesis
        using go [OF u(1,2)] u(1) by blast
    next
      case False
      then show ?thesis
        using go [OF t(1) e] t(1) by (metis not_None_eq)
    qed
  qed
qed

section \<open>A concrete run\<close>

text \<open>One thread, about to take its batch out of the transfer cache, under the mutex of the cache.\<close>

definition poor1 :: Allocator where
  "poor1 = with_slabs (\<lambda>_. empty_slab, 1) poor0"

definition inside :: Locked_System where
  "inside = \<lparr>shared = poor1, phases = [Alloc_Remove 35], todo = [[Effect, Release (Cache_Mutex 35)]],
     holder = (\<lambda>_. None)(Cache_Mutex 35 := Some 0)\<rparr>"

lemma inside_reach: "locked_reach no_mmap inside (\<lambda>_. {#})"
proof -
  have "locked_reach no_mmap \<lparr>shared = poor0, phases = [Idle], todo = [[]], holder = (\<lambda>_. None)\<rparr> (\<lambda>_. {#})"
    using locked_reach.start [OF poor0_new, of 1] by simp
  from locked_reach.call_allocate [OF this, of 0 28672]
  have "locked_reach no_mmap \<lparr>shared = poor0, phases = [Alloc_Pop 35], todo = [[]], holder = (\<lambda>_. None)\<rparr> (\<lambda>_. {#})"
    by (simp add: start_demo)
  from locked_reach.enter [OF this, of 0]
  have "locked_reach no_mmap \<lparr>shared = poor0, phases = [Alloc_Pop 35], todo = [[Effect]], holder = (\<lambda>_. None)\<rparr> (\<lambda>_. {#})"
    by simp
  from locked_reach.event [OF this, of 0 demo_sched]
  have "locked_reach no_mmap \<lparr>shared = poor1, phases = [Alloc_Remove 35], todo = [[]], holder = (\<lambda>_. None)\<rparr> (\<lambda>_. {#})"
    by (simp add: thread_event_def perform_def poor1_def poor0_def new_Allocator_def count_demo demo_pop [simplified])
  from locked_reach.enter [OF this, of 0]
  have "locked_reach no_mmap \<lparr>shared = poor1, phases = [Alloc_Remove 35], todo = [cache_events 35], holder = (\<lambda>_. None)\<rparr> (\<lambda>_. {#})"
    by simp
  from locked_reach.event [OF this, of 0 demo_sched] show ?thesis
    by (simp add: thread_event_def perform_def cache_events_def locked_def inside_def)
qed

section \<open>Properties\<close>



text \<open>
  C9: the threads never block each other for good. In every reachable state in which some thread is
  inside a call, some thread can take its next step: the mutexes are taken in one order, the page
  heap's last, so there is no circle of threads that wait for each other.
\<close>

theorem threads_never_deadlock:
  assumes "mmap_ok mmap" "locked_reach mmap s M" "t < length (phases s)" "active (phases s ! t) \<or> todo s ! t \<noteq> []"
  shows "\<exists>u<length (phases s). thread_event sched u s \<noteq> None \<or> (todo s ! u = [] \<and> active (phases s ! u))"
  using no_deadlock [OF assms(1-3)] assms(3,4) by blast

theorem threads_never_deadlock_witness: "thread_event demo_sched 0 inside \<noteq> None"
  using threads_never_deadlock [OF no_mmap_ok inside_reach, of 0 demo_sched] by (simp add: inside_def)

end
