(* ===== verification/Demo_Program.thy ===== *)
theory Demo_Program
  imports Allocator_Props
begin

text \<open>
  The program of \<open>main.cpp\<close>: a client that takes four integers from the allocator, writes them,
  reads them back and gives the memory back. It exercises the contracts of \<open>allocate\<close> and
  \<open>deallocate\<close> from the caller's side, through the memory they share.
\<close>

section \<open>Integers in the memory\<close>

text \<open>An \<open>int\<close> is two 16-bit cells, the lower half first, in two's complement.\<close>

definition store_int :: "addr \<Rightarrow> int \<Rightarrow> (addr \<Rightarrow> nat) \<Rightarrow> (addr \<Rightarrow> nat)" where
  "store_int p v m = m(p := nat (v mod 65536), p + 2 := nat (v div 65536 mod 65536))"

definition load_int :: "addr \<Rightarrow> (addr \<Rightarrow> nat) \<Rightarrow> int" where
  "load_int p m = (let u = int (m p) + 65536 * int (m (p + 2)) in if u < 2147483648 then u else u - 4294967296)"

lemma load_stored: "- 2147483648 \<le> v \<Longrightarrow> v < 2147483648 \<Longrightarrow> load_int p (store_int p v m) = v"
proof -
  assume v: "- 2147483648 \<le> v" "v < 2147483648"
  have halves: "v mod 65536 + 65536 * (v div 65536 mod 65536) = v mod 4294967296"
    using zmod_zmult2_eq [of 65536 v 65536] by simp
  have "v mod 4294967296 = (if v < 0 then v + 4294967296 else v)"
    using v mod_pos_pos_trivial [of v 4294967296] mod_pos_pos_trivial [of "v + 4294967296" 4294967296]
      mod_add_self2 [of v 4294967296] by auto
  then show ?thesis
    using v halves by (simp add: load_int_def store_int_def Let_def)
qed

lemma load_other: "q \<noteq> p \<Longrightarrow> q \<noteq> p + 2 \<Longrightarrow> q + 2 \<noteq> p \<Longrightarrow> load_int q (store_int p v m) = load_int q m"
  by (simp add: load_int_def store_int_def)

lemma store_int_range: "store_int p v m x \<noteq> m x \<Longrightarrow> store_int p v m x < 65536 \<and> (x = p \<or> x = p + 2)"
  by (auto simp: store_int_def nat_less_iff split: if_split_asm)

section \<open>The program\<close>

text \<open>The two loops over the array \<open>idk\<close>.\<close>

definition write_ints :: "addr \<Rightarrow> nat \<Rightarrow> (addr \<Rightarrow> nat) \<Rightarrow> (addr \<Rightarrow> nat)" where
  "write_ints idk n m = fold (\<lambda>i. store_int (idk + 4 * i) (int i)) [0..<n] m"

definition print_ints :: "addr \<Rightarrow> nat \<Rightarrow> (addr \<Rightarrow> nat) \<Rightarrow> int list" where
  "print_ints idk n m = map (\<lambda>j. load_int (idk + 4 * j) m) [0..<n]"

text \<open>
  The result is what is printed. The code does not test \<open>idk\<close>: writing through a null pointer is
  undefined behaviour.
\<close>

definition custom_alloc :: "(nat \<Rightarrow> cpu_env) \<Rightarrow> (nat \<Rightarrow> cpu_env) \<Rightarrow> Allocator \<Rightarrow> (int list \<times> Allocator) option" where
  "custom_alloc sched1 sched2 a =
     do { (idk, a1) \<leftarrow> allocate sched1 (4 * 4) a;
          if idk = 0 then None
          else do { let a2 = set_cells (write_ints idk 4 (cells (world a1))) a1;
                    let out = print_ints idk 4 (cells (world a2));
                    a3 \<leftarrow> deallocate sched2 idk a2;
                    Some (out, a3) } }"

definition demo_main :: "mmap_env \<Rightarrow> (nat \<Rightarrow> bool) \<Rightarrow> addr option \<Rightarrow> (nat \<Rightarrow> cpu_env) \<Rightarrow> (nat \<Rightarrow> cpu_env) \<Rightarrow> (int list \<times> Allocator) option" where
  "demo_main mmap affinity region sched1 sched2 =
     do { a \<leftarrow> new_Allocator mmap affinity region; custom_alloc sched1 sched2 a }"

section \<open>The loops\<close>

lemma write_ints_Suc: "write_ints p (Suc n) m = store_int (p + 4 * n) (int n) (write_ints p n m)"
  by (simp add: write_ints_def)

lemma write_ints_range: "write_ints p n m x \<noteq> m x \<Longrightarrow> write_ints p n m x < 65536 \<and> x \<in> {p ..< p + 4 * n}"
proof (induction n)
  case (Suc n)
  then show ?case
    using store_int_range [of "p + 4 * n" "int n" "write_ints p n m" x]
    by (cases "store_int (p + 4 * n) (int n) (write_ints p n m) x = write_ints p n m x") (auto simp: write_ints_Suc)
qed (simp add: write_ints_def)

lemma load_written: "j < n \<Longrightarrow> n \<le> 2147483648 \<Longrightarrow> load_int (p + 4 * j) (write_ints p n m) = int j"
proof (induction n)
  case (Suc n)
  show ?case
  proof (cases "j = n")
    case True
    then show ?thesis
      using Suc.prems load_stored [of "int n"] by (simp add: write_ints_Suc)
  next
    case False
    then have "p + 4 * j \<noteq> p + 4 * n" "p + 4 * j \<noteq> p + 4 * n + 2" "p + 4 * j + 2 \<noteq> p + 4 * n"
      by presburger+
    then show ?thesis
      using Suc False load_other [of "p + 4 * j" "p + 4 * n" "int n"] by (simp add: write_ints_Suc del: add_2_eq_Suc')
  qed
qed simp

lemma print_written: "n \<le> 2147483648 \<Longrightarrow> print_ints p n (write_ints p n m) = map int [0..<n]"
  using load_written [of _ n p m] by (simp add: print_ints_def)

lemma write_ints_held:
  assumes "is_class i" "p \<in># M i" "4 * n \<le> class_size i"
  shows "program_write M m (write_ints p n m)"
  unfolding program_write_def using write_ints_range [of p n m] assms by fastforce

section \<open>One object, taken, written and given back\<close>

definition refused_now :: "mmap_env \<Rightarrow> Allocator \<Rightarrow> nat \<Rightarrow> bool" where
  "refused_now mmap a n \<longleftrightarrow> mmap (mmap_calls (ph (world a))) (page_map (ph (world a))) (sc_pages (SizeClasses ! first_class n)) = None"

lemma object_taken:
  assumes env: "mmap_ok mmap" and reach: "alloc_reach mmap a M" and n: "n \<le> 262144"
    and fits: "class_size (first_class n) \<le> sc_pages (SizeClasses ! first_class n) * PAGE_SIZE"
  shows "(\<exists>a1. allocate sched n a = Some (0, a1) \<and> alloc_reach mmap a1 M \<and> refused_now mmap a n)
     \<or> (\<exists>p a1. allocate sched n a = Some (p, a1) \<and> p \<noteq> 0 \<and> alloc_reach mmap a1 (M(first_class n := add_mset p (M (first_class n)))))"
proof -
  obtain L where inv: "alloc_inv a L M"
    using reach_inv [OF reach env] by blast
  obtain p a1 where run: "allocate sched n a = Some (p, a1)"
    using allocate_step [OF inv, of sched n] by blast
  show ?thesis
  proof (cases "p = 0")
    case True
    then show ?thesis
      using run allocate_null [OF inv n fits] alloc_reach.null [OF reach] reach_os [OF reach] by (auto simp: refused_now_def)
  next
    case False
    then show ?thesis
      using run alloc_reach.alloc [OF reach run] by blast
  qed
qed

lemma object_given_back:
  assumes env: "mmap_ok mmap" and reach: "alloc_reach mmap a1 (M(i := add_mset p (M i)))" and i: "is_class i"
    and wr: "program_write (M(i := add_mset p (M i))) (cells (world a1)) m"
  shows "\<exists>a3. deallocate sched p (set_cells m a1) = Some a3 \<and> alloc_reach mmap a3 M"
proof -
  let ?M = "M(i := add_mset p (M i))"
  have used: "alloc_reach mmap (set_cells m a1) ?M"
    by (rule alloc_reach.use [OF reach wr])
  obtain L where "alloc_inv (set_cells m a1) L ?M"
    using reach_inv [OF used env] by blast
  then obtain a3 where "deallocate sched p (set_cells m a1) = Some a3"
    using deallocate_step [of "set_cells m a1" L ?M i p sched] i by auto
  then show ?thesis
    using alloc_reach.free [OF used i, of p] by auto
qed

section \<open>Properties\<close>

lemma class_of_16: "first_class 16 = 2" "is_class 2" "16 \<le> class_size 2"
  "class_size 2 \<le> sc_pages (SizeClasses ! 2) * PAGE_SIZE"
  by (simp_all add: first_class_def upt_rec SizeClasses_def sci_def is_class_def PAGE_SIZE_def)

text \<open>
  C12: the program of \<open>main.cpp\<close>, run from any state the allocator can reach, prints 0, 1, 2, 3 and
  leaves the caller with exactly the objects it had before; what other calls have left in the
  layers makes no difference. It has undefined behaviour in one case only, when \<open>allocate\<close> gives
  null because the system refuses a span: the program does not test the result.
\<close>

theorem custom_alloc_runs:
  assumes "mmap_ok mmap" "alloc_reach mmap a M"
  shows "(\<exists>a'. custom_alloc sched1 sched2 a = Some ([0, 1, 2, 3], a') \<and> alloc_reach mmap a' M)
     \<or> (custom_alloc sched1 sched2 a = None \<and> (\<exists>a'. allocate sched1 16 a = Some (0, a'))
        \<and> mmap (mmap_calls (ph (world a))) (page_map (ph (world a))) (sc_pages (SizeClasses ! first_class 16)) = None)"
proof -
  have fits: "class_size (first_class 16) \<le> sc_pages (SizeClasses ! first_class 16) * PAGE_SIZE"
    unfolding class_of_16(1) by (rule class_of_16(4))
  consider a1 where "allocate sched1 16 a = Some (0, a1)" "refused_now mmap a 16"
    | p a1 where "allocate sched1 16 a = Some (p, a1)" "p \<noteq> 0" "alloc_reach mmap a1 (M(2 := add_mset p (M 2)))"
    using object_taken [OF assms _ fits, of sched1] unfolding class_of_16(1) by auto
  then show ?thesis
  proof cases
    case 1
    then show ?thesis
      by (simp add: custom_alloc_def refused_now_def)
  next
    case (2 p a1)
    let ?m = "write_ints p 4 (cells (world a1))"
    have "program_write (M(2 := add_mset p (M 2))) (cells (world a1)) ?m"
      using class_of_16 by (intro write_ints_held [where i = 2]) simp_all
    then obtain a3 where a3: "deallocate sched2 p (set_cells ?m a1) = Some a3" "alloc_reach mmap a3 M"
      using object_given_back [OF assms(1) 2(3) class_of_16(2)] by blast
    have "print_ints p 4 (cells (world (set_cells ?m a1))) = [0, 1, 2, 3]"
      using print_written [of 4 p "cells (world a1)"] by (simp add: set_cells_def upt_rec)
    then show ?thesis
      using 2(1,2) a3 by (simp add: custom_alloc_def Let_def)
  qed
qed

theorem custom_alloc_runs_witness:
  "\<exists>a'. demo_main bump_mmap (\<lambda>cpu. cpu = 0) (Some 4096) demo_sched demo_sched = Some ([0, 1, 2, 3], a')"
proof -
  have "bump_mmap (mmap_calls (ph (world demo0))) (page_map (ph (world demo0))) (sc_pages (SizeClasses ! first_class 16)) \<noteq> None"
    by (simp add: class_of_16(1) SizeClasses_def sci_def PAGE_SIZE_def demo0_def new_Allocator_def bump_mmap_def list_all_iff)
  then show ?thesis
    using custom_alloc_runs [OF bump_mmap_ok alloc_reach.start [OF demo0_new], of demo_sched demo_sched]
    by (auto simp: demo_main_def demo0_new)
qed

end
