(* ===== verification/Client_Tests.thy ===== *)
theory Client_Tests
  imports Demo_Program
begin

text \<open>
  The sequential tests of the repository, \<open>tests/smoke_test.cpp\<close> and \<open>tests/stress_test.cpp\<close>: one
  integer is allocated, written, read back and given back, once and 200000 times. Each result is
  the exit code with the state the allocator is left in.
\<close>

section \<open>The programs\<close>

definition smoke_main :: "(nat \<Rightarrow> cpu_env) \<Rightarrow> (nat \<Rightarrow> cpu_env) \<Rightarrow> Allocator \<Rightarrow> (nat \<times> int list \<times> Allocator) option" where
  "smoke_main sched1 sched2 a = do {
     (p, a1) \<leftarrow> allocate sched1 4 a;
     if p = 0 then Some (1, [], a1)
     else do { let a2 = set_cells (store_int p 32 (cells (world a1))) a1;
               let out = [load_int p (cells (world a2))];
               a3 \<leftarrow> deallocate sched2 p a2;
               Some (0, out, a3) } }"

text \<open>The rounds from \<open>i\<close> on, \<open>n\<close> of them; the two calls of round \<open>i\<close> find the CPUs as \<open>sched i\<close> says.\<close>

fun stress_rounds :: "(nat \<Rightarrow> (nat \<Rightarrow> cpu_env) \<times> (nat \<Rightarrow> cpu_env)) \<Rightarrow> nat \<Rightarrow> nat \<Rightarrow> Allocator \<Rightarrow> (nat \<times> Allocator) option" where
  "stress_rounds sched i 0 a = Some (0, a)"
| "stress_rounds sched i (Suc n) a = do {
     (p, a1) \<leftarrow> allocate (fst (sched i)) 4 a;
     if p = 0 then Some (1, a1)
     else do { let a2 = set_cells (store_int p (int i) (cells (world a1))) a1;
               if load_int p (cells (world a2)) \<noteq> int i then Some (2, a2)
               else do { a3 \<leftarrow> deallocate (snd (sched i)) p a2;
                         stress_rounds sched (Suc i) n a3 } } }"

definition stress_main :: "(nat \<Rightarrow> (nat \<Rightarrow> cpu_env) \<times> (nat \<Rightarrow> cpu_env)) \<Rightarrow> Allocator \<Rightarrow> (nat \<times> Allocator) option" where
  "stress_main sched a = stress_rounds sched 0 200000 a"

section \<open>One round\<close>

lemma class_of_4: "first_class 4 = 1" "is_class 1" "4 \<le> class_size 1" "class_size 1 \<le> sc_pages (SizeClasses ! 1) * PAGE_SIZE"
  by (simp_all add: first_class_def upt_rec SizeClasses_def sci_def is_class_def PAGE_SIZE_def)

text \<open>The class of an integer fits its span, so a null result means that the system has refused.\<close>

lemma int_round:
  assumes env: "mmap_ok mmap" and reach: "alloc_reach mmap a M" and v: "- 2147483648 \<le> v" "v < 2147483648"
  obtains (refused) a1 where "allocate sched1 4 a = Some (0, a1)" "alloc_reach mmap a1 M" "refused_now mmap a 4"
  | (served) p a1 a2 a3 where "allocate sched1 4 a = Some (p, a1)" "p \<noteq> 0" "a2 = set_cells (store_int p v (cells (world a1))) a1"
      "load_int p (cells (world a2)) = v" "deallocate sched2 p a2 = Some a3" "alloc_reach mmap a3 M"
proof -
  have fits: "class_size (first_class 4) \<le> sc_pages (SizeClasses ! first_class 4) * PAGE_SIZE"
    unfolding class_of_4(1) by (rule class_of_4(4))
  consider a1 where "allocate sched1 4 a = Some (0, a1)" "alloc_reach mmap a1 M" "refused_now mmap a 4"
    | p a1 where "allocate sched1 4 a = Some (p, a1)" "p \<noteq> 0" "alloc_reach mmap a1 (M(1 := add_mset p (M 1)))"
    using object_taken [OF env reach _ fits, of sched1] unfolding class_of_4(1) by auto
  then show thesis
  proof cases
    case 1
    then show thesis
      by (rule refused)
  next
    case (2 p a1)
    let ?m = "store_int p v (cells (world a1))"
    have "program_write (M(1 := add_mset p (M 1))) (cells (world a1)) ?m"
      unfolding program_write_def
    proof (intro allI impI conjI)
      fix x
      assume "?m x \<noteq> cells (world a1) x"
      from store_int_range [OF this] have x: "?m x < 65536" "x \<in> {p ..< p + class_size 1}"
        using class_of_4(3) by auto
      show "?m x < 65536"
        by (rule x(1))
      have "p \<in># (M(1 := add_mset p (M 1))) 1"
        by simp
      with x(2) class_of_4(2) show "\<exists>i q. is_class i \<and> q \<in># (M(1 := add_mset p (M 1))) i \<and> x \<in> {q ..< q + class_size i}"
        by blast
    qed
    then obtain a3 where "deallocate sched2 p (set_cells ?m a1) = Some a3" "alloc_reach mmap a3 M"
      using object_given_back [OF env 2(3) class_of_4(2)] by blast
    then show thesis
      using served [OF 2(1,2) refl] load_stored [OF v] by (simp add: set_cells_def)
  qed
qed

section \<open>The tests\<close>

lemma smoke_main_result:
  assumes "mmap_ok mmap" "alloc_reach mmap a M"
  shows "\<exists>a'. alloc_reach mmap a' M \<and> (smoke_main sched1 sched2 a = Some (0, [32], a')
     \<or> smoke_main sched1 sched2 a = Some (1, [], a') \<and> refused_now mmap a 4)"
proof -
  have v: "- 2147483648 \<le> (32 :: int)" "(32 :: int) < 2147483648"
    by simp_all
  show ?thesis
    by (cases rule: int_round [OF assms v, where ?sched1.0 = sched1 and ?sched2.0 = sched2])
      (auto simp: smoke_main_def Let_def)
qed

lemma stress_rounds_result:
  assumes "mmap_ok mmap" "alloc_reach mmap a M" "i + n \<le> 2147483648"
  shows "\<exists>r a'. stress_rounds sched i n a = Some (r, a') \<and> alloc_reach mmap a' M
     \<and> (r = 0 \<or> r = 1 \<and> (\<exists>a1. alloc_reach mmap a1 M \<and> refused_now mmap a1 4))"
  using assms(2,3)
proof (induction n arbitrary: i a)
  case (Suc n)
  have v: "- 2147483648 \<le> int i" "int i < 2147483648"
    using Suc.prems(2) by simp_all
  show ?case
  proof (cases rule: int_round [OF assms(1) Suc.prems(1) v, where ?sched1.0 = "fst (sched i)" and ?sched2.0 = "snd (sched i)"])
    case (1 a1)
    then show ?thesis
      using Suc.prems(1) by auto
  next
    case (2 p a1 a2 a3)
    then show ?thesis
      using Suc.IH [of a3 "Suc i"] Suc.prems(2) by (simp add: Let_def)
  qed
qed simp

end
