(* ===== verification/Concurrency_Test.thy ===== *)
theory Concurrency_Test
  imports Threads_Props
begin

text \<open>
  The program \<open>tests/concurrency_test.cpp\<close>: several threads allocate blocks, fill them byte by byte
  with a pattern of their own, check the pattern and give the blocks back, in an order drawn at
  random. Each step is one part of a call of the allocator (as in \<open>Threads\<close>), one byte written or
  read, or one access to the shared atomic variables; the steps of the threads run in any order.
  The numbers drawn are arguments.
\<close>

unbundle bit_operations_syntax

section \<open>Bytes in the memory\<close>

text \<open>A byte is the lower or the upper half of a 16-bit cell.\<close>

definition cell_of :: "addr \<Rightarrow> addr" where
  "cell_of p = p - p mod 2"

definition load_byte :: "addr \<Rightarrow> (addr \<Rightarrow> nat) \<Rightarrow> nat" where
  "load_byte p m = (if even p then m (cell_of p) mod 256 else m (cell_of p) div 256 mod 256)"

definition store_byte :: "addr \<Rightarrow> nat \<Rightarrow> (addr \<Rightarrow> nat) \<Rightarrow> (addr \<Rightarrow> nat)" where
  "store_byte p v m = m(cell_of p := (if even p then v + 256 * (m (cell_of p) div 256 mod 256) else m (cell_of p) mod 256 + 256 * v))"

section \<open>The data of the program\<close>

record LiveAllocation =
  la_ptr :: addr
  la_size :: nat
  la_tag :: nat

definition kLiveSetPerThread :: nat where
  "kLiveSetPerThread = 256"

definition kOpsPerThread :: nat where
  "kOpsPerThread = 50000"

definition kSizes :: "nat list" where
  "kSizes = [8, 16, 24, 32, 48, 64, 80, 96,
    112, 128, 160, 176, 208, 256, 312, 384,
    448, 512, 704, 896, 1024, 1408, 2048, 4096]"

definition pattern_byte :: "nat \<Rightarrow> nat \<Rightarrow> nat" where
  "pattern_byte tag offset = u64 (tag * 1315423911 + offset * 17) AND 255"

text \<open>
  Where a thread is. \<open>Loop_Test\<close>: at the test of the loop over \<open>op\<close>, or of the loop that releases the
  rest once \<open>w_draining\<close> is set. \<open>Filling a j\<close>, \<open>Verifying k j\<close>: byte \<open>j\<close> of the new block, of
  \<open>live[k]\<close>, is next. \<open>Alloc_Failed\<close>, \<open>Verify_Failed\<close>: the failure is counted, \<open>failed\<close> not yet set.
\<close>

datatype worker_pc =
    Loop_Test
  | Calling_Allocate nat
  | Alloc_Failed
  | Filling LiveAllocation nat
  | Verifying nat nat
  | Verify_Failed
  | Calling_Deallocate nat
  | Done

record Worker =
  w_pc :: worker_pc
  w_op :: nat
  w_draining :: bool
  w_live :: "LiveAllocation list"

record ConcTest =
  c_heap :: Allocator
  c_calls :: "phase list"
  c_workers :: "Worker list"
  c_failed :: bool
  c_allocations :: nat
  c_deallocations :: nat
  c_allocation_failures :: nat
  c_verification_failures :: nat

text \<open>What \<open>action_dist\<close>, \<open>size_dist\<close> and \<open>live_dist\<close> give when they are asked next.\<close>

record Draw =
  d_action :: nat
  d_size :: nat
  d_live :: nat

definition draw_ok :: "Draw \<Rightarrow> Worker \<Rightarrow> bool" where
  "draw_ok d w \<longleftrightarrow> d_action d < 100 \<and> d_size d < length kSizes \<and> (w_live w \<noteq> [] \<longrightarrow> d_live d < length (w_live w))"

section \<open>The steps of a thread\<close>

definition put_worker :: "nat \<Rightarrow> Worker \<Rightarrow> ConcTest \<Rightarrow> ConcTest" where
  "put_worker t w s = s\<lparr>c_workers := (c_workers s)[t := w]\<rparr>"

definition put_call :: "nat \<Rightarrow> phase \<Rightarrow> ConcTest \<Rightarrow> ConcTest" where
  "put_call t pc s = s\<lparr>c_calls := (c_calls s)[t := pc]\<rparr>"

text \<open>The end of the body of the loop the thread is in.\<close>

definition next_round :: "Worker \<Rightarrow> Worker" where
  "next_round w = w\<lparr>w_pc := Loop_Test, w_op := (if w_draining w then w_op w else Suc (w_op w))\<rparr>"

definition loop_test :: "Draw \<Rightarrow> nat \<Rightarrow> Worker \<Rightarrow> ConcTest \<Rightarrow> ConcTest" where
  "loop_test d t w s =
     (if w_draining w
      then if w_live w \<noteq> [] \<and> \<not> c_failed s
           then put_worker t (w\<lparr>w_pc := Verifying (length (w_live w) - 1) 0\<rparr>) s
           else put_worker t (w\<lparr>w_pc := Done\<rparr>) s
      else if w_op w < kOpsPerThread \<and> \<not> c_failed s
      then if w_live w = [] \<or> (length (w_live w) < kLiveSetPerThread \<and> d_action d < 60)
           then let sz = kSizes ! d_size d in
             put_call t (start_allocate sz) (put_worker t (w\<lparr>w_pc := Calling_Allocate sz\<rparr>) s)
           else put_worker t (w\<lparr>w_pc := Verifying (d_live d) 0\<rparr>) s
      else put_worker t (w\<lparr>w_draining := True\<rparr>) s)"

text \<open>A call that has not returned makes its next step.\<close>

definition call_step :: "(nat \<Rightarrow> cpu_env) \<Rightarrow> nat \<Rightarrow> ConcTest \<Rightarrow> ConcTest option" where
  "call_step sched t s = do {
     (pc, a) \<leftarrow> thread_step sched (c_calls s ! t) (c_heap s);
     Some (put_call t pc (s\<lparr>c_heap := a\<rparr>)) }"

definition allocate_returns :: "nat \<Rightarrow> nat \<Rightarrow> addr \<Rightarrow> Worker \<Rightarrow> ConcTest \<Rightarrow> ConcTest" where
  "allocate_returns t sz p w s = put_call t Idle
     (if p = 0
      then put_worker t (w\<lparr>w_pc := Alloc_Failed\<rparr>) (s\<lparr>c_allocation_failures := Suc (c_allocation_failures s)\<rparr>)
      else let allocation = \<lparr>la_ptr = p, la_size = sz, la_tag = u64 (push_bit 32 t) OR w_op w\<rparr> in
        put_worker t (w\<lparr>w_pc := Filling allocation 0\<rparr>) s)"

definition fill_step :: "nat \<Rightarrow> LiveAllocation \<Rightarrow> nat \<Rightarrow> Worker \<Rightarrow> ConcTest \<Rightarrow> ConcTest" where
  "fill_step t allocation j w s =
     (if j < la_size allocation
      then put_worker t (w\<lparr>w_pc := Filling allocation (Suc j)\<rparr>)
        (s\<lparr>c_heap := set_cells (store_byte (la_ptr allocation + j) (pattern_byte (la_tag allocation) j) (cells (world (c_heap s)))) (c_heap s)\<rparr>)
      else put_worker t (next_round (w\<lparr>w_live := w_live w @ [allocation]\<rparr>)) (s\<lparr>c_allocations := Suc (c_allocations s)\<rparr>))"

definition verify_step :: "nat \<Rightarrow> nat \<Rightarrow> nat \<Rightarrow> Worker \<Rightarrow> ConcTest \<Rightarrow> ConcTest" where
  "verify_step t index j w s =
     (let allocation = w_live w ! index in
      if j < la_size allocation
      then if load_byte (la_ptr allocation + j) (cells (world (c_heap s))) \<noteq> pattern_byte (la_tag allocation) j
           then put_worker t (w\<lparr>w_pc := Verify_Failed\<rparr>) (s\<lparr>c_verification_failures := Suc (c_verification_failures s)\<rparr>)
           else put_worker t (w\<lparr>w_pc := Verifying index (Suc j)\<rparr>) s
      else put_call t (Dealloc_Find (first_class (la_size allocation)) (la_ptr allocation))
             (put_worker t (w\<lparr>w_pc := Calling_Deallocate index\<rparr>) s))"

definition deallocate_returns :: "nat \<Rightarrow> nat \<Rightarrow> Worker \<Rightarrow> ConcTest \<Rightarrow> ConcTest" where
  "deallocate_returns t index w s = put_call t Idle
     (put_worker t (next_round (w\<lparr>w_live := butlast ((w_live w)[index := last (w_live w)])\<rparr>)) (s\<lparr>c_deallocations := Suc (c_deallocations s)\<rparr>))"

definition worker_step :: "(nat \<Rightarrow> cpu_env) \<Rightarrow> Draw \<Rightarrow> nat \<Rightarrow> ConcTest \<Rightarrow> ConcTest option" where
  "worker_step sched d t s =
     (let w = c_workers s ! t in
      case w_pc w of
        Loop_Test \<Rightarrow> Some (loop_test d t w s)
      | Calling_Allocate sz \<Rightarrow>
          (case c_calls s ! t of Alloc_Return i p \<Rightarrow> Some (allocate_returns t sz p w s) | _ \<Rightarrow> call_step sched t s)
      | Alloc_Failed \<Rightarrow> Some (put_worker t (w\<lparr>w_pc := Done\<rparr>) (s\<lparr>c_failed := True\<rparr>))
      | Filling allocation j \<Rightarrow> Some (fill_step t allocation j w s)
      | Verifying index j \<Rightarrow> Some (verify_step t index j w s)
      | Verify_Failed \<Rightarrow> Some (put_worker t (next_round w) (s\<lparr>c_failed := True\<rparr>))
      | Calling_Deallocate index \<Rightarrow>
          (case c_calls s ! t of Dealloc_Return \<Rightarrow> Some (deallocate_returns t index w s) | _ \<Rightarrow> call_step sched t s)
      | Done \<Rightarrow> None)"

section \<open>The program\<close>

definition thread_count :: "nat \<Rightarrow> nat" where
  "thread_count hw_threads = max 4 (min 8 (if hw_threads = 0 then 4 else hw_threads))"

definition new_worker :: Worker where
  "new_worker = \<lparr>w_pc = Loop_Test, w_op = 0, w_draining = False, w_live = []\<rparr>"

definition start_test :: "mmap_env \<Rightarrow> (nat \<Rightarrow> bool) \<Rightarrow> addr option \<Rightarrow> nat \<Rightarrow> ConcTest option" where
  "start_test mmap affinity region hw_threads = do {
     a \<leftarrow> new_Allocator mmap affinity region;
     Some \<lparr>c_heap = a, c_calls = replicate (thread_count hw_threads) Idle, c_workers = replicate (thread_count hw_threads) new_worker,
       c_failed = False, c_allocations = 0, c_deallocations = 0, c_allocation_failures = 0, c_verification_failures = 0\<rparr> }"

definition test_step :: "ConcTest \<Rightarrow> ConcTest \<Rightarrow> bool" where
  "test_step s s' \<longleftrightarrow> (\<exists>t sched d. t < length (c_workers s) \<and> draw_ok d (c_workers s ! t) \<and> worker_step sched d t s = Some s')"

text \<open>All threads are joined; the exit code.\<close>

definition all_done :: "ConcTest \<Rightarrow> bool" where
  "all_done s \<longleftrightarrow> (\<forall>w\<in>set (c_workers s). w_pc w = Done)"

definition exit_code :: "ConcTest \<Rightarrow> nat" where
  "exit_code s = (if c_failed s then 1 else if c_allocations s = c_deallocations s then 0 else 2)"

end
