(* ===== verification/Concurrency_Test_Inv.thy ===== *)
theory Concurrency_Test_Inv
  imports Concurrency_Test
begin

text \<open>
  The invariant of the runs of \<open>tests/concurrency_test.cpp\<close>: the blocks of all threads together are
  exactly the objects the allocator has handed out, so no two of them share a byte, and each block
  that is not being filled holds its pattern. Every step keeps it, and a null result goes back
  to a refusal of the system.
\<close>

section \<open>Bytes\<close>

lemma load_stored_byte: "v < 256 \<Longrightarrow> load_byte p (store_byte p v m) = v"
  by (simp add: load_byte_def store_byte_def)

lemma load_other_byte:
  assumes "q \<noteq> p" "v < 256"
  shows "load_byte q (store_byte p v m) = load_byte q m"
proof (cases "cell_of q = cell_of p")
  case True
  moreover from this have "even q \<noteq> even p"
    using assms(1) by (auto simp: cell_of_def even_iff_mod_2_eq_zero odd_iff_mod_2_eq_one)
  ultimately show ?thesis
    using assms(2) by (auto simp: load_byte_def store_byte_def)
qed (simp add: load_byte_def store_byte_def)

lemma store_byte_changes: "store_byte p v m x \<noteq> m x \<Longrightarrow> v < 256 \<Longrightarrow> x = cell_of p \<and> store_byte p v m x < 65536"
proof -
  assume "store_byte p v m x \<noteq> m x" and v: "v < 256"
  then have x: "x = cell_of p"
    by (auto simp: store_byte_def split: if_split_asm)
  have "v + 256 * (m x div 256 mod 256) < 65536" "m x mod 256 + 256 * v < 65536"
    using v mod_less_divisor [of 256 "m x div 256"] mod_less_divisor [of 256 "m x"] by linarith+
  then show ?thesis
    using x by (simp add: store_byte_def)
qed

lemma pattern_byte_less: "pattern_byte tag k < 256"
  using take_bit_nat_less_exp [of 8 "u64 (tag * 1315423911 + k * 17)"]
  by (simp add: pattern_byte_def take_bit_eq_mask mask_eq_exp_minus_1)

lemma cell_of_range: "even b \<Longrightarrow> k < n \<Longrightarrow> cell_of (b + k) \<in> {b ..< b + n}"
  by (cases "even k") (auto simp: cell_of_def even_iff_mod_2_eq_zero odd_iff_mod_2_eq_one)

section \<open>The sizes\<close>

lemma size_class_ok:
  assumes "n \<in> set kSizes"
  shows "0 < n \<and> n \<le> 4096 \<and> is_class (first_class n) \<and> n \<le> class_size (first_class n)
     \<and> class_size (first_class n) \<le> sc_pages (SizeClasses ! first_class n) * PAGE_SIZE"
proof -
  have n: "0 < n" "n \<le> 4096"
    using assms by (auto simp: kSizes_def)
  have "class_size 27 = 4096"
    by (simp add: SizeClasses_def sci_def)
  then have "first_class n \<le> 27"
    using n first_class_le [of n 27] by simp
  moreover have "\<forall>k\<in>set [0..<28]. class_size k \<le> sc_pages (SizeClasses ! k) * PAGE_SIZE"
    by (simp add: upt_rec SizeClasses_def sci_def PAGE_SIZE_def)
  ultimately show ?thesis
    using n first_class_Some [of n] by (simp add: is_class_def)
qed

lemma start_allocate_size: "n \<in> set kSizes \<Longrightarrow> start_allocate n = Alloc_Pop (first_class n)"
  using size_class_ok [of n] class_size_pos [of "first_class n"] by (simp add: start_allocate_def round_size_class_eq is_class_def)

section \<open>Who holds which block\<close>

lemma sum_map_upd:
  fixes f :: "'a \<Rightarrow> 'b :: comm_monoid_add"
  assumes "t < length xs"
  shows "sum_list (map f (xs[t := y])) + f (xs ! t) = sum_list (map f xs) + f y"
proof -
  have upd: "sum_list (map f (xs[t := z])) = f z + sum_list (map f (take t xs @ drop (Suc t) xs))" for z
    using assms by (simp add: upd_conv_take_nth_drop add_ac)
  show ?thesis
    using upd [of y] upd [of "xs ! t"] by (simp add: add_ac)
qed

text \<open>The blocks whose bytes are settled, and all blocks of a thread.\<close>

definition settled :: "Worker \<Rightarrow> LiveAllocation list" where
  "settled w = (case w_pc w of Calling_Deallocate k \<Rightarrow> take k (w_live w) @ drop (Suc k) (w_live w) | _ \<Rightarrow> w_live w)"

definition blocks :: "Worker \<Rightarrow> LiveAllocation list" where
  "blocks w = (case w_pc w of Filling b j \<Rightarrow> [b] | _ \<Rightarrow> []) @ settled w"

abbreviation class_of :: "LiveAllocation \<Rightarrow> nat" where
  "class_of b \<equiv> first_class (la_size b)"

definition owned :: "nat \<Rightarrow> LiveAllocation list \<Rightarrow> addr multiset" where
  "owned i bs = image_mset la_ptr (filter_mset (\<lambda>b. class_of b = i) (mset bs))"

definition held :: "Worker list \<Rightarrow> nat \<Rightarrow> addr multiset" where
  "held ws i = sum_list (map (\<lambda>w. owned i (blocks w)) ws)"

lemma owned_simps [simp]:
  "owned i [] = {#}" "owned i (xs @ ys) = owned i xs + owned i ys"
  "owned i (b # bs) = (if class_of b = i then add_mset (la_ptr b) (owned i bs) else owned i bs)"
  by (simp_all add: owned_def)

lemma owned_mset: "mset xs = mset ys \<Longrightarrow> owned i xs = owned i ys"
  by (simp add: owned_def)

lemma owned_mem: "b \<in> set bs \<Longrightarrow> class_of b = i \<Longrightarrow> la_ptr b \<in># owned i bs"
  by (auto simp: owned_def)

lemma owned_single: "b \<in> set bs \<Longrightarrow> owned i [b] \<subseteq># owned i bs"
  by (auto dest: split_list)

lemma held_upd:
  assumes "t < length ws"
  shows "held (ws[t := w]) i + owned i (blocks (ws ! t)) = held ws i + owned i (blocks w)"
  unfolding held_def by (rule sum_map_upd [OF assms])

lemma held_same: "t < length ws \<Longrightarrow> (\<And>i. owned i (blocks w) = owned i (blocks (ws ! t))) \<Longrightarrow> held (ws[t := w]) = held ws"
  using held_upd [of t ws w] by (auto simp: fun_eq_iff)

lemma held_add:
  assumes t: "t < length ws" and w: "\<And>i. owned i (blocks w) = (if i = c then {#p#} else {#}) + owned i (blocks (ws ! t))"
  shows "held (ws[t := w]) = (held ws)(c := add_mset p (held ws c))"
proof
  fix i
  have "held (ws[t := w]) i + owned i (blocks (ws ! t)) = ((if i = c then {#p#} else {#}) + held ws i) + owned i (blocks (ws ! t))"
    unfolding held_upd [OF t] w by (simp add: add_ac)
  then show "held (ws[t := w]) i = ((held ws)(c := add_mset p (held ws c))) i"
    unfolding add_right_cancel by simp
qed

lemma held_remove:
  assumes t: "t < length ws" and w: "\<And>i. owned i (blocks (ws ! t)) = (if i = c then {#p#} else {#}) + owned i (blocks w)"
  shows "held (ws[t := w]) = (held ws)(c := held ws c - {#p#})"
proof
  fix i
  have "held ws i + owned i (blocks w) = ((if i = c then {#p#} else {#}) + held (ws[t := w]) i) + owned i (blocks w)"
    using held_upd [OF t, of w i] unfolding w by (simp add: add_ac)
  then have "held ws i = (if i = c then {#p#} else {#}) + held (ws[t := w]) i"
    unfolding add_right_cancel .
  then show "held (ws[t := w]) i = ((held ws)(c := held ws c - {#p#})) i"
    by (cases "i = c") simp_all
qed

lemma held_new: "held (replicate n new_worker) = (\<lambda>_. {#})"
  by (induction n) (simp_all add: held_def new_worker_def blocks_def settled_def fun_eq_iff)

lemma blocks_new [simp]: "blocks new_worker = []"
  by (simp add: new_worker_def blocks_def settled_def)

lemma owned_held: "t < length ws \<Longrightarrow> owned i (blocks (ws ! t)) \<subseteq># held ws i"
  using held_upd [of t ws new_worker i] by (metis mset_subset_eq_add_right add.right_neutral blocks_new owned_simps(1))

lemma two_owned_held:
  assumes "t < length ws" "u < length ws" "t \<noteq> u"
  shows "owned i (blocks (ws ! t)) + owned i (blocks (ws ! u)) \<subseteq># held ws i"
proof -
  have "owned i (blocks (ws ! u)) \<subseteq># held (ws[t := new_worker]) i"
    using owned_held [of u "ws[t := new_worker]" i] assms by simp
  moreover have "held ws i = owned i (blocks (ws ! t)) + held (ws[t := new_worker]) i"
    using held_upd [OF assms(1), of new_worker i] by (simp add: add.commute)
  ultimately show ?thesis
    by simp
qed

section \<open>The invariant\<close>

definition filled :: "(addr \<Rightarrow> nat) \<Rightarrow> LiveAllocation \<Rightarrow> nat \<Rightarrow> bool" where
  "filled m b n \<longleftrightarrow> (\<forall>k<n. load_byte (la_ptr b + k) m = pattern_byte (la_tag b) k)"

fun allocating :: "nat \<Rightarrow> phase \<Rightarrow> bool" where
  "allocating i (Alloc_Pop k) = (k = i)"
| "allocating i (Alloc_Remove k) = (k = i)"
| "allocating i (Alloc_Central k n b) = (k = i)"
| "allocating i (Alloc_Push k r b) = (k = i)"
| "allocating i (Alloc_Insert k r b) = (k = i)"
| "allocating i (Alloc_Give k r b) = (k = i)"
| "allocating i (Alloc_Return k r) = (k = i)"
| "allocating i _ = False"

fun deallocating :: "phase \<Rightarrow> bool" where
  "deallocating (Dealloc_Find i p) = True"
| "deallocating (Dealloc_Push i p) = True"
| "deallocating (Dealloc_Drain i p b) = True"
| "deallocating (Dealloc_Insert i p b) = True"
| "deallocating (Dealloc_Give i p b) = True"
| "deallocating (Dealloc_Retry i p) = True"
| "deallocating (Dealloc_Central i p) = True"
| "deallocating Dealloc_Return = True"
| "deallocating _ = False"

lemma allocating_step: "thread_step sched pc a = Some (pc1, a1) \<Longrightarrow> allocating i pc \<Longrightarrow> allocating i pc1"
  by (induction sched pc a rule: thread_step.induct)
    (auto simp: refilled_def insert_step_def give_step_def elim!: bind_SomeE split: if_split_asm prod.split_asm list.split_asm)

lemma deallocating_step: "thread_step sched pc a = Some (pc1, a1) \<Longrightarrow> deallocating pc \<Longrightarrow> deallocating pc1"
  by (induction sched pc a rule: thread_step.induct)
    (auto simp: drained_def insert_step_def give_step_def Let_def elim!: bind_SomeE
      split: if_split_asm prod.split_asm list.split_asm option.split_asm)

definition pc_ok :: "(addr \<Rightarrow> nat) \<Rightarrow> phase \<Rightarrow> Worker \<Rightarrow> bool" where
  "pc_ok m call w = (case w_pc w of
     Calling_Allocate n \<Rightarrow> n \<in> set kSizes \<and> allocating (first_class n) call
   | Filling b j \<Rightarrow> call = Idle \<and> la_size b \<in> set kSizes \<and> j \<le> la_size b \<and> filled m b j
   | Verifying k j \<Rightarrow> call = Idle \<and> k < length (w_live w) \<and> j \<le> la_size (w_live w ! k)
   | Calling_Deallocate k \<Rightarrow> deallocating call \<and> k < length (w_live w)
   | Verify_Failed \<Rightarrow> False
   | _ \<Rightarrow> call = Idle)"

definition worker_ok :: "(addr \<Rightarrow> nat) \<Rightarrow> phase \<Rightarrow> Worker \<Rightarrow> bool" where
  "worker_ok m call w \<longleftrightarrow> pc_ok m call w \<and> (\<forall>b\<in>set (settled w). la_size b \<in> set kSizes \<and> filled m b (la_size b))"

definition conc_inv :: "mmap_env \<Rightarrow> ConcTest \<Rightarrow> bool" where
  "conc_inv mmap s \<longleftrightarrow> threads_reach mmap (c_heap s) (c_calls s) (held (c_workers s))
     \<and> length (c_calls s) = length (c_workers s)
     \<and> (\<forall>t<length (c_workers s). worker_ok (cells (world (c_heap s))) (c_calls s ! t) (c_workers s ! t))
     \<and> c_verification_failures s = 0
     \<and> c_allocations s = c_deallocations s + sum_list (map (length \<circ> w_live) (c_workers s))
     \<and> (c_failed s \<longrightarrow> 0 < c_allocation_failures s)"

text \<open>The bytes of a thread's blocks matter to it, no others.\<close>

definition same_blocks :: "(addr \<Rightarrow> nat) \<Rightarrow> (addr \<Rightarrow> nat) \<Rightarrow> Worker \<Rightarrow> bool" where
  "same_blocks m m' w \<longleftrightarrow> (\<forall>b\<in>set (blocks w). \<forall>k<la_size b. load_byte (la_ptr b + k) m' = load_byte (la_ptr b + k) m)"

lemma worker_ok_frame: "worker_ok m call w \<Longrightarrow> same_blocks m m' w \<Longrightarrow> worker_ok m' call w"
  unfolding worker_ok_def same_blocks_def pc_ok_def filled_def blocks_def
  by (auto split: worker_pc.splits)

lemma blocks_size: "worker_ok m call w \<Longrightarrow> b \<in> set (blocks w) \<Longrightarrow> la_size b \<in> set kSizes"
  by (auto simp: worker_ok_def pc_ok_def blocks_def split: worker_pc.splits)

text \<open>What is left to show for a step of thread \<open>t\<close>.\<close>

lemma step_inv:
  assumes inv: "conc_inv mmap s" and t: "t < length (c_workers s)"
    and s': "c_workers s' = (c_workers s)[t := w']" "c_calls s' = (c_calls s)[t := pc']"
    and reach: "threads_reach mmap (c_heap s') (c_calls s') (held (c_workers s'))"
    and w': "worker_ok (cells (world (c_heap s'))) pc' w'"
    and others: "\<And>u. u < length (c_workers s) \<Longrightarrow> u \<noteq> t \<Longrightarrow> same_blocks (cells (world (c_heap s))) (cells (world (c_heap s'))) (c_workers s ! u)"
    and counts: "c_verification_failures s' = 0" "c_failed s' \<Longrightarrow> 0 < c_allocation_failures s'"
      "c_allocations s' + c_deallocations s + length (w_live (c_workers s ! t)) = c_allocations s + c_deallocations s' + length (w_live w')"
  shows "conc_inv mmap s'"
proof -
  have len: "length (c_calls s) = length (c_workers s)"
    using inv by (simp add: conc_inv_def)
  have "worker_ok (cells (world (c_heap s'))) (c_calls s' ! u) (c_workers s' ! u)" if "u < length (c_workers s')" for u
    using that w' t len inv others [of u] worker_ok_frame by (cases "u = t") (auto simp: s' conc_inv_def)
  moreover have "c_allocations s' = c_deallocations s' + sum_list (map (length \<circ> w_live) (c_workers s'))"
    using inv counts(3) sum_map_upd [OF t, of "length \<circ> w_live" w'] by (simp add: s' conc_inv_def)
  ultimately show ?thesis
    unfolding conc_inv_def using len reach counts(1,2) by (simp add: s')
qed

section \<open>Blocks do not overlap\<close>

lemma inv_worker: "conc_inv mmap s \<Longrightarrow> t < length (c_workers s) \<Longrightarrow> worker_ok (cells (world (c_heap s))) (c_calls s ! t) (c_workers s ! t)"
  and inv_length: "conc_inv mmap s \<Longrightarrow> length (c_calls s) = length (c_workers s)"
  and inv_reach: "conc_inv mmap s \<Longrightarrow> threads_reach mmap (c_heap s) (c_calls s) (held (c_workers s))"
  by (simp_all add: conc_inv_def)

lemma block_held:
  assumes "t < length ws" "b \<in> set (blocks (ws ! t))"
  shows "la_ptr b \<in># held ws (class_of b)"
  using mset_subset_eqD [OF owned_held [OF assms(1)] owned_mem [OF assms(2) refl]] .

text \<open>Two blocks of one list, or of two threads.\<close>

lemma blocks_apart:
  assumes env: "mmap_ok mmap" and reach: "threads_reach mmap a pcs M"
    and two: "\<And>i. owned i [b, c] \<subseteq># M i" and sizes: "la_size b \<in> set kSizes" "la_size c \<in> set kSizes"
    and k: "j < la_size b" "k < la_size c"
  shows "la_ptr b + j \<noteq> la_ptr c + k"
proof -
  have mem: "la_ptr b \<in># M (class_of b)" "la_ptr c \<in># M (class_of c)"
    using mset_subset_eqD [OF two [of "class_of b"]] mset_subset_eqD [OF two [of "class_of c"]] by simp_all
  then have out: "la_ptr b \<in># outside M pcs (class_of b)" "la_ptr c \<in># outside M pcs (class_of c)"
    by (simp_all add: outside_def)
  note ok = size_class_ok [OF sizes(1)] size_class_ok [OF sizes(2)]
  note apart = out_apart [OF env reach _ out(1) _ out(2)]
  have "class_of b \<noteq> class_of c \<or> la_ptr b \<noteq> la_ptr c"
  proof (rule ccontr)
    assume "\<not> ?thesis"
    then have same: "class_of c = class_of b" "la_ptr c = la_ptr b"
      by simp_all
    have "2 \<le> count (M (class_of b)) (la_ptr b)"
      using mset_subset_eq_count [OF two [of "class_of b"], of "la_ptr b"] same by simp
    then show False
      using apart ok by (simp add: outside_def)
  qed
  then have "{la_ptr b ..< la_ptr b + class_size (class_of b)} \<inter> {la_ptr c ..< la_ptr c + class_size (class_of c)} = {}"
    using apart ok by blast
  moreover have "la_ptr b + j \<in> {la_ptr b ..< la_ptr b + class_size (class_of b)}" "la_ptr c + k \<in> {la_ptr c ..< la_ptr c + class_size (class_of c)}"
    using ok k by simp_all
  ultimately show ?thesis
    by (metis IntI empty_iff)
qed

lemma block_address:
  assumes env: "mmap_ok mmap" and inv: "conc_inv mmap s" and b: "t < length (c_workers s)" "b \<in> set (blocks (c_workers s ! t))"
  shows "la_ptr b \<in># held (c_workers s) (class_of b) \<and> is_class (class_of b) \<and> 0 < la_ptr b
     \<and> (k < la_size b \<longrightarrow> cell_of (la_ptr b + k) \<in> {la_ptr b ..< la_ptr b + class_size (class_of b)})"
proof -
  note ok = size_class_ok [OF blocks_size [OF inv_worker [OF inv b(1)] b(2)]]
  have "la_ptr b \<in># outside (held (c_workers s)) (c_calls s) (class_of b)"
    using block_held [OF b] by (simp add: outside_def)
  from out_apart [OF env inv_reach [OF inv] _ this _ this] have "0 < la_ptr b" "even (la_ptr b)"
    using ok by (auto dest: dvd_trans [of 2 8])
  then show ?thesis
    using block_held [OF b] ok cell_of_range [of "la_ptr b" k "class_size (class_of b)"] by auto
qed

lemma undisturbed_blocks:
  assumes env: "mmap_ok mmap" and inv: "conc_inv mmap s" and t: "t < length (c_workers s)"
    and kept: "undisturbed (held (c_workers s)) (c_heap s) a"
  shows "same_blocks (cells (world (c_heap s))) (cells (world a)) (c_workers s ! t)"
  unfolding same_blocks_def
proof (intro ballI allI impI)
  fix b k
  assume b: "b \<in> set (blocks (c_workers s ! t))" "k < la_size b"
  have "cells (world a) (cell_of (la_ptr b + k)) = cells (world (c_heap s)) (cell_of (la_ptr b + k))"
    using kept block_address [OF env inv t b(1), of k] b(2) unfolding undisturbed_def cells_kept_def by blast
  then show "load_byte (la_ptr b + k) (cells (world a)) = load_byte (la_ptr b + k) (cells (world (c_heap s)))"
    by (simp add: load_byte_def)
qed

section \<open>Every step keeps the invariant\<close>

text \<open>Steps on the thread's own variables and the shared counters.\<close>

lemma local_inv:
  assumes inv: "conc_inv mmap s" and t: "t < length (c_workers s)"
    and s': "c_workers s' = (c_workers s)[t := w']" "c_calls s' = c_calls s" "c_heap s' = c_heap s"
    and w': "worker_ok (cells (world (c_heap s))) (c_calls s ! t) w'" "\<And>i. owned i (blocks w') = owned i (blocks (c_workers s ! t))"
    and counts: "c_verification_failures s' = 0" "c_failed s' \<Longrightarrow> 0 < c_allocation_failures s'"
      "c_allocations s' + c_deallocations s + length (w_live (c_workers s ! t)) = c_allocations s + c_deallocations s' + length (w_live w')"
  shows "conc_inv mmap s'"
proof (rule step_inv [OF inv t s'(1)])
  show "c_calls s' = (c_calls s)[t := c_calls s ! t]"
    by (simp add: s'(2))
  show "threads_reach mmap (c_heap s') (c_calls s') (held (c_workers s'))"
    using inv_reach [OF inv] held_same [OF t w'(2)] by (simp add: s')
  show "worker_ok (cells (world (c_heap s'))) (c_calls s ! t) w'"
    using w'(1) by (simp add: s'(3))
qed (use counts in \<open>auto simp: s'(3) same_blocks_def\<close>)

text \<open>Steps of a call.\<close>

lemma call_inv:
  assumes env: "mmap_ok mmap" and inv: "conc_inv mmap s" and t: "t < length (c_workers s)"
    and step: "thread_step sched (c_calls s ! t) (c_heap s) = Some (pc, a)"
    and pc: "(\<exists>n. w_pc (c_workers s ! t) = Calling_Allocate n) \<or> (\<exists>k. w_pc (c_workers s ! t) = Calling_Deallocate k)"
  shows "conc_inv mmap (put_call t pc (s\<lparr>c_heap := a\<rparr>))"
proof -
  let ?w = "c_workers s ! t"
  have tc: "t < length (c_calls s)"
    using t inv_length [OF inv] by simp
  obtain L where inv0: "alloc_inv (c_heap s) L (outside (held (c_workers s)) (c_calls s))" "phases_ok (c_calls s)"
    using threads_reach_inv [OF inv_reach [OF inv] env] by blast
  have kept: "undisturbed (held (c_workers s)) (c_heap s) a"
    using step_good [OF inv0 tc step_active [OF step], of sched] step by auto
  have same: "same_blocks (cells (world (c_heap s))) (cells (world a)) (c_workers s ! u)" if "u < length (c_workers s)" for u
    by (rule undisturbed_blocks [OF env inv that kept])
  have "worker_ok (cells (world a)) (c_calls s ! t) ?w"
    by (rule worker_ok_frame [OF inv_worker [OF inv t] same [OF t]])
  then have "worker_ok (cells (world a)) pc ?w"
    using pc allocating_step [OF step] deallocating_step [OF step] by (auto simp: worker_ok_def pc_ok_def)
  then show ?thesis
    using threads_reach.step [OF inv_reach [OF inv] tc step] same inv
    by (intro step_inv [OF inv t, where w' = ?w and pc' = pc]) (auto simp: put_call_def conc_inv_def)
qed

text \<open>The tests of the two loops, and the call of \<open>allocate\<close>.\<close>

lemmas worker_simps = worker_ok_def pc_ok_def settled_def blocks_def next_round_def

lemma loop_inv:
  assumes inv: "conc_inv mmap s" and t: "t < length (c_workers s)" and pc: "w_pc (c_workers s ! t) = Loop_Test"
    and d: "draw_ok d (c_workers s ! t)"
  shows "conc_inv mmap (loop_test d t (c_workers s ! t) s)"
proof -
  let ?w = "c_workers s ! t"
  have w: "worker_ok (cells (world (c_heap s))) Idle ?w" "c_calls s ! t = Idle"
    using inv_worker [OF inv t] pc by (simp_all add: worker_ok_def pc_ok_def)
  have move: "conc_inv mmap (put_worker t w' s)"
    if "worker_ok (cells (world (c_heap s))) Idle w'" "blocks w' = blocks ?w" "w_live w' = w_live ?w" for w'
    using inv that w(2) by (intro local_inv [OF inv t, of _ w']) (simp_all add: put_worker_def conc_inv_def)
  have start: "conc_inv mmap (put_call t (start_allocate n) (put_worker t (?w\<lparr>w_pc := Calling_Allocate n\<rparr>) s))" if n: "n \<in> set kSizes" for n
  proof (rule step_inv [OF inv t, where w' = "?w\<lparr>w_pc := Calling_Allocate n\<rparr>" and pc' = "start_allocate n"])
    have "held ((c_workers s)[t := ?w\<lparr>w_pc := Calling_Allocate n\<rparr>]) = held (c_workers s)"
      by (rule held_same [OF t]) (simp add: blocks_def settled_def pc)
    then show "threads_reach mmap (c_heap (put_call t (start_allocate n) (put_worker t (?w\<lparr>w_pc := Calling_Allocate n\<rparr>) s)))
        (c_calls (put_call t (start_allocate n) (put_worker t (?w\<lparr>w_pc := Calling_Allocate n\<rparr>) s)))
        (held (c_workers (put_call t (start_allocate n) (put_worker t (?w\<lparr>w_pc := Calling_Allocate n\<rparr>) s))))"
      using threads_reach.call_allocate [OF inv_reach [OF inv], of t n] t w(2) inv_length [OF inv]
      by (simp add: put_call_def put_worker_def)
  qed (use inv n w(1) pc start_allocate_size [OF n] in \<open>auto simp: put_call_def put_worker_def conc_inv_def same_blocks_def worker_simps\<close>)
  show ?thesis
    unfolding loop_test_def Let_def
    using w(1) pc d by (auto intro!: move start simp: worker_simps draw_ok_def)
qed

lemma fail_inv:
  assumes "conc_inv mmap s" "t < length (c_workers s)" "w_pc (c_workers s ! t) = Alloc_Failed" "0 < c_allocation_failures s"
  shows "conc_inv mmap (put_worker t ((c_workers s ! t)\<lparr>w_pc := Done\<rparr>) (s\<lparr>c_failed := True\<rparr>))"
  using inv_worker [OF assms(1,2)] assms
  by (intro local_inv [OF assms(1,2), of _ "(c_workers s ! t)\<lparr>w_pc := Done\<rparr>"]) (simp_all add: put_worker_def conc_inv_def worker_simps)

text \<open>The two calls return.\<close>

lemma allocate_returns_inv:
  assumes inv: "conc_inv mmap s" and t: "t < length (c_workers s)"
    and pc: "w_pc (c_workers s ! t) = Calling_Allocate n" "c_calls s ! t = Alloc_Return i p"
  shows "conc_inv mmap (allocate_returns t n p (c_workers s ! t) s)"
proof -
  let ?w = "c_workers s ! t"
  have w: "worker_ok (cells (world (c_heap s))) (Alloc_Return i p) ?w" and tc: "t < length (c_calls s)"
    using inv_worker [OF inv t] pc(2) t inv_length [OF inv] by simp_all
  then have i: "i = first_class n" and n: "n \<in> set kSizes"
    using pc(1) by (simp_all add: worker_ok_def pc_ok_def)
  note ret = threads_reach.return_allocate [OF inv_reach [OF inv] tc pc(2)]
  show ?thesis
  proof (cases "p = 0")
    case True
    have "held ((c_workers s)[t := ?w\<lparr>w_pc := Alloc_Failed\<rparr>]) = held (c_workers s)"
      by (rule held_same [OF t]) (simp add: blocks_def settled_def pc)
    then show ?thesis
      using ret w inv pc(1) True
      by (intro step_inv [OF inv t, where w' = "?w\<lparr>w_pc := Alloc_Failed\<rparr>" and pc' = Idle])
        (auto simp: allocate_returns_def put_call_def put_worker_def conc_inv_def same_blocks_def worker_simps)
  next
    case False
    define b where "b = \<lparr>la_ptr = p, la_size = n, la_tag = u64 (push_bit 32 t) OR w_op ?w\<rparr>"
    let ?w' = "?w\<lparr>w_pc := Filling b 0\<rparr>"
    have "held ((c_workers s)[t := ?w']) = (held (c_workers s))(i := add_mset p (held (c_workers s) i))"
      by (rule held_add [OF t]) (simp add: pc(1) blocks_def settled_def b_def i)
    then show ?thesis
      using ret w inv pc(1) n False
      by (intro step_inv [OF inv t, where w' = ?w' and pc' = Idle])
        (auto simp: allocate_returns_def put_call_def put_worker_def conc_inv_def same_blocks_def worker_simps b_def filled_def Let_def)
  qed
qed

lemma swap_remove_mset: "k < length xs \<Longrightarrow> mset (butlast (xs[k := last xs])) = mset (take k xs @ drop (Suc k) xs)"
proof -
  assume k: "k < length xs"
  then obtain ys y where xs: "xs = ys @ [y]"
    by (cases xs rule: rev_cases) auto
  show ?thesis
    using k by (cases "k = length ys") (simp_all add: xs list_update_append butlast_append upd_conv_take_nth_drop)
qed

lemma deallocate_returns_inv:
  assumes inv: "conc_inv mmap s" and t: "t < length (c_workers s)"
    and pc: "w_pc (c_workers s ! t) = Calling_Deallocate k" "c_calls s ! t = Dealloc_Return"
  shows "conc_inv mmap (deallocate_returns t k (c_workers s ! t) s)"
proof -
  let ?w = "c_workers s ! t" and ?l = "w_live (c_workers s ! t)"
  let ?w' = "next_round (?w\<lparr>w_live := butlast (?l[k := last ?l])\<rparr>)"
  have w: "worker_ok (cells (world (c_heap s))) Dealloc_Return ?w" and tc: "t < length (c_calls s)"
    using inv_worker [OF inv t] pc(2) t inv_length [OF inv] by simp_all
  then have k: "k < length ?l"
    using pc(1) by (simp add: worker_ok_def pc_ok_def)
  note m = swap_remove_mset [OF k]
  have "held ((c_workers s)[t := ?w']) = held (c_workers s)"
    by (rule held_same [OF t]) (use m pc(1) in \<open>simp add: blocks_def settled_def next_round_def owned_def\<close>)
  moreover have "worker_ok (cells (world (c_heap s))) Idle ?w'"
    using w pc(1) mset_eq_setD [OF m] by (auto simp: worker_simps)
  ultimately show ?thesis
    using threads_reach.return_deallocate [OF inv_reach [OF inv] tc pc(2)] inv k
    by (intro step_inv [OF inv t, where w' = ?w' and pc' = Idle])
      (auto simp: deallocate_returns_def put_call_def put_worker_def conc_inv_def same_blocks_def next_round_def)
qed

text \<open>A byte of a new block is written: no byte of another block changes, of this thread or another.\<close>

lemma fill_frame:
  assumes env: "mmap_ok mmap" and inv: "conc_inv mmap s" and t: "t < length (c_workers s)"
    and b: "w_pc (c_workers s ! t) = Filling b i" "j < la_size b"
    and m': "m' = store_byte (la_ptr b + j) v (cells (world (c_heap s)))" "v < 256"
  shows "program_write (held (c_workers s)) (cells (world (c_heap s))) m'"
    and "c \<in> set (w_live (c_workers s ! t)) \<Longrightarrow> k < la_size c \<Longrightarrow> load_byte (la_ptr c + k) m' = load_byte (la_ptr c + k) (cells (world (c_heap s)))"
    and "u < length (c_workers s) \<Longrightarrow> u \<noteq> t \<Longrightarrow> same_blocks (cells (world (c_heap s))) m' (c_workers s ! u)"
proof -
  let ?w = "c_workers s ! t" and ?m = "cells (world (c_heap s))"
  have bl: "blocks ?w = b # w_live ?w"
    using b(1) by (simp add: blocks_def settled_def)
  have size: "la_size b \<in> set kSizes"
    by (rule blocks_size [OF inv_worker [OF inv t]]) (simp add: bl)
  show "program_write (held (c_workers s)) ?m m'"
    unfolding program_write_def
  proof (intro allI impI conjI)
    fix x
    assume "m' x \<noteq> ?m x"
    from store_byte_changes [OF this [unfolded m'(1)] m'(2)]
    show "m' x < 65536" "\<exists>i p. is_class i \<and> p \<in># held (c_workers s) i \<and> x \<in> {p ..< p + class_size i}"
      using block_address [OF env inv t, of b j] b(2) by (force simp: bl m'(1))+
  qed
  have other: "load_byte (la_ptr c + k) m' = load_byte (la_ptr c + k) ?m"
    if "\<And>i. owned i ([b] @ [c]) \<subseteq># held (c_workers s) i" "la_size c \<in> set kSizes" "k < la_size c" for c k
    using blocks_apart [OF env inv_reach [OF inv] that(1) [simplified append_Cons append_Nil] size that(2) b(2) that(3)] m'(2)
    unfolding m'(1) by (intro load_other_byte) simp_all
  show "load_byte (la_ptr c + k) m' = load_byte (la_ptr c + k) ?m" if c: "c \<in> set (w_live ?w)" "k < la_size c" for c k
  proof (rule other [OF _ _ c(2)])
    show "la_size c \<in> set kSizes"
      using blocks_size [OF inv_worker [OF inv t]] c(1) by (simp add: bl)
    fix i
    have "owned i ([b] @ [c]) \<subseteq># owned i ([b] @ w_live ?w)"
      unfolding owned_simps(2) by (rule subset_mset.add_mono [OF subset_mset.order_refl owned_single [OF c(1)]])
    also have "\<dots> \<subseteq># held (c_workers s) i"
      using owned_held [OF t, of i] by (simp only: bl append_Cons append_Nil)
    finally show "owned i ([b] @ [c]) \<subseteq># held (c_workers s) i" .
  qed
  show "same_blocks ?m m' (c_workers s ! u)" if u: "u < length (c_workers s)" "u \<noteq> t"
    unfolding same_blocks_def
  proof (intro ballI allI impI other)
    fix c i
    assume c: "c \<in> set (blocks (c_workers s ! u))"
    show "la_size c \<in> set kSizes"
      by (rule blocks_size [OF inv_worker [OF inv u(1)] c])
    have "owned i ([b] @ [c]) \<subseteq># owned i (blocks ?w) + owned i (blocks (c_workers s ! u))"
      unfolding owned_simps(2) by (rule subset_mset.add_mono; rule owned_single) (simp_all add: bl c)
    also have "\<dots> \<subseteq># held (c_workers s) i"
      using two_owned_held [OF t u(1)] u(2) by metis
    finally show "owned i ([b] @ [c]) \<subseteq># held (c_workers s) i" .
  qed
qed

text \<open>One byte is written, or the new block joins the others.\<close>

lemma fill_inv:
  assumes env: "mmap_ok mmap" and inv: "conc_inv mmap s" and t: "t < length (c_workers s)"
    and pc: "w_pc (c_workers s ! t) = Filling b j"
  shows "conc_inv mmap (fill_step t b j (c_workers s ! t) s)"
proof -
  let ?w = "c_workers s ! t" and ?m = "cells (world (c_heap s))"
  have w: "worker_ok ?m Idle ?w" "c_calls s ! t = Idle"
    using inv_worker [OF inv t] pc by (simp_all add: worker_ok_def pc_ok_def)
  have bl: "blocks ?w = b # w_live ?w" and b: "la_size b \<in> set kSizes" "j \<le> la_size b" "filled ?m b j"
    using w(1) pc by (simp_all add: worker_simps)
  show ?thesis
  proof (cases "j < la_size b")
    case False
    let ?w' = "next_round (?w\<lparr>w_live := w_live ?w @ [b]\<rparr>)"
    have "worker_ok ?m Idle ?w'"
      using w(1) b pc False by (auto simp: worker_simps)
    moreover have "owned i (blocks ?w') = owned i (blocks ?w)" for i
      by (rule owned_mset) (simp add: bl, simp add: blocks_def settled_def next_round_def)
    ultimately show ?thesis
      using inv w(2) False by (intro local_inv [OF inv t, of _ ?w']) (simp_all add: fill_step_def put_worker_def conc_inv_def next_round_def)
  next
    case True
    let ?w' = "?w\<lparr>w_pc := Filling b (Suc j)\<rparr>" and ?m' = "store_byte (la_ptr b + j) (pattern_byte (la_tag b) j) ?m"
    note frame = fill_frame [OF env inv t pc True refl pattern_byte_less]
    have "filled ?m' b (Suc j)"
      using b(3) load_stored_byte [OF pattern_byte_less] load_other_byte [OF _ pattern_byte_less]
      by (auto simp: filled_def less_Suc_eq)
    moreover have "filled ?m' c (la_size c)" if "c \<in> set (w_live ?w)" for c
      using w(1) pc frame(2) that by (auto simp: filled_def worker_simps)
    ultimately have w': "worker_ok ?m' Idle ?w'"
      using w(1) pc True by (auto simp: worker_simps)
    have "held ((c_workers s)[t := ?w']) = held (c_workers s)"
      by (rule held_same [OF t]) (simp add: bl, simp add: blocks_def settled_def)
    moreover have "(c_calls s)[t := Idle] = c_calls s"
      using list_update_id [of "c_calls s" t] w(2) by simp
    ultimately show ?thesis
      using threads_reach.use [OF inv_reach [OF inv] frame(1)] w' w(2) frame(3) inv True
      by (intro step_inv [OF inv t, where w' = ?w' and pc' = Idle])
        (auto simp: fill_step_def put_worker_def conc_inv_def set_cells_def)
  qed
qed

text \<open>One byte is read, or the block is given back.\<close>

lemma verify_inv:
  assumes inv: "conc_inv mmap s" and t: "t < length (c_workers s)" and pc: "w_pc (c_workers s ! t) = Verifying k j"
  shows "conc_inv mmap (verify_step t k j (c_workers s ! t) s)"
proof -
  let ?w = "c_workers s ! t" and ?m = "cells (world (c_heap s))" and ?b = "w_live (c_workers s ! t) ! k"
  have w: "worker_ok ?m Idle ?w" "c_calls s ! t = Idle"
    using inv_worker [OF inv t] pc by (simp_all add: worker_ok_def pc_ok_def)
  have k: "k < length (w_live ?w)" and b: "la_size ?b \<in> set kSizes" "filled ?m ?b (la_size ?b)"
    using w(1) pc by (auto simp: worker_simps)
  show ?thesis
  proof (cases "j < la_size ?b")
    case True
    let ?w' = "?w\<lparr>w_pc := Verifying k (Suc j)\<rparr>"
    have "load_byte (la_ptr ?b + j) ?m = pattern_byte (la_tag ?b) j"
      using b(2) True by (simp add: filled_def)
    moreover have "conc_inv mmap (put_worker t ?w' s)"
      using inv w pc True k by (intro local_inv [OF inv t, of _ ?w']) (auto simp: put_worker_def conc_inv_def worker_simps)
    ultimately show ?thesis
      using True by (simp add: verify_step_def Let_def)
  next
    case False
    let ?w' = "?w\<lparr>w_pc := Calling_Deallocate k\<rparr>" and ?pc = "Dealloc_Find (class_of ?b) (la_ptr ?b)"
    have tc: "t < length (c_calls s)"
      using t inv_length [OF inv] by simp
    have "mset (w_live ?w) = mset (?b # take k (w_live ?w) @ drop (Suc k) (w_live ?w))"
      using arg_cong [OF id_take_nth_drop [OF k], of mset] by simp
    from owned_mset [OF this] have "held ((c_workers s)[t := ?w']) =
        (held (c_workers s))(class_of ?b := held (c_workers s) (class_of ?b) - {#la_ptr ?b#})"
      by (intro held_remove [OF t]) (simp add: pc blocks_def settled_def)
    moreover have "la_ptr ?b \<in># held (c_workers s) (class_of ?b)"
      using k pc by (intro block_held [OF t]) (simp add: blocks_def settled_def)
    moreover have "worker_ok ?m ?pc ?w'"
      using w(1) pc k by (auto simp: worker_simps dest: in_set_takeD in_set_dropD)
    ultimately show ?thesis
      using threads_reach.call_deallocate [OF inv_reach [OF inv] tc w(2)] size_class_ok [OF b(1)] inv False
      by (intro step_inv [OF inv t, where w' = ?w' and pc' = ?pc])
        (auto simp: verify_step_def put_call_def put_worker_def conc_inv_def same_blocks_def Let_def)
  qed
qed

section \<open>The run of the test\<close>

lemma call_stepE:
  assumes "call_step sched t s = Some s'"
  obtains pc a where "thread_step sched (c_calls s ! t) (c_heap s) = Some (pc, a)" "s' = put_call t pc (s\<lparr>c_heap := a\<rparr>)"
  using assms by (auto simp: call_step_def elim!: bind_SomeE)

lemma worker_step_cases:
  assumes "worker_step sched d t s = Some s'"
  obtains (loop) "w_pc (c_workers s ! t) = Loop_Test" "s' = loop_test d t (c_workers s ! t) s"
  | (allocated) n i p where "w_pc (c_workers s ! t) = Calling_Allocate n" "c_calls s ! t = Alloc_Return i p"
      "s' = allocate_returns t n p (c_workers s ! t) s"
  | (gave_up) "w_pc (c_workers s ! t) = Alloc_Failed" "s' = put_worker t ((c_workers s ! t)\<lparr>w_pc := Done\<rparr>) (s\<lparr>c_failed := True\<rparr>)"
  | (fill) b j where "w_pc (c_workers s ! t) = Filling b j" "s' = fill_step t b j (c_workers s ! t) s"
  | (verify) k j where "w_pc (c_workers s ! t) = Verifying k j" "s' = verify_step t k j (c_workers s ! t) s"
  | (mismatch) "w_pc (c_workers s ! t) = Verify_Failed" "s' = put_worker t (next_round (c_workers s ! t)) (s\<lparr>c_failed := True\<rparr>)"
  | (deallocated) k where "w_pc (c_workers s ! t) = Calling_Deallocate k" "c_calls s ! t = Dealloc_Return"
      "s' = deallocate_returns t k (c_workers s ! t) s"
  | (call) pc a where "(\<exists>n. w_pc (c_workers s ! t) = Calling_Allocate n) \<or> (\<exists>k. w_pc (c_workers s ! t) = Calling_Deallocate k)"
      "thread_step sched (c_calls s ! t) (c_heap s) = Some (pc, a)" "s' = put_call t pc (s\<lparr>c_heap := a\<rparr>)"
proof (cases "w_pc (c_workers s ! t)")
  case (Calling_Allocate n)
  then have "(\<exists>i p. c_calls s ! t = Alloc_Return i p \<and> s' = allocate_returns t n p (c_workers s ! t) s) \<or> call_step sched t s = Some s'"
    using assms by (auto simp: worker_step_def split: phase.split_asm)
  then show ?thesis
    using Calling_Allocate allocated call by (auto simp del: thread_step.simps elim!: call_stepE)
next
  case (Calling_Deallocate k)
  then have "(c_calls s ! t = Dealloc_Return \<and> s' = deallocate_returns t k (c_workers s ! t) s) \<or> call_step sched t s = Some s'"
    using assms by (auto simp: worker_step_def split: phase.split_asm)
  then show ?thesis
    using Calling_Deallocate deallocated call by (auto simp del: thread_step.simps elim!: call_stepE)
qed (use assms loop gave_up fill verify mismatch in \<open>auto simp: worker_step_def\<close>)

text \<open>A failure is counted before it is noted.\<close>

definition fail_counted :: "ConcTest \<Rightarrow> bool" where
  "fail_counted s \<longleftrightarrow> (\<forall>w\<in>set (c_workers s). w_pc w = Alloc_Failed \<longrightarrow> 0 < c_allocation_failures s)"

lemma worker_step_inv:
  assumes env: "mmap_ok mmap" and inv: "conc_inv mmap s" "fail_counted s" and t: "t < length (c_workers s)"
    and step: "draw_ok d (c_workers s ! t)" "worker_step sched d t s = Some s'"
  shows "conc_inv mmap s'"
  using step(2)
proof (cases rule: worker_step_cases)
  case loop
  then show ?thesis
    using loop_inv [OF inv(1) t _ step(1)] by simp
next
  case (allocated n i p)
  then show ?thesis
    using allocate_returns_inv [OF inv(1) t] by simp
next
  case gave_up
  then show ?thesis
    using fail_inv [OF inv(1) t] inv(2) t by (auto simp: fail_counted_def)
next
  case (fill b j)
  then show ?thesis
    using fill_inv [OF env inv(1) t] by simp
next
  case (verify k j)
  then show ?thesis
    using verify_inv [OF inv(1) t] by simp
next
  case mismatch
  then show ?thesis
    using inv_worker [OF inv(1) t] by (simp add: worker_ok_def pc_ok_def)
next
  case (deallocated k)
  then show ?thesis
    using deallocate_returns_inv [OF inv(1) t] by simp
next
  case (call pc a)
  then show ?thesis
    using call_inv [OF env inv(1) t call(2,1)] by simp
qed

text \<open>The allocator gives null only where the system refuses pages.\<close>

definition refuses :: "mmap_env \<Rightarrow> ConcTest \<Rightarrow> bool" where
  "refuses mmap s \<longleftrightarrow> (\<exists>n\<in>set kSizes. mmap (mmap_calls (ph (world (c_heap s)))) (page_map (ph (world (c_heap s))))
     (sc_pages (SizeClasses ! first_class n)) = None)"

definition refused_before :: "mmap_env \<Rightarrow> ConcTest \<Rightarrow> ConcTest \<Rightarrow> bool" where
  "refused_before mmap s0 s \<longleftrightarrow> (\<exists>s1. test_step\<^sup>*\<^sup>* s0 s1 \<and> test_step\<^sup>*\<^sup>* s1 s \<and> refuses mmap s1)"

lemma refused_step: "refused_before mmap s0 s \<Longrightarrow> test_step s s' \<Longrightarrow> refused_before mmap s0 s'"
  unfolding refused_before_def by (meson rtranclp.rtrancl_into_rtrancl)

lemma null_refuses:
  assumes env: "mmap_ok mmap" and inv: "conc_inv mmap s" and t: "t < length (c_workers s)"
    and step: "thread_step sched (c_calls s ! t) (c_heap s) = Some (Alloc_Return i 0, a)"
  shows "refuses mmap s"
proof -
  have "c_calls s ! t \<noteq> Idle" "\<not> deallocating (c_calls s ! t)"
    using step deallocating_step [OF step] by auto
  then obtain n where n: "n \<in> set kSizes" "allocating (first_class n) (c_calls s ! t)"
    using inv_worker [OF inv t] by (auto simp: worker_ok_def pc_ok_def split: worker_pc.splits)
  then have "i = first_class n"
    using allocating_step [OF step] by simp
  then show ?thesis
    unfolding refuses_def using null_refused [OF env inv_reach [OF inv] _ step] inv_length [OF inv] t n(1) size_class_ok [OF n(1)] by auto
qed

lemmas step_defs = loop_test_def allocate_returns_def fill_step_def verify_step_def deallocate_returns_def
  put_call_def put_worker_def next_round_def Let_def

lemma worker_step_null:
  assumes "worker_step sched d t s = Some s'" "draw_ok d (c_workers s ! t)" "u < length (c_calls s)" "c_calls s' ! u = Alloc_Return i 0"
  shows "c_calls s ! u = Alloc_Return i 0 \<or> (\<exists>a. thread_step sched (c_calls s ! t) (c_heap s) = Some (Alloc_Return i 0, a))"
proof -
  have "start_allocate (kSizes ! d_size d) = Alloc_Pop (first_class (kSizes ! d_size d))"
    using assms(2) by (intro start_allocate_size nth_mem) (simp add: draw_ok_def)
  then show ?thesis
    using assms(3,4) by (cases "u = t"; cases rule: worker_step_cases [OF assms(1)]) (auto simp: step_defs split: if_split_asm)
qed

lemma worker_step_failures:
  assumes "worker_step sched d t s = Some s'"
  shows "c_allocation_failures s' = c_allocation_failures s \<or> (\<exists>i. c_calls s ! t = Alloc_Return i 0)"
    and "u < length (c_workers s) \<Longrightarrow> w_pc (c_workers s' ! u) = Alloc_Failed \<Longrightarrow>
      (u \<noteq> t \<and> w_pc (c_workers s ! u) = Alloc_Failed) \<or> 0 < c_allocation_failures s'"
    and "c_allocation_failures s \<le> c_allocation_failures s'" "length (c_workers s') = length (c_workers s)"
proof -
  show "c_allocation_failures s' = c_allocation_failures s \<or> (\<exists>i. c_calls s ! t = Alloc_Return i 0)"
    by (cases rule: worker_step_cases [OF assms]) (auto simp: step_defs)
  show "c_allocation_failures s \<le> c_allocation_failures s'" "length (c_workers s') = length (c_workers s)"
    by (cases rule: worker_step_cases [OF assms]; auto simp: step_defs)+
  show "(u \<noteq> t \<and> w_pc (c_workers s ! u) = Alloc_Failed) \<or> 0 < c_allocation_failures s'"
    if "u < length (c_workers s)" "w_pc (c_workers s' ! u) = Alloc_Failed"
    using that by (cases "u = t"; cases rule: worker_step_cases [OF assms]) (auto simp: step_defs split: if_split_asm)
qed

lemma worker_step_done:
  assumes "worker_step sched d t s = Some s'"
  shows "c_failed s \<longrightarrow> c_failed s'"
    and "u < length (c_workers s) \<Longrightarrow> w_pc (c_workers s' ! u) = Done \<Longrightarrow>
      (u \<noteq> t \<and> c_workers s' ! u = c_workers s ! u) \<or> w_live (c_workers s' ! u) = [] \<or> c_failed s'"
proof -
  show "c_failed s \<longrightarrow> c_failed s'"
    by (cases rule: worker_step_cases [OF assms]) (auto simp: step_defs)
  show "(u \<noteq> t \<and> c_workers s' ! u = c_workers s ! u) \<or> w_live (c_workers s' ! u) = [] \<or> c_failed s'"
    if "u < length (c_workers s)" "w_pc (c_workers s' ! u) = Done"
    using that by (cases "u = t"; cases rule: worker_step_cases [OF assms]) (auto simp: step_defs split: if_split_asm)
qed

text \<open>What holds along a run from \<open>s0\<close>; a thread that is done has given back all its blocks, unless
  the test has failed.\<close>

definition drained :: "ConcTest \<Rightarrow> bool" where
  "drained s \<longleftrightarrow> (\<forall>w\<in>set (c_workers s). w_pc w = Done \<longrightarrow> w_live w = [] \<or> c_failed s)"

lemma drained_step:
  assumes "drained s" "worker_step sched d t s = Some s'"
  shows "drained s'"
  unfolding drained_def
proof (intro ballI impI)
  fix w
  assume w: "w \<in> set (c_workers s')" "w_pc w = Done"
  then obtain u where u: "u < length (c_workers s)" "w = c_workers s' ! u"
    using worker_step_failures(4) [OF assms(2)] by (metis in_set_conv_nth)
  then show "w_live w = [] \<or> c_failed s'"
    using worker_step_done(1) [OF assms(2)] worker_step_done(2) [OF assms(2) u(1)] w(2) assms(1) nth_mem [OF u(1)] by (auto simp: drained_def)
qed

definition run_inv :: "mmap_env \<Rightarrow> ConcTest \<Rightarrow> ConcTest \<Rightarrow> bool" where
  "run_inv mmap s0 s \<longleftrightarrow> conc_inv mmap s \<and> fail_counted s \<and> drained s
     \<and> (0 < c_allocation_failures s \<or> (\<exists>u<length (c_workers s). \<exists>i. c_calls s ! u = Alloc_Return i 0) \<longrightarrow> refused_before mmap s0 s)"

lemma new_worker_ok: "worker_ok m Idle new_worker"
  by (simp add: worker_simps new_worker_def)

lemma start_run_inv:
  assumes "start_test mmap affinity region hw = Some s"
  shows "run_inv mmap s s"
proof -
  obtain a where a: "new_Allocator mmap affinity region = Some a" "c_heap s = a" "c_calls s = replicate (thread_count hw) Idle"
      "c_workers s = replicate (thread_count hw) new_worker" "\<not> c_failed s" "c_allocations s = 0" "c_deallocations s = 0"
      "c_allocation_failures s = 0" "c_verification_failures s = 0"
    using assms by (auto simp: start_test_def elim!: bind_SomeE)
  have "sum_list (map (length \<circ> w_live) (replicate n new_worker)) = 0" for n
    by (induction n) (simp_all add: new_worker_def)
  then have "conc_inv mmap s"
    using threads_reach.start [OF a(1)] a new_worker_ok by (simp add: conc_inv_def held_new)
  then show ?thesis
    using a by (auto simp: run_inv_def fail_counted_def drained_def new_worker_def)
qed

lemma step_run_inv:
  assumes env: "mmap_ok mmap" and run: "run_inv mmap s0 s" "test_step\<^sup>*\<^sup>* s0 s" and step: "test_step s s'"
  shows "run_inv mmap s0 s'"
proof -
  obtain t sched d where t: "t < length (c_workers s)" "draw_ok d (c_workers s ! t)" "worker_step sched d t s = Some s'"
    using step by (auto simp: test_step_def)
  have inv: "conc_inv mmap s" "fail_counted s" "drained s" and len: "length (c_calls s) = length (c_workers s)"
    using run(1) inv_length by (auto simp: run_inv_def)
  note f = worker_step_failures [OF t(3)]
  have now: "refused_before mmap s0 s" if "refuses mmap s"
    using that run(2) unfolding refused_before_def by blast
  have "refused_before mmap s0 s" if "0 < c_allocation_failures s' \<or> (\<exists>u<length (c_workers s'). \<exists>i. c_calls s' ! u = Alloc_Return i 0)"
    using that
  proof
    assume "0 < c_allocation_failures s'"
    then show ?thesis
      using f(1) run(1) t(1) by (auto simp: run_inv_def)
  next
    assume "\<exists>u<length (c_workers s'). \<exists>i. c_calls s' ! u = Alloc_Return i 0"
    then obtain u i where u: "u < length (c_workers s)" "c_calls s' ! u = Alloc_Return i 0"
      using f(4) by auto
    then show ?thesis
      using worker_step_null [OF t(3,2) _ u(2)] len null_refuses [OF env inv(1) t(1)] now run(1) by (auto simp: run_inv_def)
  qed
  moreover have "fail_counted s'"
    unfolding fail_counted_def
  proof (intro ballI impI)
    fix w
    assume "w \<in> set (c_workers s')" "w_pc w = Alloc_Failed"
    then obtain u where u: "u < length (c_workers s)" "w_pc (c_workers s' ! u) = Alloc_Failed"
      using f(4) by (metis in_set_conv_nth)
    then show "0 < c_allocation_failures s'"
      using f(2) [OF u] f(3) inv(2) by (auto simp: fail_counted_def)
  qed
  ultimately show ?thesis
    using worker_step_inv [OF env inv(1,2) t] drained_step [OF inv(3) t(3)] refused_step [OF _ step] by (auto simp: run_inv_def)
qed

lemma test_run_inv:
  assumes "mmap_ok mmap" "start_test mmap affinity region hw = Some s0" "test_step\<^sup>*\<^sup>* s0 s"
  shows "run_inv mmap s0 s"
  using assms(3) by (induction rule: rtranclp_induct) (simp_all add: start_run_inv [OF assms(2)] step_run_inv [OF assms(1)])

end
