(* ===== verification/Concurrency_Test_Props.thy ===== *)
theory Concurrency_Test_Props
  imports Concurrency_Test_Inv
begin

text \<open>
  What \<open>tests/concurrency_test.cpp\<close> reports: in every interleaving each thread finds in its blocks
  the bytes it has written, the test fails only if the system has refused memory to the allocator,
  and it ends.
\<close>

section \<open>A concrete run\<close>

definition demo_test :: ConcTest where
  "demo_test = the (start_test bump_mmap (\<lambda>cpu. cpu = 0) (Some 4096) 0)"

lemma demo_test_start: "start_test bump_mmap (\<lambda>cpu. cpu = 0) (Some 4096) 0 = Some demo_test"
  by (simp add: demo_test_def start_test_def demo0_new)

text \<open>The second of the four threads asks for 8 bytes.\<close>

definition demo_next :: ConcTest where
  "demo_next = loop_test \<lparr>d_action = 0, d_size = 0, d_live = 0\<rparr> 1 new_worker demo_test"

lemma demo_test_workers: "c_workers demo_test = replicate 4 new_worker"
  by (simp add: demo_test_def start_test_def thread_count_def demo0_new)

lemma demo_test_step: "test_step demo_test demo_next"
  unfolding test_step_def demo_next_def
  by (intro exI [of _ 1] exI [of _ demo_sched] exI [of _ "\<lparr>d_action = 0, d_size = 0, d_live = 0\<rparr>"])
    (simp add: demo_test_workers worker_step_def draw_ok_def new_worker_def kSizes_def)

section \<open>Safety\<close>



section \<open>Termination\<close>

text \<open>
  An upper bound for the steps left to a thread. A block costs fewer than 5000 steps once it is
  live (4096 bytes to check and a call), a round of the first loop fewer than 10000.
\<close>

definition worker_rank :: "Worker \<times> phase \<Rightarrow> nat" where
  "worker_rank = (\<lambda>(w, call).
     (if w_draining w then 0 else 1 + 10000 * (kOpsPerThread - (if w_pc w = Loop_Test then w_op w else Suc (w_op w))))
     + 5000 * (case w_pc w of Verifying k j \<Rightarrow> length (w_live w) - 1 | Calling_Deallocate k \<Rightarrow> length (w_live w) - 1 | _ \<Rightarrow> length (w_live w))
     + (case w_pc w of
          Loop_Test \<Rightarrow> 1
        | Calling_Allocate n \<Rightarrow> 9100 + steps_left call
        | Alloc_Failed \<Rightarrow> 1
        | Filling b j \<Rightarrow> 5002 + (la_size b - j)
        | Verifying k j \<Rightarrow> 145 + (la_size (w_live w ! k) - j)
        | Calling_Deallocate k \<Rightarrow> 2 + steps_left call
        | _ \<Rightarrow> 0))"

definition test_rank :: "ConcTest \<Rightarrow> nat" where
  "test_rank s = sum_list (map worker_rank (zip (c_workers s) (c_calls s)))"

lemma test_rank_less:
  assumes "t < length (c_workers s)" "length (c_calls s) = length (c_workers s)"
    and "c_workers s' = (c_workers s)[t := w']" "c_calls s' = (c_calls s)[t := pc']"
    and "worker_rank (w', pc') < worker_rank (c_workers s ! t, c_calls s ! t)"
  shows "test_rank s' < test_rank s"
  using sum_map_upd [of t "zip (c_workers s) (c_calls s)" worker_rank "(w', pc')"] assms
  by (simp add: test_rank_def update_zip)

lemma start_steps: "is_class i \<Longrightarrow> steps_left (Alloc_Pop i) \<le> 142" "is_class i \<Longrightarrow> steps_left (Dealloc_Find i p) \<le> 142"
  using steps_left_bound [of "Alloc_Pop i"] steps_left_bound [of "Dealloc_Find i p"] by (simp_all add: MAX_BATCH_SIZE_def)

text \<open>A step of a thread on its own variables, and a step that also starts or ends a call.\<close>

lemma rank_loop:
  assumes w: "worker_ok m call w" "w_pc w = Loop_Test" and d: "draw_ok d w" and t: "t < length (c_workers s)" "length (c_calls s) = length (c_workers s)"
    and s: "c_workers s ! t = w" "c_calls s ! t = call"
  shows "test_rank (loop_test d t w s) < test_rank s"
proof -
  let ?n = "kSizes ! d_size d"
  have n: "?n \<in> set kSizes"
    using d by (intro nth_mem) (simp add: draw_ok_def)
  have same: "(c_calls s)[t := call] = c_calls s"
    using s(2) list_update_id [of "c_calls s" t] by simp
  have sizes: "la_size (w_live w ! k) \<le> 4096" if "k < length (w_live w)" for k
    using that w size_class_ok by (auto simp: worker_simps)
  note less = test_rank_less [OF t]
  consider "w_draining w" "w_live w \<noteq> []" "\<not> c_failed s" | "w_draining w" "w_live w = [] \<or> c_failed s"
    | "\<not> w_draining w" "w_op w < kOpsPerThread" "\<not> c_failed s" "w_live w = [] \<or> length (w_live w) < kLiveSetPerThread \<and> d_action d < 60"
    | "\<not> w_draining w" "w_op w < kOpsPerThread" "\<not> c_failed s" "w_live w \<noteq> []" "\<not> (length (w_live w) < kLiveSetPerThread \<and> d_action d < 60)"
    | "\<not> w_draining w" "\<not> (w_op w < kOpsPerThread \<and> \<not> c_failed s)"
    by blast
  then show ?thesis
  proof cases
    case 1
    obtain l where "length (w_live w) = Suc l"
      using 1(2) by (cases "w_live w") auto
    then show ?thesis
      using 1 w sizes [of l] by (intro less [where w' = "w\<lparr>w_pc := Verifying l 0\<rparr>" and pc' = call])
        (auto simp: loop_test_def put_worker_def same s worker_rank_def)
  next
    case 2
    then show ?thesis
      using w by (intro less [where w' = "w\<lparr>w_pc := Done\<rparr>" and pc' = call])
        (auto simp: loop_test_def put_worker_def same s worker_rank_def)
  next
    case 3
    then show ?thesis
      using w size_class_ok [OF n] start_steps(1) [of "first_class ?n"] start_allocate_size [OF n]
      by (intro less [where w' = "w\<lparr>w_pc := Calling_Allocate ?n\<rparr>" and pc' = "start_allocate ?n"])
        (auto simp: loop_test_def put_worker_def put_call_def s worker_rank_def Let_def)
  next
    case 4
    then show ?thesis
      using w d sizes [of "d_live d"] by (intro less [where w' = "w\<lparr>w_pc := Verifying (d_live d) 0\<rparr>" and pc' = call])
        (cases "w_live w", auto simp: loop_test_def put_worker_def same s worker_rank_def draw_ok_def)
  next
    case 5
    then show ?thesis
      using w by (intro less [where w' = "w\<lparr>w_draining := True\<rparr>" and pc' = call])
        (auto simp: loop_test_def put_worker_def same s worker_rank_def)
  qed
qed

lemma rank_verify:
  assumes w: "worker_ok m call w" "w_pc w = Verifying k j" and t: "t < length (c_workers s)" "length (c_calls s) = length (c_workers s)"
    and s: "c_workers s ! t = w" "c_calls s ! t = call" "m = cells (world (c_heap s))"
  shows "test_rank (verify_step t k j w s) < test_rank s"
proof -
  let ?b = "w_live w ! k"
  have b: "la_size ?b \<in> set kSizes" "filled m ?b (la_size ?b)" "call = Idle"
    using w by (auto simp: worker_simps)
  have same: "(c_calls s)[t := Idle] = c_calls s"
    using s(2) b(3) list_update_id [of "c_calls s" t] by simp
  show ?thesis
  proof (cases "j < la_size ?b")
    case True
    then show ?thesis
      using w b by (intro test_rank_less [OF t, where w' = "w\<lparr>w_pc := Verifying k (Suc j)\<rparr>" and pc' = Idle])
        (auto simp: verify_step_def put_worker_def same s worker_rank_def filled_def Let_def)
  next
    case False
    then show ?thesis
      using w start_steps(2) [of "class_of ?b" "la_ptr ?b"] size_class_ok [OF b(1)]
      by (intro test_rank_less [OF t, where w' = "w\<lparr>w_pc := Calling_Deallocate k\<rparr>" and pc' = "Dealloc_Find (class_of ?b) (la_ptr ?b)"])
        (auto simp: verify_step_def put_worker_def put_call_def s worker_rank_def Let_def)
  qed
qed

lemma rank_fill:
  assumes w: "worker_ok m call w" "w_pc w = Filling b j" and t: "t < length (c_workers s)" "length (c_calls s) = length (c_workers s)"
    and s: "c_workers s ! t = w" "c_calls s ! t = call"
  shows "test_rank (fill_step t b j w s) < test_rank s"
proof -
  have same: "(c_calls s)[t := call] = c_calls s"
    using s(2) list_update_id [of "c_calls s" t] by simp
  show ?thesis
  proof (cases "j < la_size b")
    case True
    then show ?thesis
      using w by (intro test_rank_less [OF t, where w' = "w\<lparr>w_pc := Filling b (Suc j)\<rparr>" and pc' = call])
        (auto simp: fill_step_def put_worker_def same s worker_rank_def)
  next
    case False
    then show ?thesis
      using w by (intro test_rank_less [OF t, where w' = "next_round (w\<lparr>w_live := w_live w @ [b]\<rparr>)" and pc' = call])
        (auto simp: fill_step_def put_worker_def same s worker_rank_def next_round_def)
  qed
qed

lemma rank_returns:
  assumes w: "worker_ok m call w" and t: "t < length (c_workers s)" "length (c_calls s) = length (c_workers s)"
    and s: "c_workers s ! t = w" "c_calls s ! t = call"
  shows "w_pc w = Calling_Allocate n \<Longrightarrow> call = Alloc_Return i p \<Longrightarrow> test_rank (allocate_returns t n p w s) < test_rank s"
    and "w_pc w = Calling_Deallocate k \<Longrightarrow> call = Dealloc_Return \<Longrightarrow> test_rank (deallocate_returns t k w s) < test_rank s"
proof -
  assume pc: "w_pc w = Calling_Allocate n" "call = Alloc_Return i p"
  define b where "b = \<lparr>la_ptr = p, la_size = n, la_tag = u64 (push_bit 32 t) OR w_op w\<rparr>"
  have "n \<in> set kSizes"
    using w pc by (simp add: worker_ok_def pc_ok_def)
  then show "test_rank (allocate_returns t n p w s) < test_rank s"
    using size_class_ok [of n] pc
    by (intro test_rank_less [OF t, where w' = "if p = 0 then w\<lparr>w_pc := Alloc_Failed\<rparr> else w\<lparr>w_pc := Filling b 0\<rparr>" and pc' = Idle])
      (auto simp: allocate_returns_def put_worker_def put_call_def s worker_rank_def b_def)
next
  assume pc: "w_pc w = Calling_Deallocate k" "call = Dealloc_Return"
  show "test_rank (deallocate_returns t k w s) < test_rank s"
    using pc by (intro test_rank_less [OF t, where w' = "next_round (w\<lparr>w_live := butlast ((w_live w)[k := last (w_live w)])\<rparr>)" and pc' = Idle])
      (auto simp: deallocate_returns_def put_worker_def put_call_def s worker_rank_def next_round_def)
qed

lemma rank_call:
  assumes "t < length (c_workers s)" "length (c_calls s) = length (c_workers s)" "steps_left pc < steps_left (c_calls s ! t)"
    and "(\<exists>n. w_pc (c_workers s ! t) = Calling_Allocate n) \<or> (\<exists>k. w_pc (c_workers s ! t) = Calling_Deallocate k)"
  shows "test_rank (put_call t pc (s\<lparr>c_heap := a\<rparr>)) < test_rank s"
  using assms by (intro test_rank_less [OF assms(1,2), where w' = "c_workers s ! t" and pc' = pc]) (auto simp: put_call_def worker_rank_def)

lemma call_advances:
  assumes env: "mmap_ok mmap" and inv: "conc_inv mmap s" and t: "t < length (c_workers s)"
    and pc: "(\<exists>n. w_pc (c_workers s ! t) = Calling_Allocate n) \<or> (\<exists>k. w_pc (c_workers s ! t) = Calling_Deallocate k)"
    and active: "active (c_calls s ! t)"
  shows "\<exists>s'. call_step sched t s = Some s' \<and> test_rank s' < test_rank s"
proof -
  have tc: "t < length (c_calls s)"
    using t inv_length [OF inv] by simp
  obtain L where inv0: "alloc_inv (c_heap s) L (outside (held (c_workers s)) (c_calls s))" "phases_ok (c_calls s)"
    using threads_reach_inv [OF inv_reach [OF inv] env] by blast
  obtain call a where step: "thread_step sched (c_calls s ! t) (c_heap s) = Some (call, a)" "steps_left call < steps_left (c_calls s ! t)"
    using step_good [OF inv0 tc active, of sched] by blast
  then show ?thesis
    using rank_call [OF t inv_length [OF inv] step(2) pc] by (simp add: call_step_def)
qed

lemma worker_progress:
  assumes env: "mmap_ok mmap" and inv: "conc_inv mmap s" and t: "t < length (c_workers s)"
    and w: "w_pc (c_workers s ! t) \<noteq> Done" "draw_ok d (c_workers s ! t)"
  shows "\<exists>s'. worker_step sched d t s = Some s' \<and> test_rank s' < test_rank s"
proof -
  note len = inv_length [OF inv] and ok = inv_worker [OF inv t]
  have call: "\<exists>s'. worker_step sched d t s = Some s' \<and> test_rank s' < test_rank s"
    if "(\<exists>n. w_pc (c_workers s ! t) = Calling_Allocate n) \<or> (\<exists>k. w_pc (c_workers s ! t) = Calling_Deallocate k)" "active (c_calls s ! t)"
    using call_advances [OF env inv t that, of sched] that by (cases "c_calls s ! t") (auto simp: worker_step_def)
  show ?thesis
  proof (cases "w_pc (c_workers s ! t)")
    case Loop_Test
    then show ?thesis
      using rank_loop [OF ok _ w(2) t len refl refl] by (simp add: worker_step_def)
  next
    case (Calling_Allocate n)
    then show ?thesis
      using call rank_returns(1) [OF ok t len refl refl, of n] ok
      by (cases "c_calls s ! t") (auto simp: worker_step_def worker_ok_def pc_ok_def)
  next
    case Alloc_Failed
    then show ?thesis
      by (auto simp: worker_step_def put_worker_def worker_rank_def
          intro!: test_rank_less [OF t len, where w' = "(c_workers s ! t)\<lparr>w_pc := Done\<rparr>" and pc' = "c_calls s ! t"])
  next
    case (Filling b j)
    then show ?thesis
      using rank_fill [OF ok _ t len refl refl] by (simp add: worker_step_def)
  next
    case (Verifying k j)
    then show ?thesis
      using rank_verify [OF ok _ t len refl refl refl] by (simp add: worker_step_def)
  next
    case Verify_Failed
    then show ?thesis
      using ok by (simp add: worker_ok_def pc_ok_def)
  next
    case (Calling_Deallocate k)
    then show ?thesis
      using call rank_returns(2) [OF ok t len refl refl, of k] ok
      by (cases "c_calls s ! t") (auto simp: worker_step_def worker_ok_def pc_ok_def)
  next
    case Done
    then show ?thesis
      using w(1) by simp
  qed
qed

lemma run_length:
  assumes "mmap_ok mmap" "start_test mmap affinity region hw = Some s0" "(test_step ^^ k) s0 s"
  shows "k + test_rank s \<le> test_rank s0"
  using assms(3)
proof (induction k arbitrary: s)
  case (Suc k)
  then obtain s1 where s1: "(test_step ^^ k) s0 s1" "test_step s1 s"
    by auto
  then obtain t sched d where t: "t < length (c_workers s1)" "draw_ok d (c_workers s1 ! t)" "worker_step sched d t s1 = Some s"
    by (auto simp: test_step_def)
  have "conc_inv mmap s1"
    using test_run_inv [OF assms(1,2) relpowp_imp_rtranclp [OF s1(1)]] by (simp add: run_inv_def)
  moreover have "w_pc (c_workers s1 ! t) \<noteq> Done"
    using t(3) by (auto simp: worker_step_def)
  ultimately have "test_rank s < test_rank s1"
    using worker_progress [OF assms(1) _ t(1) _ t(2), of sched] t(3) by auto
  then show ?case
    using Suc.IH [OF s1(1)] by simp
qed simp

lemma start_rank: "start_test mmap affinity region hw = Some s \<Longrightarrow> test_rank s = thread_count hw * 500000002"
  by (auto simp: start_test_def test_rank_def worker_rank_def new_worker_def kOpsPerThread_def zip_replicate sum_list_replicate elim!: bind_SomeE)



end
