(* ===== verification/Rseq_Machine.thy ===== *)
theory Rseq_Machine
  imports Slabs
begin

text \<open>
  The restartable sequences of \<open>slabs.hpp\<close>, instruction by instruction, with what the kernel does
  to a thread inside one. A thread executes on one CPU; the kernel may interrupt it between any
  two instructions, let other threads run, and resume it on any CPU. When the interrupted
  instruction lies in the range the descriptor names (label 12 up to label 13, or 22 to 23) and
  \<open>rseq_cs\<close> points to the descriptor, the thread resumes at the abort handler; in every case
  \<open>rseq_cs\<close> is then null. While it is not interrupted, no other thread works on the slab of its
  CPU. The registers are those of the code; \<open>r8\<close>, the address of a slab, is the slab's number
  (\<open>slab_slots_disjoint\<close> shows that slabs do not overlap). \<open>moved\<close> is a ghost: the pointers the
  thread has taken from, or put on, the stack of the class so far, one for each store to the count.
\<close>

section \<open>Threads\<close>

datatype rseq_pc =
    Enter | Set_Cs | Load_Start | Bound | Slab_Addr | Load_Current | Load_Caps | Load_Cpu | Same_Cpu | Test_Current
  | Decrement | Load_Offset | Add_Offset | Load_Pointer | Store_Pointer | Increment | Commit
  | Xor_Rax | Clear_Cs | Set_Used | Post | Exit_Empty | Exit_Range | Abort | Done

record rthread =
  pc :: rseq_pc
  r8 :: nat
  r9 :: nat
  r10 :: nat
  r11 :: nat
  eax :: nat
  edx :: nat
  rseq_cs :: bool
  used_fastpath :: bool
  rresult :: addr
  rok :: bool
  moved :: "addr list"

definition enter_section :: rthread where
  "enter_section = \<lparr>pc = Enter, r8 = 0, r9 = 0, r10 = 0, r11 = 0, eax = 0, edx = 0, rseq_cs = False,
     used_fastpath = False, rresult = 0, rok = False, moved = []\<rparr>"

section \<open>The instructions of the pop\<close>

definition pop_instr :: "nat \<Rightarrow> nat \<Rightarrow> nat \<Rightarrow> rthread \<times> slab_region \<Rightarrow> rthread \<times> slab_region" where
  "pop_instr slab_count sc cpu = (\<lambda>(t, region).
     case pc t of
       Enter \<Rightarrow> (t\<lparr>pc := Set_Cs\<rparr>, region)
     | Set_Cs \<Rightarrow> (t\<lparr>rseq_cs := True, pc := Load_Start\<rparr>, region)
     | Load_Start \<Rightarrow> (t\<lparr>r10 := cpu, pc := Bound\<rparr>, region)
     | Bound \<Rightarrow> (t\<lparr>pc := (if slab_count \<le> r10 t then Exit_Range else Slab_Addr)\<rparr>, region)
     | Slab_Addr \<Rightarrow> (t\<lparr>r8 := r10 t, pc := Load_Current\<rparr>, region)
     | Load_Current \<Rightarrow> (t\<lparr>eax := currents (region (r8 t)) sc, pc := Load_Cpu\<rparr>, region)
     | Load_Cpu \<Rightarrow> (t\<lparr>r11 := cpu, pc := Same_Cpu\<rparr>, region)
     | Same_Cpu \<Rightarrow> (t\<lparr>pc := (if r11 t \<noteq> r10 t then Enter else Test_Current)\<rparr>, region)
     | Test_Current \<Rightarrow> (t\<lparr>pc := (if eax t = 0 then Exit_Empty else Decrement)\<rparr>, region)
     | Decrement \<Rightarrow> (t\<lparr>edx := eax t - 1, pc := Load_Offset\<rparr>, region)
     | Load_Offset \<Rightarrow> (t\<lparr>eax := SIZE_CLASS_OFFSETS ! sc, pc := Add_Offset\<rparr>, region)
     | Add_Offset \<Rightarrow> (t\<lparr>eax := u32 (eax t + edx t), pc := Load_Pointer\<rparr>, region)
     | Load_Pointer \<Rightarrow> (t\<lparr>r9 := pointers (region (r8 t)) (eax t), pc := Commit\<rparr>, region)
     | Commit \<Rightarrow> (t\<lparr>moved := moved t @ [r9 t], pc := Xor_Rax\<rparr>,
         region(r8 t := (region (r8 t))\<lparr>currents := (currents (region (r8 t)))(sc := u16 (edx t))\<rparr>))
     | Xor_Rax \<Rightarrow> (t\<lparr>eax := 0, pc := Clear_Cs\<rparr>, region)
     | Clear_Cs \<Rightarrow> (t\<lparr>rseq_cs := False, pc := Set_Used\<rparr>, region)
     | Set_Used \<Rightarrow> (t\<lparr>used_fastpath := True, pc := Post\<rparr>, region)
     | Post \<Rightarrow> (t\<lparr>rresult := r9 t, pc := Done\<rparr>, region)
     | Exit_Empty \<Rightarrow> (t\<lparr>rseq_cs := False, used_fastpath := True, rresult := 0, pc := Done\<rparr>, region)
     | Exit_Range \<Rightarrow> (t\<lparr>rseq_cs := False, used_fastpath := False, rresult := 0, pc := Done\<rparr>, region)
     | Abort \<Rightarrow> (t\<lparr>pc := Enter\<rparr>, region)
     | _ \<Rightarrow> (t, region))"

section \<open>The instructions of the push\<close>

definition push_instr :: "nat \<Rightarrow> nat \<Rightarrow> addr \<Rightarrow> nat \<Rightarrow> rthread \<times> slab_region \<Rightarrow> rthread \<times> slab_region" where
  "push_instr slab_count sc p cpu = (\<lambda>(t, region).
     case pc t of
       Enter \<Rightarrow> (t\<lparr>pc := Set_Cs\<rparr>, region)
     | Set_Cs \<Rightarrow> (t\<lparr>rseq_cs := True, pc := Load_Start\<rparr>, region)
     | Load_Start \<Rightarrow> (t\<lparr>r10 := cpu, pc := Bound\<rparr>, region)
     | Bound \<Rightarrow> (t\<lparr>pc := (if slab_count \<le> r10 t then Exit_Range else Slab_Addr)\<rparr>, region)
     | Slab_Addr \<Rightarrow> (t\<lparr>r8 := r10 t, pc := Load_Current\<rparr>, region)
     | Load_Current \<Rightarrow> (t\<lparr>eax := currents (region (r8 t)) sc, pc := Load_Caps\<rparr>, region)
     | Load_Caps \<Rightarrow> (t\<lparr>r9 := SIZE_CLASS_CAPACITIES ! sc, pc := Load_Cpu\<rparr>, region)
     | Load_Cpu \<Rightarrow> (t\<lparr>r11 := cpu, pc := Same_Cpu\<rparr>, region)
     | Same_Cpu \<Rightarrow> (t\<lparr>pc := (if r11 t \<noteq> r10 t then Enter else Test_Current)\<rparr>, region)
     | Test_Current \<Rightarrow> (t\<lparr>pc := (if r9 t \<le> eax t then Exit_Empty else Load_Offset)\<rparr>, region)
     | Load_Offset \<Rightarrow> (t\<lparr>r10 := SIZE_CLASS_OFFSETS ! sc, pc := Add_Offset\<rparr>, region)
     | Add_Offset \<Rightarrow> (t\<lparr>r10 := u32 (r10 t + eax t), pc := Store_Pointer\<rparr>, region)
     | Store_Pointer \<Rightarrow> (t\<lparr>pc := Increment\<rparr>,
         region(r8 t := (region (r8 t))\<lparr>pointers := (pointers (region (r8 t)))(r10 t := p)\<rparr>))
     | Increment \<Rightarrow> (t\<lparr>eax := eax t + 1, pc := Commit\<rparr>, region)
     | Commit \<Rightarrow> (t\<lparr>moved := moved t @ [p], pc := Xor_Rax\<rparr>,
         region(r8 t := (region (r8 t))\<lparr>currents := (currents (region (r8 t)))(sc := u16 (eax t))\<rparr>))
     | Xor_Rax \<Rightarrow> (t\<lparr>eax := 0, pc := Clear_Cs\<rparr>, region)
     | Clear_Cs \<Rightarrow> (t\<lparr>rseq_cs := False, pc := Set_Used\<rparr>, region)
     | Set_Used \<Rightarrow> (t\<lparr>used_fastpath := True, pc := Post\<rparr>, region)
     | Post \<Rightarrow> (t\<lparr>rok := True, pc := Done\<rparr>, region)
     | Exit_Empty \<Rightarrow> (t\<lparr>rseq_cs := False, used_fastpath := True, rok := False, pc := Done\<rparr>, region)
     | Exit_Range \<Rightarrow> (t\<lparr>rseq_cs := False, used_fastpath := False, rok := False, pc := Done\<rparr>, region)
     | Abort \<Rightarrow> (t\<lparr>pc := Enter\<rparr>, region)
     | _ \<Rightarrow> (t, region))"

section \<open>The kernel\<close>

text \<open>The range of the descriptor: \<open>.quad 12f, 13f - 12f, 14f\<close>.\<close>

definition in_section :: "rseq_pc \<Rightarrow> bool" where
  "in_section l \<longleftrightarrow> l \<notin> {Post, Exit_Empty, Exit_Range, Abort, Done}"

definition interrupt :: "rthread \<Rightarrow> rthread" where
  "interrupt t = t\<lparr>rseq_cs := False, pc := (if rseq_cs t \<and> in_section (pc t) then Abort else pc t)\<rparr>"

text \<open>
  After the committing store the section is still open for two instructions, until \<open>rseq_cs\<close> has
  been cleared.
\<close>

definition in_window :: "rthread \<Rightarrow> bool" where
  "in_window t \<longleftrightarrow> rseq_cs t \<and> pc t \<in> {Xor_Rax, Clear_Cs}"

text \<open>
  One step: the thread executes an instruction; it is interrupted, with any effect of the threads
  that run meanwhile; or threads on other CPUs change their slabs. With \<open>late\<close> interrupts may
  also hit the two instructions after the commit.
\<close>

type_synonym config = "nat \<times> rthread \<times> slab_region"

inductive rseq_step ::
    "bool \<Rightarrow> (nat \<Rightarrow> rthread \<times> slab_region \<Rightarrow> rthread \<times> slab_region) \<Rightarrow> config \<Rightarrow> config \<Rightarrow> bool"
  for late instr where
  exec: "instr cpu (t, region) = (t', region') \<Longrightarrow> rseq_step late instr (cpu, t, region) (cpu, t', region')"
| interrupted: "late \<or> \<not> in_window t \<Longrightarrow> rseq_step late instr (cpu, t, region) (cpu', interrupt t, region')"
| others: "region' cpu = region cpu \<Longrightarrow> rseq_step late instr (cpu, t, region) (cpu, t, region')"

inductive rseq_run ::
    "bool \<Rightarrow> (nat \<Rightarrow> rthread \<times> slab_region \<Rightarrow> rthread \<times> slab_region) \<Rightarrow> config \<Rightarrow> config \<Rightarrow> bool"
  for late instr c where
  refl: "rseq_run late instr c c"
| step: "rseq_run late instr c c1 \<Longrightarrow> rseq_step late instr c1 c2 \<Longrightarrow> rseq_run late instr c c2"

end
