(* ===== verification/Rseq_Props.thy ===== *)
theory Rseq_Props
  imports Rseq_Machine
begin

text \<open>
  The restartable sequences are atomic at their committing store, whatever the kernel does: this
  justifies the one-step model of \<open>Slabs\<close>. They happen exactly once unless the kernel interrupts
  them in the two instructions after that store; there they can happen twice.
\<close>

section \<open>The pop\<close>

definition pop_inv :: "nat \<Rightarrow> nat \<Rightarrow> config \<Rightarrow> bool" where
  "pop_inv n sc = (\<lambda>(cpu, t, region). case pc t of
      Load_Start \<Rightarrow> rseq_cs t
    | Bound \<Rightarrow> rseq_cs t \<and> r10 t = cpu
    | Slab_Addr \<Rightarrow> rseq_cs t \<and> r10 t = cpu \<and> cpu < n
    | Load_Current \<Rightarrow> rseq_cs t \<and> r10 t = cpu \<and> cpu < n \<and> r8 t = cpu
    | Load_Cpu \<Rightarrow> rseq_cs t \<and> r10 t = cpu \<and> cpu < n \<and> r8 t = cpu \<and> eax t = currents (region cpu) sc
    | Same_Cpu \<Rightarrow> rseq_cs t \<and> r10 t = cpu \<and> cpu < n \<and> r8 t = cpu \<and> eax t = currents (region cpu) sc
    | Test_Current \<Rightarrow> rseq_cs t \<and> cpu < n \<and> r8 t = cpu \<and> eax t = currents (region cpu) sc
    | Decrement \<Rightarrow> rseq_cs t \<and> cpu < n \<and> r8 t = cpu \<and> eax t = currents (region cpu) sc \<and> eax t \<noteq> 0
    | Load_Offset \<Rightarrow> rseq_cs t \<and> cpu < n \<and> r8 t = cpu \<and> currents (region cpu) sc = Suc (edx t)
    | Add_Offset \<Rightarrow> rseq_cs t \<and> cpu < n \<and> r8 t = cpu \<and> currents (region cpu) sc = Suc (edx t)
        \<and> eax t = SIZE_CLASS_OFFSETS ! sc
    | Load_Pointer \<Rightarrow> rseq_cs t \<and> cpu < n \<and> r8 t = cpu \<and> currents (region cpu) sc = Suc (edx t)
        \<and> eax t = u32 (SIZE_CLASS_OFFSETS ! sc + edx t)
    | Commit \<Rightarrow> rseq_cs t \<and> cpu < n \<and> r8 t = cpu \<and> currents (region cpu) sc = Suc (edx t)
        \<and> r9 t = pointers (region cpu) (u32 (SIZE_CLASS_OFFSETS ! sc + edx t))
    | Xor_Rax \<Rightarrow> rseq_cs t
    | Clear_Cs \<Rightarrow> rseq_cs t
    | Set_Used \<Rightarrow> \<not> rseq_cs t
    | _ \<Rightarrow> pc t \<notin> {Load_Caps, Store_Pointer, Increment})"

lemma pop_inv_step: "rseq_step late (pop_instr n sc) c c' \<Longrightarrow> pop_inv n sc c \<Longrightarrow> pop_inv n sc c'"
proof (induction rule: rseq_step.induct)
  case (exec cpu t region t' region')
  then show ?case
    by (cases "pc t") (auto simp: pop_inv_def pop_instr_def)
next
  case (interrupted t cpu region cpu' region')
  then show ?case
    by (cases "pc t") (auto simp: pop_inv_def interrupt_def in_section_def)
next
  case (others region' cpu region t)
  then show ?case
    by (cases "pc t") (auto simp: pop_inv_def)
qed

lemma pop_inv_run: "rseq_run late (pop_instr n sc) (cpu, enter_section, region) c \<Longrightarrow> pop_inv n sc c"
proof (induction rule: rseq_run.induct)
  case refl
  then show ?case
    by (simp add: pop_inv_def enter_section_def)
next
  case (step c1 c2)
  then show ?case
    using pop_inv_step by blast
qed

text \<open>
  Without an interrupt in the window: what has been taken from the stack, before and after the
  committing store.
\<close>

definition pop_once :: "config \<Rightarrow> bool" where
  "pop_once = (\<lambda>(cpu, t, region). case pc t of
      Xor_Rax \<Rightarrow> moved t = [r9 t] | Clear_Cs \<Rightarrow> moved t = [r9 t] | Set_Used \<Rightarrow> moved t = [r9 t]
    | Post \<Rightarrow> moved t = [r9 t] \<and> used_fastpath t
    | Done \<Rightarrow> (if used_fastpath t then moved t = [rresult t] \<or> moved t = [] \<and> rresult t = 0 else moved t = [])
    | _ \<Rightarrow> moved t = [])"

lemma pop_once_step:
  "rseq_step False (pop_instr n sc) c c' \<Longrightarrow> pop_inv n sc c \<Longrightarrow> pop_once c \<Longrightarrow> pop_once c'"
proof (induction rule: rseq_step.induct)
  case (exec cpu t region t' region')
  then show ?case
    by (cases "pc t") (auto simp: pop_inv_def pop_once_def pop_instr_def)
next
  case (interrupted t cpu region cpu' region')
  then show ?case
    by (cases "pc t") (auto simp: pop_inv_def pop_once_def interrupt_def in_section_def in_window_def)
next
  case (others region' cpu region t)
  then show ?case
    by (simp add: pop_once_def)
qed

lemma pop_once_run:
  "rseq_run False (pop_instr n sc) (cpu, enter_section, region) c \<Longrightarrow> pop_once c"
proof (induction rule: rseq_run.induct)
  case refl
  then show ?case
    by (simp add: pop_once_def enter_section_def)
next
  case (step c1 c2)
  then show ?case
    using pop_once_step pop_inv_run by blast
qed

section \<open>The push\<close>

definition push_inv :: "nat \<Rightarrow> nat \<Rightarrow> addr \<Rightarrow> config \<Rightarrow> bool" where
  "push_inv n sc p = (\<lambda>(cpu, t, region). case pc t of
      Load_Start \<Rightarrow> rseq_cs t
    | Bound \<Rightarrow> rseq_cs t \<and> r10 t = cpu
    | Slab_Addr \<Rightarrow> rseq_cs t \<and> r10 t = cpu \<and> cpu < n
    | Load_Current \<Rightarrow> rseq_cs t \<and> r10 t = cpu \<and> cpu < n \<and> r8 t = cpu
    | Load_Caps \<Rightarrow> rseq_cs t \<and> r10 t = cpu \<and> cpu < n \<and> r8 t = cpu \<and> eax t = currents (region cpu) sc
    | Load_Cpu \<Rightarrow> rseq_cs t \<and> r10 t = cpu \<and> cpu < n \<and> r8 t = cpu \<and> eax t = currents (region cpu) sc
        \<and> r9 t = SIZE_CLASS_CAPACITIES ! sc
    | Same_Cpu \<Rightarrow> rseq_cs t \<and> r10 t = cpu \<and> cpu < n \<and> r8 t = cpu \<and> eax t = currents (region cpu) sc
        \<and> r9 t = SIZE_CLASS_CAPACITIES ! sc
    | Test_Current \<Rightarrow> rseq_cs t \<and> cpu < n \<and> r8 t = cpu \<and> eax t = currents (region cpu) sc
        \<and> r9 t = SIZE_CLASS_CAPACITIES ! sc
    | Load_Offset \<Rightarrow> rseq_cs t \<and> cpu < n \<and> r8 t = cpu \<and> eax t = currents (region cpu) sc
        \<and> eax t < SIZE_CLASS_CAPACITIES ! sc
    | Add_Offset \<Rightarrow> rseq_cs t \<and> cpu < n \<and> r8 t = cpu \<and> eax t = currents (region cpu) sc
        \<and> eax t < SIZE_CLASS_CAPACITIES ! sc \<and> r10 t = SIZE_CLASS_OFFSETS ! sc
    | Store_Pointer \<Rightarrow> rseq_cs t \<and> cpu < n \<and> r8 t = cpu \<and> eax t = currents (region cpu) sc
        \<and> eax t < SIZE_CLASS_CAPACITIES ! sc \<and> r10 t = u32 (SIZE_CLASS_OFFSETS ! sc + eax t)
    | Increment \<Rightarrow> rseq_cs t \<and> cpu < n \<and> r8 t = cpu \<and> eax t = currents (region cpu) sc
        \<and> eax t < SIZE_CLASS_CAPACITIES ! sc \<and> pointers (region cpu) (u32 (SIZE_CLASS_OFFSETS ! sc + eax t)) = p
    | Commit \<Rightarrow> rseq_cs t \<and> cpu < n \<and> r8 t = cpu \<and> eax t = Suc (currents (region cpu) sc)
        \<and> currents (region cpu) sc < SIZE_CLASS_CAPACITIES ! sc
        \<and> pointers (region cpu) (u32 (SIZE_CLASS_OFFSETS ! sc + currents (region cpu) sc)) = p
    | Xor_Rax \<Rightarrow> rseq_cs t
    | Clear_Cs \<Rightarrow> rseq_cs t
    | Set_Used \<Rightarrow> \<not> rseq_cs t
    | _ \<Rightarrow> pc t \<notin> {Decrement, Load_Pointer})"

lemma push_inv_step: "rseq_step late (push_instr n sc p) c c' \<Longrightarrow> push_inv n sc p c \<Longrightarrow> push_inv n sc p c'"
proof (induction rule: rseq_step.induct)
  case (exec cpu t region t' region')
  then show ?case
    by (cases "pc t") (auto simp: push_inv_def push_instr_def)
next
  case (interrupted t cpu region cpu' region')
  then show ?case
    by (cases "pc t") (auto simp: push_inv_def interrupt_def in_section_def)
next
  case (others region' cpu region t)
  then show ?case
    by (cases "pc t") (auto simp: push_inv_def)
qed

lemma push_inv_run: "rseq_run late (push_instr n sc p) (cpu, enter_section, region) c \<Longrightarrow> push_inv n sc p c"
proof (induction rule: rseq_run.induct)
  case refl
  then show ?case
    by (simp add: push_inv_def enter_section_def)
next
  case (step c1 c2)
  then show ?case
    using push_inv_step by blast
qed

definition push_once :: "addr \<Rightarrow> config \<Rightarrow> bool" where
  "push_once p = (\<lambda>(cpu, t, region). case pc t of
      Xor_Rax \<Rightarrow> moved t = [p] | Clear_Cs \<Rightarrow> moved t = [p] | Set_Used \<Rightarrow> moved t = [p]
    | Post \<Rightarrow> moved t = [p] \<and> used_fastpath t
    | Done \<Rightarrow> moved t = (if used_fastpath t \<and> rok t then [p] else [])
    | _ \<Rightarrow> moved t = [])"

lemma push_once_step:
  "rseq_step False (push_instr n sc p) c c' \<Longrightarrow> push_inv n sc p c \<Longrightarrow> push_once p c \<Longrightarrow> push_once p c'"
proof (induction rule: rseq_step.induct)
  case (exec cpu t region t' region')
  then show ?case
    by (cases "pc t") (auto simp: push_inv_def push_once_def push_instr_def)
next
  case (interrupted t cpu region cpu' region')
  then show ?case
    by (cases "pc t") (auto simp: push_inv_def push_once_def interrupt_def in_section_def in_window_def)
next
  case (others region' cpu region t)
  then show ?case
    by (simp add: push_once_def)
qed

lemma push_once_run:
  "rseq_run False (push_instr n sc p) (cpu, enter_section, region) c \<Longrightarrow> push_once p c"
proof (induction rule: rseq_run.induct)
  case refl
  then show ?case
    by (simp add: push_once_def enter_section_def)
next
  case (step c1 c2)
  then show ?case
    using push_once_step push_inv_run by blast
qed

section \<open>Undisturbed runs\<close>

lemma run_funpow: "rseq_run late instr (cpu, x) (cpu, (instr cpu ^^ k) x)"
proof (induction k)
  case 0
  show ?case
    by (simp add: rseq_run.refl)
next
  case (Suc k)
  obtain t region where s: "(instr cpu ^^ k) x = (t, region)"
    by (rule prod.exhaust)
  obtain t' region' where s': "instr cpu (t, region) = (t', region')"
    by (rule prod.exhaust)
  have "rseq_step late instr (cpu, t, region) (cpu, t', region')"
    by (rule rseq_step.exec) (rule s')
  with Suc.IH show ?case
    using s s' by (auto intro: rseq_run.step)
qed

lemma run_trans: "rseq_run late instr c1 c2 \<Longrightarrow> rseq_run late instr c c1 \<Longrightarrow> rseq_run late instr c c2"
proof (induction rule: rseq_run.induct)
  case (step c3 c4)
  then show ?case
    by (blast intro: rseq_run.step)
qed simp

lemma pop_runs:
  "\<exists>t. (pop_instr n sc cpu ^^ 18) (enter_section, region) = (t, snd (rseq_slab_pop region n sc cpu)) \<and> pc t = Done
      \<and> (rresult t, used_fastpath t) = fst (rseq_slab_pop region n sc cpu)"
  by (simp add: eval_nat_numeral pop_instr_def enter_section_def rseq_slab_pop_def Let_def)

lemma push_runs:
  "\<exists>t. (push_instr n sc p cpu ^^ 19) (enter_section, region) = (t, snd (rseq_slab_push region n sc p cpu)) \<and> pc t = Done
      \<and> (rok t, used_fastpath t) = fst (rseq_slab_push region n sc p cpu)"
  by (simp add: eval_nat_numeral push_instr_def enter_section_def rseq_slab_push_def Let_def)

text \<open>
  C21: executed without interruption, the eighteen instructions of the pop and the nineteen of the
  push compute exactly the result and the region of the one-step models \<open>rseq_slab_pop\<close> and
  \<open>rseq_slab_push\<close> that the allocator's model uses.
\<close>

theorem rseq_code_refines:
  "(\<exists>t. (pop_instr n sc cpu ^^ 18) (enter_section, region) = (t, snd (rseq_slab_pop region n sc cpu)) \<and> pc t = Done
      \<and> (rresult t, used_fastpath t) = fst (rseq_slab_pop region n sc cpu))
   \<and> (\<exists>t. (push_instr n sc p cpu ^^ 19) (enter_section, region) = (t, snd (rseq_slab_push region n sc p cpu)) \<and> pc t = Done
      \<and> (rok t, used_fastpath t) = fst (rseq_slab_push region n sc p cpu))"
  using pop_runs push_runs by blast

section \<open>Atomicity\<close>

text \<open>
  C17: whatever interrupts the kernel makes and wherever it resumes the thread, the only instruction
  of the pop that changes memory is the committing store, and at that instant it performs exactly
  the one-step pop on the slab of the CPU the thread is on.
\<close>

theorem rseq_pop_atomic:
  assumes "rseq_run late (pop_instr n sc) (cpu0, enter_section, region0) (cpu, t, region)"
    and "pop_instr n sc cpu (t, region) = (t', region')"
  shows "if pc t = Commit then rseq_slab_pop region n sc cpu = ((r9 t, True), region') else region' = region"
  using pop_inv_run [OF assms(1)] assms(2)
  by (cases "pc t") (auto simp: pop_inv_def pop_instr_def rseq_slab_pop_def Let_def)

definition one_object :: slab_region where
  "one_object = (\<lambda>_. \<lparr>currents = (\<lambda>_. 1), pointers = (\<lambda>_. 8)\<rparr>)"

lemma pop_to_commit:
  assumes "cpu < n" "currents (region cpu) sc \<noteq> 0"
  shows "\<exists>t. (pop_instr n sc cpu ^^ 13) (enter_section, region) = (t, region) \<and> pc t = Commit"
  using assms by (simp add: eval_nat_numeral pop_instr_def enter_section_def)

theorem rseq_pop_atomic_witness:
  "\<exists>(t :: rthread) region'. pc t = Commit \<and> rseq_slab_pop one_object 1 3 0 = ((r9 t, True), region')"
proof -
  have "currents (one_object 0) 3 \<noteq> 0"
    by (simp add: one_object_def)
  from pop_to_commit [where region = one_object, OF zero_less_one this] obtain t where
      t: "(pop_instr 1 3 0 ^^ 13) (enter_section, one_object) = (t, one_object)" "pc t = Commit"
    by blast
  obtain t' region' where s: "pop_instr 1 3 0 (t, one_object) = (t', region')"
    by (rule prod.exhaust)
  from rseq_pop_atomic [OF run_funpow [of False "pop_instr 1 3" 0 "(enter_section, one_object)" 13, unfolded t(1)] s]
  have "rseq_slab_pop one_object 1 3 0 = ((r9 t, True), region')"
    using t(2) by simp
  then show ?thesis
    using t(2) by blast
qed

text \<open>
  C18: the same for the push: besides the committing store, which performs the one-step push, only
  the store of the pointer changes memory, in a slot above the top of every class's stack.
\<close>

theorem rseq_push_atomic:
  assumes "rseq_run late (push_instr n sc p) (cpu0, enter_section, region0) (cpu, t, region)"
    and "push_instr n sc p cpu (t, region) = (t', region')" "sc < 48" "slab_wf (region cpu)"
  shows "if pc t = Commit then rseq_slab_push region n sc p cpu = ((True, True), region')
     else if pc t = Store_Pointer then (\<forall>c cpu'. c < 48 \<longrightarrow> slab_stack (region' cpu') c = slab_stack (region cpu') c)
     else region' = region"
proof -
  note inv = push_inv_run [OF assms(1)]
  show ?thesis
  proof (cases "pc t = Store_Pointer")
    case True
    let ?i = "slab_offset sc + currents (region cpu) sc"
    have s: "r8 t = cpu" "eax t = currents (region cpu) sc" "eax t < slab_capacity sc" "r10 t = u32 ?i"
      using inv True by (simp_all add: push_inv_def)
    have "u32 ?i = ?i"
      using slice_end_le [OF assms(3)] s(2,3) by (simp add: wrap_simps)
    then have region': "region' = region(cpu := (region cpu)\<lparr>pointers := (pointers (region cpu))(?i := p)\<rparr>)"
      using assms(2) True s by (simp add: push_instr_def)
    have "slab_stack (region' cpu') c = slab_stack (region cpu') c" if c: "c < 48" for c cpu'
    proof (cases "cpu' = cpu")
      case True
      have "currents (region cpu) c \<le> slab_capacity c"
        using assms(4) c by (simp add: slab_wf_def)
      then have "slab_offset c + a \<noteq> ?i" if "a < currents (region cpu) c" for a
        using slices_disjoint [of c sc a "currents (region cpu) sc"] assms(3) c s(2,3) that by (cases "c = sc") auto
      then have "?i \<notin> {slab_offset c ..< slab_offset c + currents (region cpu) c}"
        by (metis add_diff_inverse_nat atLeastLessThan_iff linorder_not_le nat_add_left_cancel_less)
      then show ?thesis
        using True by (auto simp: region' slab_stack_def)
    qed (simp add: region')
    then show ?thesis
      using True by simp
  next
    case False
    then show ?thesis
      using inv assms(2) by (cases "pc t") (auto simp: push_inv_def push_instr_def rseq_slab_push_def Let_def)
  qed
qed

lemma push_to_commit:
  assumes "cpu < n" "currents (region cpu) sc < SIZE_CLASS_CAPACITIES ! sc"
  shows "\<exists>t region'. (push_instr n sc p cpu ^^ 14) (enter_section, region) = (t, region') \<and> pc t = Commit
     \<and> currents (region' cpu) = currents (region cpu)"
  using assms by (simp add: eval_nat_numeral push_instr_def enter_section_def)

theorem rseq_push_atomic_witness:
  "\<exists>region region'. rseq_slab_push region 1 3 8 0 = ((True, True), region') \<and> slab_wf (region 0)"
proof -
  have room: "currents empty_slab 3 < SIZE_CLASS_CAPACITIES ! 3"
    by (simp add: empty_slab_def SIZE_CLASS_CAPACITIES_eq)
  from push_to_commit [where region = "\<lambda>_. empty_slab" and p = 8, OF zero_less_one room] obtain t region where
      t: "(push_instr 1 3 8 0 ^^ 14) (enter_section, \<lambda>_. empty_slab) = (t, region)" "pc t = Commit"
        "currents (region 0) = currents empty_slab"
    by blast
  obtain t' region' where s: "push_instr 1 3 8 0 (t, region) = (t', region')"
    by (rule prod.exhaust)
  have "slab_wf (region 0)"
    using t(3) by (simp add: slab_wf_def slab_stack_def empty_slab_def)
  with rseq_push_atomic [OF run_funpow [of False "push_instr 1 3 8" 0 "(enter_section, \<lambda>_. empty_slab)" 14, unfolded t(1)] s] t(2)
  show ?thesis
    by auto
qed

text \<open>
  C19: unless the kernel interrupts it in the two instructions between the committing store and the
  store that leaves the section, a pop that ran to its end has removed exactly the pointer it
  returns, once, or nothing and returns null; a push that ran to its end has stored its pointer
  once, or reports that it did not.
\<close>

theorem rseq_exactly_once:
  "(rseq_run False (pop_instr n sc) (cpu0, enter_section, region0) (cpu, t, region) \<and> pc t = Done \<longrightarrow>
      (if used_fastpath t then moved t = [rresult t] \<or> moved t = [] \<and> rresult t = 0 else moved t = []))
   \<and> (rseq_run False (push_instr n sc p) (cpu0, enter_section, region0) (cpu, t, region) \<and> pc t = Done \<longrightarrow>
      moved t = (if used_fastpath t \<and> rok t then [p] else []))"
  using pop_once_run [of n sc cpu0 region0 "(cpu, t, region)"] push_once_run [of n sc p cpu0 region0 "(cpu, t, region)"]
  by (auto simp: pop_once_def push_once_def)

theorem rseq_exactly_once_witness:
  "\<exists>t region. rseq_run False (push_instr 1 3 8) (0, enter_section, \<lambda>_. empty_slab) (0, t, region) \<and> moved t = [8]"
proof -
  have "rseq_slab_push (\<lambda>_. empty_slab) 1 3 8 0 = ((True, True), snd (rseq_slab_push (\<lambda>_. empty_slab) 1 3 8 0))"
    by (simp add: rseq_slab_push_def Let_def empty_slab_def SIZE_CLASS_CAPACITIES_eq)
  then obtain t region where t: "(push_instr 1 3 8 0 ^^ 19) (enter_section, \<lambda>_. empty_slab) = (t, region)" "pc t = Done"
      "rok t" "used_fastpath t"
    using push_runs [of 1 3 8 0 "\<lambda>_. empty_slab"] by (metis fst_conv prod.inject)
  note run = run_funpow [of False "push_instr 1 3 8" 0 "(enter_section, \<lambda>_. empty_slab)" 19, unfolded t(1)]
  then show ?thesis
    using rseq_exactly_once [of 1 3 0 "\<lambda>_. empty_slab" 0 t region 8] t(2-4) by auto
qed

section \<open>Interrupts after the commit\<close>

text \<open>A run of the pop up to and over its committing store, and one that starts at the abort handler.\<close>

lemma pop_over_commit:
  assumes "cpu < n" "currents (region cpu) sc \<noteq> 0"
  shows "\<exists>t. (pop_instr n sc cpu ^^ 14) (enter_section, region) = (t, snd (rseq_slab_pop region n sc cpu)) \<and> pc t = Xor_Rax
      \<and> rseq_cs t \<and> moved t = [fst (fst (rseq_slab_pop region n sc cpu))]"
  using assms by (simp add: eval_nat_numeral pop_instr_def enter_section_def rseq_slab_pop_def Let_def)

lemma pop_from_abort:
  assumes "cpu < n" "currents (region cpu) sc \<noteq> 0" "pc t = Abort"
  shows "\<exists>t'. (pop_instr n sc cpu ^^ 19) (t, region) = (t', snd (rseq_slab_pop region n sc cpu)) \<and> pc t' = Done
      \<and> moved t' = moved t @ [fst (fst (rseq_slab_pop region n sc cpu))] \<and> rresult t' = fst (fst (rseq_slab_pop region n sc cpu))"
  using assms by (simp add: eval_nat_numeral pop_instr_def rseq_slab_pop_def Let_def)

lemma push_over_commit:
  assumes "cpu < n" "currents (region cpu) sc < SIZE_CLASS_CAPACITIES ! sc"
  shows "\<exists>t. (push_instr n sc p cpu ^^ 15) (enter_section, region) = (t, snd (rseq_slab_push region n sc p cpu)) \<and> pc t = Xor_Rax
      \<and> rseq_cs t \<and> moved t = [p]"
  using assms by (simp add: eval_nat_numeral push_instr_def enter_section_def rseq_slab_push_def Let_def)

lemma push_from_abort:
  assumes "cpu < n" "currents (region cpu) sc < SIZE_CLASS_CAPACITIES ! sc" "pc t = Abort"
  shows "\<exists>t'. (push_instr n sc p cpu ^^ 20) (t, region) = (t', snd (rseq_slab_push region n sc p cpu)) \<and> pc t' = Done
      \<and> moved t' = moved t @ [p] \<and> rok t'"
  using assms by (simp add: eval_nat_numeral push_instr_def rseq_slab_push_def Let_def)

lemma late_interrupt:
  assumes "rseq_run True instr c (cpu, t, region)" "rseq_cs t" "pc t = Xor_Rax"
  shows "\<exists>t'. rseq_run True instr c (cpu, t', region) \<and> pc t' = Abort"
proof -
  have "rseq_step True instr (cpu, t, region) (cpu, interrupt t, region)"
    by (rule rseq_step.interrupted) simp
  then have "rseq_run True instr c (cpu, interrupt t, region)"
    using assms(1) by (rule rseq_run.step [rotated])
  moreover have "pc (interrupt t) = Abort"
    using assms(2,3) by (simp add: interrupt_def in_section_def)
  ultimately show ?thesis
    by blast
qed

lemma late_pop:
  assumes "cpu < n" "sc < 48" "slab_wf (region cpu)" and st: "slab_stack (region cpu) sc = xs @ [x, y]"
  shows "\<exists>t region'. rseq_run True (pop_instr n sc) (cpu, enter_section, region) (cpu, t, region') \<and> pc t = Done
         \<and> rresult t = x \<and> slab_stack (region' cpu) sc = xs"
proof -
  have cur: "currents (region cpu) sc = length xs + 2"
    using st length_slab_stack [of "region cpu" sc] by simp
  obtain q slab where q: "fallback_allocate (region cpu) sc = (q, slab)"
    by (rule prod.exhaust)
  note top = fallback_allocate_top [OF assms(2,3) _ q]
  have slab: "slab_wf slab" "slab_stack slab sc = xs @ [x]"
    using top cur st by simp_all
  let ?R = "region(cpu := slab)"
  have R: "rseq_slab_pop region n sc cpu = ((q, True), ?R)"
    using q assms(1) by (simp add: rseq_slab_pop_fallback)
  have cur1: "currents (?R cpu) sc \<noteq> 0"
    using slab(2) length_slab_stack [of slab sc] by simp
  obtain q' slab' where q': "fallback_allocate slab sc = (q', slab')"
    by (rule prod.exhaust)
  have slab': "q' = x" "slab_stack slab' sc = xs"
    using fallback_allocate_top [OF assms(2) slab(1) _ q'] cur1 slab(2) by simp_all
  have R': "rseq_slab_pop ?R n sc cpu = ((x, True), ?R(cpu := slab'))"
    using q' slab'(1) assms(1) by (simp add: rseq_slab_pop_fallback)
  have "currents (region cpu) sc \<noteq> 0"
    using cur by simp
  from pop_over_commit [where region = region, OF assms(1) this] obtain t1 where
      t1: "(pop_instr n sc cpu ^^ 14) (enter_section, region) = (t1, ?R)" "pc t1 = Xor_Rax" "rseq_cs t1"
    unfolding R by auto
  from late_interrupt [OF run_funpow [of True "pop_instr n sc" cpu "(enter_section, region)" 14, unfolded t1(1)] t1(3,2)]
  obtain t2 where t2: "rseq_run True (pop_instr n sc) (cpu, enter_section, region) (cpu, t2, ?R)"
      "pc t2 = Abort"
    by blast
  from pop_from_abort [where region = ?R, OF assms(1) cur1 t2(2)] obtain t3 where
      t3: "(pop_instr n sc cpu ^^ 19) (t2, ?R) = (t3, ?R(cpu := slab'))" "pc t3 = Done" "rresult t3 = x"
    unfolding R' by auto
  have "rseq_run True (pop_instr n sc) (cpu, enter_section, region) (cpu, t3, ?R(cpu := slab'))"
    using run_trans [OF run_funpow [of True "pop_instr n sc" cpu "(t2, ?R)" 19, unfolded t3(1)] t2(1)] .
  then show ?thesis
    using t3(2,3) slab'(2) by (intro exI [of _ t3] exI [of _ "?R(cpu := slab')"]) simp
qed

lemma late_push:
  assumes "cpu < n" "sc < 48" "slab_wf (region cpu)"
    and st: "slab_stack (region cpu) sc = xs \<and> length xs + 2 \<le> slab_capacity sc \<and> p \<noteq> 0"
  shows "\<exists>t region'. rseq_run True (push_instr n sc p) (cpu, enter_section, region) (cpu, t, region') \<and> pc t = Done
         \<and> rok t \<and> slab_stack (region' cpu) sc = xs @ [p, p]"
proof -
  have cur: "currents (region cpu) sc < slab_capacity sc"
    using st length_slab_stack [of "region cpu" sc] by simp
  obtain ok slab where q: "fallback_deallocate (region cpu) p sc = (ok, slab)"
    by (rule prod.exhaust)
  have slab: "ok" "slab_wf slab" "slab_stack slab sc = xs @ [p]"
    using fallback_deallocate_room [OF assms(2,3) _ cur q] st by simp_all
  let ?R = "region(cpu := slab)"
  have R: "rseq_slab_push region n sc p cpu = ((True, True), ?R)"
    using q slab(1) assms(1) by (simp add: rseq_slab_push_fallback)
  have cur1: "currents (?R cpu) sc < slab_capacity sc"
    using slab(3) length_slab_stack [of slab sc] st by simp
  obtain ok' slab' where q': "fallback_deallocate slab p sc = (ok', slab')"
    by (rule prod.exhaust)
  have slab': "ok'" "slab_stack slab' sc = xs @ [p, p]"
    using fallback_deallocate_room [OF assms(2) slab(2) _ _ q'] cur1 slab(3) st by simp_all
  have R': "rseq_slab_push ?R n sc p cpu = ((True, True), ?R(cpu := slab'))"
    using q' slab'(1) assms(1) by (simp add: rseq_slab_push_fallback)
  from push_over_commit [where region = region and p = p, OF assms(1) cur] obtain t1 where
      t1: "(push_instr n sc p cpu ^^ 15) (enter_section, region) = (t1, ?R)" "pc t1 = Xor_Rax" "rseq_cs t1"
    unfolding R by auto
  from late_interrupt [OF run_funpow [of True "push_instr n sc p" cpu "(enter_section, region)" 15, unfolded t1(1)] t1(3,2)]
  obtain t2 where t2: "rseq_run True (push_instr n sc p) (cpu, enter_section, region) (cpu, t2, ?R)" "pc t2 = Abort"
    by blast
  from push_from_abort [where region = ?R and p = p, OF assms(1) cur1 t2(2)] obtain t3 where
      t3: "(push_instr n sc p cpu ^^ 20) (t2, ?R) = (t3, ?R(cpu := slab'))" "pc t3 = Done" "rok t3"
    unfolding R' by auto
  have "rseq_run True (push_instr n sc p) (cpu, enter_section, region) (cpu, t3, ?R(cpu := slab'))"
    using run_trans [OF run_funpow [of True "push_instr n sc p" cpu "(t2, ?R)" 20, unfolded t3(1)] t2(1)] .
  then show ?thesis
    using t3(2,3) slab'(2) by (intro exI [of _ t3] exI [of _ "?R(cpu := slab')"]) simp
qed

text \<open>
  C20: an interrupt in that window makes the operation happen twice. From any slab with two
  pointers of the class, a pop can return the second and lose the first; from any slab with two
  free slots, a push can put its pointer on the stack twice, so that two later pops hand out the
  same object.
\<close>

theorem rseq_late_interrupt:
  assumes "cpu < n" "sc < 48" "slab_wf (region cpu)"
  shows "(slab_stack (region cpu) sc = xs @ [x, y] \<longrightarrow>
      (\<exists>t region'. rseq_run True (pop_instr n sc) (cpu, enter_section, region) (cpu, t, region') \<and> pc t = Done
         \<and> rresult t = x \<and> slab_stack (region' cpu) sc = xs))
   \<and> (slab_stack (region cpu) sc = xs \<and> length xs + 2 \<le> slab_capacity sc \<and> p \<noteq> 0 \<longrightarrow>
      (\<exists>t region'. rseq_run True (push_instr n sc p) (cpu, enter_section, region) (cpu, t, region') \<and> pc t = Done
         \<and> rok t \<and> slab_stack (region' cpu) sc = xs @ [p, p]))"
  using late_pop [of cpu n sc region xs x y, OF assms] late_push [of cpu n sc region xs p, OF assms] by blast

theorem rseq_late_interrupt_witness:
  "\<exists>t region. rseq_run True (push_instr 1 3 8) (0, enter_section, \<lambda>_. empty_slab) (0, t, region) \<and> rok t
     \<and> slab_stack (region 0) 3 = [8, 8]"
proof -
  have "2 \<le> slab_capacity 3"
    by (simp add: SIZE_CLASS_CAPACITIES_eq)
  then show ?thesis
    using rseq_late_interrupt [of 0 1 3 "\<lambda>_. empty_slab" "[]" 0 0 8] slab_wf_empty by auto
qed

end
