(* ===== verification/Fallback_Race.thy ===== *)
theory Fallback_Race
  imports Slabs
begin

text \<open>
  The fallback of the slabs without restartable sequences, load by load and store by store.
  \<open>fallback_allocate\<close> and \<open>fallback_deallocate\<close> (\<open>slabs.hpp\<close>) work on the slab of the current CPU
  with plain memory accesses; a thread can lose the CPU between two of them, and the next thread
  works on the same slab. Run without interruption the accesses are the one-step models; in an
  unlucky order two threads get the same pointer, or a pointer is lost.
\<close>

section \<open>The accesses\<close>

text \<open>
  The state of a thread between two accesses to the slab: what it does next, with its locals \<open>cur\<close>
  and \<open>ptr\<close>.
\<close>

datatype fallback_pc =
    Pop_Load
  | Pop_Read nat
  | Pop_Store nat addr
  | Pop_Done addr
  | Push_Load addr
  | Push_Write addr nat
  | Push_Store nat
  | Push_Done bool

fun fallback_step :: "nat \<Rightarrow> fallback_pc \<times> Slabs \<Rightarrow> fallback_pc \<times> Slabs" where
  "fallback_step sc (Pop_Load, slab) =
     (let cur = currents slab sc in (if 0 < cur then Pop_Read cur else Pop_Done 0, slab))"
| "fallback_step sc (Pop_Read cur, slab) =
     (Pop_Store cur (pointers slab (sub32 (u32 (SIZE_CLASS_OFFSETS ! sc + cur)) 1)), slab)"
| "fallback_step sc (Pop_Store cur p, slab) =
     (Pop_Done p, slab\<lparr>currents := (currents slab)(sc := u16 (cur - 1))\<rparr>)"
| "fallback_step sc (Push_Load mem, slab) =
     (let cur = currents slab sc in
        (if cur < SIZE_CLASS_CAPACITIES ! sc then Push_Write mem cur else Push_Done False, slab))"
| "fallback_step sc (Push_Write mem cur, slab) =
     (Push_Store cur, slab\<lparr>pointers := (pointers slab)(u32 (SIZE_CLASS_OFFSETS ! sc + cur) := mem)\<rparr>)"
| "fallback_step sc (Push_Store cur, slab) =
     (Push_Done True, slab\<lparr>currents := (currents slab)(sc := u16 (cur + 1))\<rparr>)"
| "fallback_step sc (Pop_Done p, slab) = (Pop_Done p, slab)"
| "fallback_step sc (Push_Done ok, slab) = (Push_Done ok, slab)"

text \<open>The threads take their turns in the order of a list of thread numbers.\<close>

fun fallback_run :: "nat \<Rightarrow> nat list \<Rightarrow> fallback_pc list \<times> Slabs \<Rightarrow> fallback_pc list \<times> Slabs" where
  "fallback_run sc [] s = s"
| "fallback_run sc (t # ts) (pcs, slab) =
     (case fallback_step sc (pcs ! t, slab) of (pc, slab1) \<Rightarrow> fallback_run sc ts (pcs[t := pc], slab1))"

section \<open>One thread\<close>

text \<open>From any slab, three turns in a row are one call.\<close>

lemma pop_alone:
  "fallback_run sc [0, 0, 0] ([Pop_Load], slab) =
     (case fallback_allocate slab sc of (p, slab1) \<Rightarrow> ([Pop_Done p], slab1))"
  by (simp add: fallback_allocate_def Let_def)

lemma push_alone:
  "fallback_run sc [0, 0, 0] ([Push_Load p], slab) =
     (case fallback_deallocate slab p sc of (ok, slab1) \<Rightarrow> ([Push_Done ok], slab1))"
  by (simp add: fallback_deallocate_def Let_def)

section \<open>Two threads\<close>

text \<open>The second thread reads the count before the first has stored it.\<close>

lemma pop_race:
  assumes "sc < 48" "slab_wf slab" "0 < currents slab sc"
  shows "\<exists>p slab1. fallback_run sc [0, 1, 0, 0, 1, 1] ([Pop_Load, Pop_Load], slab) = ([Pop_Done p, Pop_Done p], slab1)
     \<and> p \<noteq> 0 \<and> slab_stack slab sc = slab_stack slab1 sc @ [p]"
proof -
  obtain p slab1 where f: "fallback_allocate slab sc = (p, slab1)"
    by fastforce
  note top = fallback_allocate_top [OF assms f]
  have "fallback_run sc [0, 1, 0, 0, 1, 1] ([Pop_Load, Pop_Load], slab) = ([Pop_Done p, Pop_Done p], slab1)"
    using assms(3) f by (auto simp: fallback_allocate_def Let_def)
  moreover have "p \<in> set (slab_stack slab sc)"
    using top by simp
  then have "p \<noteq> 0"
    using assms(1,2) unfolding slab_wf_def by metis
  ultimately show ?thesis
    using top by blast
qed

lemma push_race:
  assumes "sc < 48" "slab_wf slab" "currents slab sc < slab_capacity sc" "q \<noteq> 0"
  shows "\<exists>slab1. fallback_run sc [0, 1, 0, 0, 1, 1] ([Push_Load p, Push_Load q], slab) = ([Push_Done True, Push_Done True], slab1)
     \<and> slab_stack slab1 sc = slab_stack slab sc @ [q]"
proof -
  obtain ok slab1 where f: "fallback_deallocate slab q sc = (ok, slab1)"
    by fastforce
  note room = fallback_deallocate_room [OF assms(1,2,4,3) f]
  have "fallback_run sc [0, 1, 0, 0, 1, 1] ([Push_Load p, Push_Load q], slab) = ([Push_Done True, Push_Done True], slab1)"
    using assms(3) f by (auto simp: fallback_deallocate_def Let_def)
  then show ?thesis
    using room by blast
qed

text \<open>
  C22: the fallback is not safe against preemption. From every well-formed slab with an object of the
  class, two threads that pop on one CPU can both be given the same non-null pointer while only one
  is taken off the stack; and wherever there is room, two threads that push can both be told they
  succeeded while the pointer of the first is in no stack.
\<close>

theorem fallback_races:
  assumes "sc < 48" "slab_wf slab"
  shows "(0 < currents slab sc \<longrightarrow> (\<exists>ts p slab1. fallback_run sc ts ([Pop_Load, Pop_Load], slab) = ([Pop_Done p, Pop_Done p], slab1)
       \<and> p \<noteq> 0 \<and> slab_stack slab sc = slab_stack slab1 sc @ [p]))
   \<and> (currents slab sc < slab_capacity sc \<and> q \<noteq> 0 \<longrightarrow>
       (\<exists>ts slab1. fallback_run sc ts ([Push_Load p, Push_Load q], slab) = ([Push_Done True, Push_Done True], slab1)
       \<and> slab_stack slab1 sc = slab_stack slab sc @ [q]))"
  using pop_race [OF assms] push_race [OF assms, of q p] by blast

theorem fallback_races_witness:
  "\<exists>ts slab1. fallback_run 3 ts ([Push_Load 64, Push_Load 96], empty_slab) = ([Push_Done True, Push_Done True], slab1)
     \<and> slab_stack slab1 3 = [96]"
  using fallback_races [of 3 empty_slab 96 64] slab_wf_empty
  by (simp add: empty_slab_def [THEN arg_cong, of currents] SIZE_CLASS_CAPACITIES_eq)

end
