(* ===== verification/Critical_Section.thy ===== *)
theory Critical_Section
  imports Main
begin

text \<open>
  An object behind one mutex, used by any number of threads. A call waits for the mutex, makes its
  accesses to the object one at a time, and gives the mutex back with its result. The locale
  \<open>guarded_object\<close> says what the body of a call needs for this: run alone it computes an
  operation that is one step. Then no program can tell the two apart.
\<close>

section \<open>Accesses interleaved, and operations in one step\<close>

text \<open>What a program sees: a thread calls, a thread gets its result.\<close>

datatype ('op, 'res) visible = Called nat 'op | Got nat 'res

text \<open>Where a thread is when each access is a step of its own.\<close>

datatype ('op, 'loc, 'res) place = Outside | Waiting 'op | Inside 'op 'loc | Leaving 'res

record ('st, 'op, 'loc, 'res) monitor =
  object :: 'st
  owner :: "nat option"
  places :: "nat \<Rightarrow> ('op, 'loc, 'res) place"

inductive accesses ::
  "('op \<Rightarrow> bool) \<Rightarrow> ('op \<Rightarrow> 'loc) \<Rightarrow> ('loc \<Rightarrow> 'st \<Rightarrow> ('loc \<times> 'st) option) \<Rightarrow> ('loc \<Rightarrow> 'res option) \<Rightarrow> 'st
    \<Rightarrow> ('op, 'res) visible list \<Rightarrow> ('st, 'op, 'loc, 'res) monitor \<Rightarrow> bool"
  for valid body access outcome st0 where
  start: "accesses valid body access outcome st0 [] \<lparr>object = st0, owner = None, places = (\<lambda>_. Outside)\<rparr>"
| call: "accesses valid body access outcome st0 tr s \<Longrightarrow> places s t = Outside \<Longrightarrow> valid x \<Longrightarrow>
    accesses valid body access outcome st0 (tr @ [Called t x]) (s\<lparr>places := (places s)(t := Waiting x)\<rparr>)"
| lock: "accesses valid body access outcome st0 tr s \<Longrightarrow> places s t = Waiting x \<Longrightarrow> owner s = None \<Longrightarrow>
    accesses valid body access outcome st0 tr
      (s\<lparr>owner := Some t, places := (places s)(t := Inside x (body x))\<rparr>)"
| access: "accesses valid body access outcome st0 tr s \<Longrightarrow> places s t = Inside x l \<Longrightarrow>
    access l (object s) = Some (l1, st1) \<Longrightarrow>
    accesses valid body access outcome st0 tr (s\<lparr>object := st1, places := (places s)(t := Inside x l1)\<rparr>)"
| unlock: "accesses valid body access outcome st0 tr s \<Longrightarrow> places s t = Inside x l \<Longrightarrow> outcome l = Some r \<Longrightarrow>
    accesses valid body access outcome st0 tr (s\<lparr>owner := None, places := (places s)(t := Leaving r)\<rparr>)"
| return: "accesses valid body access outcome st0 tr s \<Longrightarrow> places s t = Leaving r \<Longrightarrow>
    accesses valid body access outcome st0 (tr @ [Got t r]) (s\<lparr>places := (places s)(t := Outside)\<rparr>)"

text \<open>The same calls with each operation one step.\<close>

datatype ('op, 'res) stage = Ready | Asking 'op | Answered 'res

record ('st, 'op, 'res) atomic_object =
  contents :: 'st
  stages :: "nat \<Rightarrow> ('op, 'res) stage"

inductive atomically ::
  "('op \<Rightarrow> bool) \<Rightarrow> ('op \<Rightarrow> 'st \<Rightarrow> 'res \<times> 'st) \<Rightarrow> 'st \<Rightarrow> ('op, 'res) visible list \<Rightarrow> ('st, 'op, 'res) atomic_object \<Rightarrow> bool"
  for valid operation st0 where
  start: "atomically valid operation st0 [] \<lparr>contents = st0, stages = (\<lambda>_. Ready)\<rparr>"
| call: "atomically valid operation st0 tr a \<Longrightarrow> stages a t = Ready \<Longrightarrow> valid x \<Longrightarrow>
    atomically valid operation st0 (tr @ [Called t x]) (a\<lparr>stages := (stages a)(t := Asking x)\<rparr>)"
| operate: "atomically valid operation st0 tr a \<Longrightarrow> stages a t = Asking x \<Longrightarrow> operation x (contents a) = (r, st1) \<Longrightarrow>
    atomically valid operation st0 tr (a\<lparr>contents := st1, stages := (stages a)(t := Answered r)\<rparr>)"
| return: "atomically valid operation st0 tr a \<Longrightarrow> stages a t = Answered r \<Longrightarrow>
    atomically valid operation st0 (tr @ [Got t r]) (a\<lparr>stages := (stages a)(t := Ready)\<rparr>)"

section \<open>The accesses of one thread\<close>

definition accessed :: "('loc \<Rightarrow> 'st \<Rightarrow> ('loc \<times> 'st) option) \<Rightarrow> 'loc \<times> 'st \<Rightarrow> 'loc \<times> 'st \<Rightarrow> bool" where
  "accessed access p q \<longleftrightarrow> access (fst p) (snd p) = Some q"

lemma accessedI [intro]: "access l st = Some q \<Longrightarrow> accessed access (l, st) q"
  by (simp add: accessed_def)

lemma accessed_step: "access l st = Some q \<Longrightarrow> (accessed access)\<^sup>*\<^sup>* q r \<Longrightarrow> (accessed access)\<^sup>*\<^sup>* (l, st) r"
  by (meson accessedI converse_rtranclp_into_rtranclp)

text \<open>The accesses are determined, so every run from \<open>p\<close> is a part of the one that ends at \<open>q\<close>.\<close>

lemma accessed_unique:
  assumes "(accessed access)\<^sup>*\<^sup>* p r" "(accessed access)\<^sup>*\<^sup>* p q" "access (fst q) (snd q) = None"
  shows "(accessed access)\<^sup>*\<^sup>* r q"
  using assms(1,2)
proof (induction rule: rtranclp_induct)
  case (step y z)
  show ?case
  proof (rule converse_rtranclpE [OF step.IH [OF step.prems]])
    show "(accessed access)\<^sup>*\<^sup>* z q" if "y = q"
      using step.hyps(2) that assms(3) by (simp add: accessed_def)
    show "(accessed access)\<^sup>*\<^sup>* z q" if "accessed access y w" "(accessed access)\<^sup>*\<^sup>* w q" for w
      using step.hyps(2) that by (simp add: accessed_def)
  qed
qed

section \<open>Objects whose mutex makes every operation one step\<close>

fun stage_of :: "('op, 'loc, 'res) place \<Rightarrow> ('op, 'res) stage" where
  "stage_of Outside = Ready"
| "stage_of (Waiting x) = Asking x"
| "stage_of (Inside x l) = Asking x"
| "stage_of (Leaving r) = Answered r"

lemma stage_of_simps [simp]:
  "stage_of p = Ready \<longleftrightarrow> p = Outside" "stage_of p = Answered r \<longleftrightarrow> p = Leaving r"
  by (cases p; simp)+

locale guarded_object =
  fixes valid :: "'op \<Rightarrow> bool"
    and body :: "'op \<Rightarrow> 'loc"
    and access :: "'loc \<Rightarrow> 'st \<Rightarrow> ('loc \<times> 'st) option"
    and outcome :: "'loc \<Rightarrow> 'res option"
    and operation :: "'op \<Rightarrow> 'st \<Rightarrow> 'res \<times> 'st"
    and ok :: "'st \<Rightarrow> bool"
  assumes body_computes: "ok st \<Longrightarrow> valid x \<Longrightarrow> operation x st = (r, st1) \<Longrightarrow>
      ok st1 \<and> (\<exists>l. (accessed access)\<^sup>*\<^sup>* (body x, st) (l, st1) \<and> outcome l = Some r)"
    and outcome_last: "outcome l = Some r \<Longrightarrow> access l st = None"
begin

abbreviation runs where
  "runs \<equiv> accesses valid body access outcome"

abbreviation atomic_runs where
  "atomic_runs \<equiv> atomically valid operation"

text \<open>
  What the owner has done so far is the beginning of its body on the contents it found; nobody else
  is inside, and without an owner the object is what it is between operations.
\<close>

definition refines :: "('st, 'op, 'loc, 'res) monitor \<Rightarrow> ('st, 'op, 'res) atomic_object \<Rightarrow> bool" where
  "refines s a \<longleftrightarrow> stages a = stage_of \<circ> places s \<and> ok (contents a)
     \<and> (\<forall>t x. stages a t = Asking x \<longrightarrow> valid x)
     \<and> (\<forall>t x l. places s t = Inside x l \<longrightarrow>
          owner s = Some t \<and> (accessed access)\<^sup>*\<^sup>* (body x, contents a) (l, object s))
     \<and> (\<forall>t. owner s = Some t \<longrightarrow> (\<exists>x l. places s t = Inside x l))
     \<and> (owner s = None \<longrightarrow> object s = contents a)"

lemma refinesD:
  assumes "refines s a"
  shows "stages a t = stage_of (places s t)" "ok (contents a)" "stages a t = Asking x \<Longrightarrow> valid x"
    "places s t = Inside x l \<Longrightarrow> owner s = Some t"
    "places s t = Inside x l \<Longrightarrow> (accessed access)\<^sup>*\<^sup>* (body x, contents a) (l, object s)"
    "owner s = Some t \<Longrightarrow> \<exists>x l. places s t = Inside x l" "owner s = None \<Longrightarrow> object s = contents a"
  using assms by (auto simp: refines_def)

text \<open>A thread inside has some accesses left, and then the contents and the result of its operation.\<close>

lemma rest_of_body:
  assumes "refines s a" "places s t = Inside x l" "operation x (contents a) = (r, st1)"
  obtains l1 where "(accessed access)\<^sup>*\<^sup>* (l, object s) (l1, st1)" "outcome l1 = Some r" "ok st1"
proof -
  have "valid x"
    using refinesD(3) [OF assms(1), of t x] refinesD(1) [OF assms(1), of t] assms(2) by simp
  then obtain l1 where l1: "(accessed access)\<^sup>*\<^sup>* (body x, contents a) (l1, st1)" "outcome l1 = Some r" "ok st1"
    using body_computes [OF refinesD(2) [OF assms(1)] _ assms(3)] by blast
  have "access (fst (l1, st1)) (snd (l1, st1)) = None"
    using outcome_last [OF l1(2)] by simp
  then have "(accessed access)\<^sup>*\<^sup>* (l, object s) (l1, st1)"
    by (rule accessed_unique [OF refinesD(5) [OF assms(1,2)] l1(1)])
  then show thesis
    using that l1 by blast
qed

lemma at_outcome:
  assumes "refines s a" "places s t = Inside x l" "outcome l = Some r"
  shows "operation x (contents a) = (r, object s) \<and> ok (object s)"
proof -
  obtain r1 st1 where op: "operation x (contents a) = (r1, st1)"
    by fastforce
  obtain l1 where l1: "(accessed access)\<^sup>*\<^sup>* (l, object s) (l1, st1)" "outcome l1 = Some r1" "ok st1"
    by (rule rest_of_body [OF assms(1,2) op])
  have "\<not> accessed access (l, object s) q" for q
    using outcome_last [OF assms(3)] by (simp add: accessed_def)
  then have "(l1, st1) = (l, object s)"
    using l1(1) by (metis converse_rtranclpE)
  then show ?thesis
    using op l1(2,3) assms(3) by simp
qed

lemma refines_start:
  "ok st0 \<Longrightarrow> refines \<lparr>object = st0, owner = None, places = (\<lambda>_. Outside)\<rparr> \<lparr>contents = st0, stages = (\<lambda>_. Ready)\<rparr>"
  by (simp add: refines_def fun_eq_iff)

text \<open>Steps that leave the object and the mutex alone.\<close>

lemma refines_move:
  assumes "refines s a" "\<forall>x l. p \<noteq> Inside x l" "\<forall>x l. places s t \<noteq> Inside x l" "\<forall>x. p = Waiting x \<longrightarrow> valid x"
  shows "refines (s\<lparr>places := (places s)(t := p)\<rparr>) (a\<lparr>stages := (stages a)(t := stage_of p)\<rparr>)"
  using assms by (cases p) (auto simp: refines_def fun_eq_iff)

lemma refines_lock:
  assumes "refines s a" "places s t = Waiting x" "owner s = None"
  shows "refines (s\<lparr>owner := Some t, places := (places s)(t := Inside x (body x))\<rparr>) a"
  using assms by (auto simp: refines_def fun_eq_iff)

lemma refines_access:
  assumes "refines s a" "places s t = Inside x l" "access l (object s) = Some (l1, st1)"
  shows "refines (s\<lparr>object := st1, places := (places s)(t := Inside x l1)\<rparr>) a"
proof -
  have o: "owner s = Some t" and r: "(accessed access)\<^sup>*\<^sup>* (body x, contents a) (l1, st1)"
    using refinesD(4,5) [OF assms(1,2)] assms(3) by (auto intro: rtranclp.rtrancl_into_rtrancl)
  have out: "places s u \<noteq> Inside y m" if "u \<noteq> t" for u y m
    using refinesD(4) [OF assms(1), of u y m] o that by auto
  have "stage_of (Inside x l1) = stage_of (places s t)"
    using assms(2) by simp
  then show ?thesis
    unfolding refines_def using refinesD(1,2,3) [OF assms(1)] out o r by (simp add: fun_eq_iff)
qed

lemma refines_operate:
  assumes "refines s a" "places s t = Inside x l \<or> owner s = None" "ok st1" "object s = st1"
  shows "refines (s\<lparr>owner := None, places := (places s)(t := Leaving r)\<rparr>)
      (a\<lparr>contents := st1, stages := (stages a)(t := Answered r)\<rparr>)"
proof -
  have out: "places s u \<noteq> Inside y m" if "u \<noteq> t" for u y m
  proof
    assume "places s u = Inside y m"
    then have "owner s = Some u"
      by (rule refinesD(4) [OF assms(1)])
    moreover have "owner s = Some t \<or> owner s = None"
      using assms(2) refinesD(4) [OF assms(1), of t x l] by (elim disjE) simp_all
    ultimately show False
      using that by simp
  qed
  show ?thesis
    unfolding refines_def using refinesD(1,3) [OF assms(1)] assms(3,4) out by (simp add: fun_eq_iff)
qed

lemma accesses_refine:
  assumes "runs st0 tr s" "ok st0"
  shows "\<exists>a. atomic_runs st0 tr a \<and> refines s a"
  using assms(1)
proof (induction rule: accesses.induct)
  case start
  have "refines \<lparr>object = st0, owner = None, places = (\<lambda>_. Outside)\<rparr> \<lparr>contents = st0, stages = (\<lambda>_. Ready)\<rparr>"
    using assms(2) by (rule refines_start)
  then show ?case
    by (blast intro: atomically.start)
next
  case (call tr s t x)
  then obtain a where a: "atomic_runs st0 tr a" "refines s a"
    by blast
  then have "atomic_runs st0 (tr @ [Called t x]) (a\<lparr>stages := (stages a)(t := Asking x)\<rparr>)"
    using call.hyps refinesD(1) [OF a(2)] by (intro atomically.call) auto
  moreover have "refines (s\<lparr>places := (places s)(t := Waiting x)\<rparr>) (a\<lparr>stages := (stages a)(t := Asking x)\<rparr>)"
    using refines_move [OF a(2), of "Waiting x" t] call.hyps by simp
  ultimately show ?case
    by blast
next
  case (lock tr s t x)
  then show ?case
    by (blast intro: refines_lock)
next
  case (access tr s t x l l1 st1)
  then show ?case
    by (blast intro: refines_access)
next
  case (unlock tr s t x l r)
  then obtain a where a: "atomic_runs st0 tr a" "refines s a"
    by blast
  note op = at_outcome [OF a(2) unlock.hyps(2,3)]
  have "atomic_runs st0 tr (a\<lparr>contents := object s, stages := (stages a)(t := Answered r)\<rparr>)"
    using a(1) op refinesD(1) [OF a(2)] unlock.hyps by (intro atomically.operate) auto
  moreover note refines_operate [OF a(2) disjI1 [OF unlock.hyps(2)] conjunct2 [OF op] refl]
  ultimately show ?case
    by blast
next
  case (return tr s t r)
  then obtain a where a: "atomic_runs st0 tr a" "refines s a"
    by blast
  then have "atomic_runs st0 (tr @ [Got t r]) (a\<lparr>stages := (stages a)(t := Ready)\<rparr>)"
    using return.hyps refinesD(1) [OF a(2)] by (intro atomically.return) auto
  moreover have "refines (s\<lparr>places := (places s)(t := Outside)\<rparr>) (a\<lparr>stages := (stages a)(t := Ready)\<rparr>)"
    using refines_move [OF a(2), of Outside t] return.hyps by simp
  ultimately show ?case
    by blast
qed

text \<open>The other way round each operation is made the accesses of a thread that nobody disturbs.\<close>

lemma runs_body:
  assumes "(accessed access)\<^sup>*\<^sup>* (l, st) q" "runs st0 tr s" "places s t = Inside x l" "object s = st"
  shows "runs st0 tr (s\<lparr>object := snd q, places := (places s)(t := Inside x (fst q))\<rparr>)"
  using assms(1)
proof (induction rule: rtranclp_induct)
  case base
  then show ?case
    using assms(2-4) by (cases s) (simp add: fun_upd_idem)
next
  case (step q1 q2)
  then show ?case
    using accesses.access [OF step.IH, of t x "fst q1" "fst q2" "snd q2"]
    by (simp add: accessed_def fun_upd_same del: fun_upd_apply)
qed

lemma runs_operation:
  assumes s: "runs st0 tr s" "owner s = None" "refines s a"
    and op: "stages a t = Asking x" "operation x (contents a) = (r, st1)"
  obtains s1 where "runs st0 tr s1" "owner s1 = None" "refines s1 (a\<lparr>contents := st1, stages := (stages a)(t := Answered r)\<rparr>)"
proof -
  have waiting: "places s t = Waiting x"
    using op(1) refinesD(1,4) [OF s(3), of t] s(2) by (cases "places s t") auto
  let ?s1 = "s\<lparr>owner := Some t, places := (places s)(t := Inside x (body x))\<rparr>"
  have s1: "runs st0 tr ?s1" "refines ?s1 a" "places ?s1 t = Inside x (body x)"
    using accesses.lock [OF s(1) waiting s(2)] refines_lock [OF s(3) waiting s(2)] by simp_all
  obtain l1 where l1: "(accessed access)\<^sup>*\<^sup>* (body x, object ?s1) (l1, st1)" "outcome l1 = Some r" "ok st1"
    by (rule rest_of_body [OF s1(2,3) op(2)])
  have "runs st0 tr (?s1\<lparr>object := st1, places := (places ?s1)(t := Inside x l1)\<rparr>)"
    using runs_body [OF l1(1) s1(1,3)] by simp
  from accesses.unlock [OF this _ l1(2), of t x]
  have "runs st0 tr (s\<lparr>object := st1, owner := None, places := (places s)(t := Leaving r)\<rparr>)"
    by simp
  moreover have "refines (s\<lparr>object := st1, owner := None, places := (places s)(t := Leaving r)\<rparr>)
      (a\<lparr>contents := st1, stages := (stages a)(t := Answered r)\<rparr>)"
    using s(2,3) l1(3) by (auto simp: refines_def fun_eq_iff)
  ultimately show thesis
    using that by simp
qed

lemma accesses_reach:
  assumes "atomic_runs st0 tr a" "ok st0"
  shows "\<exists>s. runs st0 tr s \<and> owner s = None \<and> refines s a"
  using assms(1)
proof (induction rule: atomically.induct)
  case start
  have "refines \<lparr>object = st0, owner = None, places = (\<lambda>_. Outside)\<rparr> \<lparr>contents = st0, stages = (\<lambda>_. Ready)\<rparr>"
    using assms(2) by (rule refines_start)
  then show ?case
    by (intro exI [of _ "\<lparr>object = st0, owner = None, places = (\<lambda>_. Outside)\<rparr>"]) (simp add: accesses.start)
next
  case (call tr a t x)
  then obtain s where s: "runs st0 tr s" "owner s = None" "refines s a"
    by blast
  have out: "places s t = Outside"
    using call.hyps(2) refinesD(1) [OF s(3), of t] by simp
  have "runs st0 (tr @ [Called t x]) (s\<lparr>places := (places s)(t := Waiting x)\<rparr>)"
    by (rule accesses.call [OF s(1) out call.hyps(3)])
  moreover have "refines (s\<lparr>places := (places s)(t := Waiting x)\<rparr>) (a\<lparr>stages := (stages a)(t := Asking x)\<rparr>)"
    using refines_move [OF s(3), of "Waiting x" t] out call.hyps by simp
  ultimately show ?case
    using s(2) by (intro exI [of _ "s\<lparr>places := (places s)(t := Waiting x)\<rparr>"]) simp
next
  case (operate tr a t x r st1)
  then obtain s where s: "runs st0 tr s" "owner s = None" "refines s a"
    by blast
  then show ?case
    using runs_operation [OF s operate.hyps(2,3)] by metis
next
  case (return tr a t r)
  then obtain s where s: "runs st0 tr s" "owner s = None" "refines s a"
    by blast
  have leaving: "places s t = Leaving r"
    using return.hyps(2) refinesD(1) [OF s(3), of t] by simp
  have "runs st0 (tr @ [Got t r]) (s\<lparr>places := (places s)(t := Outside)\<rparr>)"
    by (rule accesses.return [OF s(1) leaving])
  moreover have "refines (s\<lparr>places := (places s)(t := Outside)\<rparr>) (a\<lparr>stages := (stages a)(t := Ready)\<rparr>)"
    using refines_move [OF s(3), of Outside t] leaving by simp
  ultimately show ?case
    using s(2) by (intro exI [of _ "s\<lparr>places := (places s)(t := Outside)\<rparr>"]) simp
qed

text \<open>The same calls and results.\<close>

lemma same_traces:
  assumes "ok st0"
  shows "(\<exists>s. runs st0 tr s) \<longleftrightarrow> (\<exists>a. atomic_runs st0 tr a)"
  using accesses_refine [OF _ assms] accesses_reach [OF _ assms] by blast

text \<open>No thread stays inside without a step to make, and the mutex is never lost.\<close>

lemma never_stuck:
  assumes "runs st0 tr s" "ok st0"
  shows "places s t = Inside x l \<Longrightarrow> owner s = Some t \<and> (access l (object s) \<noteq> None \<or> outcome l \<noteq> None)"
    and "owner s = Some t \<Longrightarrow> \<exists>x l. places s t = Inside x l"
proof -
  obtain a where a: "refines s a"
    using accesses_refine [OF assms] by blast
  then show "\<exists>x l. places s t = Inside x l" if "owner s = Some t"
    using that refinesD(6) by blast
  assume inside: "places s t = Inside x l"
  obtain r st1 where "operation x (contents a) = (r, st1)"
    by fastforce
  then obtain l1 where l1: "(accessed access)\<^sup>*\<^sup>* (l, object s) (l1, st1)" "outcome l1 = Some r"
    by (rule rest_of_body [OF a inside])
  have "access l (object s) \<noteq> None \<or> (l1, st1) = (l, object s)"
    using l1(1) by (auto simp: accessed_def elim: converse_rtranclpE)
  then show "owner s = Some t \<and> (access l (object s) \<noteq> None \<or> outcome l \<noteq> None)"
    using l1(2) refinesD(4) [OF a inside] by auto
qed

end

end
