(* ===== verification/Transfer_Cache_Steps.thy ===== *)
theory Transfer_Cache_Steps
  imports Transfer_Cache Critical_Section
begin

text \<open>
  The transfer cache access by access. Each read and write of \<open>used_slots\<close> and each pointer that
  \<open>memcpy\<close> moves is a step, between the \<open>lock_guard\<close> at the head of \<open>InsertRange\<close> and \<open>RemoveRange\<close>
  and its destructor, and any number of threads are interleaved. The mutex makes this the same as
  the operations of \<open>Transfer_Cache\<close> in one step each.
\<close>

section \<open>The accesses of \<open>InsertRange\<close> and \<open>RemoveRange\<close>\<close>

datatype tc_call = Insert "addr list" nat | Remove nat

datatype tc_result = Inserted nat | Removed "addr list" nat

text \<open>
  Where a call is: before the read of \<open>used_slots\<close> for \<open>space\<close>; before the read for the address
  \<open>&slots[used_slots]\<close>; in \<open>memcpy\<close> to \<open>at\<close> with \<open>i\<close> pointers copied; before the read and before the
  store of \<open>used_slots += to_insert\<close>; at the \<open>return\<close>. \<open>std::min(n, used_slots)\<close> takes a reference:
  it compares, and reads again if \<open>used_slots\<close> is the smaller. The removal is alike.
\<close>

datatype tc_loc =
    Insert_Space "addr list" nat
  | Insert_At "addr list" nat
  | Insert_Copy "addr list" nat nat nat
  | Insert_Load nat
  | Insert_Store nat nat
  | Insert_Return nat
  | Remove_Compare nat
  | Remove_Take
  | Remove_Load nat
  | Remove_Store nat nat
  | Remove_At nat
  | Remove_Copy nat nat "addr list"
  | Remove_Return "addr list" nat

fun tc_body :: "tc_call \<Rightarrow> tc_loc" where
  "tc_body (Insert batch n) = Insert_Space batch n"
| "tc_body (Remove n) = Remove_Compare n"

definition remove_test :: "nat \<Rightarrow> tc_loc" where
  "remove_test to_remove = (if 0 < to_remove then Remove_Load to_remove else Remove_Return [] to_remove)"

text \<open>\<open>None\<close> at a copy is an access outside an array; at a \<open>return\<close> there is none to make.\<close>

fun tc_access :: "tc_loc \<Rightarrow> TransferCache \<Rightarrow> (tc_loc \<times> TransferCache) option" where
  "tc_access (Insert_Space batch n) tc =
     (let space = sub32 TRANSFER_CACHE_CAPACITY (used_slots tc);
          to_insert = min n space
      in Some (if 0 < to_insert then Insert_At batch to_insert else Insert_Return to_insert, tc))"
| "tc_access (Insert_At batch k) tc = Some (Insert_Copy batch k (used_slots tc) 0, tc)"
| "tc_access (Insert_Copy batch k at i) tc =
     (if i < k then
        if at + i < length (slots tc) \<and> i < length batch then
          Some (Insert_Copy batch k at (Suc i), tc\<lparr>slots := (slots tc)[at + i := batch ! i]\<rparr>)
        else None
      else Some (Insert_Load k, tc))"
| "tc_access (Insert_Load k) tc = Some (Insert_Store k (used_slots tc), tc)"
| "tc_access (Insert_Store k v) tc = Some (Insert_Return k, tc\<lparr>used_slots := u32 (v + k)\<rparr>)"
| "tc_access (Remove_Compare n) tc = Some (if used_slots tc < n then Remove_Take else remove_test n, tc)"
| "tc_access Remove_Take tc = Some (remove_test (used_slots tc), tc)"
| "tc_access (Remove_Load k) tc = Some (Remove_Store k (used_slots tc), tc)"
| "tc_access (Remove_Store k v) tc = Some (Remove_At k, tc\<lparr>used_slots := sub32 v k\<rparr>)"
| "tc_access (Remove_At k) tc = Some (Remove_Copy k (used_slots tc) [], tc)"
| "tc_access (Remove_Copy k at got) tc =
     (if length got < k then
        if at + length got < length (slots tc) then
          Some (Remove_Copy k at (got @ [slots tc ! (at + length got)]), tc)
        else None
      else Some (Remove_Return got k, tc))"
| "tc_access _ tc = None"

fun tc_outcome :: "tc_loc \<Rightarrow> tc_result option" where
  "tc_outcome (Insert_Return k) = Some (Inserted k)"
| "tc_outcome (Remove_Return got k) = Some (Removed got k)"
| "tc_outcome _ = None"

text \<open>The calls as one step, and what the callers keep to: a batch of \<open>n\<close> pointers, none null.\<close>

fun tc_operation :: "tc_call \<Rightarrow> TransferCache \<Rightarrow> tc_result \<times> TransferCache" where
  "tc_operation (Insert batch n) tc = map_prod Inserted id (InsertRange batch n tc)"
| "tc_operation (Remove n) tc = map_prod (\<lambda>(batch, k). Removed batch k) id (RemoveRange n tc)"

fun tc_valid :: "tc_call \<Rightarrow> bool" where
  "tc_valid (Insert batch n) \<longleftrightarrow> n \<le> length batch \<and> 0 \<notin> set batch"
| "tc_valid (Remove n) \<longleftrightarrow> True"

section \<open>One thread alone\<close>

lemma copy_in_Nil [simp]: "copy_in dst at [] = dst"
  by (simp add: copy_in_def)

lemma copy_in_Cons:
  assumes "at < length dst"
  shows "copy_in (dst[at := x]) (Suc at) xs = copy_in dst at (x # xs)"
proof -
  have "take (Suc at) (dst[at := x]) = take at dst @ [x]"
    using assms by (simp add: take_Suc_conv_app_nth)
  then show ?thesis
    by (simp add: copy_in_def)
qed

lemma insert_copies:
  assumes "i \<le> k" "at + k \<le> length (slots tc)" "k \<le> length batch"
  shows "(accessed tc_access)\<^sup>*\<^sup>* (Insert_Copy batch k at i, tc)
     (Insert_Load k, tc\<lparr>slots := copy_in (slots tc) (at + i) (take (k - i) (drop i batch))\<rparr>)"
  using assms
proof (induction "k - i" arbitrary: i tc)
  case 0
  then show ?case
    by (auto simp: accessed_def intro: r_into_rtranclp)
next
  case (Suc j)
  let ?tc1 = "tc\<lparr>slots := (slots tc)[at + i := batch ! i]\<rparr>"
  have i: "i < k" "at + i < length (slots tc)" "i < length batch"
    using Suc.hyps(2) Suc.prems by auto
  have "take (k - i) (drop i batch) = batch ! i # take (k - Suc i) (drop (Suc i) batch)"
    using i by (simp add: Cons_nth_drop_Suc [symmetric] Suc_diff_Suc [symmetric])
  then have "copy_in (slots ?tc1) (at + Suc i) (take (k - Suc i) (drop (Suc i) batch))
      = copy_in (slots tc) (at + i) (take (k - i) (drop i batch))"
    using copy_in_Cons [OF i(2)] by simp
  moreover have "(accessed tc_access)\<^sup>*\<^sup>* (Insert_Copy batch k at (Suc i), ?tc1)
     (Insert_Load k, ?tc1\<lparr>slots := copy_in (slots ?tc1) (at + Suc i) (take (k - Suc i) (drop (Suc i) batch))\<rparr>)"
    using Suc.prems i Suc.hyps(2) by (intro Suc.hyps(1)) auto
  ultimately show ?case
    using i by - (rule accessed_step [where q = "(Insert_Copy batch k at (Suc i), ?tc1)"], simp_all)
qed

lemma remove_copies:
  assumes "length got \<le> k" "at + k \<le> length (slots tc)" "got = take (length got) (drop at (slots tc))"
  shows "(accessed tc_access)\<^sup>*\<^sup>* (Remove_Copy k at got, tc) (Remove_Return (take k (drop at (slots tc))) k, tc)"
  using assms
proof (induction "k - length got" arbitrary: got)
  case 0
  then have len: "length got = k"
    by simp
  have "take k (drop at (slots tc)) = got"
    using 0(4) unfolding len by (rule sym)
  then show ?case
    using len by - (rule accessed_step [where q = "(Remove_Return got k, tc)"], simp_all)
next
  case (Suc j)
  let ?got = "got @ [slots tc ! (at + length got)]"
  have j: "length got < k" "at + length got < length (slots tc)"
    using Suc.hyps(2) Suc.prems(1,2) by auto
  have "take (Suc (length got)) (drop at (slots tc)) = take (length got) (drop at (slots tc)) @ [slots tc ! (at + length got)]"
    using j by (simp add: take_Suc_conv_app_nth)
  then have "?got = take (length ?got) (drop at (slots tc))"
    using Suc.prems(3) by simp
  then have "(accessed tc_access)\<^sup>*\<^sup>* (Remove_Copy k at ?got, tc) (Remove_Return (take k (drop at (slots tc))) k, tc)"
    using Suc.hyps(2) Suc.prems(2) j by (intro Suc.hyps(1)) simp_all
  then show ?case
    using j by - (rule accessed_step [where q = "(Remove_Copy k at ?got, tc)"], simp_all)
qed

section \<open>The body computes the operation\<close>

lemma insert_body:
  assumes "tc_wf tc" "n \<le> length batch" "InsertRange batch n tc = (k, tc1)"
  shows "(accessed tc_access)\<^sup>*\<^sup>* (Insert_Space batch n, tc) (Insert_Return k, tc1)"
proof -
  let ?u = "used_slots tc" and ?k = "min n (sub32 TRANSFER_CACHE_CAPACITY (used_slots tc))"
  have u: "?u + ?k \<le> length (slots tc)"
    using assms(1) by (auto simp: tc_wf_def wrap_simps TRANSFER_CACHE_CAPACITY_def)
  show ?thesis
  proof (cases "0 < ?k")
    case True
    let ?tc1 = "tc\<lparr>slots := copy_in (slots tc) ?u (take ?k batch)\<rparr>"
    have copied: "(accessed tc_access)\<^sup>*\<^sup>* (Insert_Copy batch ?k ?u 0, tc) (Insert_Load ?k, ?tc1)"
      using insert_copies [of 0 ?k ?u tc batch] u assms(2) by simp
    have k: "k = ?k" and tc1: "tc1 = ?tc1\<lparr>used_slots := u32 (?u + ?k)\<rparr>"
      using assms(3) True by (auto simp: InsertRange_def Let_def)
    have "(accessed tc_access)\<^sup>*\<^sup>* (Insert_Load ?k, ?tc1) (Insert_Return k, tc1)"
      unfolding k tc1 by (rule accessed_step, simp, rule accessed_step, simp, simp)
    with copied have "(accessed tc_access)\<^sup>*\<^sup>* (Insert_Copy batch ?k ?u 0, tc) (Insert_Return k, tc1)"
      by (rule rtranclp_trans)
    with True show ?thesis
      by - (rule accessed_step, simp add: Let_def, rule accessed_step, simp)
  next
    case False
    then show ?thesis
      using assms(3) by - (rule accessed_step, auto simp: InsertRange_def Let_def)
  qed
qed

lemma remove_body:
  assumes "tc_wf tc" "RemoveRange n tc = ((batch, k), tc1)"
  shows "(accessed tc_access)\<^sup>*\<^sup>* (Remove_Compare n, tc) (Remove_Return batch k, tc1)"
proof -
  let ?k = "min n (used_slots tc)"
  have "(accessed tc_access)\<^sup>*\<^sup>* (remove_test ?k, tc) (Remove_Return batch k, tc1)"
  proof (cases "0 < ?k")
    case True
    let ?u = "sub32 (used_slots tc) ?k"
    have u: "?u + ?k \<le> length (slots tc)"
      using assms(1) by (auto simp: tc_wf_def wrap_simps TRANSFER_CACHE_CAPACITY_def)
    have res: "k = ?k" "batch = take ?k (drop ?u (slots tc))" "tc1 = tc\<lparr>used_slots := ?u\<rparr>"
      using assms(2) True by (auto simp: RemoveRange_def Let_def)
    have "(accessed tc_access)\<^sup>*\<^sup>* (Remove_Copy ?k ?u [], tc1) (Remove_Return batch k, tc1)"
      using remove_copies [of "[]" ?k ?u tc1] u unfolding res by simp
    then have "(accessed tc_access)\<^sup>*\<^sup>* (Remove_Load ?k, tc) (Remove_Return batch k, tc1)"
      unfolding res(3) by - (rule accessed_step, simp, rule accessed_step, simp, rule accessed_step, simp, simp)
    then show ?thesis
      using True by (simp add: remove_test_def)
  next
    case False
    then show ?thesis
      using assms(2) by (auto simp: RemoveRange_def remove_test_def)
  qed
  moreover have "(accessed tc_access)\<^sup>*\<^sup>* (Remove_Compare n, tc) (remove_test ?k, tc)"
  proof (cases "used_slots tc < n")
    case True
    then show ?thesis
      by - (rule accessed_step, simp, rule accessed_step, simp, simp add: min_def)
  next
    case False
    then show ?thesis
      by - (rule accessed_step, simp, simp add: min_def)
  qed
  ultimately show ?thesis
    by (rule rtranclp_trans [rotated])
qed

section \<open>The mutex makes them one step\<close>

interpretation tc_mutex: guarded_object tc_valid tc_body tc_access tc_outcome tc_operation tc_wf
proof unfold_locales
  fix tc x r tc1
  assume wf: "tc_wf tc" and valid: "tc_valid x" and op: "tc_operation x tc = (r, tc1)"
  show "tc_wf tc1 \<and> (\<exists>l. (accessed tc_access)\<^sup>*\<^sup>* (tc_body x, tc) (l, tc1) \<and> tc_outcome l = Some r)"
  proof (cases x)
    case (Insert batch n)
    from op Insert obtain k where k: "InsertRange batch n tc = (k, tc1)" "r = Inserted k"
      by (cases "InsertRange batch n tc") auto
    have "tc_wf tc1"
      using InsertRange_stack [OF wf _ _ k(1)] valid Insert by simp
    moreover have "(accessed tc_access)\<^sup>*\<^sup>* (tc_body x, tc) (Insert_Return k, tc1)"
      using insert_body [OF wf _ k(1)] valid Insert by simp
    ultimately show ?thesis
      using k(2) by (intro conjI exI [of _ "Insert_Return k"]) simp_all
  next
    case (Remove n)
    from op Remove obtain batch k where k: "RemoveRange n tc = ((batch, k), tc1)" "r = Removed batch k"
      by (cases "RemoveRange n tc") auto
    have "tc_wf tc1"
      using RemoveRange_stack [OF wf k(1)] by simp
    moreover have "(accessed tc_access)\<^sup>*\<^sup>* (tc_body x, tc) (Remove_Return batch k, tc1)"
      using remove_body [OF wf k(1)] Remove by simp
    ultimately show ?thesis
      using k(2) by (intro conjI exI [of _ "Remove_Return batch k"]) simp_all
  qed
next
  show "tc_access l tc = None" if "tc_outcome l = Some r" for l r tc
    using that by (cases l) auto
qed

section \<open>Properties\<close>

text \<open>
  C10: However the accesses of any number of threads are interleaved, the calls and results are
  those of a transfer cache whose operations are one step each; and every run of such a cache
  has the calls and results of a run of accesses.
\<close>

theorem transfer_cache_atomic:
  "(\<exists>s. accesses tc_valid tc_body tc_access tc_outcome empty_transfer_cache tr s)
     \<longleftrightarrow> (\<exists>a. atomically tc_valid tc_operation empty_transfer_cache tr a)"
  by (rule tc_mutex.same_traces [OF tc_wf_empty])

text \<open>
  A thread inside holds the mutex, reads and writes within the arrays, and can go on; a mutex
  that is held is held by a thread inside, so no thread waits in vain.
\<close>

lemma transfer_cache_never_stuck:
  assumes "accesses tc_valid tc_body tc_access tc_outcome empty_transfer_cache tr s"
  shows "(\<forall>x l. places s t = Inside x l \<longrightarrow>
         owner s = Some t \<and> (tc_access l (object s) \<noteq> None \<or> tc_outcome l \<noteq> None))
     \<and> (owner s = Some t \<longrightarrow> (\<exists>x l. places s t = Inside x l))"
  using tc_mutex.never_stuck [OF assms tc_wf_empty] by blast

end
