(* ===== verification/Old_Design.thy ===== *)
theory Old_Design
  imports Alloc_Prelude
begin

text \<open>
  The previous design (\<open>old/old_design.hpp\<close>): one allocator over the program break and \<open>mmap\<close>,
  with boundary tags. Every block starts with a header (\<open>Block\<close>, 24 bytes) and ends with a
  \<open>Footer\<close> (16 bytes); the free blocks are in a singly linked list that is searched next-fit. The
  memory is kept as two stores, of the headers and of the footers, indexed by address: reading
  an address that holds no header (footer) is undefined behaviour and gives \<open>None\<close>, and so does a
  loop that does not end. The theories on top show that under the invariant every address that
  is read holds a header (footer), and that the byte ranges of the live blocks are disjoint.

  The answers of the operating system (\<open>sbrk\<close>, \<open>mmap\<close>, \<open>brk\<close>, \<open>munmap\<close>) during one call are an
  argument. Each function runs under the allocator's mutex and is one step.
\<close>

section \<open>Data\<close>

definition MMAP_THRESHOLD :: nat where
  "MMAP_THRESHOLD = 400"

record Block =
  b_size :: nat
  b_free :: bool
  b_mapped :: bool
  b_next :: ptr

record Footer =
  f_size :: nat
  f_mapped :: bool

text \<open>\<open>offsetof(Block, memory)\<close> and \<open>sizeof(Footer)\<close> on a 64-bit target: the two flags are padded
  to the alignment of the pointer, respectively of the struct.\<close>

definition header_size :: nat where
  "header_size = 24"

definition footer_size :: nat where
  "footer_size = 16"

definition overhead_size :: nat where
  "overhead_size = header_size + footer_size"

definition INITIAL_CHUNK :: nat where
  "INITIAL_CHUNK = 4096"

record OldAllocator =
  o_free_list :: ptr
  o_prev_search_end :: ptr
  o_available_bytes :: nat
  o_brk_heap_start :: ptr
  o_brk_heap_end :: ptr
  o_blocks :: "addr \<rightharpoonup> Block"
  o_footers :: "addr \<rightharpoonup> Footer"

text \<open>The answers of the system calls; \<open>SYS_FAILED\<close> is \<open>(void*)-1\<close>. \<open>sys_brk\<close> and \<open>sys_munmap\<close>
  say whether the call succeeds.\<close>

record OldSystem =
  sys_sbrk :: "nat \<Rightarrow> addr"
  sys_mmap :: "nat \<Rightarrow> addr"
  sys_brk :: "addr \<Rightarrow> bool"
  sys_munmap :: "addr \<Rightarrow> nat \<Rightarrow> bool"

definition SYS_FAILED :: addr where
  "SYS_FAILED = 18446744073709551615"

section \<open>Addresses inside a block\<close>

definition block_span :: "Block \<Rightarrow> nat" where
  "block_span k = u64 (overhead_size + b_size k)"

definition block_end :: "addr \<Rightarrow> Block \<Rightarrow> addr" where
  "block_end b k = u64 (b + block_span k)"

definition footer_of :: "addr \<Rightarrow> Block \<Rightarrow> addr" where
  "footer_of b k = u64 (b + header_size + b_size k)"

section \<open>Reading and writing headers and footers\<close>

definition put_block :: "addr \<Rightarrow> Block \<Rightarrow> OldAllocator \<Rightarrow> OldAllocator" where
  "put_block b k a = a\<lparr>o_blocks := (o_blocks a)(b \<mapsto> k)\<rparr>"

definition upd_block :: "addr \<Rightarrow> (Block \<Rightarrow> Block) \<Rightarrow> OldAllocator \<Rightarrow> OldAllocator option" where
  "upd_block b f a = do {
     k \<leftarrow> o_blocks a b;
     Some (put_block b (f k) a)
   }"

definition write_footer :: "addr \<Rightarrow> OldAllocator \<Rightarrow> OldAllocator option" where
  "write_footer b a = do {
     k \<leftarrow> o_blocks a b;
     Some (a\<lparr>o_footers := (o_footers a)(footer_of b k \<mapsto> \<lparr>f_size = b_size k, f_mapped = b_mapped k\<rparr>)\<rparr>)
   }"

section \<open>Physical neighbours\<close>

definition next_phys :: "addr \<Rightarrow> OldAllocator \<Rightarrow> ptr option" where
  "next_phys b a = do {
     k \<leftarrow> o_blocks a b;
     if b_mapped k then Some nullptr
     else
       let next_addr = block_end b k in
       case o_brk_heap_end a of
         None \<Rightarrow> Some nullptr
       | Some e \<Rightarrow> if e \<le> next_addr then Some nullptr else Some (Some next_addr)
   }"

definition prev_phys :: "addr \<Rightarrow> OldAllocator \<Rightarrow> ptr option" where
  "prev_phys b a = do {
     k \<leftarrow> o_blocks a b;
     case o_brk_heap_start a of
       None \<Rightarrow> Some nullptr
     | Some s \<Rightarrow>
         if b_mapped k \<or> b \<le> u64 (s + header_size) then Some nullptr
         else do {
           f \<leftarrow> o_footers a (sub64 b footer_size);
           let prev_addr = sub64 b (u64 (overhead_size + f_size f));
           if prev_addr < s then Some nullptr
           else do {
             p \<leftarrow> o_blocks a prev_addr;
             Some (if b_mapped p = f_mapped f then Some prev_addr else nullptr)
           }
         }
   }"

section \<open>The free list\<close>

definition insert_free :: "addr \<Rightarrow> OldAllocator \<Rightarrow> OldAllocator option" where
  "insert_free b a = do {
     a1 \<leftarrow> upd_block b (\<lambda>k. k\<lparr>b_next := o_free_list a\<rparr>) a;
     Some (a1\<lparr>o_free_list := Some b\<rparr>)
   }"

partial_function (option) unlink_loop ::
  "(addr \<rightharpoonup> Block) \<Rightarrow> addr \<Rightarrow> ptr \<Rightarrow> ptr \<Rightarrow> (ptr \<times> ptr) option" where
  "unlink_loop B block prev cur = (case cur of
     None \<Rightarrow> Some (prev, nullptr)
   | Some c \<Rightarrow>
       if c = block then Some (prev, cur)
       else do {
         k \<leftarrow> B c;
         unlink_loop B block cur (b_next k)
       })"

definition unlink_free :: "addr \<Rightarrow> OldAllocator \<Rightarrow> (bool \<times> OldAllocator) option" where
  "unlink_free block a = do {
     (prev, cur) \<leftarrow> unlink_loop (o_blocks a) block nullptr (o_free_list a);
     case cur of
       None \<Rightarrow> Some (False, a)
     | Some c \<Rightarrow> do {
         k \<leftarrow> o_blocks a c;
         a1 \<leftarrow> (case prev of
                 Some p \<Rightarrow> upd_block p (\<lambda>q. q\<lparr>b_next := b_next k\<rparr>) a
               | None \<Rightarrow> Some (a\<lparr>o_free_list := b_next k\<rparr>));
         let a2 = (if cur = o_prev_search_end a1 then a1\<lparr>o_prev_search_end := prev\<rparr> else a1);
         a3 \<leftarrow> upd_block c (\<lambda>k. k\<lparr>b_free := False, b_next := nullptr\<rparr>) a2;
         Some (True, a3)
       }
   }"

section \<open>Creating, merging and splitting blocks\<close>

definition create_block ::
  "OldSystem \<Rightarrow> nat \<Rightarrow> bool \<Rightarrow> bool \<Rightarrow> ptr \<Rightarrow> OldAllocator \<Rightarrow> (ptr \<times> OldAllocator) option" where
  "create_block sys sz is_free mapped nxt a =
     (let ok = (if mapped then sys_mmap sys (u64 (sz + overhead_size))
                else sys_sbrk sys (u64 (sz + overhead_size)))
      in if ok = SYS_FAILED then Some (nullptr, a)
         else do {
           let k = \<lparr>b_size = sz, b_free = is_free, b_mapped = mapped, b_next = nxt\<rparr>;
           a1 \<leftarrow> write_footer ok (put_block ok k a);
           let a2 = (if mapped then a1
                     else a1\<lparr>o_brk_heap_start := (if o_brk_heap_start a1 = nullptr then Some ok
                                                  else o_brk_heap_start a1),
                             o_brk_heap_end := Some (block_end ok k)\<rparr>);
           Some (Some ok, a2)
         })"

text \<open>The two merges of \<open>coalesce_around\<close> end alike: the owner grows by the other block of \<open>n\<close> bytes
  and its header and footer.\<close>

definition grow_block :: "addr \<Rightarrow> nat \<Rightarrow> OldAllocator \<Rightarrow> OldAllocator option" where
  "grow_block owner n a = do {
     a1 \<leftarrow> upd_block owner (\<lambda>k. k\<lparr>b_size := u64 (b_size k + u64 (overhead_size + n))\<rparr>) a;
     a2 \<leftarrow> write_footer owner a1;
     Some (a2\<lparr>o_available_bytes := u64 (o_available_bytes a2 + overhead_size)\<rparr>)
   }"

partial_function (option) coalesce_next :: "addr \<Rightarrow> OldAllocator \<Rightarrow> OldAllocator option" where
  "coalesce_next owner a = do {
     nx \<leftarrow> next_phys owner a;
     case nx of
       None \<Rightarrow> Some a
     | Some n \<Rightarrow> do {
         kn \<leftarrow> o_blocks a n;
         ko \<leftarrow> o_blocks a owner;
         if \<not> b_free kn \<or> b_mapped kn \<noteq> b_mapped ko then Some a
         else do {
           (_, a1) \<leftarrow> unlink_free n a;
           kn1 \<leftarrow> o_blocks a1 n;
           a2 \<leftarrow> grow_block owner (b_size kn1) a1;
           coalesce_next owner a2
         }
       }
   }"

text \<open>The first half of \<open>coalesce_around\<close>: the owner of the block after merging it into the block
  in front of it, where that one is free.\<close>

definition coalesce_prev :: "addr \<Rightarrow> OldAllocator \<Rightarrow> (addr \<times> OldAllocator) option" where
  "coalesce_prev block a = do {
     k \<leftarrow> o_blocks a block;
     pv \<leftarrow> prev_phys block a;
     case pv of
       None \<Rightarrow> Some (block, a)
     | Some p \<Rightarrow> do {
         kp \<leftarrow> o_blocks a p;
         if b_free kp \<and> b_mapped kp = b_mapped k then do {
           a1 \<leftarrow> grow_block p (b_size k) a;
           Some (p, a1)
         }
         else Some (block, a)
       }
   }"

definition coalesce_around :: "addr \<Rightarrow> OldAllocator \<Rightarrow> (addr \<times> OldAllocator) option" where
  "coalesce_around block a = do {
     k \<leftarrow> o_blocks a block;
     if b_mapped k then Some (block, a)
     else do {
       (owner, a1) \<leftarrow> coalesce_prev block a;
       a2 \<leftarrow> coalesce_next owner a1;
       Some (owner, a2)
     }
   }"

definition split_block :: "addr \<Rightarrow> nat \<Rightarrow> OldAllocator \<Rightarrow> (bool \<times> OldAllocator) option" where
  "split_block block part a = do {
     k \<leftarrow> o_blocks a block;
     if b_size k < part then Some (False, a)
     else if b_size k < u64 (part + overhead_size + 1) then Some (False, a)
     else do {
       a1 \<leftarrow> upd_block block (\<lambda>k. k\<lparr>b_size := part\<rparr>) a;
       a2 \<leftarrow> write_footer block a1;
       k2 \<leftarrow> o_blocks a2 block;
       let remainder = block_end block k2;
       let r = \<lparr>b_size = sub64 (sub64 (b_size k) part) overhead_size, b_free = True,
                b_mapped = b_mapped k, b_next = b_next k\<rparr>;
       a3 \<leftarrow> write_footer remainder (put_block remainder r a2);
       a4 \<leftarrow> upd_block block (\<lambda>k. k\<lparr>b_next := Some remainder\<rparr>) a3;
       Some (True, a4\<lparr>o_available_bytes := sub64 (o_available_bytes a4) overhead_size\<rparr>)
     }
   }"

section \<open>Allocation\<close>

text \<open>The loop that looks for a free block; it changes nothing. It gives the block found with its
  predecessor, or \<open>None\<close> when the loop was left without one.\<close>

partial_function (option) search_loop ::
  "(addr \<rightharpoonup> Block) \<Rightarrow> ptr \<Rightarrow> ptr \<Rightarrow> nat \<Rightarrow> ptr \<Rightarrow> ptr \<Rightarrow> (ptr \<times> addr) option option" where
  "search_loop B search_end head sz prev cur = (case cur of
     None \<Rightarrow> Some None
   | Some c \<Rightarrow> do {
       k \<leftarrow> B c;
       if b_free k \<and> sz \<le> b_size k then Some (Some (prev, c))
       else if search_end \<noteq> nullptr \<and> b_next k = nullptr
       then search_loop B search_end head sz nullptr head
       else do {
         stop \<leftarrow> (case search_end of
                   None \<Rightarrow> Some False
                 | Some e \<Rightarrow> do { ke \<leftarrow> B e; Some (b_next k = b_next ke) });
         if stop then Some None
         else search_loop B search_end head sz cur (b_next k)
       }
     })"

definition search_start :: "OldAllocator \<Rightarrow> (ptr \<times> ptr) option" where
  "search_start a = (case o_prev_search_end a of
     None \<Rightarrow> Some (nullptr, o_free_list a)
   | Some e \<Rightarrow> do {
       k \<leftarrow> o_blocks a e;
       Some (if b_next k \<noteq> nullptr then (Some e, b_next k) else (nullptr, o_free_list a))
     })"

definition search_free :: "nat \<Rightarrow> OldAllocator \<Rightarrow> (ptr \<times> addr) option option" where
  "search_free sz a = do {
     (prev, cur) \<leftarrow> search_start a;
     search_loop (o_blocks a) (o_prev_search_end a) (o_free_list a) sz prev cur
   }"

text \<open>What is done with the block found: split it, unlink it, hand out its payload.\<close>

definition take_block :: "ptr \<Rightarrow> addr \<Rightarrow> nat \<Rightarrow> OldAllocator \<Rightarrow> (addr \<times> OldAllocator) option" where
  "take_block prev c sz a = do {
     (_, a1) \<leftarrow> split_block c sz a;
     k \<leftarrow> o_blocks a1 c;
     a2 \<leftarrow> (case prev of
             Some p \<Rightarrow> do {
               a2 \<leftarrow> upd_block p (\<lambda>q. q\<lparr>b_next := b_next k\<rparr>) a1;
               Some (a2\<lparr>o_prev_search_end := prev\<rparr>)
             }
           | None \<Rightarrow> Some (a1\<lparr>o_free_list := b_next k, o_prev_search_end := nullptr\<rparr>));
     a3 \<leftarrow> upd_block c (\<lambda>k. k\<lparr>b_next := nullptr, b_free := False\<rparr>) a2;
     k3 \<leftarrow> o_blocks a3 c;
     Some (u64 (c + header_size), a3\<lparr>o_available_bytes := sub64 (o_available_bytes a3) (b_size k3)\<rparr>)
   }"

definition old_allocate :: "OldSystem \<Rightarrow> nat \<Rightarrow> OldAllocator \<Rightarrow> (addr \<times> OldAllocator) option" where
  "old_allocate sys sz a = do {
     found \<leftarrow> (if sz \<le> o_available_bytes a then search_free sz a else Some None);
     case found of
       Some (prev, c) \<Rightarrow> take_block prev c sz a
     | None \<Rightarrow> do {
         (new_block, a1) \<leftarrow> create_block sys sz False (MMAP_THRESHOLD \<le> sz) nullptr a;
         case new_block of
           None \<Rightarrow> Some (SYS_FAILED, a1)
         | Some b \<Rightarrow> Some (u64 (b + header_size), a1)
       }
   }"

section \<open>Deallocation\<close>

definition return_back_unlocked :: "ptr \<Rightarrow> OldAllocator \<Rightarrow> (bool \<times> OldAllocator) option" where
  "return_back_unlocked block a = (case block of
     None \<Rightarrow> Some (False, a)
   | Some b \<Rightarrow> do {
       k \<leftarrow> o_blocks a b;
       if b_free k then Some (False, a)
       else do {
         a1 \<leftarrow> upd_block b (\<lambda>k. k\<lparr>b_free := True, b_next := nullptr\<rparr>) a;
         (merged, a2) \<leftarrow> coalesce_around b (a1\<lparr>o_available_bytes := u64 (o_available_bytes a1 + b_size k)\<rparr>);
         a3 \<leftarrow> (if merged = b then insert_free b a2 else Some a2);
         Some (True, a3)
       }
     })"

text \<open>Memory the system took back holds no header and no footer.\<close>

definition unmap :: "addr \<Rightarrow> addr \<Rightarrow> OldAllocator \<Rightarrow> OldAllocator" where
  "unmap lo hi a = a\<lparr>o_blocks := (\<lambda>x. if lo \<le> x \<and> x < hi then None else o_blocks a x),
                    o_footers := (\<lambda>x. if lo \<le> x \<and> x < hi then None else o_footers a x)\<rparr>"

definition deallocate_block :: "OldSystem \<Rightarrow> ptr \<Rightarrow> OldAllocator \<Rightarrow> (bool \<times> OldAllocator) option" where
  "deallocate_block sys block a = (case block of
     None \<Rightarrow> Some (False, a)
   | Some b \<Rightarrow> do {
       k0 \<leftarrow> o_blocks a b;
       (go, a1) \<leftarrow> (if b_free k0 then do {
                     (ok, a') \<leftarrow> unlink_free b a;
                     if \<not> ok then Some (False, a')
                     else do {
                       k' \<leftarrow> o_blocks a' b;
                       Some (True, a'\<lparr>o_available_bytes := sub64 (o_available_bytes a') (b_size k')\<rparr>)
                     }
                   }
                   else Some (True, a));
       if \<not> go then Some (False, a1)
       else do {
         k \<leftarrow> o_blocks a1 b;
         if b_mapped k then
           (if sys_munmap sys b (block_span k)
            then Some (True, unmap b (b + block_span k) a1) else Some (False, a1))
         else if Some (block_end b k) \<noteq> o_brk_heap_end a1 then do {
           (_, a2) \<leftarrow> return_back_unlocked (Some b) a1;
           Some (True, a2)
         }
         else if sys_brk sys b
         then Some (True, (unmap b (block_end b k) a1)\<lparr>o_brk_heap_end := Some b\<rparr>)
         else Some (False, a1)
       }
     })"

text \<open>The template \<open>deallocate(T*)\<close>: the header is in front of the payload. The result is
  \<open>nullptr\<close> only for the pointer 24.\<close>

definition old_deallocate :: "OldSystem \<Rightarrow> addr \<Rightarrow> OldAllocator \<Rightarrow> (bool \<times> OldAllocator) option" where
  "old_deallocate sys p a =
     (let b = sub64 p header_size in deallocate_block sys (if b = 0 then nullptr else Some b) a)"

section \<open>Constructor and destructor\<close>

definition new_OldAllocator :: "OldSystem \<Rightarrow> OldAllocator option" where
  "new_OldAllocator sys = do {
     let a = \<lparr>o_free_list = nullptr, o_prev_search_end = nullptr, o_available_bytes = 0,
              o_brk_heap_start = nullptr, o_brk_heap_end = nullptr,
              o_blocks = (\<lambda>_. None), o_footers = (\<lambda>_. None)\<rparr>;
     (start_block, a1) \<leftarrow> create_block sys INITIAL_CHUNK True False nullptr a;
     case start_block of
       None \<Rightarrow> Some (a1\<lparr>o_free_list := nullptr, o_available_bytes := 0\<rparr>)
     | Some b \<Rightarrow> do {
         k \<leftarrow> o_blocks a1 b;
         Some (a1\<lparr>o_free_list := Some b, o_available_bytes := b_size k\<rparr>)
       }
   }"

partial_function (option) destroy_OldAllocator :: "OldSystem \<Rightarrow> OldAllocator \<Rightarrow> OldAllocator option" where
  "destroy_OldAllocator sys a = (case o_free_list a of
     None \<Rightarrow> Some a
   | Some b \<Rightarrow> do {
       (_, a1) \<leftarrow> deallocate_block sys (Some b) a;
       destroy_OldAllocator sys a1
     })"

declare unlink_loop.simps [code] coalesce_next.simps [code] search_loop.simps [code]
  destroy_OldAllocator.simps [code]

end
