(* ===== verification/Old_Design_Inv.thy ===== *)
theory Old_Design_Inv
  imports Old_Design
begin

text \<open>
  The invariant of the old design. \<open>tiles\<close>: the blocks \<open>bs\<close> cover the program break's range without
  a gap, each with its footer; \<open>path\<close>: the free list leads through the blocks \<open>fs\<close>; the free
  blocks are exactly those of the list, apart from blocks in transit (\<open>X\<close>), and
  \<open>available_bytes\<close> is the sum of their sizes; the blocks \<open>M\<close> have a mapping of their own.
\<close>

lemmas sizes = header_size_def footer_size_def overhead_size_def

section \<open>Shapes, flags and sizes\<close>

definition shape :: "(addr \<rightharpoonup> Block) \<Rightarrow> addr \<Rightarrow> (nat \<times> bool) option" where
  "shape B x = map_option (\<lambda>k. (b_size k, b_mapped k)) (B x)"

definition isfree :: "(addr \<rightharpoonup> Block) \<Rightarrow> addr \<Rightarrow> bool" where
  "isfree B x = (case B x of None \<Rightarrow> False | Some k \<Rightarrow> b_free k)"

definition bsz :: "(addr \<rightharpoonup> Block) \<Rightarrow> addr \<Rightarrow> nat" where
  "bsz B x = (case B x of None \<Rightarrow> 0 | Some k \<Rightarrow> b_size k)"

lemma shape_Some: "shape B x = Some (n, m) \<longleftrightarrow> (\<exists>k. B x = Some k \<and> b_size k = n \<and> b_mapped k = m)"
  by (auto simp: shape_def)

lemma flags_Some [simp]:
  "B x = Some k \<Longrightarrow> isfree B x = b_free k" "B x = Some k \<Longrightarrow> bsz B x = b_size k"
  "B x = Some k \<Longrightarrow> shape B x = Some (b_size k, b_mapped k)"
  by (simp_all add: isfree_def bsz_def shape_def)

lemma flags_upd [simp]:
  "isfree (B(x \<mapsto> k)) = (isfree B)(x := b_free k)" "bsz (B(x \<mapsto> k)) = (bsz B)(x := b_size k)"
  "shape (B(x \<mapsto> k)) = (shape B)(x \<mapsto> (b_size k, b_mapped k))"
  by (auto simp: isfree_def bsz_def shape_def fun_eq_iff)

lemma isfree_cong: "B' x = B x \<Longrightarrow> isfree B' x = isfree B x"
  by (simp add: isfree_def)

lemma bsz_shape: "shape B' x = shape B x \<Longrightarrow> bsz B' x = bsz B x"
  by (auto simp: shape_def bsz_def split: option.splits)

section \<open>The blocks of the program break\<close>

primrec tiles :: "(addr \<rightharpoonup> Block) \<Rightarrow> (addr \<rightharpoonup> Footer) \<Rightarrow> addr \<Rightarrow> addr list \<Rightarrow> addr \<Rightarrow> bool" where
  "tiles B F s [] e \<longleftrightarrow> s = e"
| "tiles B F s (b # bs) e \<longleftrightarrow> b = s \<and> (\<exists>n. shape B b = Some (n, False)
     \<and> F (b + 24 + n) = Some \<lparr>f_size = n, f_mapped = False\<rparr> \<and> tiles B F (b + 40 + n) bs e)"

lemma tiles_append: "tiles B F s (xs @ ys) e \<longleftrightarrow> (\<exists>m. tiles B F s xs m \<and> tiles B F m ys e)"
  by (induction xs arbitrary: s) auto

lemma tiles_le: "tiles B F s bs e \<Longrightarrow> s \<le> e"
  by (induction bs arbitrary: s) fastforce+

lemma tiles_mem:
  assumes "tiles B F s bs e" "b \<in> set bs"
  shows "\<exists>k. B b = Some k \<and> \<not> b_mapped k \<and> F (b + 24 + b_size k) = Some \<lparr>f_size = b_size k, f_mapped = False\<rparr>
     \<and> s \<le> b \<and> b + 40 + b_size k \<le> e"
  using assms
proof (induction bs arbitrary: s)
  case (Cons x xs)
  then obtain n where n: "x = s" "shape B x = Some (n, False)" "tiles B F (x + 40 + n) xs e"
      "F (x + 24 + n) = Some \<lparr>f_size = n, f_mapped = False\<rparr>"
    by auto
  show ?case
  proof (cases "b = x")
    case True
    then show ?thesis
      using n tiles_le [OF n(3)] by (auto simp: shape_Some)
  next
    case False
    then have "b \<in> set xs"
      using Cons.prems(2) by simp
    from Cons.IH [OF n(3) this] show ?thesis
      using n(1) by fastforce
  qed
qed simp

lemma tiles_distinct: "tiles B F s bs e \<Longrightarrow> distinct bs"
proof (induction bs arbitrary: s)
  case (Cons b bs)
  then obtain n where "tiles B F (b + 40 + n) bs e"
    by auto
  then show ?case
    using Cons.IH tiles_mem [of B F "b + 40 + n" bs e b] by fastforce
qed simp

lemma tiles_cong:
  assumes "\<And>b. b \<in> set bs \<Longrightarrow> shape B' b = shape B b"
    and "\<And>x. s \<le> x \<Longrightarrow> x < e \<Longrightarrow> F' x = F x"
    and "tiles B F s bs e"
  shows "tiles B' F' s bs e"
  using assms
proof (induction bs arbitrary: s)
  case (Cons b bs)
  then obtain n where n: "b = s" "shape B b = Some (n, False)" "tiles B F (b + 40 + n) bs e"
      "F (b + 24 + n) = Some \<lparr>f_size = n, f_mapped = False\<rparr>"
    by auto
  then have "b + 40 + n \<le> e"
    using tiles_le by blast
  then have "F' (b + 24 + n) = F (b + 24 + n)" "tiles B' F' (b + 40 + n) bs e"
    using n Cons by auto
  then show ?case
    using n Cons.prems(1) by auto
qed simp

text \<open>Two blocks of the range do not overlap.\<close>

lemma tiles_apart:
  assumes "tiles B F s bs e" "x \<in> set bs" "y \<in> set bs" "x < y"
  shows "x + 40 + bsz B x \<le> y"
  using assms
proof (induction bs arbitrary: s)
  case (Cons b bs)
  then obtain n where n: "b = s" "shape B b = Some (n, False)" "tiles B F (b + 40 + n) bs e"
    by auto
  have ge: "z \<in> set bs \<Longrightarrow> b + 40 + n \<le> z" for z
    using tiles_mem [OF n(3)] by blast
  show ?case
    using Cons ge [of x] ge [of y] n by (auto simp: shape_Some)
qed simp

text \<open>The parts of the range around one block.\<close>

lemma tiles_focus:
  "tiles B F s (xs @ b # ys) e \<longleftrightarrow> (\<exists>n. tiles B F s xs b \<and> shape B b = Some (n, False)
     \<and> F (b + 24 + n) = Some \<lparr>f_size = n, f_mapped = False\<rparr> \<and> tiles B F (b + 40 + n) ys e)"
  by (auto simp: tiles_append)

text \<open>The block at the focus gets another size, and its footer is written.\<close>

lemma tiles_rewrite:
  assumes "tiles B F s xs b" "tiles B F (b + 40 + n) ys e"
    and "\<And>x. x \<in> set xs \<union> set ys \<Longrightarrow> shape B' x = shape B x" "shape B' b = Some (n, False)"
    and "F' (b + 24 + n) = Some \<lparr>f_size = n, f_mapped = False\<rparr>" "\<And>x. x \<noteq> b + 24 + n \<Longrightarrow> F' x = F x"
  shows "tiles B' F' s (xs @ b # ys) e"
proof -
  have "tiles B' F' s xs b"
    by (rule tiles_cong [OF _ _ assms(1)]) (use assms in auto)
  moreover have "tiles B' F' (b + 40 + n) ys e"
    by (rule tiles_cong [OF _ _ assms(2)]) (use assms in auto)
  ultimately show ?thesis
    using assms by (auto simp: tiles_focus)
qed

section \<open>The bytes of the free blocks\<close>

definition fsum :: "(addr \<rightharpoonup> Block) \<Rightarrow> addr list \<Rightarrow> nat" where
  "fsum B bs = sum_list (map (\<lambda>x. if isfree B x then bsz B x else 0) bs)"

lemma fsum_simps [simp]:
  "fsum B [] = 0" "fsum B (x # xs) = (if isfree B x then bsz B x else 0) + fsum B xs"
  "fsum B (xs @ ys) = fsum B xs + fsum B ys"
  by (simp_all add: fsum_def)

lemma fsum_cong:
  "(\<And>x. x \<in> set bs \<Longrightarrow> isfree B' x = isfree B x \<and> bsz B' x = bsz B x) \<Longrightarrow> fsum B' bs = fsum B bs"
  unfolding fsum_def by (auto intro!: arg_cong [of _ _ sum_list])

lemma fsum_le: "tiles B F s bs e \<Longrightarrow> fsum B bs + 40 * length bs \<le> e - s"
proof (induction bs arbitrary: s)
  case (Cons b bs)
  then obtain n where n: "b = s" "shape B b = Some (n, False)" "tiles B F (b + 40 + n) bs e"
    by auto
  then show ?case
    using Cons.IH [OF n(3)] tiles_le [OF n(3)] by (auto simp: shape_Some)
qed simp

section \<open>The free list\<close>

primrec path :: "(addr \<rightharpoonup> Block) \<Rightarrow> ptr \<Rightarrow> addr list \<Rightarrow> ptr \<Rightarrow> bool" where
  "path B p [] q \<longleftrightarrow> p = q"
| "path B p (x # xs) q \<longleftrightarrow> p = Some x \<and> (\<exists>k. B x = Some k \<and> path B (b_next k) xs q)"

lemma path_append: "path B p (xs @ ys) q \<longleftrightarrow> (\<exists>r. path B p xs r \<and> path B r ys q)"
  by (induction xs arbitrary: p) auto

lemma path_cong: "(\<And>x. x \<in> set xs \<Longrightarrow> B' x = B x) \<Longrightarrow> path B' p xs q = path B p xs q"
  by (induction xs arbitrary: p) auto

lemma path_upd [simp]: "x \<notin> set xs \<Longrightarrow> path (B(x := v)) p xs q = path B p xs q"
  by (rule path_cong) auto

text \<open>Other fields of the blocks on the path do not matter.\<close>

lemma path_next_cong:
  "(\<And>x. x \<in> set xs \<Longrightarrow> map_option b_next (B' x) = map_option b_next (B x)) \<Longrightarrow> path B p xs q \<Longrightarrow> path B' p xs q"
proof (induction xs arbitrary: p)
  case (Cons x xs)
  then obtain k where k: "p = Some x" "B x = Some k" "path B (b_next k) xs q"
    by auto
  moreover obtain k' where "B' x = Some k'" "b_next k' = b_next k"
    using Cons.prems(1) [of x] k(2) by auto
  ultimately show ?case
    using Cons.IH [OF _ k(3)] Cons.prems(1) by auto
qed simp

lemma path_empty_iff: "path B p xs None \<Longrightarrow> p = None \<longleftrightarrow> xs = []"
  by (cases xs) auto

lemma path_mem: "path B p xs q \<Longrightarrow> x \<in> set xs \<Longrightarrow> \<exists>k. B x = Some k"
  by (induction xs arbitrary: p) auto

text \<open>The pointer to the block before a position, \<open>nullptr\<close> at the head.\<close>

definition pred_of :: "addr list \<Rightarrow> ptr" where
  "pred_of xs = (if xs = [] then None else Some (last xs))"

lemma pred_of_simps [simp]: "pred_of [] = None" "pred_of (xs @ [x]) = Some x"
  by (simp_all add: pred_of_def)

lemma pred_of_mem: "pred_of xs = Some p \<Longrightarrow> p \<in> set xs"
  by (auto simp: pred_of_def split: if_splits)

lemma pred_of_cases:
  obtains "xs = []" "pred_of xs = None" | zs p where "xs = zs @ [p]" "pred_of xs = Some p"
  by (cases xs rule: rev_cases) auto

text \<open>Redirecting what leads to a position: the head of the list, or the \<open>next\<close> field of the
  block in front of it.\<close>

definition redirect :: "ptr \<Rightarrow> ptr \<Rightarrow> OldAllocator \<Rightarrow> OldAllocator option" where
  "redirect prev q a = (case prev of
     Some p \<Rightarrow> upd_block p (\<lambda>k. k\<lparr>b_next := q\<rparr>) a
   | None \<Rightarrow> Some (a\<lparr>o_free_list := q\<rparr>))"

lemma redirect_spec:
  assumes "path (o_blocks a) (o_free_list a) (xs @ ys) None" "distinct (xs @ ys)"
    and "path (o_blocks a) q zs None" "set zs \<inter> set xs = {}"
  shows "\<exists>B l. redirect (pred_of xs) q a = Some (a\<lparr>o_blocks := B, o_free_list := l\<rparr>)
     \<and> path B l (xs @ zs) None \<and> shape B = shape (o_blocks a) \<and> isfree B = isfree (o_blocks a)
     \<and> (\<forall>x. x \<notin> set xs \<longrightarrow> B x = o_blocks a x)"
proof (cases xs rule: pred_of_cases)
  case 1
  then show ?thesis
    using assms by (intro exI [of _ "o_blocks a"] exI [of _ q]) (simp add: redirect_def)
next
  case (2 us p)
  obtain k where k: "o_blocks a p = Some k" "path (o_blocks a) (o_free_list a) us (Some p)"
    using assms(1) 2 by (auto simp: path_append)
  have p: "p \<notin> set us" "p \<notin> set zs"
    using assms(2,4) 2(1) by auto
  show ?thesis
    using assms 2 k p
    by (intro exI [of _ "(o_blocks a)(p \<mapsto> k\<lparr>b_next := q\<rparr>)"] exI [of _ "o_free_list a"])
      (auto simp: redirect_def upd_block_def put_block_def path_append fun_eq_iff)
qed

lemma unlink_loop_found:
  assumes "path B cur (xs @ b # ys) None" "b \<notin> set xs"
  shows "unlink_loop B b prev cur = Some (if xs = [] then prev else pred_of xs, Some b)"
  using assms
proof (induction xs arbitrary: cur prev)
  case Nil
  then show ?case
    by (subst unlink_loop.simps) auto
next
  case (Cons x xs)
  then obtain k where "cur = Some x" "B x = Some k" "path B (b_next k) (xs @ b # ys) None"
    by auto
  with Cons.IH [OF this(3), of cur] Cons.prems(2) show ?case
    by (subst unlink_loop.simps) (auto simp: pred_of_def)
qed

lemma unlink_free_redirect:
  assumes "unlink_loop (o_blocks a) b nullptr (o_free_list a) = Some (prev, Some b)" "o_blocks a b = Some k"
    and "redirect prev (b_next k) a = Some a1" "o_blocks a1 b = Some k1"
  shows "unlink_free b a = Some (True, put_block b (k1\<lparr>b_free := False, b_next := nullptr\<rparr>)
     (if o_prev_search_end a1 = Some b then a1\<lparr>o_prev_search_end := prev\<rparr> else a1))"
  using assms unfolding unlink_free_def redirect_def
  by (auto simp: Let_def upd_block_def put_block_def bind_eq_Some_conv split: option.splits)

lemma unlink_free_spec:
  assumes p: "path (o_blocks a) (o_free_list a) (xs @ b # ys) None" and d: "distinct (xs @ b # ys)"
    and pse: "o_prev_search_end a = None \<or> (\<exists>e\<in>set (xs @ b # ys). o_prev_search_end a = Some e)"
  shows "\<exists>B l e. unlink_free b a = Some (True, a\<lparr>o_blocks := B, o_free_list := l, o_prev_search_end := e\<rparr>)
     \<and> path B l (xs @ ys) None \<and> shape B = shape (o_blocks a) \<and> isfree B = (isfree (o_blocks a))(b := False)
     \<and> (\<forall>x. x \<notin> set (xs @ [b]) \<longrightarrow> B x = o_blocks a x)
     \<and> e = (if o_prev_search_end a = Some b then pred_of xs else o_prev_search_end a)"
proof -
  have loop: "unlink_loop (o_blocks a) b nullptr (o_free_list a) = Some (pred_of xs, Some b)"
    using unlink_loop_found [OF p] d by (auto simp: pred_of_def)
  obtain k where k: "o_blocks a b = Some k" "path (o_blocks a) (b_next k) ys None"
    using p by (auto simp: path_append)
  obtain B l where r: "redirect (pred_of xs) (b_next k) a = Some (a\<lparr>o_blocks := B, o_free_list := l\<rparr>)"
      "path B l (xs @ ys) None" "shape B = shape (o_blocks a)" "isfree B = isfree (o_blocks a)"
      "\<forall>x. x \<notin> set xs \<longrightarrow> B x = o_blocks a x"
    using redirect_spec [OF p d k(2)] d by auto
  have B: "B b = Some k"
    using r(5) d k(1) by auto
  from unlink_free_redirect [OF loop k(1) r(1)] B
  have "unlink_free b a = Some (True, a\<lparr>o_blocks := B(b \<mapsto> k\<lparr>b_free := False, b_next := nullptr\<rparr>), o_free_list := l,
      o_prev_search_end := (if o_prev_search_end a = Some b then pred_of xs else o_prev_search_end a)\<rparr>)"
    by (auto simp: put_block_def)
  then show ?thesis
    using r d k(1) B
    by (intro exI [of _ "B(b \<mapsto> k\<lparr>b_free := False, b_next := nullptr\<rparr>)"] exI [of _ l] exI conjI) (auto simp: fun_eq_iff)
qed

end
