(* ===== verification/Old_Design_Ops.thy ===== *)
theory Old_Design_Ops
  imports Old_Design_Inv
begin

text \<open>
  The operations of the old design keep its invariant: coalescing, splitting, taking a block off
  the list, returning one, growing and shrinking the program break.
\<close>

section \<open>The invariant\<close>

definition heap_base :: "OldAllocator \<Rightarrow> addr" where
  "heap_base a = (case o_brk_heap_start a of None \<Rightarrow> 0 | Some s \<Rightarrow> s)"

definition heap_top :: "OldAllocator \<Rightarrow> addr" where
  "heap_top a = (case o_brk_heap_end a of None \<Rightarrow> 0 | Some e \<Rightarrow> e)"

definition mapped_ok :: "(addr \<rightharpoonup> Block) \<Rightarrow> addr \<Rightarrow> addr \<Rightarrow> addr set \<Rightarrow> bool" where
  "mapped_ok B s e M \<longleftrightarrow>
     (\<forall>m\<in>M. \<exists>k. B m = Some k \<and> b_mapped k \<and> \<not> b_free k \<and> 0 < m \<and> m + 40 + b_size k < 18446744073709551616
        \<and> (m + 40 + b_size k \<le> s \<or> e \<le> m))
   \<and> (\<forall>m\<in>M. \<forall>m'\<in>M. m < m' \<longrightarrow> m + 40 + bsz B m \<le> m')"

definition heap_inv :: "OldAllocator \<Rightarrow> addr list \<Rightarrow> addr list \<Rightarrow> addr set \<Rightarrow> addr set \<Rightarrow> bool" where
  "heap_inv a bs fs M X \<longleftrightarrow>
     (o_brk_heap_start a = None \<longleftrightarrow> o_brk_heap_end a = None) \<and> o_brk_heap_start a \<noteq> Some 0
   \<and> heap_top a < 18446744073709551616
   \<and> tiles (o_blocks a) (o_footers a) (heap_base a) bs (heap_top a)
   \<and> path (o_blocks a) (o_free_list a) fs None \<and> distinct fs
   \<and> {b \<in> set bs. isfree (o_blocks a) b} = set fs \<union> X \<and> set fs \<inter> X = {}
   \<and> o_available_bytes a = fsum (o_blocks a) bs
   \<and> (o_prev_search_end a = None \<or> (\<exists>e\<in>set fs. o_prev_search_end a = Some e))
   \<and> mapped_ok (o_blocks a) (heap_base a) (heap_top a) M"

lemma heap_invD:
  assumes "heap_inv a bs fs M X"
  shows "tiles (o_blocks a) (o_footers a) (heap_base a) bs (heap_top a)" "heap_top a < 18446744073709551616"
    "path (o_blocks a) (o_free_list a) fs None" "distinct fs" "{b \<in> set bs. isfree (o_blocks a) b} = set fs \<union> X"
    "set fs \<inter> X = {}" "o_available_bytes a = fsum (o_blocks a) bs"
    "o_prev_search_end a = None \<or> (\<exists>e\<in>set fs. o_prev_search_end a = Some e)"
    "mapped_ok (o_blocks a) (heap_base a) (heap_top a) M"
    "o_brk_heap_start a = None \<longleftrightarrow> o_brk_heap_end a = None" "o_brk_heap_start a \<noteq> Some 0"
  using assms unfolding heap_inv_def by auto

lemma heap_invI:
  assumes "tiles (o_blocks a) (o_footers a) (heap_base a) bs (heap_top a)"
    "o_available_bytes a = fsum (o_blocks a) bs" "path (o_blocks a) (o_free_list a) fs None" "distinct fs"
    "{b \<in> set bs. isfree (o_blocks a) b} = set fs \<union> X" "set fs \<inter> X = {}"
    "o_prev_search_end a = None \<or> (\<exists>e\<in>set fs. o_prev_search_end a = Some e)"
    "mapped_ok (o_blocks a) (heap_base a) (heap_top a) M" "heap_top a < 18446744073709551616"
    "o_brk_heap_start a = None \<longleftrightarrow> o_brk_heap_end a = None" "o_brk_heap_start a \<noteq> Some 0"
  shows "heap_inv a bs fs M X"
  unfolding heap_inv_def using assms by blast

lemma heap_ends_cong:
  "o_brk_heap_start a' = o_brk_heap_start a \<Longrightarrow> heap_base a' = heap_base a"
  "o_brk_heap_end a' = o_brk_heap_end a \<Longrightarrow> heap_top a' = heap_top a"
  by (simp_all add: heap_base_def heap_top_def)

lemma mapped_cong:
  assumes "mapped_ok B s e M" "\<And>x. \<not> isfree B x \<Longrightarrow> B' x = B x"
  shows "mapped_ok B' s e M"
proof -
  have "B' m = B m" if "m \<in> M" for m
    using assms that by (fastforce simp: mapped_ok_def)
  then show ?thesis
    using assms(1) by (simp add: mapped_ok_def bsz_def)
qed

text \<open>Two neighbours are not both free.\<close>

abbreviation not_both :: "(addr \<rightharpoonup> Block) \<Rightarrow> addr \<Rightarrow> addr \<Rightarrow> bool" where
  "not_both B x y \<equiv> \<not> (isfree B x \<and> isfree B y)"

definition old_inv :: "OldAllocator \<Rightarrow> addr list \<Rightarrow> addr list \<Rightarrow> addr set \<Rightarrow> bool" where
  "old_inv a bs fs M \<longleftrightarrow> heap_inv a bs fs M {} \<and> successively (not_both (o_blocks a)) bs"

lemma not_both_cong:
  "(\<And>x. x \<in> set bs \<Longrightarrow> isfree B' x = isfree B x) \<Longrightarrow> successively (not_both B') bs = successively (not_both B) bs"
  by (rule successively_cong) auto

text \<open>The blocks the program holds.\<close>

definition busy :: "(addr \<rightharpoonup> Block) \<Rightarrow> addr list \<Rightarrow> addr set" where
  "busy B bs = {b \<in> set bs. \<not> isfree B b}"

section \<open>The neighbours of a block\<close>

lemma heap_block:
  assumes "heap_inv a (xs @ b # ys) fs M X"
  shows "\<exists>k. o_blocks a b = Some k \<and> \<not> b_mapped k \<and> block_span k = 40 + b_size k \<and> block_end b k = b + 40 + b_size k
     \<and> footer_of b k = b + 24 + b_size k \<and> heap_base a \<le> b \<and> b + 40 + b_size k \<le> heap_top a \<and> 0 < b
     \<and> o_brk_heap_start a \<noteq> None \<and> o_brk_heap_end a \<noteq> None
     \<and> tiles (o_blocks a) (o_footers a) (heap_base a) xs b
     \<and> tiles (o_blocks a) (o_footers a) (b + 40 + b_size k) ys (heap_top a)"
proof -
  note inv = heap_invD [OF assms]
  obtain k where k: "o_blocks a b = Some k" "\<not> b_mapped k" "heap_base a \<le> b" "b + 40 + b_size k \<le> heap_top a"
    using tiles_mem [OF inv(1), of b] by auto
  moreover have "o_brk_heap_end a \<noteq> None"
    using k(4) by (auto simp: heap_top_def split: option.splits)
  moreover have "0 < b"
    using inv(10,11) calculation k(3) by (auto simp: heap_base_def split: option.splits intro: gr0I)
  ultimately show ?thesis
    using inv(1,2,10) by (auto simp: block_span_def block_end_def footer_of_def sizes u64_id tiles_focus shape_Some)
qed

lemma next_phys_spec:
  assumes "heap_inv a (xs @ b # ys) fs M X"
  shows "next_phys b a = Some (case ys of [] \<Rightarrow> None | y # _ \<Rightarrow> Some y)"
proof -
  obtain k where k: "o_blocks a b = Some k" "\<not> b_mapped k" "block_end b k = b + 40 + b_size k"
      "o_brk_heap_end a \<noteq> None" "tiles (o_blocks a) (o_footers a) (b + 40 + b_size k) ys (heap_top a)"
    using heap_block [OF assms] by blast
  then obtain e where e: "o_brk_heap_end a = Some e" "heap_top a = e"
    by (auto simp: heap_top_def)
  show ?thesis
  proof (cases ys)
    case (Cons y zs)
    then have "y < e"
      using k(5) e(2) tiles_mem [OF k(5), of y] by fastforce
    then show ?thesis
      using k e Cons by (auto simp: next_phys_def)
  qed (use k e in \<open>auto simp: next_phys_def\<close>)
qed

lemma prev_phys_spec:
  assumes "heap_inv a (xs @ b # ys) fs M X"
  shows "prev_phys b a = Some (pred_of xs)"
proof -
  note inv = heap_invD [OF assms]
  obtain k where k: "o_blocks a b = Some k" "\<not> b_mapped k" "o_brk_heap_start a \<noteq> None" "b + 40 \<le> heap_top a"
      "tiles (o_blocks a) (o_footers a) (heap_base a) xs b"
    using heap_block [OF assms] by force
  obtain s where s: "o_brk_heap_start a = Some s" "heap_base a = s"
    using k(3) by (auto simp: heap_base_def)
  show ?thesis
  proof (cases xs rule: pred_of_cases)
    case 1
    then have "b = s" "s + 24 < 18446744073709551616"
      using k s inv(2) by auto
    then show ?thesis
      using k s 1 by (simp add: prev_phys_def sizes u64_id)
  next
    case (2 zs p)
    obtain n where n: "shape (o_blocks a) p = Some (n, False)" "b = p + 40 + n" "s \<le> p"
        "o_footers a (p + 24 + n) = Some \<lparr>f_size = n, f_mapped = False\<rparr>"
      using k(5) 2(1) s(2) tiles_le by (fastforce simp: tiles_append)
    have "s + 24 < 18446744073709551616" "sub64 b 16 = p + 24 + n" "sub64 b (u64 (40 + n)) = p"
      using n inv(2) k(4) by (auto simp: sub64_id u64_id)
    then show ?thesis
      using n s k 2(2) by (auto simp: prev_phys_def sizes u64_id shape_Some Let_def)
  qed
qed

section \<open>Coalescing\<close>

lemma grow_block_spec:
  assumes "o_blocks a p = Some k" "p + 80 + b_size k + n < 18446744073709551616"
    and "o_available_bytes a + 40 < 18446744073709551616"
  shows "grow_block p n a = Some (a\<lparr>o_blocks := (o_blocks a)(p \<mapsto> k\<lparr>b_size := b_size k + 40 + n\<rparr>),
     o_footers := (o_footers a)(p + 64 + b_size k + n \<mapsto> \<lparr>f_size = b_size k + 40 + n, f_mapped = b_mapped k\<rparr>),
     o_available_bytes := o_available_bytes a + 40\<rparr>)"
  using assms
  by (simp add: grow_block_def upd_block_def put_block_def write_footer_def footer_of_def sizes u64_id add.assoc)

text \<open>Merging two neighbours. The second one has left the free list; its bytes \<open>extra\<close> are still
  counted when its flag is already cleared.\<close>

lemma merge_tiles:
  assumes "tiles B F s (xs @ p # b # ys) e" "B p = Some kp" "B b = Some kb"
  shows "tiles (B(p \<mapsto> kp\<lparr>b_size := b_size kp + 40 + b_size kb\<rparr>))
      (F(p + 64 + b_size kp + b_size kb \<mapsto> \<lparr>f_size = b_size kp + 40 + b_size kb, f_mapped = False\<rparr>)) s (xs @ p # ys) e"
proof -
  have t: "tiles B F s xs p" "tiles B F (p + 40 + (b_size kp + 40 + b_size kb)) ys e" "\<not> b_mapped kp"
    using assms by (auto simp: tiles_append algebra_simps)
  have "distinct (xs @ p # b # ys)"
    by (rule tiles_distinct [OF assms(1)])
  then have d: "p \<notin> set xs \<union> set ys"
    by auto
  show ?thesis
  proof (rule tiles_rewrite [OF t(1,2)])
    show "(F(p + 64 + b_size kp + b_size kb \<mapsto> \<lparr>f_size = b_size kp + 40 + b_size kb, f_mapped = False\<rparr>))
        (p + 24 + (b_size kp + 40 + b_size kb)) = Some \<lparr>f_size = b_size kp + 40 + b_size kb, f_mapped = False\<rparr>"
      by (simp add: algebra_simps)
    show "\<And>x. x \<noteq> p + 24 + (b_size kp + 40 + b_size kb) \<Longrightarrow>
        (F(p + 64 + b_size kp + b_size kb \<mapsto> \<lparr>f_size = b_size kp + 40 + b_size kb, f_mapped = False\<rparr>)) x = F x"
      by (simp add: algebra_simps)
  qed (use d t(3) in auto)
qed

lemma fsum_avail:
  assumes "tiles B F s bs e" "e < 18446744073709551616" "bs \<noteq> []"
  shows "fsum B bs + 40 < 18446744073709551616"
proof -
  have "0 < length bs"
    using assms(3) by simp
  with fsum_le [OF assms(1)] assms(2) show ?thesis
    by linarith
qed

lemma merge_inv:
  assumes inv: "heap_inv a (xs @ p # b # ys) fs0 M X0"
    and B: "o_blocks a1 p = Some kp" "o_blocks a1 b = Some kb" "b_free kp" "b \<notin> set fs" "set fs \<inter> X = {}"
    and same: "shape (o_blocks a1) = shape (o_blocks a)" "o_footers a1 = o_footers a"
      "o_brk_heap_start a1 = o_brk_heap_start a" "o_brk_heap_end a1 = o_brk_heap_end a"
    and list: "path (o_blocks a1) (o_free_list a1) fs None" "distinct fs"
      "o_prev_search_end a1 = None \<or> (\<exists>e\<in>set fs. o_prev_search_end a1 = Some e)"
    and free: "{x \<in> set (xs @ p # ys). isfree (o_blocks a1) x} = set fs \<union> X"
    and avail: "o_available_bytes a1 = fsum (o_blocks a1) (xs @ p # ys) + b_size kb"
      "o_available_bytes a1 = fsum (o_blocks a) (xs @ p # b # ys)"
    and M: "mapped_ok (o_blocks a1) (heap_base a) (heap_top a) M"
  shows "\<exists>a2. grow_block p (b_size kb) a1 = Some a2 \<and> heap_inv a2 (xs @ p # ys) fs M X
     \<and> o_brk_heap_start a2 = o_brk_heap_start a \<and> o_brk_heap_end a2 = o_brk_heap_end a
     \<and> isfree (o_blocks a2) = isfree (o_blocks a1) \<and> (\<forall>x. x \<noteq> p \<longrightarrow> o_blocks a2 x = o_blocks a1 x)"
proof -
  note i = heap_invD [OF inv]
  have sh: "shape (o_blocks a1) x = shape (o_blocks a) x" for x
    using same(1) by simp
  have t: "tiles (o_blocks a1) (o_footers a1) (heap_base a) (xs @ p # b # ys) (heap_top a)"
    by (rule tiles_cong [OF _ _ i(1)]) (simp_all add: sh same)
  have bounds: "p + 40 + b_size kp = b" "b + 40 + b_size kb \<le> heap_top a"
    using t B(1,2) tiles_mem [OF t, of b] by (auto simp: tiles_append)
  define C where "C = (o_blocks a1)(p \<mapsto> kp\<lparr>b_size := b_size kp + 40 + b_size kb\<rparr>)"
  define G where "G = (o_footers a1)(p + 64 + b_size kp + b_size kb \<mapsto> \<lparr>f_size = b_size kp + 40 + b_size kb, f_mapped = False\<rparr>)"
  define a2 where "a2 = a1\<lparr>o_blocks := C, o_footers := G, o_available_bytes := o_available_bytes a1 + 40\<rparr>"
  have sel: "o_blocks a2 = C" "o_footers a2 = G" "o_available_bytes a2 = o_available_bytes a1 + 40"
    "o_free_list a2 = o_free_list a1" "o_prev_search_end a2 = o_prev_search_end a1"
    "o_brk_heap_start a2 = o_brk_heap_start a" "o_brk_heap_end a2 = o_brk_heap_end a"
    "heap_base a2 = heap_base a" "heap_top a2 = heap_top a"
    using same by (simp_all add: a2_def heap_base_def heap_top_def)
  have av: "o_available_bytes a1 + 40 < 18446744073709551616"
    using fsum_avail [OF i(1,2)] avail(2) by simp
  have mk: "\<not> b_mapped kp"
    using t B(1) by (auto simp: tiles_append)
  have g: "grow_block p (b_size kb) a1 = Some a2"
    using grow_block_spec [of a1 p kp "b_size kb"] B(1) bounds i(2) av mk by (simp add: a2_def C_def G_def)
  have fr: "isfree C = isfree (o_blocks a1)"
    using B(1,3) by (auto simp: C_def fun_eq_iff)
  have dist: "distinct (xs @ p # b # ys)"
    by (rule tiles_distinct [OF i(1)])
  have fs': "fsum C zs = fsum (o_blocks a1) zs" if "p \<notin> set zs" for zs
    using that fr by (intro fsum_cong) (auto simp: C_def)
  have p: "isfree C p" "bsz C p = b_size kp + 40 + b_size kb" "isfree (o_blocks a1) p" "bsz (o_blocks a1) p = b_size kp"
    using B(1,3) by (simp_all add: C_def)
  have "fsum C (xs @ p # ys) = o_available_bytes a1 + 40"
    using dist p fs' [of xs] fs' [of ys] avail(1) by simp
  moreover have "path C (o_free_list a1) fs None"
    by (rule path_next_cong [OF _ list(1)]) (use B(1) in \<open>auto simp: C_def\<close>)
  moreover have "mapped_ok C (heap_base a) (heap_top a) M"
    using B(1,3) by (intro mapped_cong [OF M]) (auto simp: C_def)
  moreover have "tiles C G (heap_base a) (xs @ p # ys) (heap_top a)"
    using merge_tiles [OF t B(1,2)] by (simp add: C_def G_def)
  ultimately have "heap_inv a2 (xs @ p # ys) fs M X"
    using i(2,10,11) list(2,3) free B(5) by (intro heap_invI) (simp_all only: sel fr simp_thms)
  moreover have "C x = o_blocks a1 x" if "x \<noteq> p" for x
    using that by (simp add: C_def)
  ultimately show ?thesis
    using g fr by (auto simp: sel)
qed

text \<open>\<open>coalesce_prev\<close>, for a block \<open>b\<close> that has just been marked free and is off the list.\<close>

lemma coalesce_prev_spec:
  assumes inv: "heap_inv a (xs @ b # ys) fs M {b}" and sep: "successively (not_both (o_blocks a)) xs"
  shows "\<exists>w a1 us. coalesce_prev b a = Some (w, a1) \<and> heap_inv a1 (us @ w # ys) fs M (if w = b then {b} else {})
     \<and> successively (not_both (o_blocks a1)) us \<and> (us \<noteq> [] \<longrightarrow> \<not> isfree (o_blocks a1) (last us))
     \<and> isfree (o_blocks a1) = isfree (o_blocks a) \<and> isfree (o_blocks a1) w \<and> busy (o_blocks a1) us = busy (o_blocks a) xs
     \<and> (w = b \<longleftrightarrow> w \<notin> set fs) \<and> (\<forall>x. \<not> isfree (o_blocks a) x \<longrightarrow> o_blocks a1 x = o_blocks a x)
     \<and> o_brk_heap_start a1 = o_brk_heap_start a \<and> o_brk_heap_end a1 = o_brk_heap_end a"
proof -
  note i = heap_invD [OF inv]
  obtain k where k: "o_blocks a b = Some k" "\<not> b_mapped k"
    using heap_block [OF inv] by blast
  note prev = prev_phys_spec [OF inv]
  have "b \<in> {x \<in> set (xs @ b # ys). isfree (o_blocks a) x}"
    unfolding i(5) by simp
  then have bf: "b_free k" "b \<notin> set fs"
    using i(6) k(1) by auto
  show ?thesis
  proof (cases "\<exists>zs p. xs = zs @ [p] \<and> isfree (o_blocks a) p")
    case False
    then have "coalesce_prev b a = Some (b, a)"
      using prev k tiles_mem [OF i(1), of "last xs"]
      by (cases xs rule: pred_of_cases) (auto simp: coalesce_prev_def)
    then show ?thesis
      using False inv sep bf k by (intro exI [of _ b] exI [of _ a] exI [of _ xs]) (cases xs rule: rev_cases; auto)
  next
    case True
    then obtain zs p where xs: "xs = zs @ [p]" "isfree (o_blocks a) p"
      by blast
    obtain kp where kp: "o_blocks a p = Some kp" "\<not> b_mapped kp"
      using tiles_mem [OF i(1), of p] xs by auto
    have d: "distinct (zs @ p # b # ys)"
      using tiles_distinct [OF i(1)] xs by simp
    have pfs: "p \<in> set fs"
      using i(5) xs d by auto
    have "\<exists>a2. grow_block p (b_size k) a = Some a2 \<and> heap_inv a2 (zs @ p # ys) fs M {}
     \<and> o_brk_heap_start a2 = o_brk_heap_start a \<and> o_brk_heap_end a2 = o_brk_heap_end a
     \<and> isfree (o_blocks a2) = isfree (o_blocks a) \<and> (\<forall>x. x \<noteq> p \<longrightarrow> o_blocks a2 x = o_blocks a x)"
    proof (rule merge_inv [where b = b and kp = kp])
      show "heap_inv a (zs @ p # b # ys) fs M {b}"
        using inv xs by simp
      show "{x \<in> set (zs @ p # ys). isfree (o_blocks a) x} = set fs \<union> {}"
        using i(5,6) xs d bf by auto
      show "o_available_bytes a = fsum (o_blocks a) (zs @ p # ys) + b_size k"
        using i(7) xs k(1) bf by simp
      show "o_available_bytes a = fsum (o_blocks a) (zs @ p # b # ys)"
        using i(7) xs by simp
    qed (use i kp k bf xs in auto)
    then obtain a2 where a2: "grow_block p (b_size k) a = Some a2" "heap_inv a2 (zs @ p # ys) fs M {}"
        "o_brk_heap_start a2 = o_brk_heap_start a" "o_brk_heap_end a2 = o_brk_heap_end a"
        "isfree (o_blocks a2) = isfree (o_blocks a)" "\<forall>x. x \<noteq> p \<longrightarrow> o_blocks a2 x = o_blocks a x"
      by blast
    have "coalesce_prev b a = Some (p, a2)"
      using prev k xs kp a2(1) by (auto simp: coalesce_prev_def)
    moreover have "successively (not_both (o_blocks a2)) zs" "zs \<noteq> [] \<longrightarrow> \<not> isfree (o_blocks a2) (last zs)"
      using sep xs a2(5) by (auto simp: successively_append_iff)
    moreover have "busy (o_blocks a2) zs = busy (o_blocks a) xs"
      using xs by (auto simp: busy_def a2(5))
    ultimately show ?thesis
      using a2 xs pfs bf d by (intro exI [of _ p] exI [of _ a2] exI [of _ zs]) auto
  qed
qed

text \<open>\<open>coalesce_next\<close>, for an owner that is free: at most one block is merged.\<close>

lemma coalesce_next_stop:
  assumes inv: "heap_inv a (xs @ w # ys) fs M X" and "ys \<noteq> [] \<longrightarrow> \<not> isfree (o_blocks a) (hd ys)"
  shows "coalesce_next w a = Some a"
proof -
  obtain k where k: "o_blocks a w = Some k"
    using heap_block [OF inv] by blast
  show ?thesis
    using k next_phys_spec [OF inv] assms(2) tiles_mem [OF heap_invD(1) [OF inv]]
    by (subst coalesce_next.simps) (cases ys; force)
qed

text \<open>A free block is unlinked; \<open>X\<close> stays what it was.\<close>

lemma unlink_free_inv:
  assumes inv: "heap_inv a bs fs M X" and n: "n \<in> set fs"
  shows "\<exists>a1 us vs. fs = us @ n # vs \<and> unlink_free n a = Some (True, a1)
     \<and> path (o_blocks a1) (o_free_list a1) (us @ vs) None \<and> shape (o_blocks a1) = shape (o_blocks a)
     \<and> isfree (o_blocks a1) = (isfree (o_blocks a))(n := False) \<and> (\<forall>x. x \<notin> set fs \<longrightarrow> o_blocks a1 x = o_blocks a x)
     \<and> (o_prev_search_end a1 = None \<or> (\<exists>e\<in>set (us @ vs). o_prev_search_end a1 = Some e))
     \<and> o_footers a1 = o_footers a \<and> o_available_bytes a1 = o_available_bytes a
     \<and> o_brk_heap_start a1 = o_brk_heap_start a \<and> o_brk_heap_end a1 = o_brk_heap_end a"
proof -
  note i = heap_invD [OF inv]
  obtain us vs where fs: "fs = us @ n # vs"
    using n by (meson split_list)
  obtain B l e where u: "unlink_free n a = Some (True, a\<lparr>o_blocks := B, o_free_list := l, o_prev_search_end := e\<rparr>)"
      "path B l (us @ vs) None" "shape B = shape (o_blocks a)" "isfree B = (isfree (o_blocks a))(n := False)"
      "\<forall>x. x \<notin> set (us @ [n]) \<longrightarrow> B x = o_blocks a x"
      "e = (if o_prev_search_end a = Some n then pred_of us else o_prev_search_end a)"
    using unlink_free_spec [of a us n vs] i(3,4,8) unfolding fs by blast
  have "e = None \<or> (\<exists>x\<in>set (us @ vs). e = Some x)"
    using i(8) u(6) fs by (cases us rule: pred_of_cases) auto
  then show ?thesis
    using u(1-5) fs by (intro exI [of _ "a\<lparr>o_blocks := B, o_free_list := l, o_prev_search_end := e\<rparr>"] exI [of _ us] exI [of _ vs]) auto
qed

lemma nonfree_frame: "heap_inv a bs fs M X \<Longrightarrow> \<not> isfree (o_blocks a) x \<Longrightarrow> x \<notin> set fs"
  using heap_invD(5) by fastforce

text \<open>The block behind a free owner is free: it is unlinked and merged, and then the loop stops.\<close>

lemma coalesce_next_merge:
  assumes inv: "heap_inv a (xs @ w # n # zs) fs M X" and X: "X \<subseteq> {w}"
    and free: "isfree (o_blocks a) w" "isfree (o_blocks a) n" and hd: "zs \<noteq> [] \<longrightarrow> \<not> isfree (o_blocks a) (hd zs)"
  shows "\<exists>a1 a2 gs. unlink_free n a = Some (True, a1) \<and> grow_block w (bsz (o_blocks a) n) a1 = Some a2
     \<and> coalesce_next w a = Some a2 \<and> heap_inv a2 (xs @ w # zs) gs M X
     \<and> isfree (o_blocks a2) = (isfree (o_blocks a))(n := False)
     \<and> (\<forall>x. \<not> isfree (o_blocks a) x \<longrightarrow> o_blocks a2 x = o_blocks a x)
     \<and> o_brk_heap_start a2 = o_brk_heap_start a \<and> o_brk_heap_end a2 = o_brk_heap_end a"
proof -
  note i = heap_invD [OF inv]
  have d: "distinct (xs @ w # n # zs)"
    by (rule tiles_distinct [OF i(1)])
  obtain ko kn where k: "o_blocks a w = Some ko" "\<not> b_mapped ko" "o_blocks a n = Some kn" "\<not> b_mapped kn"
    using tiles_mem [OF i(1), of w] tiles_mem [OF i(1), of n] by auto
  have "n \<in> set fs"
    using i(5) X free d by auto
  then obtain a1 us vs where u: "fs = us @ n # vs" "unlink_free n a = Some (True, a1)"
      "path (o_blocks a1) (o_free_list a1) (us @ vs) None" "shape (o_blocks a1) = shape (o_blocks a)"
      "isfree (o_blocks a1) = (isfree (o_blocks a))(n := False)" "\<forall>x. x \<notin> set fs \<longrightarrow> o_blocks a1 x = o_blocks a x"
      "o_prev_search_end a1 = None \<or> (\<exists>e\<in>set (us @ vs). o_prev_search_end a1 = Some e)"
      "o_footers a1 = o_footers a" "o_available_bytes a1 = o_available_bytes a"
      "o_brk_heap_start a1 = o_brk_heap_start a" "o_brk_heap_end a1 = o_brk_heap_end a"
    using unlink_free_inv [OF inv] by blast
  have bsz_eq: "bsz (o_blocks a1) x = bsz (o_blocks a) x" for x
    using u(4) by (intro bsz_shape) simp
  obtain kn' where kn': "o_blocks a1 n = Some kn'" "b_size kn' = b_size kn"
    using u(4) k(3,4) shape_Some [of "o_blocks a1" n "b_size kn" False] by auto
  obtain ko' where ko': "o_blocks a1 w = Some ko'" "b_free ko'"
    using u(4,5) k(1,2) free(1) d shape_Some [of "o_blocks a1" w "b_size ko" False]
    by (auto simp: fun_eq_iff isfree_def split: option.splits)
  have fsum_eq: "fsum (o_blocks a1) ws = fsum (o_blocks a) ws" if "n \<notin> set ws" for ws
    using that u(5) bsz_eq by (intro fsum_cong) auto
  have frame: "o_blocks a1 x = o_blocks a x" if "\<not> isfree (o_blocks a) x" for x
    using u(6) nonfree_frame [OF inv that] by blast
  have "\<exists>a2. grow_block w (b_size kn') a1 = Some a2 \<and> heap_inv a2 (xs @ w # zs) (us @ vs) M X
     \<and> o_brk_heap_start a2 = o_brk_heap_start a \<and> o_brk_heap_end a2 = o_brk_heap_end a
     \<and> isfree (o_blocks a2) = isfree (o_blocks a1) \<and> (\<forall>x. x \<noteq> w \<longrightarrow> o_blocks a2 x = o_blocks a1 x)"
  proof (rule merge_inv [OF inv ko'(1) kn'(1) ko'(2) _ _ u(4,8,10,11,3)])
    have "{x \<in> set (xs @ w # zs). isfree (o_blocks a1) x} = {x \<in> set (xs @ w # n # zs). isfree (o_blocks a) x} - {n}"
      using d u(5) by auto
    also have "\<dots> = set (us @ vs) \<union> X"
      using i(4,6) X d unfolding i(5) by (auto simp: u(1))
    finally show "{x \<in> set (xs @ w # zs). isfree (o_blocks a1) x} = set (us @ vs) \<union> X" .
    show "o_available_bytes a1 = fsum (o_blocks a1) (xs @ w # zs) + b_size kn'"
      using i(7) d fsum_eq [of xs] fsum_eq [of zs] k kn' free u(5) bsz_eq [of w] by (simp add: u(9))
  qed (use i u(1,7,9) mapped_cong [OF i(9) frame] in auto)
  then obtain a2 where a2: "grow_block w (b_size kn') a1 = Some a2" "heap_inv a2 (xs @ w # zs) (us @ vs) M X"
      "o_brk_heap_start a2 = o_brk_heap_start a" "o_brk_heap_end a2 = o_brk_heap_end a"
      "isfree (o_blocks a2) = (isfree (o_blocks a))(n := False)" "\<forall>x. x \<noteq> w \<longrightarrow> o_blocks a2 x = o_blocks a1 x"
    using u(5) by auto
  have "coalesce_next w a = coalesce_next w a2"
    using next_phys_spec [OF inv] k free u(2) kn' a2(1) by (subst coalesce_next.simps) auto
  also have "\<dots> = Some a2"
    by (rule coalesce_next_stop [OF a2(2)]) (use hd a2(5) d in \<open>cases zs; auto\<close>)
  finally have "coalesce_next w a = Some a2" .
  moreover have "o_blocks a2 x = o_blocks a x" if "\<not> isfree (o_blocks a) x" for x
    using that frame [OF that] a2(6) free(1) by (cases "x = w") auto
  ultimately show ?thesis
    using u(2) a2(1-5) kn'(2) k(3) by auto
qed

lemma coalesce_next_spec:
  assumes inv: "heap_inv a (xs @ w # ys) fs M X" and X: "X \<subseteq> {w}" and w: "isfree (o_blocks a) w"
    and sep: "successively (not_both (o_blocks a)) ys"
  shows "\<exists>a1 vs gs. coalesce_next w a = Some a1 \<and> heap_inv a1 (xs @ w # vs) gs M X
     \<and> successively (not_both (o_blocks a1)) vs \<and> (vs \<noteq> [] \<longrightarrow> \<not> isfree (o_blocks a1) (hd vs))
     \<and> isfree (o_blocks a1) w \<and> busy (o_blocks a1) vs = busy (o_blocks a) ys
     \<and> (\<forall>x\<in>set xs. isfree (o_blocks a1) x = isfree (o_blocks a) x)
     \<and> (\<forall>x. \<not> isfree (o_blocks a) x \<longrightarrow> o_blocks a1 x = o_blocks a x)
     \<and> o_brk_heap_start a1 = o_brk_heap_start a \<and> o_brk_heap_end a1 = o_brk_heap_end a"
proof (cases "\<exists>n zs. ys = n # zs \<and> isfree (o_blocks a) n")
  case False
  then have "ys \<noteq> [] \<longrightarrow> \<not> isfree (o_blocks a) (hd ys)"
    by (cases ys) auto
  then show ?thesis
    using coalesce_next_stop [OF inv] inv sep w by blast
next
  case True
  then obtain n zs where ys: "ys = n # zs" "isfree (o_blocks a) n"
    by blast
  have d: "distinct (xs @ w # n # zs)"
    using tiles_distinct [OF heap_invD(1) [OF inv]] ys by simp
  have hd: "zs \<noteq> [] \<longrightarrow> \<not> isfree (o_blocks a) (hd zs)"
    using sep ys by (cases zs) auto
  obtain a2 gs where a2: "coalesce_next w a = Some a2" "heap_inv a2 (xs @ w # zs) gs M X"
      "isfree (o_blocks a2) = (isfree (o_blocks a))(n := False)" "\<forall>x. \<not> isfree (o_blocks a) x \<longrightarrow> o_blocks a2 x = o_blocks a x"
      "o_brk_heap_start a2 = o_brk_heap_start a" "o_brk_heap_end a2 = o_brk_heap_end a"
    using coalesce_next_merge [OF inv [unfolded ys(1)] X w ys(2) hd] by blast
  have "successively (not_both (o_blocks a2)) zs = successively (not_both (o_blocks a)) zs"
    using d by (intro not_both_cong) (auto simp: a2(3))
  then have "successively (not_both (o_blocks a2)) zs"
    using sep ys by (cases zs) auto
  moreover have "busy (o_blocks a2) zs = busy (o_blocks a) ys"
    using ys d by (auto simp: busy_def a2(3))
  ultimately show ?thesis
    using a2 w hd d by (intro exI [of _ a2] exI [of _ zs] exI [of _ gs]) (cases zs; auto)
qed

section \<open>Changing the header of one block\<close>

text \<open>A header whose size and kind stay; \<open>d\<close> is what this does to the bytes that are free.\<close>

lemma fsum_upd:
  assumes "distinct bs" "b \<in> set bs" "B b = Some k" "b_size k' = b_size k"
  shows "fsum (B(b \<mapsto> k')) bs + (if b_free k then b_size k else 0) = fsum B bs + (if b_free k' then b_size k else 0)"
proof -
  obtain xs ys where bs: "bs = xs @ b # ys"
    using assms(2) by (meson split_list)
  have "fsum (B(b \<mapsto> k')) zs = fsum B zs" if "b \<notin> set zs" for zs
    using that by (intro fsum_cong) auto
  then show ?thesis
    using assms bs by simp
qed

lemma put_block_inv:
  assumes inv: "heap_inv a bs fs M X" and b: "b \<in> set bs" "o_blocks a b = Some k" "b \<notin> set fs"
    and k': "b_size k' = b_size k" "\<not> b_mapped k'"
    and av: "o_available_bytes a' + (if b_free k then b_size k else 0) = o_available_bytes a + (if b_free k' then b_size k else 0)"
    and a': "o_blocks a' = (o_blocks a)(b \<mapsto> k')" "o_footers a' = o_footers a" "o_free_list a' = o_free_list a"
      "o_prev_search_end a' = o_prev_search_end a" "o_brk_heap_start a' = o_brk_heap_start a"
      "o_brk_heap_end a' = o_brk_heap_end a"
  shows "heap_inv a' bs fs M (if b_free k' then insert b X else X - {b})"
proof -
  note i = heap_invD [OF inv]
  have ends: "heap_base a' = heap_base a" "heap_top a' = heap_top a"
    using a' by (simp_all add: heap_base_def heap_top_def)
  have nm: "\<not> b_mapped k"
    using tiles_mem [OF i(1) b(1)] b(2) by auto
  have bM: "b \<notin> M"
    using i(9) b(2) nm by (auto simp: mapped_ok_def)
  show ?thesis
  proof (rule heap_invI)
    show "tiles (o_blocks a') (o_footers a') (heap_base a') bs (heap_top a')"
      unfolding ends a' by (rule tiles_cong [OF _ _ i(1)]) (use b k' nm in auto)
    show "o_available_bytes a' = fsum (o_blocks a') bs"
      using fsum_upd [where B = "o_blocks a" and k = k and k' = k', OF tiles_distinct [OF i(1)] b(1,2) k'(1)] av i(7) by (simp add: a')
    show "{x \<in> set bs. isfree (o_blocks a') x} = set fs \<union> (if b_free k' then insert b X else X - {b})"
    proof -
      have "{x \<in> set bs. isfree (o_blocks a') x} =
          (if b_free k' then insert b {x \<in> set bs. isfree (o_blocks a) x} else {x \<in> set bs. isfree (o_blocks a) x} - {b})"
        using b(1) by (auto simp: a')
      then show ?thesis
        unfolding i(5) using b(3) by auto
    qed
    show "mapped_ok (o_blocks a') (heap_base a') (heap_top a') M"
    proof -
      have "o_blocks a' m = o_blocks a m" if "m \<in> M" for m
        using that bM by (auto simp: a')
      then show ?thesis
        using i(9) unfolding ends by (simp add: mapped_ok_def bsz_def)
    qed
  qed (use i b(3) in \<open>auto simp: a' ends\<close>)
qed

section \<open>Returning a block to the list\<close>

lemma insert_free_spec:
  assumes inv: "heap_inv a bs fs M {b}" and b: "b \<in> set bs"
  shows "\<exists>a'. insert_free b a = Some a' \<and> heap_inv a' bs (b # fs) M {} \<and> isfree (o_blocks a') = isfree (o_blocks a)
     \<and> (\<forall>x. x \<noteq> b \<longrightarrow> o_blocks a' x = o_blocks a x)
     \<and> o_brk_heap_start a' = o_brk_heap_start a \<and> o_brk_heap_end a' = o_brk_heap_end a"
proof -
  note i = heap_invD [OF inv]
  obtain k where k: "o_blocks a b = Some k" "\<not> b_mapped k"
    using tiles_mem [OF i(1) b] by blast
  have "b \<in> {x \<in> set bs. isfree (o_blocks a) x}"
    unfolding i(5) by simp
  then have bf: "b_free k" "b \<notin> set fs"
    using i(6) k(1) by auto
  define a1 where "a1 = put_block b (k\<lparr>b_next := o_free_list a\<rparr>) a"
  have "heap_inv a1 bs fs M (if b_free (k\<lparr>b_next := o_free_list a\<rparr>) then insert b {b} else {b} - {b})"
    using bf k by (intro put_block_inv [OF inv b k(1) bf(2)]) (simp_all add: a1_def put_block_def)
  then have "heap_inv a1 bs fs M {b}"
    using bf by simp
  note j = heap_invD [OF this]
  have "heap_inv (a1\<lparr>o_free_list := Some b\<rparr>) bs (b # fs) M {}"
    using j bf i by (intro heap_invI) (auto simp: a1_def put_block_def heap_base_def heap_top_def)
  moreover have "insert_free b a = Some (a1\<lparr>o_free_list := Some b\<rparr>)"
    using k by (simp add: insert_free_def upd_block_def a1_def)
  ultimately show ?thesis
    using k bf by (auto simp: a1_def put_block_def fun_eq_iff)
qed

lemma old_inv_focus:
  assumes "old_inv a bs fs M" "b \<in> set bs"
  obtains xs ys where "bs = xs @ b # ys" "heap_inv a (xs @ b # ys) fs M {}"
    "successively (not_both (o_blocks a)) xs" "successively (not_both (o_blocks a)) ys"
proof -
  obtain xs ys where "bs = xs @ b # ys"
    using assms(2) by (meson split_list)
  then show thesis
    using assms(1) that by (auto simp: old_inv_def successively_append_iff successively_Cons)
qed

text \<open>Marking the block free, with its bytes counted.\<close>

lemma mark_free_inv:
  assumes inv: "heap_inv a bs fs M {}" and b: "b \<in> set bs" "o_blocks a b = Some k" "\<not> b_free k"
  shows "heap_inv ((put_block b (k\<lparr>b_free := True, b_next := nullptr\<rparr>) a)\<lparr>o_available_bytes := u64 (o_available_bytes a + b_size k)\<rparr>) bs fs M {b}"
proof -
  let ?k = "k\<lparr>b_free := True, b_next := nullptr\<rparr>"
  note i = heap_invD [OF inv]
  have nm: "\<not> b_mapped k"
    using tiles_mem [OF i(1) b(1)] b(2) by auto
  have "heap_inv ((put_block b ?k a)\<lparr>o_available_bytes := o_available_bytes a + b_size k\<rparr>) bs fs M (if b_free ?k then insert b {} else {} - {b})"
    using b nm nonfree_frame [OF inv, of b] by (intro put_block_inv [OF inv b(1,2)]) (simp_all add: put_block_def)
  then have marked: "heap_inv ((put_block b ?k a)\<lparr>o_available_bytes := o_available_bytes a + b_size k\<rparr>) bs fs M {b}"
    by simp
  have "o_available_bytes a + b_size k + 40 < 18446744073709551616"
    using fsum_avail [OF heap_invD(1,2) [OF marked]] heap_invD(7) [OF marked] b(1) by (cases bs) auto
  then show ?thesis
    using marked by (simp add: u64_id)
qed

text \<open>\<open>coalesce_around\<close>, for a block that has just been marked free.\<close>

lemma coalesce_around_spec:
  assumes inv: "heap_inv a (xs @ b # ys) fs M {b}"
    and sep: "successively (not_both (o_blocks a)) xs" "successively (not_both (o_blocks a)) ys"
  shows "\<exists>w a' us vs gs. coalesce_around b a = Some (w, a') \<and> heap_inv a' (us @ w # vs) gs M (if w = b then {b} else {})
     \<and> successively (not_both (o_blocks a')) (us @ w # vs) \<and> isfree (o_blocks a') w
     \<and> busy (o_blocks a') (us @ w # vs) = busy (o_blocks a) xs \<union> busy (o_blocks a) ys
     \<and> (\<forall>x. \<not> isfree (o_blocks a) x \<longrightarrow> o_blocks a' x = o_blocks a x)
     \<and> o_brk_heap_start a' = o_brk_heap_start a \<and> o_brk_heap_end a' = o_brk_heap_end a"
proof -
  obtain k where k: "o_blocks a b = Some k" "\<not> b_mapped k"
    using heap_block [OF inv] by blast
  obtain w a2 us where a2: "coalesce_prev b a = Some (w, a2)" "heap_inv a2 (us @ w # ys) fs M (if w = b then {b} else {})"
      "successively (not_both (o_blocks a2)) us" "us \<noteq> [] \<longrightarrow> \<not> isfree (o_blocks a2) (last us)"
      "isfree (o_blocks a2) = isfree (o_blocks a)" "isfree (o_blocks a2) w" "busy (o_blocks a2) us = busy (o_blocks a) xs"
      "\<forall>x. \<not> isfree (o_blocks a) x \<longrightarrow> o_blocks a2 x = o_blocks a x"
      "o_brk_heap_start a2 = o_brk_heap_start a" "o_brk_heap_end a2 = o_brk_heap_end a"
    using coalesce_prev_spec [OF inv sep(1)] by blast
  have ys: "successively (not_both (o_blocks a2)) ys" and Xs: "(if w = b then {b} else {}) \<subseteq> {w}"
    using sep(2) by (simp_all add: a2(5))
  obtain a3 vs gs where a3: "coalesce_next w a2 = Some a3" "heap_inv a3 (us @ w # vs) gs M (if w = b then {b} else {})"
      "successively (not_both (o_blocks a3)) vs" "vs \<noteq> [] \<longrightarrow> \<not> isfree (o_blocks a3) (hd vs)"
      "isfree (o_blocks a3) w" "busy (o_blocks a3) vs = busy (o_blocks a2) ys"
      "\<forall>x\<in>set us. isfree (o_blocks a3) x = isfree (o_blocks a2) x"
      "\<forall>x. \<not> isfree (o_blocks a2) x \<longrightarrow> o_blocks a3 x = o_blocks a2 x"
      "o_brk_heap_start a3 = o_brk_heap_start a2" "o_brk_heap_end a3 = o_brk_heap_end a2"
    using coalesce_next_spec [OF a2(2) Xs a2(6) ys] by blast
  have "coalesce_around b a = Some (w, a3)"
    using a2(1) a3(1) k by (simp add: coalesce_around_def)
  moreover have "successively (not_both (o_blocks a3)) (us @ w # vs)"
  proof -
    have "successively (not_both (o_blocks a3)) us" "us \<noteq> [] \<longrightarrow> \<not> isfree (o_blocks a3) (last us)"
      using a2(3,4) a3(7) not_both_cong [of us "o_blocks a3" "o_blocks a2"] by auto
    then show ?thesis
      using a3(3,4) by (auto simp: successively_append_iff successively_Cons)
  qed
  moreover have "o_blocks a3 x = o_blocks a x" if "\<not> isfree (o_blocks a) x" for x
    using that a2(5,8) a3(8) by simp
  moreover have "busy (o_blocks a3) (us @ w # vs) = busy (o_blocks a) xs \<union> busy (o_blocks a) ys"
  proof -
    have "busy (o_blocks a3) (us @ w # vs) = busy (o_blocks a2) us \<union> busy (o_blocks a2) ys"
      using a3(5,6,7) by (auto simp: busy_def)
    then show ?thesis
      using a2(5,7) by (simp add: busy_def)
  qed
  moreover have "o_brk_heap_start a3 = o_brk_heap_start a" "o_brk_heap_end a3 = o_brk_heap_end a"
    using a2(9,10) a3(9,10) by simp_all
  ultimately show ?thesis
    using a3(2,5) by blast
qed

text \<open>The merged block is put into the list unless its owner is there already.\<close>

lemma relist_spec:
  assumes "heap_inv a (us @ w # vs) gs M (if w = b then {b} else {})"
  shows "\<exists>a' hs. (if w = b then insert_free b a else Some a) = Some a' \<and> heap_inv a' (us @ w # vs) hs M {}
     \<and> isfree (o_blocks a') = isfree (o_blocks a) \<and> (\<forall>x. x \<noteq> w \<longrightarrow> o_blocks a' x = o_blocks a x)
     \<and> o_brk_heap_start a' = o_brk_heap_start a \<and> o_brk_heap_end a' = o_brk_heap_end a"
proof (cases "w = b")
  case True
  then show ?thesis
    using insert_free_spec [of a "us @ w # vs" gs M b] assms by auto
qed (use assms in auto)

lemma return_back_spec:
  assumes inv: "old_inv a bs fs M" and b: "b \<in> set bs" "\<not> isfree (o_blocks a) b"
  shows "\<exists>a' bs' fs'. return_back_unlocked (Some b) a = Some (True, a') \<and> old_inv a' bs' fs' M
     \<and> busy (o_blocks a') bs' = busy (o_blocks a) bs - {b}
     \<and> (\<forall>x. \<not> isfree (o_blocks a) x \<longrightarrow> x \<noteq> b \<longrightarrow> o_blocks a' x = o_blocks a x)
     \<and> o_brk_heap_start a' = o_brk_heap_start a \<and> o_brk_heap_end a' = o_brk_heap_end a"
proof -
  obtain xs ys where bs: "bs = xs @ b # ys" "heap_inv a (xs @ b # ys) fs M {}"
      "successively (not_both (o_blocks a)) xs" "successively (not_both (o_blocks a)) ys"
    using old_inv_focus [OF inv b(1)] by blast
  have d: "distinct (xs @ b # ys)"
    by (rule tiles_distinct [OF heap_invD(1) [OF bs(2)]])
  obtain k where k: "o_blocks a b = Some k" "\<not> b_free k"
    using heap_block [OF bs(2)] b(2) by force
  define a1 where "a1 = (put_block b (k\<lparr>b_free := True, b_next := nullptr\<rparr>) a)\<lparr>o_available_bytes := u64 (o_available_bytes a + b_size k)\<rparr>"
  have inv1: "heap_inv a1 (xs @ b # ys) fs M {b}"
    unfolding a1_def by (rule mark_free_inv [OF bs(2) _ k]) simp
  have B1: "o_blocks a1 = (o_blocks a)(b \<mapsto> k\<lparr>b_free := True, b_next := nullptr\<rparr>)"
    "o_brk_heap_start a1 = o_brk_heap_start a" "o_brk_heap_end a1 = o_brk_heap_end a"
    by (simp_all add: a1_def put_block_def)
  then have fr1: "isfree (o_blocks a1) = (isfree (o_blocks a))(b := True)"
    by simp
  have "successively (not_both (o_blocks a1)) zs = successively (not_both (o_blocks a)) zs" if "b \<notin> set zs" for zs
    by (rule not_both_cong) (use that in \<open>auto simp: fr1\<close>)
  then have sep: "successively (not_both (o_blocks a1)) xs" "successively (not_both (o_blocks a1)) ys"
    using bs(3,4) d by simp_all
  obtain w a3 us vs gs where a3: "coalesce_around b a1 = Some (w, a3)" "heap_inv a3 (us @ w # vs) gs M (if w = b then {b} else {})"
      "successively (not_both (o_blocks a3)) (us @ w # vs)" "isfree (o_blocks a3) w"
      "busy (o_blocks a3) (us @ w # vs) = busy (o_blocks a1) xs \<union> busy (o_blocks a1) ys"
      "\<forall>x. \<not> isfree (o_blocks a1) x \<longrightarrow> o_blocks a3 x = o_blocks a1 x"
      "o_brk_heap_start a3 = o_brk_heap_start a1" "o_brk_heap_end a3 = o_brk_heap_end a1"
    using coalesce_around_spec [OF inv1 sep] by blast
  obtain a4 hs where a4: "(if w = b then insert_free b a3 else Some a3) = Some a4" "heap_inv a4 (us @ w # vs) hs M {}"
      "isfree (o_blocks a4) = isfree (o_blocks a3)" "\<forall>x. x \<noteq> w \<longrightarrow> o_blocks a4 x = o_blocks a3 x"
      "o_brk_heap_start a4 = o_brk_heap_start a3" "o_brk_heap_end a4 = o_brk_heap_end a3"
    using relist_spec [OF a3(2)] by blast
  have "return_back_unlocked (Some b) a = Some (True, a4)"
    using k a3(1) a4(1) by (simp add: return_back_unlocked_def upd_block_def a1_def put_block_def)
  moreover have "busy (o_blocks a4) (us @ w # vs) = busy (o_blocks a) bs - {b}"
    using a3(5) a4(3) d by (auto simp: busy_def fr1 bs(1))
  moreover have "o_blocks a4 x = o_blocks a x" if x: "\<not> isfree (o_blocks a) x" "x \<noteq> b" for x
  proof -
    have "o_blocks a3 x = o_blocks a x"
      using x a3(6) by (simp add: fr1 B1)
    moreover have "x \<noteq> w"
      using a3(4) x(1) calculation by (auto simp: isfree_def)
    ultimately show ?thesis
      using a4(4) by simp
  qed
  ultimately show ?thesis
    using a4(2,3,5,6) a3(3,7,8) B1(2,3) by (intro exI [of _ a4] exI [of _ "us @ w # vs"] exI [of _ hs]) (auto simp: old_inv_def)
qed

end
