(* ===== verification/Old_Design_Search.thy ===== *)
theory Old_Design_Search
  imports Old_Design_Inv
begin

text \<open>
  The search of the old design is next-fit: it takes the first block that is large enough in the
  order of the free list, begun after the block where the last search ended. It also shows when
  the loop does not end: the last search ended at the end of the list and no block is large enough.
\<close>

section \<open>The order of the search\<close>

definition fits :: "(addr \<rightharpoonup> Block) \<Rightarrow> nat \<Rightarrow> addr \<Rightarrow> bool" where
  "fits B n x \<longleftrightarrow> isfree B x \<and> n \<le> bsz B x"

definition search_order :: "ptr \<Rightarrow> addr list \<Rightarrow> addr list" where
  "search_order se fs = (case se of
     None \<Rightarrow> fs
   | Some e \<Rightarrow>
       let vs = tl (dropWhile (\<lambda>x. x \<noteq> e) fs) in
       if vs = [] then fs else vs @ takeWhile (\<lambda>x. x \<noteq> e) fs @ [e])"

text \<open>The block in front of \<open>c\<close> in the list.\<close>

definition pred_in :: "addr list \<Rightarrow> addr \<Rightarrow> ptr" where
  "pred_in fs c = pred_of (takeWhile (\<lambda>x. x \<noteq> c) fs)"

lemma takeWhile_split: "c \<notin> set us \<Longrightarrow> takeWhile (\<lambda>x. x \<noteq> c) (us @ c # vs) = us"
  by (induction us) auto

lemma dropWhile_split: "c \<notin> set us \<Longrightarrow> dropWhile (\<lambda>x. x \<noteq> c) (us @ c # vs) = c # vs"
  by (induction us) auto

lemma pred_in_split: "distinct (us @ c # vs) \<Longrightarrow> pred_in (us @ c # vs) c = pred_of us"
  by (simp add: pred_in_def takeWhile_split)

lemma search_order_split:
  "distinct (us @ e # vs) \<Longrightarrow> search_order (Some e) (us @ e # vs) = (if vs = [] then us @ [e] else vs @ us @ [e])"
  by (simp add: search_order_def takeWhile_split dropWhile_split)

lemma search_order_set:
  assumes "distinct fs" "se = None \<or> (\<exists>e\<in>set fs. se = Some e)"
  shows "set (search_order se fs) = set fs"
proof (cases se)
  case (Some e)
  then obtain us vs where "fs = us @ e # vs"
    using assms(2) by (auto dest: split_list)
  then show ?thesis
    using assms(1) Some by (auto simp: search_order_split)
qed (simp add: search_order_def)

lemma find_split: "\<forall>x\<in>set us. \<not> P x \<Longrightarrow> P c \<Longrightarrow> List.find P (us @ c # vs) = Some c"
  by (induction us) auto

lemma find_none: "\<forall>x\<in>set xs. \<not> P x \<Longrightarrow> List.find P xs = None"
  by (simp add: find_None_iff)

lemma find_append: "\<forall>x\<in>set xs. \<not> P x \<Longrightarrow> List.find P (xs @ ys) = List.find P ys"
  by (induction xs) auto

section \<open>Walking along the list\<close>

lemma path_next:
  assumes "path B p (us @ x # vs) None"
  shows "\<exists>k. B x = Some k \<and> b_next k = (case vs of [] \<Rightarrow> None | v # _ \<Rightarrow> Some v) \<and> path B (b_next k) vs None"
  using assms by (cases vs) (auto simp: path_append)

text \<open>Two blocks of the list do not have the same successor.\<close>

lemma path_next_inj:
  assumes p: "path B p fs None" and d: "distinct fs" and x: "x \<in> set fs" "B x = Some kx" and y: "y \<in> set fs" "B y = Some ky"
    and eq: "b_next kx = b_next ky"
  shows "x = y"
proof (rule ccontr)
  assume ne: "x \<noteq> y"
  have key: False if sx: "fs = us @ u # vs @ w # ws" "B u = Some ku" "B w = Some kw" "b_next ku = b_next kw" for us u vs w ws ku kw
  proof -
    have "b_next ku = (case vs @ w # ws of [] \<Rightarrow> None | v # _ \<Rightarrow> Some v)"
      using path_next [of B p us u "vs @ w # ws"] p sx(1,2) by auto
    moreover have "b_next kw = (case ws of [] \<Rightarrow> None | v # _ \<Rightarrow> Some v)"
      using path_next [of B p "us @ u # vs" w ws] p sx(1,3) by auto
    ultimately show False
      using sx(1,4) d by (auto split: list.splits simp: Cons_eq_append_conv append_eq_Cons_conv)
  qed
  obtain us vs where f: "fs = us @ x # vs"
    using x(1) by (meson split_list)
  then consider "y \<in> set vs" | "y \<in> set us"
    using y(1) ne by auto
  then show False
  proof cases
    case 1
    then obtain ps qs where "vs = ps @ y # qs"
      by (meson split_list)
    then show False
      using key [of us x ps y qs kx ky] f x y eq by simp
  next
    case 2
    then obtain ps qs where "us = ps @ y # qs"
      by (meson split_list)
    then show False
      using key [of ps y qs x vs ky kx] f x y eq by simp
  qed
qed

section \<open>One pass\<close>

lemma search_loop_hit:
  assumes "path B cur (c # ys) None" "fits B n c"
  shows "search_loop B se head n prev cur = Some (Some (prev, c))"
  using assms by (subst search_loop.simps) (auto simp: fits_def)

lemma search_loop_skip:
  assumes p: "path B head fs None" and d: "distinct fs" and fs: "fs = us @ xs @ ys"
    and nofit: "\<forall>x\<in>set xs. \<not> fits B n x"
    and se: "se = None \<or> (\<exists>e\<in>set fs. se = Some e \<and> e \<notin> set xs \<and> ys \<noteq> [])"
    and cur: "path B cur (xs @ ys) None"
  shows "\<exists>cur'. path B cur' ys None \<and>
     search_loop B se head n prev cur = search_loop B se head n (if xs = [] then prev else pred_of xs) cur'"
  using fs nofit se cur
proof (induction xs arbitrary: us prev cur)
  case Nil
  then show ?case
    by auto
next
  case (Cons x xs)
  obtain k where k: "cur = Some x" "B x = Some k" "path B (b_next k) (xs @ ys) None"
    using Cons.prems(4) by auto
  have step: "search_loop B se head n prev cur = search_loop B se head n (Some x) (b_next k)"
  proof -
    have "\<not> (b_free k \<and> n \<le> b_size k)"
      using Cons.prems(2) k(2) by (auto simp: fits_def)
    moreover have "se \<noteq> None \<Longrightarrow> b_next k \<noteq> None"
      using Cons.prems(3) k(3) path_empty_iff by fastforce
    moreover have "(case se of None \<Rightarrow> Some False | Some e \<Rightarrow> do { ke \<leftarrow> B e; Some (b_next k = b_next ke) }) = Some False"
    proof (cases se)
      case (Some e)
      then have e: "e \<in> set fs" "e \<noteq> x" "x \<in> set fs"
        using Cons.prems(1,3) by auto
      obtain ke where "B e = Some ke"
        using path_mem [OF p e(1)] by blast
      then show ?thesis
        using path_next_inj [OF p d e(3) k(2) e(1)] e(2) Some by auto
    qed simp
    ultimately show ?thesis
      using k(1,2) by (subst search_loop.simps) auto
  qed
  have "\<exists>cur'. path B cur' ys None \<and>
     search_loop B se head n (Some x) (b_next k) = search_loop B se head n (if xs = [] then Some x else pred_of xs) cur'"
    using Cons.IH [of "us @ [x]" "b_next k" "Some x"] Cons.prems k(3) by auto
  then show ?case
    using step by (auto simp: pred_of_def)
qed

text \<open>A pass along \<open>xs @ ys\<close>, where \<open>xs\<close> does not hold the block the last search ended at.\<close>

lemma search_loop_found:
  assumes p: "path B head fs None" "distinct fs" and fs: "fs = us @ xs @ c # ys"
    and fit: "\<forall>x\<in>set xs. \<not> fits B n x" "fits B n c"
    and se: "se = None \<or> (\<exists>e\<in>set fs. se = Some e \<and> e \<notin> set xs)"
    and cur: "path B cur (xs @ c # ys) None" and prev: "prev = pred_of us"
  shows "search_loop B se head n prev cur = Some (Some (pred_in fs c, c))"
proof -
  obtain cur' where cur': "path B cur' (c # ys) None"
      "search_loop B se head n prev cur = search_loop B se head n (if xs = [] then prev else pred_of xs) cur'"
    using search_loop_skip [OF p fs fit(1) _ cur] se by blast
  have "pred_in fs c = (if xs = [] then prev else pred_of xs)"
    using pred_in_split [of "us @ xs" c ys] p(2) prev unfolding fs by (auto simp: pred_of_def)
  then show ?thesis
    using search_loop_hit [OF cur'(1) fit(2)] cur'(2) by simp
qed

section \<open>The three ways a search begins\<close>

lemma search_from_head:
  assumes p: "path B head fs None" "distinct fs"
  shows "search_loop B None head n None head
     = Some (map_option (\<lambda>c. (pred_in fs c, c)) (List.find (fits B n) fs))"
proof (cases "\<exists>x\<in>set fs. fits B n x")
  case True
  then obtain xs c ys where fs: "fs = xs @ c # ys" "fits B n c" "\<forall>x\<in>set xs. \<not> fits B n x"
    using split_list_first_prop [of fs "fits B n"] by blast
  then show ?thesis
    using search_loop_found [OF p, of "[]" xs c ys n None head None] p(1) find_split [OF fs(3,2)] by auto
next
  case False
  then obtain cur' where "path B cur' [] None" "search_loop B None head n None head
      = search_loop B None head n (if fs = [] then None else pred_of fs) cur'"
    using search_loop_skip [OF p, of "[]" fs "[]" n None head None] p(1) by auto
  then show ?thesis
    using find_none [of fs "fits B n"] False by (auto simp: search_loop.simps)
qed

text \<open>The wrap-around: at the last block the search goes on at the head of the list.\<close>

lemma search_loop_wrap:
  assumes "path B cur [z] None" "\<not> fits B n z"
  shows "search_loop B (Some e) head n prev cur = search_loop B (Some e) head n None head"
  using assms by (subst search_loop.simps) (auto simp: fits_def)

lemma search_loop_stop:
  assumes "path B cur (e # ys) None" "ys \<noteq> []" "\<not> fits B n e"
  shows "search_loop B (Some e) head n prev cur = Some None"
  using assms by (cases ys; subst search_loop.simps) (auto simp: fits_def)

lemma search_from_middle:
  assumes p: "path B head fs None" "distinct fs" and fs: "fs = us @ e # vs" "vs \<noteq> []" and cur: "path B cur vs None"
  shows "search_loop B (Some e) head n (Some e) cur
     = Some (map_option (\<lambda>c. (pred_in fs c, c)) (List.find (fits B n) (vs @ us @ [e])))"
proof (cases "\<exists>x\<in>set vs. fits B n x")
  case True
  then obtain xs c ys where vs: "vs = xs @ c # ys" "fits B n c" "\<forall>x\<in>set xs. \<not> fits B n x"
    using split_list_first_prop [of vs "fits B n"] by blast
  have "search_loop B (Some e) head n (Some e) cur = Some (Some (pred_in fs c, c))"
  proof (rule search_loop_found [OF p])
    show "fs = (us @ [e]) @ xs @ c # ys"
      using fs vs by simp
    show "Some e = None \<or> (\<exists>e'\<in>set fs. Some e = Some e' \<and> e' \<notin> set xs)"
      using p(2) fs vs by auto
    show "path B cur (xs @ c # ys) None"
      using cur vs(1) by simp
  qed (use vs in simp_all)
  then show ?thesis
    using find_split [OF vs(3,2), of "ys @ us @ [e]"] vs(1) by simp
next
  case False
  obtain zs z where vs: "vs = zs @ [z]"
    using fs(2) by (cases vs rule: rev_cases) auto
  have seg: "fs = (us @ [e]) @ zs @ [z]"
    using fs vs by simp
  have e: "e \<notin> set zs" "e \<in> set fs" "\<forall>x\<in>set zs. \<not> fits B n x"
    using p(2) fs vs False by auto
  obtain cur' where "path B cur' [z] None" "search_loop B (Some e) head n (Some e) cur
      = search_loop B (Some e) head n (if zs = [] then Some e else pred_of zs) cur'"
    using search_loop_skip [OF p seg e(3), of "Some e" cur "Some e"] e(1,2) cur vs by auto
  then have again: "search_loop B (Some e) head n (Some e) cur = search_loop B (Some e) head n None head"
    using search_loop_wrap [of B cur' z n] False vs by simp
  have find: "List.find (fits B n) (vs @ us @ [e]) = List.find (fits B n) (us @ [e])"
    using False by (intro find_append) blast
  show ?thesis
  proof (cases "\<exists>x\<in>set (us @ [e]). fits B n x")
    case True
    then obtain xs c ys where sp: "us @ [e] = xs @ c # ys" "fits B n c" "\<forall>x\<in>set xs. \<not> fits B n x"
      using split_list_first_prop [of "us @ [e]" "fits B n"] by blast
    have fs': "fs = xs @ c # ys @ vs"
      using fs sp(1) by (metis append.assoc append_Cons append_Nil)
    have "distinct (us @ [e])"
      using p(2) fs by auto
    then have "e \<notin> set xs"
      using sp(1) by (cases ys rule: rev_cases) auto
    then have "search_loop B (Some e) head n None head = Some (Some (pred_in fs c, c))"
      using search_loop_found [OF p, of "[]" xs c "ys @ vs" n "Some e" head None] fs' sp(2,3) e(2) p(1) by auto
    then show ?thesis
      using again find find_split [OF sp(3,2), of ys] sp(1) by simp
  next
    case none: False
    have e': "e \<notin> set us" "\<forall>x\<in>set us. \<not> fits B n x" "fs = [] @ us @ (e # vs)"
      using p(2) fs none by auto
    obtain cur'' where "path B cur'' (e # vs) None" "search_loop B (Some e) head n None head
        = search_loop B (Some e) head n (if us = [] then None else pred_of us) cur''"
      using search_loop_skip [OF p e'(3,2), of "Some e" head None] e'(1) e(2) p(1) fs(1) by auto
    then have "search_loop B (Some e) head n None head = Some None"
      using search_loop_stop [of B cur'' e vs n] fs(2) none by simp
    then show ?thesis
      using again find find_none [of "us @ [e]" "fits B n"] none by simp
  qed
qed

text \<open>When the last search ended at the last block of the list and no block is large enough, the
  wrap-around leads back to the head for ever: the loop has no result.\<close>

lemma search_diverges:
  assumes p: "path B head (us @ [e]) None" "distinct (us @ [e])" and none: "\<forall>x\<in>set (us @ [e]). \<not> fits B n x"
  shows "x \<in> set (us @ [e]) \<Longrightarrow> search_loop B (Some e) head n prev (Some x) = None"
proof -
  obtain h where head: "head = Some h" "h \<in> set (us @ [e])"
    using p(1) by (cases us) auto
  define P where "P = (\<lambda>B' se head' n' (prev :: ptr) cur (r :: (ptr \<times> addr) option).
      \<not> (B' = B \<and> se = Some e \<and> head' = head \<and> n' = n \<and> (\<exists>x\<in>set (us @ [e]). cur = Some x)))"
  have key: "P B' se head' n' prev cur r" if "search_loop B' se head' n' prev cur = Some r" for B' se head' n' prev cur r
    using _ that
  proof (rule search_loop.raw_induct)
    fix loop B' se head' n' prev cur r
    assume IH: "\<And>B' se head' n' prev cur r. loop B' se head' n' prev cur = Some r \<Longrightarrow> P B' se head' n' prev cur r"
      and run: "(case cur of None \<Rightarrow> Some None
        | Some c \<Rightarrow> do {
            k \<leftarrow> B' c;
            if b_free k \<and> n' \<le> b_size k then Some (Some (prev, c))
            else if se \<noteq> nullptr \<and> b_next k = nullptr then loop B' se head' n' nullptr head'
            else do {
              stop \<leftarrow> (case se of None \<Rightarrow> Some False | Some e \<Rightarrow> do { ke \<leftarrow> B' e; Some (b_next k = b_next ke) });
              if stop then Some None else loop B' se head' n' cur (b_next k)
            }
          }) = Some r"
    show "P B' se head' n' prev cur r"
      unfolding P_def
    proof (rule notI, elim conjE bexE)
      fix x assume eqs: "B' = B" "se = Some e" "head' = head" "n' = n" "x \<in> set (us @ [e])" "cur = Some x"
      obtain k where k: "B x = Some k"
        using path_mem [OF p(1) eqs(5)] by blast
      have nf: "\<not> (b_free k \<and> n \<le> b_size k)"
        using none eqs(5) k by (auto simp: fits_def)
      obtain ke where ke: "B e = Some ke" "b_next ke = None"
        using path_next [of B head us e "[]"] p(1) by auto
      show False
      proof (cases "b_next k")
        case None
        then have "loop B (Some e) head n None head = Some r"
          using run eqs k nf by auto
        from IH [OF this] show False
          using head unfolding P_def by blast
      next
        case (Some y)
        obtain as bs where sp: "us @ [e] = as @ x # bs"
          using eqs(5) by (meson split_list)
        have "y \<in> set (us @ [e])"
          using path_next [of B head as x bs] p(1) sp k Some by (auto split: list.splits)
        have "loop B (Some e) head n (Some x) (Some y) = Some r"
          using run eqs k nf Some ke by auto
        from IH [OF this] show False
          using \<open>y \<in> set (us @ [e])\<close> unfolding P_def by blast
      qed
    qed
  qed
  show "x \<in> set (us @ [e]) \<Longrightarrow> ?thesis"
    using key [of B "Some e" head n prev "Some x"] unfolding P_def by (cases "search_loop B (Some e) head n prev (Some x)") auto
qed

lemma search_from_last:
  assumes p: "path B head (us @ [e]) None" "distinct (us @ [e])"
  shows "search_loop B (Some e) head n None head
     = (case List.find (fits B n) (us @ [e]) of None \<Rightarrow> None | Some c \<Rightarrow> Some (Some (pred_in (us @ [e]) c, c)))"
proof (cases "\<exists>x\<in>set (us @ [e]). fits B n x")
  case True
  then obtain xs c ys where sp: "us @ [e] = xs @ c # ys" "fits B n c" "\<forall>x\<in>set xs. \<not> fits B n x"
    using split_list_first_prop [of "us @ [e]" "fits B n"] by blast
  then have "e \<notin> set xs"
    using p(2) by (cases ys rule: rev_cases) auto
  moreover have "e \<in> set (us @ [e])"
    by simp
  ultimately have "search_loop B (Some e) head n None head = Some (Some (pred_in (us @ [e]) c, c))"
    using search_loop_found [OF p, of "[]" xs c ys n "Some e" head None] sp p(1) by fastforce
  then show ?thesis
    using find_split [OF sp(3,2), of ys] sp(1) by simp
next
  case False
  obtain h where "head = Some h" "h \<in> set (us @ [e])"
    using p(1) by (cases us) auto
  then show ?thesis
    using search_diverges [OF p] find_none [of "us @ [e]" "fits B n"] False by simp
qed

section \<open>The whole search\<close>

definition search_ends :: "ptr \<Rightarrow> addr list \<Rightarrow> bool" where
  "search_ends se fs \<longleftrightarrow> fs = [] \<or> se \<noteq> Some (last fs)"

lemma search_free_spec:
  assumes p: "path (o_blocks a) (o_free_list a) fs None" "distinct fs"
    and se: "o_prev_search_end a = None \<or> (\<exists>e\<in>set fs. o_prev_search_end a = Some e)"
  shows "search_free n a = (case List.find (fits (o_blocks a) n) (search_order (o_prev_search_end a) fs) of
      Some c \<Rightarrow> Some (Some (pred_in fs c, c))
    | None \<Rightarrow> if search_ends (o_prev_search_end a) fs then Some None else None)"
proof (cases "o_prev_search_end a")
  case None
  then show ?thesis
    using search_from_head [OF p]
    by (auto simp: search_free_def search_start_def search_order_def search_ends_def split: option.splits)
next
  case (Some e)
  then obtain us vs where fs: "fs = us @ e # vs"
    using se by (auto dest: split_list)
  obtain k where k: "o_blocks a e = Some k" "b_next k = (case vs of [] \<Rightarrow> None | v # _ \<Rightarrow> Some v)"
      "path (o_blocks a) (b_next k) vs None"
    using path_next [of "o_blocks a" "o_free_list a" us e vs] p(1) fs by auto
  show ?thesis
  proof (cases "vs = []")
    case True
    then show ?thesis
      using search_from_last [of "o_blocks a" "o_free_list a" us e n] p k Some fs search_order_split [of us e vs]
      by (auto simp: search_free_def search_start_def search_ends_def split: option.splits)
  next
    case False
    then have "b_next k \<noteq> None"
      using k(2) by (cases vs) auto
    then have "search_free n a = Some (map_option (\<lambda>c. (pred_in fs c, c)) (List.find (fits (o_blocks a) n) (vs @ us @ [e])))"
      using search_from_middle [OF p fs False k(3)] Some k(1) by (simp add: search_free_def search_start_def)
    moreover have "search_ends (Some e) fs"
      using False p(2) fs by (auto simp: search_ends_def)
    ultimately show ?thesis
      using p(2) False Some search_order_split [of us e vs] fs by (auto split: option.splits)
  qed
qed

end
