(* ===== verification/Old_Design_Alloc.thy ===== *)
theory Old_Design_Alloc
  imports Old_Design_Ops Old_Design_Search
begin

text \<open>
  What \<open>allocate\<close> and \<open>deallocate\<close> of the old design do to the blocks the program holds, for every
  answer of the operating system.
\<close>

section \<open>The blocks the program holds\<close>

definition held :: "(addr \<rightharpoonup> Block) \<Rightarrow> addr list \<Rightarrow> addr set \<Rightarrow> addr set" where
  "held B bs M = M \<union> busy B bs"

lemma mapped_eq_cong:
  assumes "mapped_ok B s e M" "\<And>x. x \<in> M \<Longrightarrow> B' x = B x"
  shows "mapped_ok B' s e M"
  using assms by (simp add: mapped_ok_def bsz_def)

lemma mapped_outside: "mapped_ok B s e M \<Longrightarrow> s \<le> x \<Longrightarrow> x < e \<Longrightarrow> x \<notin> M"
  by (force simp: mapped_ok_def)

lemma mapped_not_in_heap: "heap_inv a bs fs M X \<Longrightarrow> m \<in> M \<Longrightarrow> m \<notin> set bs"
  using tiles_mem [OF heap_invD(1)] heap_invD(9) by (fastforce simp: mapped_ok_def)

lemma free_not_held: "old_inv a bs fs M \<Longrightarrow> x \<in> set fs \<Longrightarrow> x \<notin> held (o_blocks a) bs M \<and> x \<in> set bs \<and> isfree (o_blocks a) x"
  using heap_invD(5) mapped_not_in_heap by (fastforce simp: old_inv_def held_def busy_def)

section \<open>Splitting a free block\<close>

text \<open>The neighbours of \<open>c\<close>, once it is not free any more.\<close>

abbreviation sep_but :: "addr \<Rightarrow> (addr \<rightharpoonup> Block) \<Rightarrow> addr list \<Rightarrow> bool" where
  "sep_but c B bs \<equiv> successively (\<lambda>x y. \<not> (((isfree B)(c := False)) x \<and> ((isfree B)(c := False)) y)) bs"

lemma split_tiles:
  assumes "tiles B F s (xs @ c # ys) e" "B c = Some k" "b_size k = n + 40 + m" "r = c + 40 + n"
    and k': "b_size kc = n" "\<not> b_mapped kc" "b_size kr = m" "\<not> b_mapped kr"
  shows "tiles (B(c \<mapsto> kc, r \<mapsto> kr))
      (F(c + 24 + n \<mapsto> \<lparr>f_size = n, f_mapped = False\<rparr>, r + 24 + m \<mapsto> \<lparr>f_size = m, f_mapped = False\<rparr>)) s (xs @ c # r # ys) e"
proof -
  define F' where "F' = F(c + 24 + n \<mapsto> \<lparr>f_size = n, f_mapped = False\<rparr>, r + 24 + m \<mapsto> \<lparr>f_size = m, f_mapped = False\<rparr>)"
  define B' where "B' = B(c \<mapsto> kc, r \<mapsto> kr)"
  have t: "tiles B F s xs c" "tiles B F (r + 40 + m) ys e"
    using assms(1-4) by (auto simp: tiles_focus add.assoc add.commute add.left_commute)
  have x: "x \<in> set xs \<Longrightarrow> x < c" for x
    using tiles_mem [OF t(1)] by fastforce
  have y: "x \<in> set ys \<Longrightarrow> r + 40 + m \<le> x" for x
    using tiles_mem [OF t(2)] by fastforce
  have "tiles B' F' s xs c"
    unfolding B'_def F'_def by (rule tiles_cong [OF _ _ t(1)]) (use x assms(4) in fastforce)+
  moreover have "tiles B' F' (r + 40 + m) ys e"
    unfolding B'_def F'_def by (rule tiles_cong [OF _ _ t(2)]) (use y assms(4) in fastforce)+
  moreover have "shape B' c = Some (n, False)" "shape B' r = Some (m, False)"
    "F' (c + 24 + n) = Some \<lparr>f_size = n, f_mapped = False\<rparr>" "F' (r + 24 + m) = Some \<lparr>f_size = m, f_mapped = False\<rparr>"
    using k' assms(4) by (simp_all add: B'_def F'_def)
  ultimately have "tiles B' F' s xs c \<and> shape B' c = Some (n, False) \<and> F' (c + 24 + n) = Some \<lparr>f_size = n, f_mapped = False\<rparr>
      \<and> tiles B' F' (c + 40 + n) (r # ys) e"
    using assms(4) by (auto intro!: exI [of _ m])
  then have "tiles B' F' s (xs @ c # r # ys) e"
    unfolding tiles_focus by blast
  then show ?thesis
    by (simp only: B'_def F'_def)
qed

text \<open>The state after a block \<open>c\<close> with header \<open>k\<close> has been cut after \<open>n\<close> bytes.\<close>

definition split_blocks :: "addr \<Rightarrow> nat \<Rightarrow> Block \<Rightarrow> (addr \<rightharpoonup> Block) \<Rightarrow> (addr \<rightharpoonup> Block)" where
  "split_blocks c n k B = B(c \<mapsto> k\<lparr>b_size := n, b_next := Some (c + 40 + n)\<rparr>,
     c + 40 + n \<mapsto> \<lparr>b_size = b_size k - n - 40, b_free = True, b_mapped = b_mapped k, b_next = b_next k\<rparr>)"

definition split_state :: "addr \<Rightarrow> nat \<Rightarrow> Block \<Rightarrow> OldAllocator \<Rightarrow> OldAllocator" where
  "split_state c n k a = a\<lparr>o_blocks := split_blocks c n k (o_blocks a),
     o_footers := (o_footers a)(c + 24 + n \<mapsto> \<lparr>f_size = n, f_mapped = False\<rparr>,
       c + 40 + n + 24 + (b_size k - n - 40) \<mapsto> \<lparr>f_size = b_size k - n - 40, f_mapped = False\<rparr>),
     o_available_bytes := o_available_bytes a - 40\<rparr>"

lemma split_block_far:
  assumes inv: "heap_inv a (xs @ c # ys) fs M {}" and k: "o_blocks a c = Some k" "b_free k" and far: "n + 41 \<le> b_size k"
  shows "split_block c n a = Some (True, split_state c n k a)"
proof -
  note i = heap_invD [OF inv]
  have kb: "\<not> b_mapped k" "c + 40 + b_size k \<le> heap_top a" "0 < c"
    using heap_block [OF inv] k(1) by auto
  have "footer_of c (k\<lparr>b_size := n\<rparr>) = c + 24 + n" "block_end c (k\<lparr>b_size := n\<rparr>) = c + 40 + n"
    "footer_of (c + 40 + n) \<lparr>b_size = b_size k - n - 40, b_free = True, b_mapped = b_mapped k, b_next = b_next k\<rparr>
       = c + 40 + n + 24 + (b_size k - n - 40)"
    "sub64 (sub64 (b_size k) n) overhead_size = b_size k - n - 40" "u64 (n + overhead_size + 1) = n + 41"
    using far kb i(2) by (simp_all add: footer_of_def block_end_def block_span_def sizes u64_id sub64_id)
  moreover have "sub64 (o_available_bytes a) overhead_size = o_available_bytes a - 40"
  proof -
    have "b_size k \<le> fsum (o_blocks a) (xs @ c # ys)"
      using k by simp
    then show ?thesis
      using fsum_avail [OF i(1,2)] i(7) far by (simp add: sub64_id sizes)
  qed
  ultimately show ?thesis
    using k far kb
    by (simp add: split_block_def upd_block_def put_block_def write_footer_def split_state_def split_blocks_def fun_upd_twist Let_def)
qed

text \<open>The new block is at an address where no block was.\<close>

lemma split_address_new:
  assumes inv: "heap_inv a (xs @ c # ys) fs M {}" and k: "o_blocks a c = Some k" and far: "n + 41 \<le> b_size k"
    and x: "x \<in> M \<union> set (xs @ c # ys)"
  shows "x \<noteq> c + 40 + n"
proof -
  note i = heap_invD [OF inv]
  have kb: "heap_base a \<le> c" "c + 40 + b_size k \<le> heap_top a"
    using heap_block [OF inv] k by auto
  have "x \<in> set (xs @ c # ys) \<Longrightarrow> x = c \<or> x < c \<or> c + 40 + b_size k \<le> x"
    using tiles_apart [OF i(1), of c x] k by (cases x c rule: linorder_cases) auto
  moreover have "x \<in> M \<Longrightarrow> x < heap_base a \<or> heap_top a \<le> x"
    using mapped_outside [OF i(9), of x] by linarith
  ultimately show ?thesis
    using x far kb by auto
qed

lemma split_heap_inv:
  assumes inv: "heap_inv a (xs @ c # ys) (us @ c # vs) M {}" and k: "o_blocks a c = Some k" and far: "n + 41 \<le> b_size k"
  shows "heap_inv (split_state c n k a) (xs @ c # (c + 40 + n) # ys) (us @ c # (c + 40 + n) # vs) M {}"
proof -
  let ?r = "c + 40 + n"
  let ?C = "split_blocks c n k (o_blocks a)"
  note i = heap_invD [OF inv]
  have "c \<in> {b \<in> set (xs @ c # ys). isfree (o_blocks a) b}"
    unfolding i(5) by simp
  then have kb: "\<not> b_mapped k" "b_free k"
    using heap_block [OF inv] k by auto
  have c: "c \<notin> M"
    using mapped_not_in_heap [OF inv, of c] by auto
  have xr: "x \<in> M \<union> set (xs @ c # ys) \<Longrightarrow> x \<noteq> ?r" for x
    by (rule split_address_new [OF inv k far])
  have Cx: "?C x = o_blocks a x" if "x \<in> M \<union> set (xs @ c # ys)" "x \<noteq> c" for x
    using that xr [of x] by (simp add: split_blocks_def)
  have rfs: "?r \<notin> set (us @ c # vs)"
    using i(5) xr by blast
  have fr: "isfree ?C = (isfree (o_blocks a))(?r := True)"
    using k kb by (auto simp: split_blocks_def fun_eq_iff)
  have sums: "fsum ?C zs = fsum (o_blocks a) zs" if "set zs \<subseteq> set (xs @ c # ys) - {c}" for zs
    using that Cx by (intro fsum_cong) (auto simp: isfree_def bsz_def subset_iff)
  have d: "distinct (xs @ c # ys)"
    by (rule tiles_distinct [OF i(1)])
  have sel: "o_blocks (split_state c n k a) = ?C" "o_footers (split_state c n k a) = (o_footers a)(c + 24 + n \<mapsto> \<lparr>f_size = n, f_mapped = False\<rparr>,
       ?r + 24 + (b_size k - n - 40) \<mapsto> \<lparr>f_size = b_size k - n - 40, f_mapped = False\<rparr>)"
    by (simp_all add: split_state_def)
  have ends: "heap_base (split_state c n k a) = heap_base a" "heap_top (split_state c n k a) = heap_top a"
    by (simp_all add: split_state_def heap_base_def heap_top_def)
  show ?thesis
  proof (rule heap_invI, unfold ends)
    show "tiles (o_blocks (split_state c n k a)) (o_footers (split_state c n k a)) (heap_base a) (xs @ c # ?r # ys) (heap_top a)"
      unfolding sel split_blocks_def by (rule split_tiles [OF i(1) k(1)]) (use kb far in simp_all)
    show "o_available_bytes (split_state c n k a) = fsum (o_blocks (split_state c n k a)) (xs @ c # ?r # ys)"
      using i(7) sums [of xs] sums [of ys] d k kb far by (simp add: split_state_def split_blocks_def)
    have nr: "?r \<notin> set us" "?r \<notin> set vs" "c \<notin> set us" "c \<notin> set vs"
      using rfs i(4) by auto
    obtain q where q: "path (o_blocks a) (o_free_list a) us q" "q = Some c" "path (o_blocks a) (b_next k) vs None"
      using i(3) k(1) by (auto simp: path_append)
    then have "path ?C (o_free_list a) us q" "path ?C (b_next k) vs None"
      using nr path_cong [of us ?C "o_blocks a"] path_cong [of vs ?C "o_blocks a"] by (auto simp: split_blocks_def)
    then show "path (o_blocks (split_state c n k a)) (o_free_list (split_state c n k a)) (us @ c # ?r # vs) None"
      using q(2) by (auto simp: path_append split_state_def split_blocks_def)
    have "{x \<in> set (xs @ c # ?r # ys). isfree ?C x} = insert ?r {x \<in> set (xs @ c # ys). isfree (o_blocks a) x}"
      by (auto simp: fr)
    then show "{x \<in> set (xs @ c # ?r # ys). isfree (o_blocks (split_state c n k a)) x} = set (us @ c # ?r # vs) \<union> {}"
      unfolding i(5) by (auto simp: split_state_def)
    show "mapped_ok (o_blocks (split_state c n k a)) (heap_base a) (heap_top a) M"
      by (rule mapped_eq_cong [OF i(9)]) (use c Cx in \<open>metis UnI1 sel(1)\<close>)
  qed (use i rfs in \<open>auto simp: split_state_def\<close>)
qed

lemma split_block_spec:
  assumes inv: "old_inv a bs (us @ c # vs) M" and n: "n \<le> bsz (o_blocks a) c"
  shows "\<exists>r a1 bs1 ws. split_block c n a = Some (r, a1) \<and> heap_inv a1 bs1 (us @ c # ws) M {} \<and> sep_but c (o_blocks a1) bs1
     \<and> busy (o_blocks a1) bs1 = busy (o_blocks a) bs \<and> n \<le> bsz (o_blocks a1) c
     \<and> (\<forall>x\<in>held (o_blocks a) bs M. o_blocks a1 x = o_blocks a x)
     \<and> o_brk_heap_start a1 = o_brk_heap_start a \<and> o_brk_heap_end a1 = o_brk_heap_end a"
proof -
  have c: "c \<in> set bs" "isfree (o_blocks a) c" "c \<notin> held (o_blocks a) bs M"
    using free_not_held [OF inv, of c] by simp_all
  obtain xs ys where bs: "bs = xs @ c # ys" "heap_inv a (xs @ c # ys) (us @ c # vs) M {}"
      "successively (not_both (o_blocks a)) xs" "successively (not_both (o_blocks a)) ys"
    using old_inv_focus [OF inv c(1)] by blast
  obtain k where k: "o_blocks a c = Some k" "b_free k" "c + 40 + b_size k \<le> heap_top a" "0 < c"
    using heap_block [OF bs(2)] c(2) by force
  have adj: "successively (not_both (o_blocks a)) bs"
    using inv by (simp add: old_inv_def)
  show ?thesis
  proof (cases "b_size k < n + 41")
    case True
    have "u64 (n + overhead_size + 1) = n + 41"
      using n k heap_invD(2) [OF bs(2)] by (simp add: sizes u64_id)
    moreover have "sep_but c (o_blocks a) bs"
      by (rule successively_mono [OF adj]) auto
    ultimately show ?thesis
      using bs(1,2) n k(1) True by (intro exI [of _ False] exI [of _ a] exI [of _ bs] exI [of _ vs]) (simp add: split_block_def)
  next
    case False
    then have far: "n + 41 \<le> b_size k"
      by simp
    let ?r = "c + 40 + n" and ?a = "split_state c n k a"
    have xr: "x \<in> held (o_blocks a) bs M \<union> set bs \<Longrightarrow> x \<noteq> ?r" for x
      using split_address_new [OF bs(2) k(1) far, of x] unfolding bs(1) held_def busy_def by blast
    have fr: "isfree (o_blocks ?a) = (isfree (o_blocks a))(?r := True)"
      using k by (auto simp: split_state_def split_blocks_def fun_eq_iff)
    have "sep_but c (o_blocks ?a) (xs @ c # ?r # ys)"
    proof -
      have "c \<notin> set xs" "c \<notin> set ys"
        using tiles_distinct [OF heap_invD(1) [OF bs(2)]] by auto
      then have eq: "successively (\<lambda>x y. \<not> (((isfree (o_blocks ?a))(c := False)) x \<and> ((isfree (o_blocks ?a))(c := False)) y)) zs
          = successively (not_both (o_blocks a)) zs" if "zs = xs \<or> zs = ys" for zs
        by (intro successively_cong) (use that xr bs(1) in \<open>auto simp: fr\<close>)
      have "ys \<noteq> [] \<longrightarrow> \<not> isfree (o_blocks ?a) (hd ys)"
        using c(2) adj xr bs(1) by (cases ys) (auto simp: fr successively_append_iff)
      then show ?thesis
        using bs(3,4) eq [of xs] eq [of ys] by (auto simp: successively_append_iff successively_Cons)
    qed
    moreover have "busy (o_blocks ?a) (xs @ c # ?r # ys) = busy (o_blocks a) bs"
      using xr unfolding bs(1) by (auto simp: busy_def fr)
    moreover have "n \<le> bsz (o_blocks ?a) c" "\<forall>x\<in>held (o_blocks a) bs M. o_blocks ?a x = o_blocks a x"
      "o_brk_heap_start ?a = o_brk_heap_start a" "o_brk_heap_end ?a = o_brk_heap_end a"
      using xr c(3) by (auto simp: split_state_def split_blocks_def)
    ultimately show ?thesis
      using split_block_far [OF bs(2) k(1,2) far] split_heap_inv [OF bs(2) k(1) far] by blast
  qed
qed

section \<open>Taking a block off the list\<close>

text \<open>The pointer that leads to \<open>c\<close> is redirected behind it.\<close>

lemma redirect_inv:
  assumes inv: "heap_inv a bs (us @ c # ws) M {}" and k: "o_blocks a c = Some k"
  shows "\<exists>B l. redirect (pred_of us) (b_next k) a = Some (a\<lparr>o_blocks := B, o_free_list := l\<rparr>)
     \<and> heap_inv (a\<lparr>o_blocks := B, o_free_list := l, o_prev_search_end := pred_of us\<rparr>) bs (us @ ws) M {c}
     \<and> B c = Some k \<and> isfree B = isfree (o_blocks a) \<and> bsz B = bsz (o_blocks a)
     \<and> (\<forall>x. \<not> isfree (o_blocks a) x \<longrightarrow> B x = o_blocks a x)"
proof -
  note i = heap_invD [OF inv]
  have d: "c \<notin> set us" "c \<notin> set ws" "set ws \<inter> set us = {}" "distinct us" "distinct ws"
    using i(4) by auto
  have kn: "path (o_blocks a) (b_next k) ws None"
    using i(3) k by (auto simp: path_append)
  obtain B l where r: "redirect (pred_of us) (b_next k) a = Some (a\<lparr>o_blocks := B, o_free_list := l\<rparr>)"
      "path B l (us @ ws) None" "shape B = shape (o_blocks a)" "isfree B = isfree (o_blocks a)"
      "\<forall>x. x \<notin> set us \<longrightarrow> B x = o_blocks a x"
    using redirect_spec [OF i(3,4) kn d(3)] by auto
  have bs': "bsz B = bsz (o_blocks a)"
    using r(3) by (intro ext bsz_shape) simp
  have frame: "B x = o_blocks a x" if "\<not> isfree (o_blocks a) x" for x
    using r(5) nonfree_frame [OF inv that] by auto
  let ?a = "a\<lparr>o_blocks := B, o_free_list := l, o_prev_search_end := pred_of us\<rparr>"
  have ends: "heap_base ?a = heap_base a" "heap_top ?a = heap_top a"
    by (simp_all add: heap_base_def heap_top_def)
  have "heap_inv ?a bs (us @ ws) M {c}"
  proof (rule heap_invI, unfold ends)
    show "tiles (o_blocks ?a) (o_footers ?a) (heap_base a) bs (heap_top a)"
      using tiles_cong [OF _ _ i(1), of B "o_footers a"] r(3) by simp
    show "o_available_bytes ?a = fsum (o_blocks ?a) bs"
      using i(7) fsum_cong [of bs B "o_blocks a"] r(4) bs' by simp
    show "{b \<in> set bs. isfree (o_blocks ?a) b} = set (us @ ws) \<union> {c}"
      using i(5) r(4) by auto
    show "mapped_ok (o_blocks ?a) (heap_base a) (heap_top a) M"
      using mapped_cong [OF i(9) frame] by simp
    show "o_prev_search_end ?a = nullptr \<or> (\<exists>e\<in>set (us @ ws). o_prev_search_end ?a = Some e)"
      by (cases us rule: pred_of_cases) auto
  qed (use i d r(2) in auto)
  then show ?thesis
    using r(1,4,5) d(1) k bs' frame by (intro exI [of _ B] exI [of _ l]) simp
qed

text \<open>What \<open>take_block\<close> does after the split.\<close>

lemma pop_block_spec:
  assumes inv: "heap_inv a bs (us @ c # ws) M {}" and k: "o_blocks a c = Some k"
  shows "\<exists>a1 a2. (case pred_of us of
             Some p \<Rightarrow> do {
               a2 \<leftarrow> upd_block p (\<lambda>q. q\<lparr>b_next := b_next k\<rparr>) a;
               Some (a2\<lparr>o_prev_search_end := pred_of us\<rparr>)
             }
           | None \<Rightarrow> Some (a\<lparr>o_free_list := b_next k, o_prev_search_end := nullptr\<rparr>)) = Some a1
     \<and> upd_block c (\<lambda>k. k\<lparr>b_next := nullptr, b_free := False\<rparr>) a1 = Some a2
     \<and> map_option b_size (o_blocks a2 c) = Some (b_size k)
     \<and> heap_inv (a2\<lparr>o_available_bytes := sub64 (o_available_bytes a2) (b_size k)\<rparr>) bs (us @ ws) M {}
     \<and> isfree (o_blocks a2) = (isfree (o_blocks a))(c := False) \<and> bsz (o_blocks a2) = bsz (o_blocks a)
     \<and> (\<forall>x. \<not> isfree (o_blocks a) x \<longrightarrow> o_blocks a2 x = o_blocks a x)
     \<and> o_brk_heap_start a2 = o_brk_heap_start a \<and> o_brk_heap_end a2 = o_brk_heap_end a"
proof -
  note i = heap_invD [OF inv]
  have "c \<in> set bs \<and> isfree (o_blocks a) c"
    using i(5) by auto
  then have c: "c \<in> set bs" "b_free k" "isfree (o_blocks a) c" "\<not> b_mapped k" "c \<notin> set (us @ ws)"
    using k tiles_mem [OF i(1), of c] i(4) by auto
  obtain B l where r: "redirect (pred_of us) (b_next k) a = Some (a\<lparr>o_blocks := B, o_free_list := l\<rparr>)"
      "heap_inv (a\<lparr>o_blocks := B, o_free_list := l, o_prev_search_end := pred_of us\<rparr>) bs (us @ ws) M {c}"
      "B c = Some k" "isfree B = isfree (o_blocks a)" "bsz B = bsz (o_blocks a)"
      "\<forall>x. \<not> isfree (o_blocks a) x \<longrightarrow> B x = o_blocks a x"
    using redirect_inv [OF inv k] by blast
  define k2 where "k2 = k\<lparr>b_next := nullptr, b_free := False\<rparr>"
  define a1 where "a1 = a\<lparr>o_blocks := B, o_free_list := l, o_prev_search_end := pred_of us\<rparr>"
  define a2 where "a2 = put_block c k2 a1"
  have 1: "(case pred_of us of
             Some p \<Rightarrow> do {
               a2 \<leftarrow> upd_block p (\<lambda>q. q\<lparr>b_next := b_next k\<rparr>) a;
               Some (a2\<lparr>o_prev_search_end := pred_of us\<rparr>)
             }
           | None \<Rightarrow> Some (a\<lparr>o_free_list := b_next k, o_prev_search_end := nullptr\<rparr>)) = Some a1"
    using r(1) by (auto simp: redirect_def a1_def split: option.splits)
  have 2: "upd_block c (\<lambda>k. k\<lparr>b_next := nullptr, b_free := False\<rparr>) a1 = Some a2"
    using r(3) by (simp add: upd_block_def a1_def a2_def k2_def)
  have "b_size k \<le> o_available_bytes a" "o_available_bytes a < 18446744073709551616"
  proof -
    obtain xs ys where "bs = xs @ c # ys"
      using c(1) by (meson split_list)
    then show "b_size k \<le> o_available_bytes a" "o_available_bytes a < 18446744073709551616"
      using i(7) k c(3) fsum_avail [OF i(1,2)] by simp_all
  qed
  then have "heap_inv (a2\<lparr>o_available_bytes := sub64 (o_available_bytes a2) (b_size k)\<rparr>) bs (us @ ws) M (if b_free k2 then insert c {c} else {c} - {c})"
    using c(2,4) r(3) by (intro put_block_inv [OF r(2) c(1) _ c(5), of k]) (simp_all add: a2_def a1_def k2_def put_block_def sub64_id)
  then have inv2: "heap_inv (a2\<lparr>o_available_bytes := sub64 (o_available_bytes a2) (b_size k)\<rparr>) bs (us @ ws) M {}"
    by (simp add: k2_def)
  have B2: "o_blocks a2 = B(c \<mapsto> k2)" "o_brk_heap_start a2 = o_brk_heap_start a" "o_brk_heap_end a2 = o_brk_heap_end a"
    by (simp_all add: a2_def a1_def put_block_def)
  moreover have "bsz (o_blocks a2) = bsz (o_blocks a)"
    using r(5) k by (auto simp: fun_eq_iff k2_def B2(1))
  moreover have "o_blocks a2 x = o_blocks a x" if "\<not> isfree (o_blocks a) x" for x
    using that c(3) r(6) by (cases "x = c") (simp_all add: B2(1))
  ultimately show ?thesis
    using 1 2 inv2 r(4) by (intro exI [of _ a1] exI [of _ a2]) (simp add: k2_def)
qed

lemma take_block_spec:
  assumes inv: "old_inv a bs (us @ c # vs) M" and n: "n \<le> bsz (o_blocks a) c"
  shows "\<exists>a' bs' fs'. take_block (pred_of us) c n a = Some (c + 24, a') \<and> old_inv a' bs' fs' M
     \<and> busy (o_blocks a') bs' = insert c (busy (o_blocks a) bs) \<and> n \<le> bsz (o_blocks a') c
     \<and> (\<forall>x\<in>held (o_blocks a) bs M. o_blocks a' x = o_blocks a x)
     \<and> o_brk_heap_start a' = o_brk_heap_start a \<and> o_brk_heap_end a' = o_brk_heap_end a"
proof -
  obtain r a1 bs1 ws where s: "split_block c n a = Some (r, a1)" "heap_inv a1 bs1 (us @ c # ws) M {}" "sep_but c (o_blocks a1) bs1"
      "busy (o_blocks a1) bs1 = busy (o_blocks a) bs" "n \<le> bsz (o_blocks a1) c"
      "\<forall>x\<in>held (o_blocks a) bs M. o_blocks a1 x = o_blocks a x"
      "o_brk_heap_start a1 = o_brk_heap_start a" "o_brk_heap_end a1 = o_brk_heap_end a"
    using split_block_spec [OF inv n] by blast
  note i = heap_invD [OF s(2)]
  have c: "c \<in> set bs1" "isfree (o_blocks a1) c"
    using i(5) by auto
  obtain k where k: "o_blocks a1 c = Some k" "c + 40 + b_size k \<le> heap_top a1"
    using tiles_mem [OF i(1) c(1)] by blast
  obtain a2 a3 where p: "(case pred_of us of
             Some p \<Rightarrow> do {
               a2 \<leftarrow> upd_block p (\<lambda>q. q\<lparr>b_next := b_next k\<rparr>) a1;
               Some (a2\<lparr>o_prev_search_end := pred_of us\<rparr>)
             }
           | None \<Rightarrow> Some (a1\<lparr>o_free_list := b_next k, o_prev_search_end := nullptr\<rparr>)) = Some a2"
      "upd_block c (\<lambda>k. k\<lparr>b_next := nullptr, b_free := False\<rparr>) a2 = Some a3"
      "map_option b_size (o_blocks a3 c) = Some (b_size k)"
      "heap_inv (a3\<lparr>o_available_bytes := sub64 (o_available_bytes a3) (b_size k)\<rparr>) bs1 (us @ ws) M {}"
      "isfree (o_blocks a3) = (isfree (o_blocks a1))(c := False)" "bsz (o_blocks a3) = bsz (o_blocks a1)"
      "\<forall>x. \<not> isfree (o_blocks a1) x \<longrightarrow> o_blocks a3 x = o_blocks a1 x"
      "o_brk_heap_start a3 = o_brk_heap_start a1" "o_brk_heap_end a3 = o_brk_heap_end a1"
    using pop_block_spec [OF s(2) k(1)] by blast
  define a4 where "a4 = a3\<lparr>o_available_bytes := sub64 (o_available_bytes a3) (b_size k)\<rparr>"
  have B4: "o_blocks a4 = o_blocks a3"
    by (simp add: a4_def)
  have "u64 (c + header_size) = c + 24"
    using k(2) i(2) by (simp add: sizes u64_id)
  then have run: "take_block (pred_of us) c n a = Some (c + 24, a4)"
    using s(1) k(1) p(1-3) by (auto simp: take_block_def a4_def)
  have "not_both (o_blocks a4) = (\<lambda>x y. \<not> (((isfree (o_blocks a1))(c := False)) x \<and> ((isfree (o_blocks a1))(c := False)) y))"
    by (simp only: B4 p(5))
  with s(3) have "successively (not_both (o_blocks a4)) bs1"
    by (simp only:)
  with p(4) have "old_inv a4 bs1 (us @ ws) M"
    by (simp add: old_inv_def a4_def)
  moreover have "busy (o_blocks a4) bs1 = insert c (busy (o_blocks a) bs)"
    unfolding s(4) [symmetric] using c by (auto simp: busy_def B4 p(5))
  moreover have "o_blocks a4 x = o_blocks a x" if x: "x \<in> held (o_blocks a) bs M" for x
  proof -
    have "\<not> isfree (o_blocks a) x"
      using x inv by (auto simp: held_def busy_def old_inv_def heap_inv_def mapped_ok_def isfree_def split: option.splits dest!: bspec)
    then have "\<not> isfree (o_blocks a1) x"
      using s(6) x isfree_cong by metis
    then show ?thesis
      using p(7) s(6) x by (simp add: B4)
  qed
  ultimately show ?thesis
    using run s(5,7,8) p(6,8,9) B4 by (intro exI [of _ a4] exI [of _ bs1] exI [of _ "us @ ws"]) (simp add: a4_def)
qed

end
