(* ===== verification/Old_Design_Contract.thy ===== *)
theory Old_Design_Contract
  imports Old_Design_Alloc
begin

text \<open>
  The contracts of \<open>create_block\<close>, \<open>allocate\<close> and \<open>deallocate\<close> of the old design. What the code
  relies on from the operating system is \<open>sys_ok\<close>: memory that is handed out is not in use, and
  nobody else moves the program break.
\<close>

section \<open>The operating system\<close>

definition region_ok :: "OldAllocator \<Rightarrow> addr set \<Rightarrow> addr \<Rightarrow> nat \<Rightarrow> bool" where
  "region_ok a M p n \<longleftrightarrow> 0 < p \<and> p + n < 18446744073709551616
     \<and> (\<forall>m\<in>M. m + 40 + bsz (o_blocks a) m \<le> p \<or> p + n \<le> m)"

definition sys_ok :: "OldSystem \<Rightarrow> OldAllocator \<Rightarrow> addr set \<Rightarrow> bool" where
  "sys_ok sys a M \<longleftrightarrow>
     (\<forall>n. sys_sbrk sys n \<noteq> SYS_FAILED \<longrightarrow> region_ok a M (sys_sbrk sys n) n
        \<and> (\<forall>e. o_brk_heap_end a = Some e \<longrightarrow> sys_sbrk sys n = e))
   \<and> (\<forall>n. sys_mmap sys n \<noteq> SYS_FAILED \<longrightarrow> region_ok a M (sys_mmap sys n) n
        \<and> (sys_mmap sys n + n \<le> heap_base a \<or> heap_top a \<le> sys_mmap sys n))"

section \<open>New blocks\<close>

text \<open>The state after \<open>create_block\<close>, which can be computed.\<close>

definition new_block :: "addr \<Rightarrow> nat \<Rightarrow> bool \<Rightarrow> bool \<Rightarrow> OldAllocator \<Rightarrow> OldAllocator" where
  "new_block p n fr mp a = a\<lparr>
     o_blocks := (o_blocks a)(p \<mapsto> \<lparr>b_size = n, b_free = fr, b_mapped = mp, b_next = None\<rparr>),
     o_footers := (o_footers a)(p + 24 + n \<mapsto> \<lparr>f_size = n, f_mapped = mp\<rparr>),
     o_brk_heap_start := (if \<not> mp \<and> o_brk_heap_start a = None then Some p else o_brk_heap_start a),
     o_brk_heap_end := (if mp then o_brk_heap_end a else Some (p + 40 + n))\<rparr>"

lemma create_block_run:
  assumes "(if mp then sys_mmap sys (n + 40) else sys_sbrk sys (n + 40)) = p" "n + 40 < 18446744073709551616"
    and "p \<noteq> SYS_FAILED \<Longrightarrow> p + n + 40 < 18446744073709551616"
  shows "create_block sys n fr mp None a = (if p = SYS_FAILED then Some (None, a) else Some (Some p, new_block p n fr mp a))"
  using assms
  by (auto simp: create_block_def write_footer_def put_block_def footer_of_def block_end_def block_span_def sizes u64_id
      new_block_def Let_def add.assoc add.commute)

text \<open>A block from \<open>sbrk\<close> extends the range of the program break; one from \<open>mmap\<close> stands alone.\<close>

lemma mapped_insert:
  assumes M: "mapped_ok C s e M" and k: "C p = Some k" "b_mapped k" "\<not> b_free k" "0 < p" "p + 40 + b_size k < 18446744073709551616"
    and out: "p + 40 + b_size k \<le> s \<or> e \<le> p" and apart: "\<And>m. m \<in> M \<Longrightarrow> m + 40 + bsz C m \<le> p \<or> p + 40 + b_size k \<le> m"
  shows "mapped_ok C s e (insert p M)"
proof -
  have "m < p \<Longrightarrow> m + 40 + bsz C m \<le> p" "p < m \<Longrightarrow> p + 40 + bsz C p \<le> m" if "m \<in> M" for m
    using apart [OF that] k(1) by auto
  then have "\<forall>m\<in>insert p M. \<forall>m'\<in>insert p M. m < m' \<longrightarrow> m + 40 + bsz C m \<le> m'"
    using M by (auto simp: mapped_ok_def)
  moreover have "\<forall>m\<in>insert p M. \<exists>k. C m = Some k \<and> b_mapped k \<and> \<not> b_free k \<and> 0 < m
      \<and> m + 40 + b_size k < 18446744073709551616 \<and> (m + 40 + b_size k \<le> s \<or> e \<le> m)"
    using M k out by (auto simp: mapped_ok_def)
  ultimately show ?thesis
    by (simp only: mapped_ok_def)
qed

lemma fsum_same: "(\<And>x. x \<in> set bs \<Longrightarrow> B' x = B x) \<Longrightarrow> fsum B' bs = fsum B bs"
  by (rule fsum_cong) (simp add: isfree_def bsz_def)

lemma region_apart: "region_ok a M p (n + 40) \<Longrightarrow> m \<in> M \<Longrightarrow> m + 40 + bsz (o_blocks a) m \<le> p \<or> p + 40 + n \<le> m"
  unfolding region_ok_def by (auto simp: add.commute add.left_commute)

text \<open>What both kinds of block share; \<open>bs'\<close> are the blocks of the program break afterwards.\<close>

lemma new_block_inv:
  assumes inv: "heap_inv a bs fs M {}" and p: "p \<notin> set bs \<union> M" and bs': "bs' = bs \<or> bs' = bs @ [p]"
    and a1: "a1 = new_block p n False mp a"
    and t: "tiles (o_blocks a1) (o_footers a1) (heap_base a1) bs' (heap_top a1)"
    and M': "mapped_ok (o_blocks a1) (heap_base a1) (heap_top a1) M'"
    and ends: "heap_top a1 < 18446744073709551616" "o_brk_heap_start a1 = None \<longleftrightarrow> o_brk_heap_end a1 = None"
      "o_brk_heap_start a1 \<noteq> Some 0"
  shows "heap_inv a1 bs' fs M' {} \<and> busy (o_blocks a1) bs' = (set bs' - set bs) \<union> busy (o_blocks a) bs"
proof -
  note i = heap_invD [OF inv]
  have Cx: "o_blocks a1 x = o_blocks a x" if "x \<in> set bs" for x
    using that p by (auto simp: a1 new_block_def)
  have free: "x \<in> set fs \<longleftrightarrow> x \<in> set bs \<and> isfree (o_blocks a) x" for x
    using i(5) by auto
  then have fsbs: "set fs \<subseteq> set bs"
    by auto
  have np: "\<not> isfree (o_blocks a1) p"
    by (simp add: a1 new_block_def)
  have fr: "isfree (o_blocks a1) x \<longleftrightarrow> x \<in> set fs" if "x \<in> set bs'" for x
    using bs' that isfree_cong [of "o_blocks a1" x "o_blocks a"] Cx [of x] free [of x] np p by auto
  have "heap_inv a1 bs' fs M' {}"
  proof (rule heap_invI [OF t _ _ i(4) _ _ _ M' ends])
    have "fsum (o_blocks a1) bs = fsum (o_blocks a) bs"
      using Cx by (rule fsum_same)
    then show "o_available_bytes a1 = fsum (o_blocks a1) bs'"
      using i(7) bs' np by (auto simp: a1 new_block_def)
    show "path (o_blocks a1) (o_free_list a1) fs None"
      using i(3) path_cong [of fs "o_blocks a1" "o_blocks a"] Cx fsbs by (auto simp: a1 new_block_def)
    show "{b \<in> set bs'. isfree (o_blocks a1) b} = set fs \<union> {}"
      using fr fsbs bs' by auto
    show "o_prev_search_end a1 = None \<or> (\<exists>e\<in>set fs. o_prev_search_end a1 = Some e)"
      using i(8) by (simp add: a1 new_block_def)
  qed simp
  moreover have "busy (o_blocks a1) bs' = (set bs' - set bs) \<union> busy (o_blocks a) bs"
    using fr bs' i(5) p by (auto simp: busy_def)
  ultimately show ?thesis
    by blast
qed

text \<open>Where the break is: an unused one has no blocks.\<close>

lemma break_at:
  assumes inv: "heap_inv a bs fs M {}" and p: "\<forall>e. o_brk_heap_end a = Some e \<longrightarrow> p = e"
  shows "o_brk_heap_end a = None \<and> bs = [] \<and> heap_base (new_block p n False False a) = p \<and> heap_base a = 0 \<and> heap_top a = 0
     \<or> o_brk_heap_end a = Some p \<and> heap_top a = p \<and> heap_base (new_block p n False False a) = heap_base a"
proof (cases "o_brk_heap_end a")
  case None
  note i = heap_invD [OF inv]
  have "tiles (o_blocks a) (o_footers a) 0 bs 0"
    using i(1,10) None by (simp add: heap_base_def heap_top_def)
  then have "bs = []"
    using tiles_mem [of "o_blocks a" "o_footers a" 0 bs 0] by (cases bs) fastforce+
  then show ?thesis
    using None i(10) by (simp add: heap_base_def heap_top_def new_block_def)
next
  case (Some e)
  then show ?thesis
    using p heap_invD(10) [OF inv] by (auto simp: heap_top_def heap_base_def new_block_def)
qed

text \<open>The mappings stay apart from the longer range.\<close>

lemma mapped_grow:
  assumes "mapped_ok B s e M" "\<And>m. m \<in> M \<Longrightarrow> m + 40 + bsz B m \<le> p \<or> t \<le> m" "e = p \<or> s = p"
    and "p \<le> t" "\<And>m. m \<in> M \<Longrightarrow> s = p \<or> (m + 40 + bsz B m \<le> s \<or> e \<le> m)"
  shows "mapped_ok B s t M"
proof -
  have "m + 40 + b_size k \<le> s \<or> t \<le> m" if "m \<in> M" "B m = Some k" for m k
    using assms(2,5) [OF that(1)] that(2) assms(3,4) by auto
  then show ?thesis
    using assms(1) unfolding mapped_ok_def by metis
qed

lemma new_brk_block_inv:
  assumes inv: "heap_inv a bs fs M {}" and p: "region_ok a M p (n + 40)" "\<forall>e. o_brk_heap_end a = Some e \<longrightarrow> p = e"
  shows "heap_inv ((new_block p n False False a)) (bs @ [p]) fs M {} \<and> p \<notin> set bs \<union> M
     \<and> busy (o_blocks (new_block p n False False a)) (bs @ [p]) = insert p (busy (o_blocks a) bs)"
proof -
  note i = heap_invD [OF inv]
  define a1 where "a1 = new_block p n False False a"
  have pos: "0 < p" "p + n + 40 < 18446744073709551616"
    using p(1) by (simp_all add: region_ok_def)
  note at = break_at [OF inv p(2), of n, folded a1_def]
  have "x + 40 \<le> p" if "x \<in> set bs" for x
    using tiles_mem [OF i(1) that] at that by auto
  then have notin: "p \<notin> set bs \<union> M"
    using region_apart [OF p(1)] by fastforce
  have Cx: "o_blocks a1 x = o_blocks a x" if "x \<in> set bs \<union> M" for x
    using that notin by (auto simp: a1_def new_block_def)
  have top: "heap_top a1 = p + 40 + n"
    by (simp add: a1_def new_block_def heap_top_def)
  have base: "tiles (o_blocks a) (o_footers a) (heap_base a1) bs p"
    using i(1) at by auto
  have "tiles (o_blocks a1) (o_footers a1) (heap_base a1) bs p"
  proof (rule tiles_cong [OF _ _ base])
    show "shape (o_blocks a1) b = shape (o_blocks a) b" if "b \<in> set bs" for b
      using Cx that by (simp add: shape_def)
  qed (simp add: a1_def new_block_def)
  then have t: "tiles (o_blocks a1) (o_footers a1) (heap_base a1) (bs @ [p]) (heap_top a1)"
    by (simp add: tiles_append top) (simp add: a1_def new_block_def)
  have "mapped_ok (o_blocks a) (heap_base a1) (p + 40 + n) M"
  proof (rule mapped_grow)
    show "mapped_ok (o_blocks a) (heap_base a1) p M"
    proof (cases "o_brk_heap_end a")
      case None
      have "m + 40 + b_size k \<le> p \<or> p \<le> m" if "m \<in> M" "o_blocks a m = Some k" for m k
        using region_apart [OF p(1) that(1)] that(2) by auto
      then show ?thesis
        using i(9) at None unfolding mapped_ok_def by auto
    qed (use i(9) at in auto)
    show "p = p \<or> heap_base a1 = p" "p \<le> p + 40 + n"
      by simp_all
    show "heap_base a1 = p \<or> (m + 40 + bsz (o_blocks a) m \<le> heap_base a1 \<or> p \<le> m)" if "m \<in> M" for m
      using that at i(9) by (fastforce simp: mapped_ok_def)
  qed (rule region_apart [OF p(1)])
  then have M: "mapped_ok (o_blocks a1) (heap_base a1) (heap_top a1) M"
    unfolding top by (rule mapped_eq_cong) (use Cx in auto)
  have "heap_inv a1 (bs @ [p]) fs M {} \<and> busy (o_blocks a1) (bs @ [p]) = (set (bs @ [p]) - set bs) \<union> busy (o_blocks a) bs"
    by (rule new_block_inv [OF inv notin _ a1_def t M]) (use pos i(11) in \<open>simp_all add: top, simp_all add: a1_def new_block_def\<close>)
  then show ?thesis
    using notin by (auto simp: a1_def)
qed

lemma new_mmap_block_inv:
  assumes inv: "heap_inv a bs fs M {}" and p: "region_ok a M p (n + 40)" "p + (n + 40) \<le> heap_base a \<or> heap_top a \<le> p"
  shows "heap_inv (new_block p n False True a) bs fs (insert p M) {} \<and> p \<notin> set bs \<union> M
     \<and> busy (o_blocks (new_block p n False True a)) bs = busy (o_blocks a) bs"
proof -
  note i = heap_invD [OF inv]
  define a1 where "a1 = new_block p n False True a"
  have "x < p \<and> x + 40 \<le> p + n + 40 \<or> p + (n + 40) \<le> x" if "x \<in> set bs" for x
    using tiles_mem [OF i(1) that] p(2) by auto
  then have notin: "p \<notin> set bs \<union> M"
    using region_apart [OF p(1)] by fastforce
  have Cx: "o_blocks a1 x = o_blocks a x" if "x \<in> set bs \<union> M" for x
    using that notin by (auto simp: a1_def new_block_def)
  have ends: "heap_base a1 = heap_base a" "heap_top a1 = heap_top a"
    by (simp_all add: a1_def new_block_def heap_base_def heap_top_def)
  have t: "tiles (o_blocks a1) (o_footers a1) (heap_base a1) bs (heap_top a1)"
    unfolding ends
  proof (rule tiles_cong [OF _ _ i(1)])
    show "shape (o_blocks a1) b = shape (o_blocks a) b" if "b \<in> set bs" for b
      using Cx that by (simp add: shape_def)
  qed (use p(2) in \<open>auto simp: a1_def new_block_def\<close>)
  have "mapped_ok (o_blocks a1) (heap_base a) (heap_top a) M"
    by (rule mapped_eq_cong [OF i(9)]) (use Cx in auto)
  moreover have "m + 40 + bsz (o_blocks a1) m \<le> p \<or> p + 40 + n \<le> m" if "m \<in> M" for m
    using region_apart [OF p(1) that] Cx that by (simp add: bsz_def)
  ultimately have "mapped_ok (o_blocks a1) (heap_base a) (heap_top a) (insert p M)"
    using p by (intro mapped_insert [where k = "\<lparr>b_size = n, b_free = False, b_mapped = True, b_next = None\<rparr>"])
      (auto simp: a1_def new_block_def region_ok_def)
  then have M: "mapped_ok (o_blocks a1) (heap_base a1) (heap_top a1) (insert p M)"
    by (simp only: ends)
  have "heap_inv a1 bs fs (insert p M) {} \<and> busy (o_blocks a1) bs = (set bs - set bs) \<union> busy (o_blocks a) bs"
    by (rule new_block_inv [OF inv notin _ a1_def t M]) (use i in \<open>simp_all add: ends, simp_all add: a1_def new_block_def\<close>)
  then show ?thesis
    using notin by (simp add: a1_def)
qed

section \<open>Allocation\<close>

text \<open>A block of the operating system.\<close>

lemma new_block_old_inv:
  assumes inv: "old_inv a bs fs M" and sys: "sys_ok sys a M" and p: "p \<noteq> SYS_FAILED"
    "p = (if mp then sys_mmap sys (n + 40) else sys_sbrk sys (n + 40))"
  shows "\<exists>bs' M'. old_inv (new_block p n False mp a) bs' fs M' \<and> p \<notin> held (o_blocks a) bs M
        \<and> held (o_blocks (new_block p n False mp a)) bs' M' = insert p (held (o_blocks a) bs M)"
proof -
  have reg: "region_ok a M p (n + 40)"
    using sys p unfolding sys_ok_def by (cases mp) auto
  have h: "heap_inv a bs fs M {}" and adj: "successively (not_both (o_blocks a)) bs"
    using inv by (simp_all add: old_inv_def)
  have np: "\<not> isfree (o_blocks (new_block p n False mp a)) p"
    by (simp add: new_block_def)
  have sep: "successively (not_both (o_blocks (new_block p n False mp a))) bs" if "p \<notin> set bs"
  proof -
    have "successively (not_both (o_blocks (new_block p n False mp a))) bs = successively (not_both (o_blocks a)) bs"
      by (rule not_both_cong, rule isfree_cong) (use that in \<open>auto simp: new_block_def\<close>)
    then show ?thesis
      using adj by blast
  qed
  show ?thesis
  proof (cases mp)
    case True
    then have "p + (n + 40) \<le> heap_base a \<or> heap_top a \<le> p"
      using sys p unfolding sys_ok_def by auto
    note new = new_mmap_block_inv [OF h reg this]
    have "successively (not_both (o_blocks (new_block p n False True a))) bs"
      using sep new True by simp
    then show ?thesis
      using new True by (intro exI [of _ bs] exI [of _ "insert p M"]) (auto simp: old_inv_def held_def busy_def)
  next
    case False
    then have "\<forall>e. o_brk_heap_end a = Some e \<longrightarrow> p = e"
      using sys p unfolding sys_ok_def by auto
    note new = new_brk_block_inv [OF h reg this]
    have "successively (not_both (o_blocks (new_block p n False False a))) bs"
      using sep new False by simp
    then show ?thesis
      using new False np by (intro exI [of _ "bs @ [p]"] exI [of _ M])
        (auto simp: old_inv_def held_def busy_def successively_append_iff)
  qed
qed

lemma create_block_spec:
  assumes inv: "old_inv a bs fs M" and sys: "sys_ok sys a M" and n: "n + 40 < 18446744073709551616"
  shows "create_block sys n False mp None a = Some (None, a) \<or>
     (\<exists>b a' bs' M'. create_block sys n False mp None a = Some (Some b, a') \<and> old_inv a' bs' fs M'
        \<and> b \<notin> held (o_blocks a) bs M \<and> held (o_blocks a') bs' M' = insert b (held (o_blocks a) bs M)
        \<and> bsz (o_blocks a') b = n \<and> b + 40 + n < 18446744073709551616 \<and> (\<forall>x. x \<noteq> b \<longrightarrow> o_blocks a' x = o_blocks a x))"
proof -
  define p where "p = (if mp then sys_mmap sys (n + 40) else sys_sbrk sys (n + 40))"
  show ?thesis
  proof (cases "p = SYS_FAILED")
    case True
    then show ?thesis
      using create_block_run [of mp sys n p False a] n by (simp add: p_def)
  next
    case False
    have "region_ok a M p (n + 40)"
      using sys False unfolding sys_ok_def p_def by (cases mp) auto
    then have fit: "p + n + 40 < 18446744073709551616"
      by (simp add: region_ok_def)
    have "create_block sys n False mp None a = Some (Some p, new_block p n False mp a)"
      using create_block_run [of mp sys n p False a] n fit False by (simp add: p_def)
    moreover have "p + 40 + n < 18446744073709551616"
      using fit by linarith
    moreover have "bsz (o_blocks (new_block p n False mp a)) p = n" "\<forall>x. x \<noteq> p \<longrightarrow> o_blocks (new_block p n False mp a) x = o_blocks a x"
      by (simp_all add: new_block_def)
    ultimately show ?thesis
      using new_block_old_inv [OF inv sys False p_def] by blast
  qed
qed

lemma fits_avail:
  assumes "old_inv a bs fs M" "x \<in> set fs" "fits (o_blocks a) n x"
  shows "n \<le> o_available_bytes a"
proof -
  have x: "x \<in> set bs" "isfree (o_blocks a) x"
    using free_not_held [OF assms(1,2)] by simp_all
  then obtain xs ys where "bs = xs @ x # ys"
    by (meson split_list)
  then have "bsz (o_blocks a) x \<le> o_available_bytes a"
    using assms(1) x(2) by (simp add: old_inv_def heap_inv_def)
  then show ?thesis
    using assms(3) by (simp add: fits_def)
qed

lemma search_free_inv:
  assumes "old_inv a bs fs M"
  shows "search_free n a = (case List.find (fits (o_blocks a) n) (search_order (o_prev_search_end a) fs) of
      Some c \<Rightarrow> Some (Some (pred_in fs c, c))
    | None \<Rightarrow> if search_ends (o_prev_search_end a) fs then Some None else None)"
    and "List.find (fits (o_blocks a) n) (search_order (o_prev_search_end a) fs) = Some c \<Longrightarrow> c \<in> set fs \<and> fits (o_blocks a) n c"
    and "List.find (fits (o_blocks a) n) (search_order (o_prev_search_end a) fs) = None \<longleftrightarrow> (\<forall>x\<in>set fs. \<not> fits (o_blocks a) n x)"
proof -
  note i = heap_invD [OF assms [unfolded old_inv_def, THEN conjunct1]]
  show "search_free n a = (case List.find (fits (o_blocks a) n) (search_order (o_prev_search_end a) fs) of
      Some c \<Rightarrow> Some (Some (pred_in fs c, c))
    | None \<Rightarrow> if search_ends (o_prev_search_end a) fs then Some None else None)"
    by (rule search_free_spec [OF i(3,4,8)])
  note set = search_order_set [OF i(4,8)]
  show "List.find (fits (o_blocks a) n) (search_order (o_prev_search_end a) fs) = Some c \<Longrightarrow> c \<in> set fs \<and> fits (o_blocks a) n c"
    by (auto simp: find_Some_iff set [symmetric])
  show "List.find (fits (o_blocks a) n) (search_order (o_prev_search_end a) fs) = None \<longleftrightarrow> (\<forall>x\<in>set fs. \<not> fits (o_blocks a) n x)"
    by (auto simp: find_None_iff set)
qed

text \<open>From the free list: the next fit. Otherwise from the operating system.\<close>

lemma allocate_takes:
  assumes inv: "old_inv a bs fs M"
    and c: "List.find (fits (o_blocks a) n) (search_order (o_prev_search_end a) fs) = Some c"
  shows "\<exists>us vs. fs = us @ c # vs \<and> old_allocate sys n a = take_block (pred_of us) c n a \<and> n \<le> bsz (o_blocks a) c"
proof -
  note s = search_free_inv [OF inv, of n]
  have fs: "c \<in> set fs" "fits (o_blocks a) n c"
    using s(2) c by auto
  obtain us vs where sp: "fs = us @ c # vs"
    using fs(1) by (meson split_list)
  have "distinct fs"
    using inv by (simp add: old_inv_def heap_inv_def)
  then have "search_free n a = Some (Some (pred_of us, c))"
    using s(1) c sp pred_in_split [of us c vs] by simp
  moreover have "n \<le> o_available_bytes a"
    by (rule fits_avail [OF inv fs])
  ultimately have "old_allocate sys n a = take_block (pred_of us) c n a"
    by (simp add: old_allocate_def)
  then show ?thesis
    using sp fs(2) by (auto simp: fits_def)
qed

lemma allocate_from_list:
  assumes inv: "old_inv a bs fs M"
    and c: "List.find (fits (o_blocks a) n) (search_order (o_prev_search_end a) fs) = Some c"
  shows "\<exists>a' bs' fs'. old_allocate sys n a = Some (c + 24, a') \<and> old_inv a' bs' fs' M \<and> c \<in> set fs
     \<and> held (o_blocks a') bs' M = insert c (held (o_blocks a) bs M) \<and> n \<le> bsz (o_blocks a') c
     \<and> (\<forall>x\<in>held (o_blocks a) bs M. o_blocks a' x = o_blocks a x)
     \<and> o_brk_heap_start a' = o_brk_heap_start a \<and> o_brk_heap_end a' = o_brk_heap_end a"
proof -
  obtain us vs where t: "fs = us @ c # vs" "old_allocate sys n a = take_block (pred_of us) c n a" "n \<le> bsz (o_blocks a) c"
    using allocate_takes [OF inv c] by blast
  then show ?thesis
    using take_block_spec [of a bs us c vs M n] inv by (force simp: held_def)
qed

lemma allocate_from_system:
  assumes inv: "old_inv a bs fs M" and none: "\<forall>x\<in>set fs. \<not> fits (o_blocks a) n x"
    and ends: "n \<le> o_available_bytes a \<Longrightarrow> search_ends (o_prev_search_end a) fs"
  shows "old_allocate sys n a = do {
      (b, a1) \<leftarrow> create_block sys n False (MMAP_THRESHOLD \<le> n) None a;
      case b of None \<Rightarrow> Some (SYS_FAILED, a1) | Some b \<Rightarrow> Some (u64 (b + header_size), a1) }"
proof -
  have "n \<le> o_available_bytes a \<Longrightarrow> search_free n a = Some None"
    using search_free_inv [OF inv, of n] none ends by simp
  then show ?thesis
    by (simp add: old_allocate_def)
qed

lemma old_allocate_spec:
  assumes inv: "old_inv a bs fs M" and sys: "sys_ok sys a M" and n: "n + 40 < 18446744073709551616"
    and ends: "(\<exists>x\<in>set fs. fits (o_blocks a) n x) \<or> o_available_bytes a < n \<or> search_ends (o_prev_search_end a) fs"
  shows "\<exists>r a' bs' fs' M'. old_allocate sys n a = Some (r, a') \<and> old_inv a' bs' fs' M'
     \<and> (if r = SYS_FAILED then a' = a \<and> bs' = bs \<and> fs' = fs \<and> M' = M \<and> (\<forall>x\<in>set fs. \<not> fits (o_blocks a) n x)
        else \<exists>b. r = b + 24 \<and> b \<notin> held (o_blocks a) bs M \<and> held (o_blocks a') bs' M' = insert b (held (o_blocks a) bs M)
           \<and> n \<le> bsz (o_blocks a') b \<and> (\<forall>x\<in>held (o_blocks a) bs M. o_blocks a' x = o_blocks a x))"
proof (cases "\<exists>x\<in>set fs. fits (o_blocks a) n x")
  case True
  then obtain c where c: "List.find (fits (o_blocks a) n) (search_order (o_prev_search_end a) fs) = Some c"
    using search_free_inv(3) [OF inv, of n] by fastforce
  have "c \<in> set fs"
    using search_free_inv(2) [OF inv c] by simp
  then have "c \<in> set bs" "c \<notin> held (o_blocks a) bs M"
    using free_not_held [OF inv] by blast+
  then have "c + 24 \<noteq> SYS_FAILED"
    using tiles_mem [OF heap_invD(1) [of a bs fs M "{}"], of c] heap_invD(2) [of a bs fs M "{}"] inv
    by (fastforce simp: old_inv_def SYS_FAILED_def)
  then show ?thesis
    using allocate_from_list [OF inv c, of sys] \<open>c \<notin> held (o_blocks a) bs M\<close> by fastforce
next
  case False
  then have run: "old_allocate sys n a = do {
      (b, a1) \<leftarrow> create_block sys n False (MMAP_THRESHOLD \<le> n) None a;
      case b of None \<Rightarrow> Some (SYS_FAILED, a1) | Some b \<Rightarrow> Some (u64 (b + header_size), a1) }"
    using allocate_from_system [OF inv, of n sys] ends by auto
  from create_block_spec [OF inv sys n, of "MMAP_THRESHOLD \<le> n"] show ?thesis
  proof (elim disjE exE conjE)
    assume "create_block sys n False (MMAP_THRESHOLD \<le> n) None a = Some (None, a)"
    then show ?thesis
      using run inv False by (intro exI [of _ SYS_FAILED] exI [of _ a] exI) auto
  next
    fix b a' bs' M'
    assume new: "create_block sys n False (MMAP_THRESHOLD \<le> n) None a = Some (Some b, a')" "old_inv a' bs' fs M'"
        "b \<notin> held (o_blocks a) bs M" "held (o_blocks a') bs' M' = insert b (held (o_blocks a) bs M)"
        "bsz (o_blocks a') b = n" "b + 40 + n < 18446744073709551616" "\<forall>x. x \<noteq> b \<longrightarrow> o_blocks a' x = o_blocks a x"
    then have "old_allocate sys n a = Some (b + 24, a')" "b + 24 \<noteq> SYS_FAILED"
      using run by (simp_all add: sizes u64_id SYS_FAILED_def)
    then show ?thesis
      using new by (intro exI [of _ "b + 24"] exI [of _ a'] exI [of _ bs'] exI [of _ fs] exI [of _ M']) auto
  qed
qed

text \<open>Where \<open>allocate\<close> has returned, the search has ended.\<close>

lemma allocate_ended:
  assumes inv: "old_inv a bs fs M" and run: "old_allocate sys n a = Some r"
  shows "(\<exists>x\<in>set fs. fits (o_blocks a) n x) \<or> o_available_bytes a < n \<or> search_ends (o_prev_search_end a) fs"
proof (rule ccontr)
  assume no: "\<not> ?thesis"
  then have "search_free n a = None"
    using search_free_inv(1,3) [OF inv, of n] by simp
  then show False
    using run no by (simp add: old_allocate_def)
qed

text \<open>Small requests get no mapping of their own.\<close>

lemma allocate_unmapped:
  assumes inv: "old_inv a bs fs M" and sys: "sys_ok sys a M" and n: "n < MMAP_THRESHOLD"
    and run: "old_allocate sys n a = Some (r, a')" "r \<noteq> SYS_FAILED"
  shows "\<exists>k. o_blocks a' (r - 24) = Some k \<and> \<not> b_mapped k"
proof (cases "List.find (fits (o_blocks a) n) (search_order (o_prev_search_end a) fs)")
  case (Some c)
  from allocate_from_list [OF inv Some, of sys] obtain bs' fs' where a': "r = c + 24" "old_inv a' bs' fs' M" "c \<in> set fs"
      "held (o_blocks a') bs' M = insert c (held (o_blocks a) bs M)"
    using run(1) by auto
  have "c \<in> held (o_blocks a') bs' M" "c \<notin> M"
    using a'(4) free_not_held [OF inv a'(3)] by (auto simp: held_def)
  then have "c \<in> set bs'"
    by (simp add: held_def busy_def)
  then show ?thesis
    using tiles_mem [of "o_blocks a'" "o_footers a'" "heap_base a'" bs' "heap_top a'" c] a'(1,2)
    by (auto simp: old_inv_def heap_inv_def)
next
  case None
  then have none: "\<forall>x\<in>set fs. \<not> fits (o_blocks a) n x"
    using search_free_inv(3) [OF inv, of n] by simp
  then have "old_allocate sys n a = do {
      (b, a1) \<leftarrow> create_block sys n False False None a;
      case b of None \<Rightarrow> Some (SYS_FAILED, a1) | Some b \<Rightarrow> Some (u64 (b + header_size), a1) }"
    using allocate_from_system [OF inv none, of sys] allocate_ended [OF inv run(1)] n by auto
  moreover have n40: "n + 40 < 18446744073709551616"
    using n by (simp add: MMAP_THRESHOLD_def)
  let ?p = "sys_sbrk sys (n + 40)"
  have fit: "?p \<noteq> SYS_FAILED \<Longrightarrow> ?p + n + 40 < 18446744073709551616"
    using sys by (auto simp: sys_ok_def region_ok_def)
  have "create_block sys n False False None a = (if ?p = SYS_FAILED then Some (None, a) else Some (Some ?p, new_block ?p n False False a))"
    by (rule create_block_run) (use n40 fit in simp_all)
  ultimately show ?thesis
    using run fit by (cases "?p = SYS_FAILED") (auto simp: sizes u64_id new_block_def)
qed

end
