(* ===== verification/Old_Design_Free.thy ===== *)
theory Old_Design_Free
  imports Old_Design_Contract
begin

text \<open>
  Deallocation in the old design: a mapping is given back, the last block of the program break
  shrinks it, any other block returns to the free list. The destructor hands every free block to
  the same function; it ends only when the free list is empty or holds just the last block.
\<close>

section \<open>Giving memory back to the system\<close>

lemma tiles_snoc:
  "tiles B F s (xs @ [b]) e \<longleftrightarrow> (\<exists>n. tiles B F s xs b \<and> shape B b = Some (n, False)
     \<and> F (b + 24 + n) = Some \<lparr>f_size = n, f_mapped = False\<rparr> \<and> e = b + 40 + n)"
  by (auto simp: tiles_append)

lemma unmap_sel [simp]:
  "o_free_list (unmap lo hi a) = o_free_list a" "o_prev_search_end (unmap lo hi a) = o_prev_search_end a"
  "o_available_bytes (unmap lo hi a) = o_available_bytes a" "o_brk_heap_start (unmap lo hi a) = o_brk_heap_start a"
  "o_brk_heap_end (unmap lo hi a) = o_brk_heap_end a" "heap_base (unmap lo hi a) = heap_base a" "heap_top (unmap lo hi a) = heap_top a"
  by (simp_all add: unmap_def heap_base_def heap_top_def)

lemma unmap_blocks: "\<not> (lo \<le> x \<and> x < hi) \<Longrightarrow> o_blocks (unmap lo hi a) x = o_blocks a x"
  by (auto simp: unmap_def)

lemma unmap_footers: "\<not> (lo \<le> x \<and> x < hi) \<Longrightarrow> o_footers (unmap lo hi a) x = o_footers a x"
  by (auto simp: unmap_def)

text \<open>Taking away a part of the memory that holds no block in use.\<close>

lemma shrink_inv:
  assumes t: "tiles (o_blocks a) (o_footers a) (heap_base a) bs e"
    and i: "path (o_blocks a) (o_free_list a) fs None" "distinct fs" "{b \<in> set bs. isfree (o_blocks a) b} = set fs"
      "o_available_bytes a = fsum (o_blocks a) bs"
      "o_prev_search_end a = None \<or> (\<exists>e\<in>set fs. o_prev_search_end a = Some e)" "successively (not_both (o_blocks a)) bs"
      "mapped_ok (o_blocks a) (heap_base a) e M" "e < 18446744073709551616"
      "o_brk_heap_start a = None \<longleftrightarrow> o_brk_heap_end a = None" "o_brk_heap_start a \<noteq> Some 0"
    and out: "hi \<le> heap_base a \<or> e \<le> lo" "\<And>m. m \<in> M \<Longrightarrow> \<not> (lo \<le> m \<and> m < hi)"
    and a': "\<And>x. \<not> (lo \<le> x \<and> x < hi) \<Longrightarrow> o_blocks a' x = o_blocks a x"
      "\<And>x. \<not> (lo \<le> x \<and> x < hi) \<Longrightarrow> o_footers a' x = o_footers a x"
      "o_free_list a' = o_free_list a" "o_prev_search_end a' = o_prev_search_end a"
      "o_available_bytes a' = o_available_bytes a" "o_brk_heap_start a' = o_brk_heap_start a"
      "heap_top a' = e" "o_brk_heap_end a' = None \<longleftrightarrow> o_brk_heap_end a = None"
  shows "old_inv a' bs fs M \<and> (\<forall>x\<in>set bs \<union> M. o_blocks a' x = o_blocks a x)"
proof -
  have base: "heap_base a' = heap_base a"
    using a'(6) by (simp add: heap_base_def)
  have same: "o_blocks a' x = o_blocks a x" if "x \<in> set bs \<union> M" for x
  proof -
    have "x \<in> set bs \<Longrightarrow> heap_base a \<le> x \<and> x < e"
      using tiles_mem [OF t, of x] by auto
    then show ?thesis
      using out that a'(1) [of x] by fastforce
  qed
  have fsbs: "x \<in> set fs \<Longrightarrow> x \<in> set bs" for x
    using i(3) by blast
  have fr: "isfree (o_blocks a') x = isfree (o_blocks a) x" if "x \<in> set bs" for x
    using same that by (simp add: isfree_def)
  have "heap_inv a' bs fs M {}"
  proof (rule heap_invI, unfold base a'(3-7))
    show "tiles (o_blocks a') (o_footers a') (heap_base a) bs e"
      by (rule tiles_cong [OF _ _ t]) (use same a'(2) out(1) in \<open>auto simp: shape_def\<close>)
    show "o_available_bytes a = fsum (o_blocks a') bs"
      using i(4) fsum_same [of bs "o_blocks a'" "o_blocks a"] same by simp
    show "path (o_blocks a') (o_free_list a) fs None"
      using i(1) path_cong [of fs "o_blocks a'" "o_blocks a"] same fsbs by auto
    show "{b \<in> set bs. isfree (o_blocks a') b} = set fs \<union> {}"
      using fr unfolding i(3) [symmetric] by auto
    show "mapped_ok (o_blocks a') (heap_base a) e M"
      by (rule mapped_eq_cong [OF i(7)]) (use same in auto)
  qed (use i a'(8) in auto)
  moreover have "successively (not_both (o_blocks a')) bs = successively (not_both (o_blocks a)) bs"
    by (rule not_both_cong) (rule fr)
  ultimately show ?thesis
    using i(6) same unfolding old_inv_def by blast
qed

lemma busy_same: "(\<And>x. x \<in> set bs \<Longrightarrow> B' x = B x) \<Longrightarrow> busy B' bs = busy B bs"
  by (auto simp: busy_def isfree_def)

lemma mapped_apart:
  assumes "mapped_ok B s e M" "m \<in> M" "m' \<in> M" "m \<noteq> m'" "B m = Some k"
  shows "\<not> (m \<le> m' \<and> m' < m + 40 + b_size k)"
proof
  assume "m \<le> m' \<and> m' < m + 40 + b_size k"
  moreover from this have "m < m'"
    using assms(4) by simp
  ultimately show False
    using assms by (fastforce simp: mapped_ok_def)
qed

text \<open>A block with a mapping of its own.\<close>

lemma munmap_inv:
  assumes inv: "old_inv a bs fs M" and m: "m \<in> M" "o_blocks a m = Some k"
  shows "old_inv (unmap m (m + 40 + b_size k) a) bs fs (M - {m})
     \<and> (\<forall>x\<in>set bs \<union> (M - {m}). o_blocks (unmap m (m + 40 + b_size k) a) x = o_blocks a x)"
proof -
  note i = heap_invD [OF inv [unfolded old_inv_def, THEN conjunct1]]
  have M: "mapped_ok (o_blocks a) (heap_base a) (heap_top a) (M - {m})"
    using i(9) by (simp add: mapped_ok_def)
  show ?thesis
  proof (rule shrink_inv [where e = "heap_top a", OF i(1,3,4) _ i(7,8) _ M i(2,10,11)])
    show "m + 40 + b_size k \<le> heap_base a \<or> heap_top a \<le> m"
      using i(9) m by (fastforce simp: mapped_ok_def)
    show "\<And>x. x \<in> M - {m} \<Longrightarrow> \<not> (m \<le> x \<and> x < m + 40 + b_size k)"
      using mapped_apart [OF i(9) m(1) _ _ m(2)] by blast
    show "successively (not_both (o_blocks a)) bs"
      using inv by (simp add: old_inv_def)
  qed (use i(5) in \<open>auto simp: unmap_blocks unmap_footers\<close>)
qed

text \<open>The last block of the program break.\<close>

lemma brk_inv:
  assumes inv: "heap_inv a (xs @ [b]) fs M {}" and adj: "successively (not_both (o_blocks a)) xs"
    and b: "o_blocks a b = Some k" "\<not> b_free k"
  shows "old_inv ((unmap b (b + 40 + b_size k) a)\<lparr>o_brk_heap_end := Some b\<rparr>) xs fs M
     \<and> (\<forall>x\<in>set xs \<union> M. o_blocks (unmap b (b + 40 + b_size k) a) x = o_blocks a x)"
proof -
  note i = heap_invD [OF inv]
  obtain n where n: "tiles (o_blocks a) (o_footers a) (heap_base a) xs b" "heap_top a = b + 40 + b_size k"
    using i(1) b(1) by (auto simp: tiles_snoc)
  let ?a = "(unmap b (b + 40 + b_size k) a)\<lparr>o_brk_heap_end := Some b\<rparr>"
  have "b \<notin> set xs"
    using tiles_distinct [OF i(1)] by simp
  have e: "o_brk_heap_end a \<noteq> None"
    using n(2) by (auto simp: heap_top_def split: option.splits)
  have M: "mapped_ok (o_blocks a) (heap_base a) b M"
    using i(9) n(2) unfolding mapped_ok_def by (metis (no_types, lifting) add_leD1)
  have "old_inv ?a xs fs M \<and> (\<forall>x\<in>set xs \<union> M. o_blocks ?a x = o_blocks a x)"
  proof (rule shrink_inv [OF n(1) i(3,4) _ _ i(8) adj M])
    have "{x \<in> set xs. isfree (o_blocks a) x} = {x \<in> set (xs @ [b]). isfree (o_blocks a) x}"
      using b by auto
    then show "{x \<in> set xs. isfree (o_blocks a) x} = set fs"
      using i(5) by simp
    show "o_available_bytes a = fsum (o_blocks a) xs"
      using i(7) b by simp
    show "\<And>m. m \<in> M \<Longrightarrow> \<not> (b \<le> m \<and> m < b + 40 + b_size k)"
      using mapped_outside [OF i(9)] n(2) tiles_le [OF n(1)] by fastforce
    show "heap_top ?a = b"
      by (simp add: heap_top_def)
  qed (use i n(2) e in \<open>auto simp: unmap_blocks unmap_footers heap_base_def\<close>)
  then show ?thesis
    by simp
qed

section \<open>Deallocating a block the program holds\<close>

lemma held_block:
  assumes inv: "old_inv a bs fs M" and b: "b \<in> held (o_blocks a) bs M"
  shows "\<exists>k. o_blocks a b = Some k \<and> \<not> b_free k \<and> 0 < b \<and> b + 40 + b_size k < 18446744073709551616
     \<and> block_span k = 40 + b_size k \<and> block_end b k = b + 40 + b_size k
     \<and> (b_mapped k \<and> b \<in> M \<and> b \<notin> set bs \<or> \<not> b_mapped k \<and> b \<in> set bs \<and> b \<notin> M)"
proof -
  have h: "heap_inv a bs fs M {}"
    using inv by (simp add: old_inv_def)
  note i = heap_invD [OF h]
  show ?thesis
  proof (cases "b \<in> M")
    case True
    then obtain k where "o_blocks a b = Some k" "b_mapped k" "\<not> b_free k" "0 < b" "b + 40 + b_size k < 18446744073709551616"
      using i(9) by (auto simp: mapped_ok_def)
    then show ?thesis
      using True mapped_not_in_heap [OF h True] by (simp add: block_span_def block_end_def sizes u64_id)
  next
    case False
    then have b': "b \<in> set bs" "\<not> isfree (o_blocks a) b"
      using b by (auto simp: held_def busy_def)
    then obtain xs ys where "bs = xs @ b # ys"
      by (meson split_list)
    with h heap_block [of a xs b ys fs M "{}"] i(2) b' False show ?thesis
      by force
  qed
qed

lemma dealloc_run:
  assumes "o_blocks a b = Some k" "\<not> b_free k"
  shows "deallocate_block sys (Some b) a =
    (if b_mapped k
     then Some (if sys_munmap sys b (block_span k) then (True, unmap b (b + block_span k) a) else (False, a))
     else if Some (block_end b k) \<noteq> o_brk_heap_end a
     then map_option (\<lambda>(_, a'). (True, a')) (return_back_unlocked (Some b) a)
     else Some (if sys_brk sys b then (True, (unmap b (block_end b k) a)\<lparr>o_brk_heap_end := Some b\<rparr>) else (False, a)))"
  using assms unfolding deallocate_block_def by (cases "return_back_unlocked (Some b) a") auto

text \<open>What is promised of a state \<open>a'\<close> after \<open>b\<close> has been given back.\<close>

definition gave_back :: "OldAllocator \<Rightarrow> addr list \<Rightarrow> addr set \<Rightarrow> addr \<Rightarrow> OldAllocator \<Rightarrow> bool" where
  "gave_back a bs M b a' \<longleftrightarrow> (\<exists>bs' fs' M'. old_inv a' bs' fs' M'
     \<and> held (o_blocks a') bs' M' = held (o_blocks a) bs M - {b}
     \<and> (\<forall>x\<in>held (o_blocks a) bs M - {b}. o_blocks a' x = o_blocks a x))"

lemma gave_back_mapped:
  assumes inv: "old_inv a bs fs M" and b: "b \<in> M" "b \<notin> set bs" "o_blocks a b = Some k"
  shows "gave_back a bs M b (unmap b (b + 40 + b_size k) a)"
proof -
  note m = munmap_inv [OF inv b(1,3)]
  have "busy (o_blocks (unmap b (b + 40 + b_size k) a)) bs = busy (o_blocks a) bs"
    by (rule busy_same) (use m in blast)
  moreover have "b \<notin> busy (o_blocks a) bs" "busy (o_blocks a) bs \<subseteq> set bs"
    using b(2) by (auto simp: busy_def)
  ultimately have "held (o_blocks (unmap b (b + 40 + b_size k) a)) bs (M - {b}) = held (o_blocks a) bs M - {b}"
      "held (o_blocks a) bs M - {b} \<subseteq> set bs \<union> (M - {b})"
    unfolding held_def by blast+
  then show ?thesis
    using m unfolding gave_back_def by (intro exI [of _ bs] exI [of _ fs] exI [of _ "M - {b}"]) (simp add: subset_iff)
qed

lemma gave_back_inner:
  assumes inv: "old_inv a bs fs M" and b: "b \<in> set bs" "b \<notin> M" "\<not> isfree (o_blocks a) b"
  shows "\<exists>a'. return_back_unlocked (Some b) a = Some (True, a') \<and> gave_back a bs M b a'"
proof -
  obtain a' bs' fs' where r: "return_back_unlocked (Some b) a = Some (True, a')" "old_inv a' bs' fs' M"
      "busy (o_blocks a') bs' = busy (o_blocks a) bs - {b}"
      "\<forall>x. \<not> isfree (o_blocks a) x \<longrightarrow> x \<noteq> b \<longrightarrow> o_blocks a' x = o_blocks a x"
    using return_back_spec [OF inv b(1,3)] by blast
  have "\<not> isfree (o_blocks a) x" if "x \<in> held (o_blocks a) bs M" for x
    using held_block [OF inv that] by auto
  then show ?thesis
    using r b(2) unfolding gave_back_def
    by (intro exI [of _ a'] conjI exI [of _ bs'] exI [of _ fs'] exI [of _ M]) (auto simp: held_def)
qed

lemma gave_back_tail:
  assumes inv: "old_inv a bs fs M" and b: "b \<in> set bs" "b \<notin> M" "o_blocks a b = Some k" "\<not> b_free k"
    and e: "o_brk_heap_end a = Some (b + 40 + b_size k)"
  shows "gave_back a bs M b ((unmap b (b + 40 + b_size k) a)\<lparr>o_brk_heap_end := Some b\<rparr>)"
proof -
  obtain xs ys where bs: "bs = xs @ b # ys" "heap_inv a (xs @ b # ys) fs M {}" "successively (not_both (o_blocks a)) xs"
    using old_inv_focus [OF inv b(1)] by metis
  have "tiles (o_blocks a) (o_footers a) (b + 40 + b_size k) ys (b + 40 + b_size k)"
    using heap_block [OF bs(2)] b(3) e by (auto simp: heap_top_def)
  then have ys: "ys = []"
    using tiles_mem [of "o_blocks a" "o_footers a" "b + 40 + b_size k" ys "b + 40 + b_size k"] by (cases ys) fastforce+
  note t = brk_inv [OF bs(2) [unfolded ys] bs(3) b(3,4)]
  have "b \<notin> set xs"
    using tiles_distinct [OF heap_invD(1) [OF bs(2)]] by simp
  then have "busy (o_blocks a) bs = insert b (busy (o_blocks a) xs)" "b \<notin> busy (o_blocks a) xs" "busy (o_blocks a) xs \<subseteq> set xs"
    using bs(1) ys b(3,4) by (auto simp: busy_def)
  moreover have "busy (o_blocks (unmap b (b + 40 + b_size k) a)) xs = busy (o_blocks a) xs"
    by (rule busy_same) (use t in blast)
  ultimately have "held (o_blocks (unmap b (b + 40 + b_size k) a)) xs M = held (o_blocks a) bs M - {b}"
      "held (o_blocks a) bs M - {b} \<subseteq> set xs \<union> M"
    using b(2) unfolding held_def by blast+
  then show ?thesis
    using t unfolding gave_back_def by (intro exI [of _ xs] exI [of _ fs] exI [of _ M]) (simp add: subset_iff)
qed

text \<open>The ways the call can go, and that it keeps the promise in each.\<close>

lemma dealloc_held_cases:
  assumes inv: "old_inv a bs fs M" and b: "b \<in> held (o_blocks a) bs M"
  obtains (fail) "deallocate_block sys (Some b) a = Some (False, a)"
    | (mapped) k where "o_blocks a b = Some k" "b \<in> M" "b \<notin> set bs"
        "deallocate_block sys (Some b) a = Some (True, unmap b (b + 40 + b_size k) a)"
    | (inner) "b \<in> set bs" "b \<notin> M" "\<not> isfree (o_blocks a) b"
        "deallocate_block sys (Some b) a = map_option (\<lambda>(_, a'). (True, a')) (return_back_unlocked (Some b) a)"
    | (tail) k where "b \<in> set bs" "b \<notin> M" "o_blocks a b = Some k" "\<not> b_free k" "o_brk_heap_end a = Some (b + 40 + b_size k)"
        "deallocate_block sys (Some b) a = Some (True, (unmap b (b + 40 + b_size k) a)\<lparr>o_brk_heap_end := Some b\<rparr>)"
proof -
  obtain k where k: "o_blocks a b = Some k" "\<not> b_free k" "block_span k = 40 + b_size k" "block_end b k = b + 40 + b_size k"
      "b_mapped k \<and> b \<in> M \<and> b \<notin> set bs \<or> \<not> b_mapped k \<and> b \<in> set bs \<and> b \<notin> M"
    using held_block [OF inv b] by blast
  note run = dealloc_run [OF k(1,2), of sys]
  show thesis
  proof (cases "b_mapped k")
    case True
    then have "b \<in> M" "b \<notin> set bs"
      using k(5) by auto
    then show thesis
      using fail mapped [OF k(1)] run True by (cases "sys_munmap sys b (block_span k)") (simp_all add: k(3) add.assoc)
  next
    case False
    then have b': "b \<in> set bs" "b \<notin> M"
      using k(5) by auto
    show thesis
    proof (cases "Some (block_end b k) = o_brk_heap_end a")
      case True
      then show thesis
        using fail tail [OF b' k(1,2)] run False by (cases "sys_brk sys b") (simp_all add: k(4))
    next
      case ne: False
      show thesis
        by (rule inner [OF b']) (use k(1,2) run False ne in simp_all)
    qed
  qed
qed

lemma dealloc_held:
  assumes inv: "old_inv a bs fs M" and b: "b \<in> held (o_blocks a) bs M"
  shows "\<exists>r a'. deallocate_block sys (Some b) a = Some (r, a') \<and> (if r then gave_back a bs M b a' else a' = a)"
  using inv b
proof (cases rule: dealloc_held_cases [where sys = sys])
  case (mapped k)
  then show ?thesis
    using gave_back_mapped [OF inv mapped(2,3,1)] by auto
next
  case inner
  then show ?thesis
    using gave_back_inner [OF inv inner(1-3)] by auto
next
  case (tail k)
  then show ?thesis
    using gave_back_tail [OF inv tail(1-5)] by auto
qed auto

lemma old_deallocate_spec:
  assumes inv: "old_inv a bs fs M" and b: "b \<in> held (o_blocks a) bs M"
  shows "\<exists>r a' bs' fs' M'. old_deallocate sys (b + 24) a = Some (r, a') \<and> old_inv a' bs' fs' M'
     \<and> (if r then held (o_blocks a') bs' M' = held (o_blocks a) bs M - {b} else a' = a \<and> bs' = bs \<and> fs' = fs \<and> M' = M)
     \<and> (\<forall>x\<in>held (o_blocks a) bs M - {b}. o_blocks a' x = o_blocks a x)"
proof -
  have "sub64 (b + 24) 24 = b" "b \<noteq> 0"
    using held_block [OF inv b] by (auto simp: sub64_id)
  then obtain r a' where "old_deallocate sys (b + 24) a = Some (r, a')" "if r then gave_back a bs M b a' else a' = a"
    using dealloc_held [OF inv b, of sys] by (auto simp: old_deallocate_def sizes)
  then show ?thesis
    using inv by (cases r) (auto simp: gave_back_def)
qed

section \<open>Deallocating the head of the free list\<close>

text \<open>This is what the destructor does. \<open>drop_search_end\<close> is the only trace that unlinking the head
  leaves in the search position.\<close>

definition drop_search_end :: "addr \<Rightarrow> OldAllocator \<Rightarrow> ptr" where
  "drop_search_end b a = (if o_prev_search_end a = Some b then nullptr else o_prev_search_end a)"

lemma unlink_head:
  assumes "o_free_list a = Some b" "o_blocks a b = Some k"
  shows "unlink_free b a = Some (True, a\<lparr>o_blocks := (o_blocks a)(b \<mapsto> k\<lparr>b_free := False, b_next := nullptr\<rparr>),
     o_free_list := b_next k, o_prev_search_end := drop_search_end b a\<rparr>)"
  using assms by (auto simp: unlink_free_def unlink_loop.simps upd_block_def put_block_def drop_search_end_def Let_def)

lemma dealloc_free_run:
  assumes "o_free_list a = Some b" "o_blocks a b = Some k" "b_free k" "\<not> b_mapped k" "b_size k \<le> o_available_bytes a"
    "o_available_bytes a < 18446744073709551616"
    and a1: "a1 = a\<lparr>o_blocks := (o_blocks a)(b \<mapsto> k\<lparr>b_free := False, b_next := nullptr\<rparr>), o_free_list := b_next k,
       o_prev_search_end := drop_search_end b a, o_available_bytes := o_available_bytes a - b_size k\<rparr>"
  shows "deallocate_block sys (Some b) a = deallocate_block sys (Some b) a1"
proof -
  have "sub64 (o_available_bytes a) (b_size k) = o_available_bytes a - b_size k"
    using assms(5,6) by (simp add: sub64_id)
  then show ?thesis
    using assms(2,3) unlink_head [OF assms(1,2)] by (simp add: deallocate_block_def a1)
qed

lemma head_facts:
  assumes inv: "old_inv a bs (b # gs) M"
  obtains k xs ys where "o_blocks a b = Some k" "b_free k" "\<not> b_mapped k" "bs = xs @ b # ys" "heap_inv a (xs @ b # ys) (b # gs) M {}"
    "b_size k \<le> o_available_bytes a" "o_available_bytes a < 18446744073709551616" "o_free_list a = Some b"
    "block_end b k = b + 40 + b_size k" "ys = [] \<longleftrightarrow> o_brk_heap_end a = Some (b + 40 + b_size k)"
    "xs \<noteq> [] \<longrightarrow> \<not> isfree (o_blocks a) (last xs)" "ys \<noteq> [] \<longrightarrow> \<not> isfree (o_blocks a) (hd ys)"
    "successively (not_both (o_blocks a)) xs" "b \<notin> set gs" "path (o_blocks a) (b_next k) gs None"
proof -
  have b: "b \<in> set bs" "isfree (o_blocks a) b"
    using free_not_held [OF inv, of b] by simp_all
  obtain xs ys where bs: "bs = xs @ b # ys" "heap_inv a (xs @ b # ys) (b # gs) M {}" "successively (not_both (o_blocks a)) xs"
    using old_inv_focus [OF inv b(1)] by metis
  note i = heap_invD [OF bs(2)]
  obtain k where k: "o_blocks a b = Some k" "\<not> b_mapped k" "block_end b k = b + 40 + b_size k" "o_brk_heap_end a \<noteq> None"
      "tiles (o_blocks a) (o_footers a) (b + 40 + b_size k) ys (heap_top a)"
    using heap_block [OF bs(2)] by blast
  have "ys = [] \<longleftrightarrow> b + 40 + b_size k = heap_top a"
    using k(5) tiles_mem [OF k(5)] by (cases ys) fastforce+
  then have "ys = [] \<longleftrightarrow> o_brk_heap_end a = Some (b + 40 + b_size k)"
    using k(4) by (auto simp: heap_top_def)
  moreover have "b_size k \<le> o_available_bytes a"
    using i(7) k(1) b(2) by simp
  moreover have "o_available_bytes a < 18446744073709551616"
    using fsum_avail [OF i(1,2)] i(7) by simp
  moreover have "xs \<noteq> [] \<longrightarrow> \<not> isfree (o_blocks a) (last xs)" "ys \<noteq> [] \<longrightarrow> \<not> isfree (o_blocks a) (hd ys)"
    using inv b(2) bs(1) by (auto simp: old_inv_def successively_append_iff successively_Cons)
  moreover have "o_free_list a = Some b" "path (o_blocks a) (b_next k) gs None" "b \<notin> set gs"
    using i(3,4) k(1) by auto
  ultimately show thesis
    using that [of k xs ys] k(1-3) b(2) bs by simp
qed

text \<open>The head is off the list and still marked free.\<close>

lemma unlinked_inv:
  assumes inv: "heap_inv a bs (b # gs) M {}" and "path (o_blocks a) q gs None"
  shows "heap_inv (a\<lparr>o_free_list := q, o_prev_search_end := drop_search_end b a\<rparr>) bs gs M {b}"
  by (rule heap_invI) (use heap_invD [OF inv] assms(2) in \<open>auto simp: heap_base_def heap_top_def drop_search_end_def\<close>)

text \<open>A block between neighbours in use is not merged.\<close>

lemma coalesce_alone:
  assumes inv: "heap_inv a (xs @ b # ys) fs M X"
    and nb: "xs \<noteq> [] \<longrightarrow> \<not> isfree (o_blocks a) (last xs)" "ys \<noteq> [] \<longrightarrow> \<not> isfree (o_blocks a) (hd ys)"
  shows "coalesce_around b a = Some (b, a)"
proof -
  obtain k where k: "o_blocks a b = Some k" "\<not> b_mapped k"
    using heap_block [OF inv] by blast
  have "coalesce_prev b a = Some (b, a)"
  proof (cases xs rule: pred_of_cases)
    case (2 zs p)
    obtain kp where "o_blocks a p = Some kp"
      using tiles_mem [OF heap_invD(1) [OF inv], of p] 2 by auto
    then show ?thesis
      using prev_phys_spec [OF inv] nb(1) k 2 by (simp add: coalesce_prev_def)
  qed (use prev_phys_spec [OF inv] k in \<open>simp add: coalesce_prev_def\<close>)
  then show ?thesis
    using k coalesce_next_stop [OF inv nb(2)] by (simp add: coalesce_around_def)
qed

text \<open>A head that is not the last block of the program break: it is unlinked, not merged with its
  neighbours, as they are in use, and put back in front.\<close>

lemma relist_head:
  assumes inv: "heap_inv a (xs @ b # ys) (b # gs) M {}" and k: "o_blocks a b = Some k" "b_free k"
    and a: "o_free_list a = Some b" "b_size k \<le> o_available_bytes a" "o_available_bytes a < 18446744073709551616" "path (o_blocks a) (b_next k) gs None"
    and nb: "xs \<noteq> [] \<longrightarrow> \<not> isfree (o_blocks a) (last xs)" "ys \<noteq> [] \<longrightarrow> \<not> isfree (o_blocks a) (hd ys)"
  shows "return_back_unlocked (Some b) (a\<lparr>o_blocks := (o_blocks a)(b \<mapsto> k\<lparr>b_free := False, b_next := nullptr\<rparr>), o_free_list := b_next k,
       o_prev_search_end := drop_search_end b a, o_available_bytes := o_available_bytes a - b_size k\<rparr>)
     = Some (True, a\<lparr>o_prev_search_end := drop_search_end b a\<rparr>)"
proof -
  define k2 where "k2 = k\<lparr>b_next := nullptr\<rparr>"
  define a2 where "a2 = a\<lparr>o_blocks := (o_blocks a)(b \<mapsto> k2), o_free_list := b_next k, o_prev_search_end := drop_search_end b a\<rparr>"
  have k2: "k\<lparr>b_free := True, b_next := nullptr\<rparr> = k2" "k2\<lparr>b_next := Some b\<rparr> = k\<lparr>b_next := Some b\<rparr>" "(o_blocks a)(b \<mapsto> k2\<lparr>b_next := b_next k\<rparr>) = o_blocks a"
    using k by (simp_all add: k2_def fun_eq_iff)
  have bg: "b \<in> set (xs @ b # ys)" "b \<notin> set gs" "\<not> b_mapped k"
    using heap_invD(4) [OF inv] heap_block [OF inv] k(1) by auto
  \<comment> \<open>the state in which coalescing is tried, with \<open>b\<close> free and off the list\<close>
  have "heap_inv a2 (xs @ b # ys) gs M (if b_free k2 then insert b {b} else {b} - {b})"
    by (rule put_block_inv [OF unlinked_inv [OF inv a(4)] bg(1) _ bg(2), where k = k]) (use k bg in \<open>auto simp: a2_def k2_def\<close>)
  then have inv2: "heap_inv a2 (xs @ b # ys) gs M {b}"
    using k(2) by (simp add: k2_def)
  have "isfree (o_blocks a2) = isfree (o_blocks a)"
    using k by (auto simp: a2_def k2_def fun_eq_iff)
  then have "coalesce_around b a2 = Some (b, a2)"
    using coalesce_alone [OF inv2] nb by simp
  moreover have "insert_free b a2 = Some (a\<lparr>o_prev_search_end := drop_search_end b a\<rparr>)"
    using a(1) k2(3) by (simp add: insert_free_def upd_block_def put_block_def a2_def)
  moreover have "u64 (o_available_bytes a - b_size k + b_size k) = o_available_bytes a"
    using a(2,3) by (simp add: u64_id)
  moreover have "a\<lparr>o_free_list := b_next k, o_prev_search_end := drop_search_end b a, o_blocks := (o_blocks a)(b \<mapsto> k2)\<rparr> = a2"
    by (cases a) (simp add: a2_def)
  ultimately show ?thesis
    using k2(1) by (simp add: return_back_unlocked_def upd_block_def put_block_def)
qed

lemma dealloc_head_inner:
  assumes inv: "old_inv a bs (b # gs) M" and last: "b \<noteq> last bs"
  shows "deallocate_block sys (Some b) a = Some (True, a\<lparr>o_prev_search_end := drop_search_end b a\<rparr>)"
proof -
  from inv show ?thesis
  proof (rule head_facts)
    fix k xs ys
    assume f: "o_blocks a b = Some k" "b_free k" "\<not> b_mapped k" "bs = xs @ b # ys" "heap_inv a (xs @ b # ys) (b # gs) M {}"
        "b_size k \<le> o_available_bytes a" "o_available_bytes a < 18446744073709551616" "o_free_list a = Some b"
        "block_end b k = b + 40 + b_size k" "ys = [] \<longleftrightarrow> o_brk_heap_end a = Some (b + 40 + b_size k)"
        "xs \<noteq> [] \<longrightarrow> \<not> isfree (o_blocks a) (last xs)" "ys \<noteq> [] \<longrightarrow> \<not> isfree (o_blocks a) (hd ys)"
        "path (o_blocks a) (b_next k) gs None"
    define k1 where "k1 = k\<lparr>b_free := False, b_next := nullptr\<rparr>"
    define a1 where "a1 = a\<lparr>o_blocks := (o_blocks a)(b \<mapsto> k1), o_free_list := b_next k,
       o_prev_search_end := drop_search_end b a, o_available_bytes := o_available_bytes a - b_size k\<rparr>"
    have "return_back_unlocked (Some b) a1 = Some (True, a\<lparr>o_prev_search_end := drop_search_end b a\<rparr>)"
      unfolding a1_def k1_def by (rule relist_head [OF f(5,1,2,8,6,7,13,11,12)])
    moreover have "deallocate_block sys (Some b) a = deallocate_block sys (Some b) a1"
      by (rule dealloc_free_run [OF f(8,1-3,6,7)]) (simp add: a1_def k1_def)
    moreover have "ys \<noteq> []"
      using last f(4) by auto
    then have "o_brk_heap_end a1 \<noteq> Some (block_end b k1)" "o_blocks a1 b = Some k1" "\<not> b_free k1" "\<not> b_mapped k1"
      using f(3,9,10) by (simp_all add: a1_def k1_def block_end_def block_span_def)
    ultimately show ?thesis
      using dealloc_run [of a1 b k1 sys] by auto
  qed
qed

text \<open>A head that is the last block shrinks the program break (or stays, unlinked, when \<open>brk\<close>
  fails). The block that is last then is not free.\<close>

lemma unlinked_last:
  assumes inv: "heap_inv a (xs @ [b]) (b # gs) M {}" and k: "o_blocks a b = Some k" "b_free k" "b_size k \<le> o_available_bytes a"
    and p: "path (o_blocks a) (b_next k) gs None" and adj: "successively (not_both (o_blocks a)) xs" "xs \<noteq> [] \<longrightarrow> \<not> isfree (o_blocks a) (last xs)"
    and a1: "a1 = a\<lparr>o_blocks := (o_blocks a)(b \<mapsto> k\<lparr>b_free := False, b_next := nullptr\<rparr>), o_free_list := b_next k,
       o_prev_search_end := drop_search_end b a, o_available_bytes := o_available_bytes a - b_size k\<rparr>"
  shows "heap_inv a1 (xs @ [b]) gs M {} \<and> successively (not_both (o_blocks a1)) (xs @ [b])"
proof -
  let ?k = "k\<lparr>b_free := False, b_next := nullptr\<rparr>"
  have bg: "b \<in> set (xs @ [b])" "b \<notin> set gs" "\<not> b_mapped k" "b \<notin> set xs"
    using heap_invD(4) [OF inv] heap_block [OF inv] k(1) tiles_distinct [OF heap_invD(1) [OF inv]] by auto
  have "heap_inv a1 (xs @ [b]) gs M (if b_free ?k then insert b {b} else {b} - {b})"
    by (rule put_block_inv [OF unlinked_inv [OF inv p] bg(1) _ bg(2), where k = k]) (use k bg in \<open>auto simp: a1\<close>)
  moreover have fr: "isfree (o_blocks a1) = (isfree (o_blocks a))(b := False)"
    by (simp add: a1)
  moreover have "successively (not_both (o_blocks a1)) xs = successively (not_both (o_blocks a)) xs"
    by (rule not_both_cong) (use bg in \<open>auto simp: fr\<close>)
  ultimately show ?thesis
    using adj by (simp add: successively_append_iff)
qed

lemma dealloc_head_last:
  assumes inv: "old_inv a bs (b # gs) M" and last: "b = last bs"
  shows "\<exists>r a' bs'. deallocate_block sys (Some b) a = Some (r, a') \<and> old_inv a' bs' gs M
     \<and> (\<forall>g\<in>set gs. g \<noteq> last bs')"
proof -
  from inv show ?thesis
  proof (rule head_facts)
    fix k xs ys
    assume f: "o_blocks a b = Some k" "b_free k" "\<not> b_mapped k" "bs = xs @ b # ys" "heap_inv a (xs @ b # ys) (b # gs) M {}"
        "b_size k \<le> o_available_bytes a" "o_available_bytes a < 18446744073709551616" "o_free_list a = Some b"
        "block_end b k = b + 40 + b_size k" "ys = [] \<longleftrightarrow> o_brk_heap_end a = Some (b + 40 + b_size k)"
        "xs \<noteq> [] \<longrightarrow> \<not> isfree (o_blocks a) (last xs)" "successively (not_both (o_blocks a)) xs"
        "b \<notin> set gs" "path (o_blocks a) (b_next k) gs None"
    have ys: "ys = []"
      using last f(4) tiles_distinct [OF heap_invD(1) [OF f(5)]] by (cases ys rule: rev_cases) auto
    define k1 where "k1 = k\<lparr>b_free := False, b_next := nullptr\<rparr>"
    define a1 where "a1 = a\<lparr>o_blocks := (o_blocks a)(b \<mapsto> k1), o_free_list := b_next k,
       o_prev_search_end := drop_search_end b a, o_available_bytes := o_available_bytes a - b_size k\<rparr>"
    have run: "deallocate_block sys (Some b) a = deallocate_block sys (Some b) a1"
      by (rule dealloc_free_run [OF f(8,1-3,6,7)]) (simp add: a1_def k1_def)
    have inv1: "heap_inv a1 (xs @ [b]) gs M {}" "successively (not_both (o_blocks a1)) (xs @ [b])"
      using unlinked_last [OF f(5) [unfolded ys] f(1,2,6,14,12,11)] by (simp_all add: a1_def k1_def)
    have k1: "o_blocks a1 b = Some k1" "\<not> b_free k1" "\<not> b_mapped k1" "block_end b k1 = b + 40 + b_size k1"
        "o_brk_heap_end a1 = Some (b + 40 + b_size k1)"
      using f(3,9,10) ys by (simp_all add: a1_def k1_def block_end_def block_span_def)
    note step = run [unfolded dealloc_run [OF k1(1,2)]]
    show ?thesis
    proof (cases "sys_brk sys b")
      case True
      have "old_inv ((unmap b (b + 40 + b_size k1) a1)\<lparr>o_brk_heap_end := Some b\<rparr>) xs gs M"
        using brk_inv [OF inv1(1) _ k1(1,2)] inv1(2) by (simp add: successively_append_iff)
      moreover have "g \<noteq> last xs" if "g \<in> set gs" for g
      proof -
        have "g \<in> set xs" "isfree (o_blocks a) g"
          using heap_invD(5) [OF f(5)] that f(13) ys by auto
        then show ?thesis
          using f(11) by (cases xs) auto
      qed
      ultimately show ?thesis
        using step k1 True by auto
    next
      case False
      then show ?thesis
        using step k1 inv1 f(13) by (auto simp: old_inv_def)
    qed
  qed
qed

section \<open>The destructor\<close>

text \<open>A state the destructor does not get out of: the head of the free list is not the last block.\<close>

definition stuck :: "OldAllocator \<Rightarrow> bool" where
  "stuck a \<longleftrightarrow> (\<exists>bs b gs M. old_inv a bs (b # gs) M \<and> b \<noteq> last bs)"

lemma stuck_step:
  assumes "stuck a"
  shows "\<exists>b a'. o_free_list a = Some b \<and> deallocate_block sys (Some b) a = Some (True, a') \<and> stuck a'
     \<and> o_blocks a' = o_blocks a \<and> o_free_list a' = o_free_list a"
proof -
  obtain bs b gs M where s: "old_inv a bs (b # gs) M" "b \<noteq> last bs"
    using assms by (auto simp: stuck_def)
  let ?a = "a\<lparr>o_prev_search_end := drop_search_end b a\<rparr>"
  have "heap_inv a bs (b # gs) M {}"
    using s(1) by (simp add: old_inv_def)
  note i = heap_invD [OF this]
  have "heap_inv ?a bs (b # gs) M {}"
    by (rule heap_invI) (use i in \<open>auto simp: heap_base_def heap_top_def drop_search_end_def\<close>)
  then have "stuck ?a"
    using s by (auto simp: stuck_def old_inv_def)
  moreover have "o_free_list a = Some b"
    using i(3) by simp
  ultimately show ?thesis
    using dealloc_head_inner [OF s, of sys] by auto
qed

lemma destroy_stuck:
  assumes "stuck a"
  shows "destroy_OldAllocator sys a = None"
proof -
  have key: "\<not> stuck a'" if "destroy_OldAllocator sys' a' = Some r" for sys' a' r
    using _ that
  proof (rule destroy_OldAllocator.raw_induct)
    fix loop sys' a' r
    assume IH: "\<And>sys' a' r. loop sys' a' = Some r \<Longrightarrow> \<not> stuck a'"
      and run: "(case o_free_list a' of None \<Rightarrow> Some a'
        | Some b \<Rightarrow> do { (_, a1) \<leftarrow> deallocate_block sys' (Some b) a'; loop sys' a1 }) = Some r"
    show "\<not> stuck a'"
    proof
      assume "stuck a'"
      then obtain b a1 where "o_free_list a' = Some b" "deallocate_block sys' (Some b) a' = Some (True, a1)" "stuck a1"
        using stuck_step [of a' sys'] by blast
      then show False
        using run IH [of sys' a1 r] by simp
    qed
  qed
  show ?thesis
    using key [of sys a] assms by (cases "destroy_OldAllocator sys a") auto
qed

lemma destroy_empty: "o_free_list a = None \<Longrightarrow> destroy_OldAllocator sys a = Some a"
  by (subst destroy_OldAllocator.simps) simp

lemma destroy_spec:
  assumes inv: "old_inv a bs fs M"
  shows "if fs = [] \<or> fs = [last bs]
    then \<exists>a' bs'. destroy_OldAllocator sys a = Some a' \<and> old_inv a' bs' [] M
    else destroy_OldAllocator sys a = None"
proof (cases fs)
  case Nil
  then have "o_free_list a = None"
    using inv by (simp add: old_inv_def heap_inv_def)
  then show ?thesis
    using destroy_empty inv Nil by auto
next
  case (Cons b gs)
  have hd: "o_free_list a = Some b"
    using inv Cons by (simp add: old_inv_def heap_inv_def)
  show ?thesis
  proof (cases "b = last bs")
    case False
    then have "stuck a"
      using inv Cons by (auto simp: stuck_def)
    then show ?thesis
      using destroy_stuck Cons False by auto
  next
    case True
    obtain r a' bs' where d: "deallocate_block sys (Some b) a = Some (r, a')" "old_inv a' bs' gs M" "\<forall>g\<in>set gs. g \<noteq> last bs'"
      using dealloc_head_last [OF inv [unfolded Cons] True] by blast
    have step: "destroy_OldAllocator sys a = destroy_OldAllocator sys a'"
      using hd d(1) by (subst destroy_OldAllocator.simps) simp
    show ?thesis
    proof (cases gs)
      case Nil
      then have "o_free_list a' = None"
        using d(2) by (simp add: old_inv_def heap_inv_def)
      then show ?thesis
        using step destroy_empty d(2) Nil Cons True by auto
    next
      case gs: (Cons g hs)
      then have "stuck a'"
        using d(2,3) by (auto simp: stuck_def)
      then show ?thesis
        using step destroy_stuck Cons gs by auto
    qed
  qed
qed

end
