(* ===== verification/Old_Design_Run.thy ===== *)
theory Old_Design_Run
  imports Old_Design_Free
begin

text \<open>
  A concrete run of the old design: the initial chunk of 4096 bytes, four allocations of 100
  bytes, the first and the third freed, and one that takes the rest. It ends in a state with two
  free blocks of 100 bytes, the last search having ended at the last one.
\<close>

section \<open>Computing single operations\<close>

lemma search_loop_Some:
  "search_loop B se head n prev (Some c) = (case B c of None \<Rightarrow> None | Some k \<Rightarrow>
     if b_free k \<and> n \<le> b_size k then Some (Some (prev, c))
     else if se \<noteq> None \<and> b_next k = None then search_loop B se head n None head
     else (case (case se of None \<Rightarrow> Some None | Some e \<Rightarrow> map_option (\<lambda>ke. Some (b_next ke)) (B e)) of
         None \<Rightarrow> None
       | Some l \<Rightarrow> if Some (b_next k) = l then Some None else search_loop B se head n (Some c) (b_next k)))"
  by (subst search_loop.simps) (auto split: option.split)

definition no_sys :: OldSystem where
  "no_sys = \<lparr>sys_sbrk = (\<lambda>_. SYS_FAILED), sys_mmap = (\<lambda>_. SYS_FAILED), sys_brk = (\<lambda>_. False), sys_munmap = (\<lambda>_ _. False)\<rparr>"

text \<open>A state with its blocks (address, size, free, next) and footers (address, size) as lists, on
  the initial chunk, which begins at \<open>B\<close>; in the run below at 65536.\<close>

definition chunk_state :: "addr \<Rightarrow> ptr \<Rightarrow> ptr \<Rightarrow> nat \<Rightarrow> (addr \<times> nat \<times> bool \<times> ptr) list \<Rightarrow> (addr \<times> nat) list \<Rightarrow> OldAllocator" where
  "chunk_state B fl se av bs fs = \<lparr>o_free_list = fl, o_prev_search_end = se, o_available_bytes = av,
     o_brk_heap_start = Some B, o_brk_heap_end = Some (B + 4136),
     o_blocks = map_of (map (\<lambda>(b, n, f, nx). (b, \<lparr>b_size = n, b_free = f, b_mapped = False, b_next = nx\<rparr>)) bs),
     o_footers = map_of (map (\<lambda>(x, n). (x, \<lparr>f_size = n, f_mapped = False\<rparr>)) fs)\<rparr>"

abbreviation run_state where
  "run_state \<equiv> chunk_state 65536"

lemmas state_simps = chunk_state_def search_free_def search_start_def search_loop_Some take_block_def split_block_def
  upd_block_def put_block_def write_footer_def footer_of_def block_end_def block_span_def sizes Let_def

lemmas run_simps = state_simps u64_def sub64_def

definition run0 :: OldAllocator where
  "run0 = run_state (Some 65536) None 4096
     [(65536, 4096, True, None)]
     [(69656, 4096)]"

definition run1 :: OldAllocator where
  "run1 = run_state (Some 65676) None 3956
     [(65536, 100, False, None), (65676, 3956, True, None)]
     [(65660, 100), (69656, 3956)]"

definition run2 :: OldAllocator where
  "run2 = run_state (Some 65816) None 3816
     [(65536, 100, False, None), (65676, 100, False, None), (65816, 3816, True, None)]
     [(65660, 100), (65800, 100), (69656, 3816)]"

definition run3 :: OldAllocator where
  "run3 = run_state (Some 65956) None 3676
     [(65536, 100, False, None), (65676, 100, False, None), (65816, 100, False, None), (65956, 3676, True, None)]
     [(65660, 100), (65800, 100), (65940, 100), (69656, 3676)]"

definition run4 :: OldAllocator where
  "run4 = run_state (Some 66096) None 3536
     [(65536, 100, False, None), (65676, 100, False, None), (65816, 100, False, None), (65956, 100, False, None), (66096, 3536, True, None)]
     [(65660, 100), (65800, 100), (65940, 100), (66080, 100), (69656, 3536)]"

definition run5 :: OldAllocator where
  "run5 = run_state (Some 65536) None 3636
     [(65536, 100, True, Some 66096), (65676, 100, False, None), (65816, 100, False, None), (65956, 100, False, None), (66096, 3536, True, None)]
     [(65660, 100), (65800, 100), (65940, 100), (66080, 100), (69656, 3536)]"

definition run6 :: OldAllocator where
  "run6 = run_state (Some 65816) None 3736
     [(65536, 100, True, Some 66096), (65676, 100, False, None), (65816, 100, True, Some 65536), (65956, 100, False, None), (66096, 3536, True, None)]
     [(65660, 100), (65800, 100), (65940, 100), (66080, 100), (69656, 3536)]"

definition run7 :: OldAllocator where
  "run7 = run_state (Some 65816) (Some 65536) 200
     [(65536, 100, True, None), (65676, 100, False, None), (65816, 100, True, Some 65536), (65956, 100, False, None), (66096, 3536, False, None)]
     [(65660, 100), (65800, 100), (65940, 100), (66080, 100), (69656, 3536)]"

lemmas run_defs = run0_def run1_def run2_def run3_def run4_def run5_def run6_def run7_def

lemma allocate_found:
  "search_free n a = Some (Some (prev, c)) \<Longrightarrow> n \<le> o_available_bytes a \<Longrightarrow> take_block prev c n a = r \<Longrightarrow> old_allocate sys n a = r"
  by (simp add: old_allocate_def)

lemma coalesce_none:
  assumes "map_option b_mapped (o_blocks a b) = Some False" "map_option b_free (o_blocks a n) = Some False"
    and "pv = None \<or> map_option b_free (o_blocks a (the pv)) = Some False"
    and "next_phys b a = Some (Some n)" "prev_phys b a = Some pv"
  shows "coalesce_around b a = Some (b, a)"
proof -
  have "coalesce_next b a = Some a"
    using assms(1,2,4) by (auto simp: coalesce_next.simps [of b a])
  moreover have "coalesce_prev b a = Some (b, a)"
    using assms(1,3,5) by (cases pv) (auto simp: coalesce_prev_def)
  ultimately show ?thesis
    using assms(1) by (auto simp: coalesce_around_def)
qed

lemma deallocate_inner_run:
  assumes "o_blocks a b = Some k" "\<not> b_free k" "\<not> b_mapped k" "Some (block_end b k) \<noteq> o_brk_heap_end a" "sub64 p 24 = b" "b \<noteq> 0"
    and a1: "a1 = (put_block b (k\<lparr>b_free := True, b_next := nullptr\<rparr>) a)\<lparr>o_available_bytes := u64 (o_available_bytes a + b_size k)\<rparr>"
    and "coalesce_around b a1 = Some (b, a1)" "insert_free b a1 = Some a2"
  shows "old_deallocate sys p a = Some (True, a2)"
proof -
  have "return_back_unlocked (Some b) a = Some (True, a2)"
    using assms(1,2,8,9) unfolding a1 by (simp add: return_back_unlocked_def upd_block_def put_block_def)
  then show ?thesis
    using assms(1-6) dealloc_run [OF assms(1,2), of sys] by (simp add: old_deallocate_def sizes)
qed

section \<open>The run\<close>

lemma run0_step: "old_allocate sys 100 run0 = Some (65560, run1)"
  by (rule allocate_found [of _ _ None 65536]) (simp_all add: run_simps run_defs fun_eq_iff)

lemma run1_step: "old_allocate sys 100 run1 = Some (65700, run2)"
  by (rule allocate_found [of _ _ None 65676]) (simp_all add: run_simps run_defs fun_eq_iff)

lemma run2_step: "old_allocate sys 100 run2 = Some (65840, run3)"
  by (rule allocate_found [of _ _ None 65816]) (simp_all add: run_simps run_defs fun_eq_iff)

lemma run3_step: "old_allocate sys 100 run3 = Some (65980, run4)"
  by (rule allocate_found [of _ _ None 65956]) (simp_all add: run_simps run_defs fun_eq_iff)

lemma run4_step: "old_deallocate sys 65560 run4 = Some (True, run5)"
proof -
  define a1 where "a1 = run_state (Some 66096) None 3636
     [(65536, 100, True, None), (65676, 100, False, None), (65816, 100, False, None), (65956, 100, False, None), (66096, 3536, True, None)]
     [(65660, 100), (65800, 100), (65940, 100), (66080, 100), (69656, 3536)]"
  have nb: "next_phys 65536 a1 = Some (Some 65676)" "prev_phys 65536 a1 = Some None"
    by (simp_all add: run_simps a1_def next_phys_def prev_phys_def)
  have "coalesce_around 65536 a1 = Some (65536, a1)"
    by (rule coalesce_none [OF _ _ _ nb]) (simp_all add: a1_def chunk_state_def)
  moreover have "insert_free 65536 a1 = Some run5"
    by (simp add: run_simps run_defs a1_def insert_free_def fun_eq_iff)
  ultimately show ?thesis
    by (intro deallocate_inner_run [of _ 65536 "\<lparr>b_size = 100, b_free = False, b_mapped = False, b_next = None\<rparr>" _ a1])
      (simp_all add: run_simps run_defs a1_def fun_eq_iff)
qed

lemma run5_step: "old_deallocate sys 65840 run5 = Some (True, run6)"
proof -
  define a1 where "a1 = run_state (Some 65536) None 3736
     [(65536, 100, True, Some 66096), (65676, 100, False, None), (65816, 100, True, None), (65956, 100, False, None), (66096, 3536, True, None)]
     [(65660, 100), (65800, 100), (65940, 100), (66080, 100), (69656, 3536)]"
  have nb: "next_phys 65816 a1 = Some (Some 65956)" "prev_phys 65816 a1 = Some (Some 65676)"
    by (simp_all add: run_simps a1_def next_phys_def prev_phys_def)
  have "coalesce_around 65816 a1 = Some (65816, a1)"
    by (rule coalesce_none [OF _ _ _ nb]) (simp_all add: a1_def chunk_state_def)
  moreover have "insert_free 65816 a1 = Some run6"
    by (simp add: run_simps run_defs a1_def insert_free_def fun_eq_iff)
  ultimately show ?thesis
    by (intro deallocate_inner_run [of _ 65816 "\<lparr>b_size = 100, b_free = False, b_mapped = False, b_next = None\<rparr>" _ a1])
      (simp_all add: run_simps run_defs a1_def fun_eq_iff)
qed

lemma run6_step: "old_allocate sys 3536 run6 = Some (66120, run7)"
  by (rule allocate_found [of _ _ "Some 65536" 66096]) (simp_all add: run_simps run_defs fun_eq_iff)

end
