(* ===== verification/Old_Design_Frame.thy ===== *)
theory Old_Design_Frame
  imports Old_Design_Free
begin

text \<open>
  What the old design writes. A write of a header or a footer changes the bytes it covers; the
  lemmas here follow every write of \<open>allocate\<close> and \<open>deallocate\<close> and show that none of them covers a
  byte of a block the program holds, its header and footer included.
\<close>

section \<open>Records that overlap a range of bytes\<close>

text \<open>No header and no footer that overlaps \<open>lo ..< hi\<close> has been written; it may have gone with the
  memory it was in.\<close>

definition keeps :: "addr \<Rightarrow> addr \<Rightarrow> OldAllocator \<Rightarrow> OldAllocator \<Rightarrow> bool" where
  "keeps lo hi a a' \<longleftrightarrow>
     (\<forall>x. lo < x + 24 \<longrightarrow> x < hi \<longrightarrow> o_blocks a' x = o_blocks a x \<or> o_blocks a' x = None)
   \<and> (\<forall>x. lo < x + 16 \<longrightarrow> x < hi \<longrightarrow> o_footers a' x = o_footers a x \<or> o_footers a' x = None)"

lemma keeps_refl: "o_blocks a' = o_blocks a \<Longrightarrow> o_footers a' = o_footers a \<Longrightarrow> keeps lo hi a a'"
  by (simp add: keeps_def)

lemma keeps_trans [trans]: "keeps lo hi a b \<Longrightarrow> keeps lo hi b c \<Longrightarrow> keeps lo hi a c"
  unfolding keeps_def by metis

lemma keeps_put: "o_blocks a' = (o_blocks a)(b \<mapsto> k) \<Longrightarrow> o_footers a' = o_footers a \<Longrightarrow> b + 24 \<le> lo \<or> hi \<le> b \<Longrightarrow> keeps lo hi a a'"
  by (auto simp: keeps_def)

lemma keeps_both: "o_blocks a' = (o_blocks a)(b \<mapsto> k) \<Longrightarrow> o_footers a' = (o_footers a)(f \<mapsto> g) \<Longrightarrow>
    b + 24 \<le> lo \<or> hi \<le> b \<Longrightarrow> f + 16 \<le> lo \<or> hi \<le> f \<Longrightarrow> keeps lo hi a a'"
  by (auto simp: keeps_def)

lemma keeps_unmap: "keeps lo hi a (unmap x y a)"
  by (simp add: keeps_def unmap_def)

text \<open>The free blocks and \<open>b\<close> stay clear of the range.\<close>

definition clear_of :: "addr \<Rightarrow> addr \<Rightarrow> (addr \<rightharpoonup> Block) \<Rightarrow> addr \<Rightarrow> bool" where
  "clear_of lo hi B b \<longleftrightarrow> b + 40 + bsz B b \<le> lo \<or> hi \<le> b"

definition shield :: "addr \<Rightarrow> addr \<Rightarrow> (addr \<rightharpoonup> Block) \<Rightarrow> addr list \<Rightarrow> bool" where
  "shield lo hi B bs \<longleftrightarrow> lo < hi \<and> (\<forall>b\<in>set bs. isfree B b \<longrightarrow> clear_of lo hi B b)"

lemma shieldD: "shield lo hi B bs \<Longrightarrow> b \<in> set bs \<Longrightarrow> isfree B b \<Longrightarrow> clear_of lo hi B b" "shield lo hi B bs \<Longrightarrow> lo < hi"
  by (simp_all add: shield_def)

lemma clear_header: "clear_of lo hi B b \<Longrightarrow> b + 24 \<le> lo \<or> hi \<le> b"
  by (auto simp: clear_of_def)

text \<open>A block the program holds is such a range, for every other block.\<close>

lemma held_clear:
  assumes inv: "heap_inv a bs fs M X" and h: "h \<in> held (o_blocks a) bs M" and b: "b \<in> set bs" "b \<noteq> h"
  shows "clear_of h (h + 40 + bsz (o_blocks a) h) (o_blocks a) b"
proof (cases "h \<in> set bs")
  case True
  then show ?thesis
    using tiles_apart [OF heap_invD(1) [OF inv] _ b(1), of h] tiles_apart [OF heap_invD(1) [OF inv] b(1), of h] b
    by (cases h b rule: linorder_cases) (auto simp: clear_of_def)
next
  case False
  then have "h \<in> M"
    using h by (simp add: held_def busy_def)
  then obtain k where "o_blocks a h = Some k" "h + 40 + b_size k \<le> heap_base a \<or> heap_top a \<le> h"
    using heap_invD(9) [OF inv] by (auto simp: mapped_ok_def)
  moreover obtain kb where "o_blocks a b = Some kb" "heap_base a \<le> b" "b + 40 + b_size kb \<le> heap_top a"
    using tiles_mem [OF heap_invD(1) [OF inv] b(1)] by blast
  ultimately show ?thesis
    by (auto simp: clear_of_def)
qed

lemma held_shield:
  assumes inv: "heap_inv a bs fs M X" and h: "h \<in> held (o_blocks a) bs M" and "\<not> isfree (o_blocks a) h"
  shows "shield h (h + 40 + bsz (o_blocks a) h) (o_blocks a) bs"
  using held_clear [OF inv h] assms(3) by (auto simp: shield_def)

text \<open>Two neighbours that stay clear stay clear together.\<close>

lemma clear_merged:
  assumes "tiles B F s (xs @ p # b # ys) e" "clear_of lo hi B p" "clear_of lo hi B b" "lo < hi"
  shows "p + 80 + bsz B p + bsz B b \<le> lo \<or> hi \<le> p"
proof -
  have "b = p + 40 + bsz B p"
    using assms(1) by (auto simp: tiles_append shape_Some)
  then show ?thesis
    using assms(2-4) by (auto simp: clear_of_def)
qed

section \<open>Coalescing\<close>

lemma grow_keeps:
  assumes "grow_block p n a = Some a'" "o_blocks a p = Some k" "p + 80 + b_size k + n < 18446744073709551616"
    and "p + 80 + b_size k + n \<le> lo \<or> hi \<le> p"
  shows "keeps lo hi a a'"
  using assms
  by (intro keeps_both [where b = p and k = "k\<lparr>b_size := b_size k + 40 + n\<rparr>" and f = "p + 64 + b_size k + n"])
    (auto simp: grow_block_def upd_block_def put_block_def write_footer_def footer_of_def sizes u64_id add.assoc)

lemma merge_bound:
  assumes "heap_inv a (xs @ p # b # ys) fs M X"
  shows "p + 80 + bsz (o_blocks a) p + bsz (o_blocks a) b < 18446744073709551616"
proof -
  note i = heap_invD [OF assms]
  have "b = p + 40 + bsz (o_blocks a) p"
    using i(1) by (auto simp: tiles_append shape_Some)
  moreover obtain k where "o_blocks a b = Some k" "b + 40 + b_size k \<le> heap_top a"
    using tiles_mem [OF i(1), of b] by auto
  ultimately show ?thesis
    using i(2) by simp
qed

lemma coalesce_prev_keeps:
  assumes inv: "heap_inv a (xs @ b # ys) fs M X" and sh: "shield lo hi (o_blocks a) (xs @ b # ys)" "isfree (o_blocks a) b"
    and run: "coalesce_prev b a = Some (w, a1)"
  shows "keeps lo hi a a1"
proof (cases "\<exists>zs p. xs = zs @ [p] \<and> isfree (o_blocks a) p")
  case False
  have "a1 = a"
    using run prev_phys_spec [OF inv] tiles_mem [OF heap_invD(1) [OF inv], of "last xs"] heap_block [OF inv] False
    by (cases xs rule: pred_of_cases) (auto simp: coalesce_prev_def)
  then show ?thesis
    by (simp add: keeps_refl)
next
  case True
  then obtain zs p where xs: "xs = zs @ [p]" "isfree (o_blocks a) p"
    by blast
  have inv': "heap_inv a (zs @ p # b # ys) fs M X"
    using inv xs by simp
  obtain k kp where k: "o_blocks a b = Some k" "\<not> b_mapped k" "o_blocks a p = Some kp" "\<not> b_mapped kp"
    using tiles_mem [OF heap_invD(1) [OF inv'], of b] tiles_mem [OF heap_invD(1) [OF inv'], of p] by auto
  have "grow_block p (b_size k) a = Some a1"
    using run prev_phys_spec [OF inv] xs k by (auto simp: coalesce_prev_def elim!: bind_SomeE)
  moreover have "p + 80 + bsz (o_blocks a) p + bsz (o_blocks a) b \<le> lo \<or> hi \<le> p"
    using clear_merged [OF heap_invD(1) [OF inv']] shieldD [OF sh(1)] sh(2) xs by auto
  ultimately show ?thesis
    using grow_keeps [of p "b_size k" a a1 kp lo hi] merge_bound [OF inv'] k by simp
qed

lemma redirect_keeps:
  assumes run: "redirect prev q a = Some a'" and "\<forall>p. prev = Some p \<longrightarrow> clear_of lo hi (o_blocks a) p"
  shows "keeps lo hi a a'"
proof (cases prev)
  case None
  then show ?thesis
    using run by (auto simp: redirect_def intro!: keeps_refl)
next
  case (Some p)
  then obtain k where k: "o_blocks a p = Some k"
    using run by (auto simp: redirect_def upd_block_def elim!: bind_SomeE)
  show ?thesis
    by (rule keeps_put [where b = p and k = "k\<lparr>b_next := q\<rparr>"])
      (use run Some k clear_header [of lo hi "o_blocks a" p] assms(2) in \<open>auto simp: redirect_def upd_block_def put_block_def\<close>)
qed

lemma unlink_keeps:
  assumes inv: "heap_inv a bs fs M X" and sh: "shield lo hi (o_blocks a) bs" and n: "n \<in> set fs" and run: "unlink_free n a = Some (r, a1)"
  shows "keeps lo hi a a1"
proof -
  note i = heap_invD [OF inv]
  have clear: "clear_of lo hi (o_blocks a) x" if "x \<in> set fs" for x
    using i(5) shieldD(1) [OF sh, of x] that by blast
  obtain us vs where fs: "fs = us @ n # vs"
    using n by (meson split_list)
  have d: "n \<notin> set us" "set vs \<inter> set us = {}"
    using i(4) fs by auto
  have loop: "unlink_loop (o_blocks a) n nullptr (o_free_list a) = Some (pred_of us, Some n)"
    using unlink_loop_found [OF i(3) [unfolded fs] d(1)] by (auto simp: pred_of_def)
  obtain k where k: "o_blocks a n = Some k" "path (o_blocks a) (b_next k) vs None"
    using i(3) fs by (auto simp: path_append)
  obtain B l where r: "redirect (pred_of us) (b_next k) a = Some (a\<lparr>o_blocks := B, o_free_list := l\<rparr>)" "\<forall>x. x \<notin> set us \<longrightarrow> B x = o_blocks a x"
    using redirect_spec [OF i(3,4) [unfolded fs] k(2) d(2)] by blast
  have "keeps lo hi a (a\<lparr>o_blocks := B, o_free_list := l\<rparr>)"
    by (rule redirect_keeps [OF r(1)]) (use clear pred_of_mem fs in fastforce)
  moreover have "keeps lo hi (a\<lparr>o_blocks := B, o_free_list := l\<rparr>) a1"
    by (rule keeps_put [where b = n and k = "k\<lparr>b_free := False, b_next := nullptr\<rparr>"])
      (use run unlink_free_redirect [OF loop k(1) r(1), of k] r(2) d(1) k(1) clear_header [OF clear [OF n]] in \<open>auto simp: put_block_def\<close>)
  ultimately show ?thesis
    by (rule keeps_trans)
qed

lemma coalesce_next_keeps:
  assumes inv: "heap_inv a (xs @ w # ys) fs M X" and X: "X \<subseteq> {w}" and w: "isfree (o_blocks a) w"
    and sep: "successively (not_both (o_blocks a)) ys"
    and sh: "shield lo hi (o_blocks a) (xs @ w # ys)" and run: "coalesce_next w a = Some a'"
  shows "keeps lo hi a a'"
proof (cases "\<exists>n zs. ys = n # zs \<and> isfree (o_blocks a) n")
  case False
  then have "ys \<noteq> [] \<longrightarrow> \<not> isfree (o_blocks a) (hd ys)"
    by (cases ys) auto
  then show ?thesis
    using coalesce_next_stop [OF inv] run by (simp add: keeps_refl)
next
  case True
  then obtain n zs where ys: "ys = n # zs" "isfree (o_blocks a) n"
    by blast
  note inv' = inv [unfolded ys(1)]
  have d: "w \<noteq> n" and hd: "zs \<noteq> [] \<longrightarrow> \<not> isfree (o_blocks a) (hd zs)"
    using tiles_distinct [OF heap_invD(1) [OF inv']] sep ys by (auto simp: successively_Cons)
  obtain a1 where a1: "unlink_free n a = Some (True, a1)" "grow_block w (bsz (o_blocks a) n) a1 = Some a'"
    using coalesce_next_merge [OF inv' X w ys(2) hd] run by auto
  have "n \<in> set fs"
    using heap_invD(5) [OF inv'] X ys(2) d by auto
  then have k1: "keeps lo hi a a1" and "shape (o_blocks a1) = shape (o_blocks a)"
    using unlink_keeps [OF inv' sh [unfolded ys(1)] _ a1(1)] unlink_free_inv [OF inv', of n] a1(1) by auto
  then have "bsz (o_blocks a1) w = bsz (o_blocks a) w" "shape (o_blocks a1) w \<noteq> None"
    using heap_block [OF inv'] by (auto intro: bsz_shape)
  then obtain k where k: "o_blocks a1 w = Some k" "b_size k = bsz (o_blocks a) w"
    by (cases "o_blocks a1 w") (auto simp: shape_def)
  have "w + 80 + bsz (o_blocks a) w + bsz (o_blocks a) n \<le> lo \<or> hi \<le> w"
    using clear_merged [OF heap_invD(1) [OF inv']] shieldD [OF sh] w ys by auto
  then have "keeps lo hi a1 a'"
    using grow_keeps [OF a1(2) k(1)] merge_bound [OF inv'] k(2) by simp
  with k1 show ?thesis
    by (rule keeps_trans)
qed

section \<open>Returning a block\<close>

text \<open>A block in use is still one in a later state.\<close>

lemma shield_after:
  assumes inv: "heap_inv a' bs' fs' M X'" and h: "h \<in> held (o_blocks a') bs' M"
    and same: "o_blocks a' h = o_blocks a h" "\<not> isfree (o_blocks a) h"
  shows "shield h (h + 40 + bsz (o_blocks a) h) (o_blocks a') bs'"
proof -
  have "bsz (o_blocks a') h = bsz (o_blocks a) h" "\<not> isfree (o_blocks a') h"
    using same by (simp_all add: bsz_def isfree_def)
  then show ?thesis
    using held_shield [OF inv h] by simp
qed

lemma coalesce_around_keeps:
  assumes inv: "heap_inv a (xs @ b # ys) fs M {b}"
    and sep: "successively (not_both (o_blocks a)) xs" "successively (not_both (o_blocks a)) ys"
    and h: "h \<in> held (o_blocks a) (xs @ b # ys) M" "\<not> isfree (o_blocks a) h"
    and run: "coalesce_around b a = Some (w, a')"
  shows "keeps h (h + 40 + bsz (o_blocks a) h) a a'"
proof -
  let ?hi = "h + 40 + bsz (o_blocks a) h"
  have b: "isfree (o_blocks a) b" "b \<noteq> h"
    using heap_invD(5) [OF inv] h(2) by auto
  obtain w2 a2 us where a2: "coalesce_prev b a = Some (w2, a2)" "heap_inv a2 (us @ w2 # ys) fs M (if w2 = b then {b} else {})"
      "isfree (o_blocks a2) = isfree (o_blocks a)" "isfree (o_blocks a2) w2" "busy (o_blocks a2) us = busy (o_blocks a) xs"
      "\<forall>x. \<not> isfree (o_blocks a) x \<longrightarrow> o_blocks a2 x = o_blocks a x"
    using coalesce_prev_spec [OF inv sep(1)] by blast
  have ys: "successively (not_both (o_blocks a2)) ys" "(if w2 = b then {b} else {}) \<subseteq> {w2}"
    using sep(2) by (simp_all add: a2(3))
  obtain k where "o_blocks a b = Some k" "\<not> b_mapped k"
    using heap_block [OF inv] by blast
  then have nx: "coalesce_next w2 a2 = Some a'"
    using run a2(1) by (auto simp: coalesce_around_def elim!: bind_SomeE)
  have "keeps h ?hi a a2"
    by (rule coalesce_prev_keeps [OF inv held_shield [OF inv h] b(1) a2(1)])
  moreover have "keeps h ?hi a2 a'"
  proof (rule coalesce_next_keeps [OF a2(2) ys(2) a2(4) ys(1) _ nx])
    have "h \<in> busy (o_blocks a) xs \<union> busy (o_blocks a) ys \<union> M"
      using h b by (auto simp: held_def busy_def)
    then have "h \<in> held (o_blocks a2) (us @ w2 # ys) M"
      unfolding a2(5) [symmetric] by (auto simp: held_def busy_def a2(3))
    then show "shield h ?hi (o_blocks a2) (us @ w2 # ys)"
      by (rule shield_after [OF a2(2)]) (use a2(6) h(2) in auto)
  qed
  ultimately show ?thesis
    by (rule keeps_trans)
qed

lemma insert_free_keeps:
  assumes "insert_free b a = Some a'" "clear_of lo hi (o_blocks a) b"
  shows "keeps lo hi a a'"
proof -
  obtain k where k: "o_blocks a b = Some k"
    using assms(1) by (auto simp: insert_free_def upd_block_def elim!: bind_SomeE)
  show ?thesis
    by (rule keeps_put [where b = b and k = "k\<lparr>b_next := o_free_list a\<rparr>"])
      (use assms k clear_header in \<open>auto simp: insert_free_def upd_block_def put_block_def\<close>)
qed

lemma return_back_keeps:
  assumes inv: "old_inv a bs fs M" and b: "b \<in> set bs" "\<not> isfree (o_blocks a) b"
    and h: "h \<in> held (o_blocks a) bs M" "h \<noteq> b" and run: "return_back_unlocked (Some b) a = Some (r, a')"
  shows "keeps h (h + 40 + bsz (o_blocks a) h) a a'"
proof -
  let ?hi = "h + 40 + bsz (o_blocks a) h"
  obtain xs ys where bs: "bs = xs @ b # ys" "heap_inv a (xs @ b # ys) fs M {}"
      "successively (not_both (o_blocks a)) xs" "successively (not_both (o_blocks a)) ys"
    using old_inv_focus [OF inv b(1)] by blast
  have d: "distinct (xs @ b # ys)"
    by (rule tiles_distinct [OF heap_invD(1) [OF bs(2)]])
  obtain k where k: "o_blocks a b = Some k" "\<not> b_free k"
    using heap_block [OF bs(2)] b(2) by force
  define k1 where "k1 = k\<lparr>b_free := True, b_next := nullptr\<rparr>"
  define a1 where "a1 = (put_block b k1 a)\<lparr>o_available_bytes := u64 (o_available_bytes a + b_size k)\<rparr>"
  have inv1: "heap_inv a1 (xs @ b # ys) fs M {b}"
    unfolding a1_def k1_def by (rule mark_free_inv [OF bs(2) _ k]) simp
  have B1: "o_blocks a1 = (o_blocks a)(b \<mapsto> k1)" "o_footers a1 = o_footers a" "b_free k1"
    by (simp_all add: a1_def k1_def put_block_def)
  have hf: "\<not> isfree (o_blocks a) h"
    using held_block [OF inv h(1)] by auto
  have same: "o_blocks a1 h = o_blocks a h" "bsz (o_blocks a1) h = bsz (o_blocks a) h" "\<not> isfree (o_blocks a1) h"
    using h(2) hf by (simp_all add: B1)
  have h1: "h \<in> held (o_blocks a1) (xs @ b # ys) M"
    using h same(3) by (auto simp: held_def busy_def bs(1))
  have "successively (not_both (o_blocks a1)) zs = successively (not_both (o_blocks a)) zs" if "b \<notin> set zs" for zs
    by (rule not_both_cong) (use that in \<open>auto simp: B1\<close>)
  then have sep: "successively (not_both (o_blocks a1)) xs" "successively (not_both (o_blocks a1)) ys"
    using bs(3,4) d by simp_all
  obtain w a3 us vs gs where a3: "coalesce_around b a1 = Some (w, a3)" "heap_inv a3 (us @ w # vs) gs M (if w = b then {b} else {})"
      "isfree (o_blocks a3) w" "busy (o_blocks a3) (us @ w # vs) = busy (o_blocks a1) xs \<union> busy (o_blocks a1) ys"
      "\<forall>x. \<not> isfree (o_blocks a1) x \<longrightarrow> o_blocks a3 x = o_blocks a1 x"
    using coalesce_around_spec [OF inv1 sep] by blast
  have rest: "(if w = b then insert_free b a3 else Some a3) = Some a'"
    using run k a3(1) by (auto simp: return_back_unlocked_def upd_block_def a1_def k1_def put_block_def elim!: bind_SomeE)
  have "keeps h ?hi a a1"
    by (rule keeps_put [OF B1(1,2)]) (use held_clear [OF bs(2) h(1) [unfolded bs(1)], of b] h(2) clear_header in auto)
  also have "keeps h ?hi a1 a3"
    using coalesce_around_keeps [OF inv1 sep h1 same(3) a3(1)] by (simp add: same(2))
  also have "keeps h ?hi a3 a'"
  proof (cases "w = b")
    case True
    have "h \<in> held (o_blocks a3) (us @ w # vs) M"
      using h1 h(2) unfolding held_def a3(4) by (auto simp: busy_def)
    from shield_after [OF a3(2) this, of a] have "shield h ?hi (o_blocks a3) (us @ w # vs)"
      using a3(5) same hf by simp
    then show ?thesis
      using rest True a3(3) by (auto intro: insert_free_keeps dest: shieldD)
  next
    case False
    then show ?thesis
      using rest by (simp add: keeps_refl)
  qed
  finally show ?thesis .
qed

lemma deallocate_keeps:
  assumes inv: "old_inv a bs fs M" and b: "b \<in> held (o_blocks a) bs M" and h: "h \<in> held (o_blocks a) bs M" "h \<noteq> b"
    and run: "old_deallocate sys (b + 24) a = Some (r, a')"
  shows "keeps h (h + 40 + bsz (o_blocks a) h) a a'"
proof -
  have "sub64 (b + 24) 24 = b" "b \<noteq> 0"
    using held_block [OF inv b] by (auto simp: sub64_id)
  then have run': "deallocate_block sys (Some b) a = Some (r, a')"
    using run by (simp add: old_deallocate_def sizes)
  from inv b show ?thesis
  proof (cases rule: dealloc_held_cases [where sys = sys])
    case fail
    then show ?thesis
      using run' by (simp add: keeps_refl)
  next
    case (mapped k)
    then show ?thesis
      using run' keeps_unmap by auto
  next
    case inner
    obtain r1 where "return_back_unlocked (Some b) a = Some (r1, a')"
      using run' inner(4) by auto
    then show ?thesis
      by (rule return_back_keeps [OF inv inner(1,3) h])
  next
    case (tail k)
    then show ?thesis
      using run' keeps_unmap by (auto simp: keeps_def unmap_def)
  qed
qed

section \<open>Allocation\<close>

lemma split_keeps:
  assumes inv: "heap_inv a (xs @ c # ys) fs M {}" and k: "o_blocks a c = Some k" "b_free k"
    and clear: "clear_of lo hi (o_blocks a) c" and n: "n \<le> b_size k" and run: "split_block c n a = Some (r, a')"
  shows "keeps lo hi a a'"
proof (cases "b_size k < n + 41")
  case True
  have "b_size k + 41 < 18446744073709551616"
    using heap_block [OF inv] k(1) heap_invD(2) [OF inv] by auto
  then have "u64 (n + overhead_size + 1) = n + 41"
    using n by (simp add: sizes u64_id)
  then show ?thesis
    using run k(1) n True by (auto simp: split_block_def keeps_refl)
next
  case False
  then have "a' = split_state c n k a"
    using split_block_far [OF inv k, of n] run by simp
  then show ?thesis
    using clear False k(1) by (auto simp: keeps_def split_state_def split_blocks_def clear_of_def)
qed

lemma take_keeps:
  assumes inv: "old_inv a bs (us @ c # vs) M" and n: "n \<le> bsz (o_blocks a) c"
    and h: "h \<in> held (o_blocks a) bs M" and run: "take_block (pred_of us) c n a = Some (p, a')"
  shows "keeps h (h + 40 + bsz (o_blocks a) h) a a'"
proof -
  let ?hi = "h + 40 + bsz (o_blocks a) h"
  have c: "c \<in> set bs" "isfree (o_blocks a) c" "c \<noteq> h"
    using free_not_held [OF inv, of c] h by auto
  obtain xs ys where bs: "bs = xs @ c # ys" "heap_inv a (xs @ c # ys) (us @ c # vs) M {}"
    using old_inv_focus [OF inv c(1)] by blast
  obtain k where k: "o_blocks a c = Some k" "b_free k"
    using heap_block [OF bs(2)] c(2) by force
  have hf: "\<not> isfree (o_blocks a) h"
    using held_block [OF inv h] by auto
  obtain r a1 bs1 ws where s: "split_block c n a = Some (r, a1)" "heap_inv a1 bs1 (us @ c # ws) M {}"
      "busy (o_blocks a1) bs1 = busy (o_blocks a) bs" "\<forall>x\<in>held (o_blocks a) bs M. o_blocks a1 x = o_blocks a x"
    using split_block_spec [OF inv n] by blast
  have "h \<in> held (o_blocks a1) bs1 M"
    using h s(3) by (simp add: held_def)
  then have sh: "shield h ?hi (o_blocks a1) bs1"
    by (rule shield_after [OF s(2)]) (use s(4) h hf in auto)
  have clear: "clear_of h ?hi (o_blocks a1) x" if "x \<in> set (us @ c # ws)" for x
    using heap_invD(5) [OF s(2)] that sh by (auto intro!: shieldD)
  obtain k1 where k1: "o_blocks a1 c = Some k1"
    using path_mem [OF heap_invD(3) [OF s(2)], of c] by auto
  obtain B l where r: "redirect (pred_of us) (b_next k1) a1 = Some (a1\<lparr>o_blocks := B, o_free_list := l\<rparr>)" "B c = Some k1"
    using redirect_inv [OF s(2) k1] by blast
  have "keeps h ?hi a a1"
    using split_keeps [OF bs(2) k _ _ s(1), of h ?hi] held_clear [OF bs(2) h [unfolded bs(1)], of c] c(3) n k(1) by simp
  also have "keeps h ?hi a1 (a1\<lparr>o_blocks := B, o_free_list := l\<rparr>)"
    by (rule redirect_keeps [OF r(1)]) (use clear pred_of_mem in fastforce)
  also have "keeps h ?hi (a1\<lparr>o_blocks := B, o_free_list := l\<rparr>) a'"
  proof (rule keeps_put [where b = c and k = "k1\<lparr>b_next := nullptr, b_free := False\<rparr>"])
    have "B = (case pred_of us of None \<Rightarrow> o_blocks a1
        | Some p \<Rightarrow> (o_blocks a1)(p \<mapsto> (the (o_blocks a1 p))\<lparr>b_next := b_next k1\<rparr>))"
      using r(1) by (auto simp: redirect_def upd_block_def put_block_def split: option.split_asm elim!: bind_SomeE dest!: arg_cong [where f = o_blocks])
    then have "o_blocks a' = B(c \<mapsto> k1\<lparr>b_next := nullptr, b_free := False\<rparr>) \<and> o_footers a' = o_footers a1"
      using run s(1) k1 r(2) unfolding take_block_def
      by (cases "pred_of us") (auto simp: upd_block_def put_block_def elim!: bind_SomeE split: if_split_asm)
    then show "o_blocks a' = (o_blocks (a1\<lparr>o_blocks := B, o_free_list := l\<rparr>))(c \<mapsto> k1\<lparr>b_next := nullptr, b_free := False\<rparr>)"
      "o_footers a' = o_footers (a1\<lparr>o_blocks := B, o_free_list := l\<rparr>)"
      by simp_all
  qed (use clear_header [OF clear, of c] in simp)
  finally show ?thesis .
qed

lemma new_block_keeps:
  assumes inv: "old_inv a bs fs M" and sys: "sys_ok sys a M" and n: "n + 40 < 18446744073709551616"
    and h: "h \<in> held (o_blocks a) bs M" and run: "create_block sys n False mp None a = Some (r, a')"
  shows "keeps h (h + 40 + bsz (o_blocks a) h) a a'"
proof -
  define p where "p = (if mp then sys_mmap sys (n + 40) else sys_sbrk sys (n + 40))"
  show ?thesis
  proof (cases "p = SYS_FAILED")
    case True
    then show ?thesis
      using create_block_run [of mp sys n p False a] n run by (simp add: p_def keeps_refl)
  next
    case False
    have hi: "heap_inv a bs fs M {}"
      using inv by (simp add: old_inv_def)
    have reg: "region_ok a M p (n + 40)"
      using sys False unfolding sys_ok_def p_def by (cases mp) auto
    then have "p + n + 40 < 18446744073709551616"
      by (simp add: region_ok_def)
    then have a': "a' = new_block p n False mp a"
      using create_block_run [of mp sys n p False a] n run False by (simp add: p_def)
    have out: "h + 40 + bsz (o_blocks a) h \<le> p \<or> p + 40 + n \<le> h"
    proof (cases "h \<in> M")
      case True
      then show ?thesis
        by (rule region_apart [OF reg])
    next
      case hM: False
      then have "h \<in> set bs"
        using h by (simp add: held_def busy_def)
      then obtain k where k: "o_blocks a h = Some k" "heap_base a \<le> h" "h + 40 + b_size k \<le> heap_top a"
        using tiles_mem [OF heap_invD(1) [OF hi]] by blast
      then have "o_brk_heap_end a \<noteq> None"
        by (auto simp: heap_top_def split: option.splits)
      then have "heap_top a = p \<or> p + (n + 40) \<le> heap_base a \<or> heap_top a \<le> p"
        using sys False unfolding sys_ok_def p_def by (cases mp) (auto simp: heap_top_def)
      then show ?thesis
        using k by auto
    qed
    show ?thesis
      by (rule keeps_both [where b = p and f = "p + 24 + n"]) (use out in \<open>auto simp: a' new_block_def\<close>)
  qed
qed

text \<open>Whatever \<open>allocate\<close> finds, or gets from the system, it is not in use.\<close>

lemma allocate_keeps:
  assumes inv: "old_inv a bs fs M" and sys: "sys_ok sys a M" and n: "n + 40 < 18446744073709551616"
    and h: "h \<in> held (o_blocks a) bs M" and run: "old_allocate sys n a = Some (r, a')"
  shows "keeps h (h + 40 + bsz (o_blocks a) h) a a'"
proof (cases "List.find (fits (o_blocks a) n) (search_order (o_prev_search_end a) fs)")
  case (Some c)
  then obtain us vs where t: "fs = us @ c # vs" "old_allocate sys n a = take_block (pred_of us) c n a" "n \<le> bsz (o_blocks a) c"
    using allocate_takes [OF inv] by blast
  show ?thesis
    by (rule take_keeps [OF inv [unfolded t(1)] t(3) h]) (use run t(2) in simp)
next
  case None
  then have none: "\<forall>x\<in>set fs. \<not> fits (o_blocks a) n x"
    using search_free_inv(3) [OF inv, of n] by simp
  have "search_ends (o_prev_search_end a) fs" if "n \<le> o_available_bytes a"
    using run that None search_free_inv(1) [OF inv, of n] by (auto simp: old_allocate_def split: if_split_asm)
  then obtain b where "create_block sys n False (MMAP_THRESHOLD \<le> n) None a = Some (b, a')"
    using run allocate_from_system [OF inv none, of sys] by (auto elim!: bind_SomeE split: option.split_asm)
  then show ?thesis
    by (rule new_block_keeps [OF inv sys n h])
qed

section \<open>Bytes\<close>

text \<open>A call has written the byte at \<open>x\<close> when a header (24 bytes) or a footer (16 bytes) that covers
  it is a different one afterwards.\<close>

definition wrote :: "OldAllocator \<Rightarrow> OldAllocator \<Rightarrow> addr \<Rightarrow> bool" where
  "wrote a a' x \<longleftrightarrow>
     (\<exists>b\<in>set [x - 23..<Suc x]. o_blocks a' b \<noteq> None \<and> o_blocks a' b \<noteq> o_blocks a b)
   \<or> (\<exists>f\<in>set [x - 15..<Suc x]. o_footers a' f \<noteq> None \<and> o_footers a' f \<noteq> o_footers a f)"

lemma keeps_not_wrote: "keeps lo hi a a' \<Longrightarrow> x \<in> {lo..<hi} \<Longrightarrow> \<not> wrote a a' x"
proof
  assume k: "keeps lo hi a a'" and x: "x \<in> {lo..<hi}" and w: "wrote a a' x"
  from w consider b where "x - 23 \<le> b" "b \<le> x" "o_blocks a' b \<noteq> None" "o_blocks a' b \<noteq> o_blocks a b"
    | f where "x - 15 \<le> f" "f \<le> x" "o_footers a' f \<noteq> None" "o_footers a' f \<noteq> o_footers a f"
    unfolding wrote_def set_upt Bex_def atLeastLessThan_iff less_Suc_eq_le by blast
  then show False
  proof cases
    case 1
    then have "lo < b + 24" "b < hi"
      using x by auto
    then show ?thesis
      using k 1(3,4) unfolding keeps_def by metis
  next
    case 2
    then have "lo < f + 16" "f < hi"
      using x by auto
    then show ?thesis
      using k 2(3,4) unfolding keeps_def by metis
  qed
qed

end
