(* ===== verification/Old_Design_Props.thy ===== *)
theory Old_Design_Props
  imports Old_Design_Run Old_Design_Frame
begin

text \<open>
  The properties of the old design: what holds in every reachable state, the contracts of
  \<open>allocate\<close> and \<open>deallocate\<close>, and exactly when the search and the destructor end. Each is applied
  to a concrete run, which leads to a state where \<open>allocate\<close> does not return.
\<close>

section \<open>The runs\<close>

definition empty_OldAllocator :: OldAllocator where
  "empty_OldAllocator = \<lparr>o_free_list = nullptr, o_prev_search_end = nullptr, o_available_bytes = 0,
     o_brk_heap_start = nullptr, o_brk_heap_end = nullptr, o_blocks = (\<lambda>_. None), o_footers = (\<lambda>_. None)\<rparr>"

text \<open>The program holds the payload pointers \<open>P\<close>; \<open>mmapped a P\<close> are the blocks with a mapping.\<close>

definition mmapped :: "OldAllocator \<Rightarrow> addr set \<Rightarrow> addr set" where
  "mmapped a P = {b. b + 24 \<in> P \<and> (\<exists>k. o_blocks a b = Some k \<and> b_mapped k)}"

text \<open>The program writes into the payload of \<open>n\<close> bytes at \<open>p\<close>: what could be read as a header or a
  footer there changes arbitrarily.\<close>

definition payload_write :: "addr \<Rightarrow> nat \<Rightarrow> OldAllocator \<Rightarrow> OldAllocator \<Rightarrow> bool" where
  "payload_write p n a a' \<longleftrightarrow>
     (\<exists>B F. a' = a\<lparr>o_blocks := B, o_footers := F\<rparr>
        \<and> (\<forall>x. x + 24 \<le> p \<or> p + n \<le> x \<longrightarrow> B x = o_blocks a x)
        \<and> (\<forall>x. x + 16 \<le> p \<or> p + n \<le> x \<longrightarrow> F x = o_footers a x))"

inductive old_reach :: "OldAllocator \<Rightarrow> addr set \<Rightarrow> bool" where
  reach_new: "sys_ok sys empty_OldAllocator {} \<Longrightarrow> new_OldAllocator sys = Some a \<Longrightarrow> old_reach a {}"
| reach_allocate: "old_reach a P \<Longrightarrow> sys_ok sys a (mmapped a P) \<Longrightarrow> n + 40 < 18446744073709551616 \<Longrightarrow>
    old_allocate sys n a = Some (r, a') \<Longrightarrow> old_reach a' (if r = SYS_FAILED then P else insert r P)"
| reach_deallocate: "old_reach a P \<Longrightarrow> p \<in> P \<Longrightarrow> old_deallocate sys p a = Some (ok, a') \<Longrightarrow>
    old_reach a' (if ok then P - {p} else P)"
| reach_write: "old_reach a P \<Longrightarrow> p \<in> P \<Longrightarrow> payload_write p (bsz (o_blocks a) (p - 24)) a a' \<Longrightarrow> old_reach a' P"

section \<open>The invariant in every reachable state\<close>

lemma empty_inv: "old_inv empty_OldAllocator [] [] {}"
  by (simp add: old_inv_def heap_inv_def empty_OldAllocator_def heap_base_def heap_top_def mapped_ok_def)

lemma first_block_inv:
  assumes "0 < p" "p + n + 40 < 18446744073709551616"
  shows "old_inv ((new_block p n True False empty_OldAllocator)\<lparr>o_free_list := Some p, o_available_bytes := n\<rparr>) [p] [p] {}"
  using assms
  by (simp add: old_inv_def heap_inv_def new_block_def empty_OldAllocator_def heap_base_def heap_top_def mapped_ok_def add.commute add.left_commute)

lemma new_OldAllocator_run:
  assumes "sys_ok sys empty_OldAllocator {}"
  shows "new_OldAllocator sys = (let p = sys_sbrk sys 4136 in
    if p = SYS_FAILED then Some empty_OldAllocator
    else Some ((new_block p 4096 True False empty_OldAllocator)\<lparr>o_free_list := Some p, o_available_bytes := 4096\<rparr>))"
proof -
  let ?p = "sys_sbrk sys 4136"
  have "?p \<noteq> SYS_FAILED \<Longrightarrow> ?p + 4096 + 40 < 18446744073709551616"
    using assms by (auto simp: sys_ok_def region_ok_def)
  then have "create_block sys INITIAL_CHUNK True False None empty_OldAllocator =
      (if ?p = SYS_FAILED then Some (None, empty_OldAllocator) else Some (Some ?p, new_block ?p 4096 True False empty_OldAllocator))"
    using create_block_run [of False sys 4096 ?p True empty_OldAllocator] by (simp add: INITIAL_CHUNK_def)
  then show ?thesis
    by (simp add: new_OldAllocator_def empty_OldAllocator_def [symmetric] Let_def) (simp add: new_block_def empty_OldAllocator_def)
qed

lemma new_OldAllocator_inv:
  assumes "sys_ok sys empty_OldAllocator {}" "new_OldAllocator sys = Some a"
  shows "\<exists>bs fs. old_inv a bs fs {} \<and> busy (o_blocks a) bs = {}"
proof (cases "sys_sbrk sys 4136 = SYS_FAILED")
  case True
  then show ?thesis
    using assms new_OldAllocator_run [OF assms(1)] empty_inv by (auto simp: busy_def)
next
  case False
  let ?p = "sys_sbrk sys 4136"
  have "0 < ?p" "?p + 4096 + 40 < 18446744073709551616"
    using assms(1) False by (auto simp: sys_ok_def region_ok_def)
  note first_block_inv [OF this]
  then show ?thesis
    using assms new_OldAllocator_run [OF assms(1)] False
    by (intro exI [of _ "[?p]"] exI [of _ "[?p]"]) (auto simp: busy_def new_block_def Let_def)
qed

text \<open>Writes into payloads do not touch a live header or footer.\<close>

lemma tiles_exact_cong:
  assumes "\<And>b. b \<in> set bs \<Longrightarrow> B' b = B b \<and> F' (b + 24 + bsz B b) = F (b + 24 + bsz B b)" and "tiles B F s bs e"
  shows "tiles B' F' s bs e"
  using assms by (induction bs arbitrary: s) (force simp: shape_Some)+

lemma held_payload_apart:
  assumes inv: "old_inv a bs fs M" and b: "b \<in> held (o_blocks a) bs M" and x: "x \<in> set bs \<union> M" "x \<noteq> b"
  shows "x + 40 + bsz (o_blocks a) x \<le> b \<or> b + 40 + bsz (o_blocks a) b \<le> x"
proof -
  have "heap_inv a bs fs M {}"
    using inv by (simp add: old_inv_def)
  note i = heap_invD [OF this]
  have in_heap: "heap_base a \<le> y \<and> y + 40 + bsz (o_blocks a) y \<le> heap_top a" if "y \<in> set bs" for y
    using tiles_mem [OF i(1) that] by auto
  have in_M: "y + 40 + bsz (o_blocks a) y \<le> heap_base a \<or> heap_top a \<le> y" if "y \<in> M" for y
    using i(9) that by (fastforce simp: mapped_ok_def)
  have b': "b \<in> set bs \<or> b \<in> M"
    using b by (auto simp: held_def busy_def)
  consider "x \<in> set bs" "b \<in> set bs" | "x \<in> set bs" "b \<in> M" | "x \<in> M" "b \<in> set bs" | "x \<in> M" "b \<in> M"
    using x(1) b' by auto
  then show ?thesis
  proof cases
    case 1
    then show ?thesis
      using tiles_apart [OF i(1), of x b] tiles_apart [OF i(1), of b x] x(2) by (cases x b rule: linorder_cases) auto
  next
    case 4
    then show ?thesis
      using i(9) x(2) unfolding mapped_ok_def by (cases x b rule: linorder_cases) blast+
  qed (use in_heap in_M in fastforce)+
qed

lemma payload_write_inv:
  assumes inv: "old_inv a bs fs M" and b: "b \<in> held (o_blocks a) bs M"
    and w: "payload_write (b + 24) (bsz (o_blocks a) b) a a'"
  shows "old_inv a' bs fs M \<and> (\<forall>x\<in>set bs \<union> M. o_blocks a' x = o_blocks a x)"
proof -
  obtain B F where a': "a' = a\<lparr>o_blocks := B, o_footers := F\<rparr>"
      and B: "\<And>x. x + 24 \<le> b + 24 \<or> b + 24 + bsz (o_blocks a) b \<le> x \<Longrightarrow> B x = o_blocks a x"
      and F: "\<And>x. x + 16 \<le> b + 24 \<or> b + 24 + bsz (o_blocks a) b \<le> x \<Longrightarrow> F x = o_footers a x"
    using w by (auto simp: payload_write_def)
  have h: "heap_inv a bs fs M {}"
    using inv by (simp add: old_inv_def)
  note i = heap_invD [OF h]
  have Bx: "B x = o_blocks a x" if "x \<in> set bs \<union> M" for x
    using held_payload_apart [OF inv b that] B [of x] by (cases "x = b") auto
  have Fx: "F (x + 24 + bsz (o_blocks a) x) = o_footers a (x + 24 + bsz (o_blocks a) x)" if "x \<in> set bs" for x
    using held_payload_apart [OF inv b, of x] that F [of "x + 24 + bsz (o_blocks a) x"] by (cases "x = b") auto
  have fsbs: "x \<in> set bs" if "x \<in> set fs" for x
    using i(5) that by blast
  have fr: "isfree B x = isfree (o_blocks a) x" if "x \<in> set bs" for x
    using Bx that by (simp add: isfree_def)
  have sel: "o_blocks a' = B" "o_footers a' = F" "o_available_bytes a' = o_available_bytes a" "o_free_list a' = o_free_list a"
      "o_prev_search_end a' = o_prev_search_end a" "o_brk_heap_start a' = o_brk_heap_start a" "o_brk_heap_end a' = o_brk_heap_end a"
      "heap_base a' = heap_base a" "heap_top a' = heap_top a"
    by (simp_all add: a' heap_base_def heap_top_def)
  have "heap_inv a' bs fs M {}"
  proof (rule heap_invI, unfold sel)
    show "tiles B F (heap_base a) bs (heap_top a)"
      by (rule tiles_exact_cong [OF _ i(1)]) (use Bx Fx in auto)
    show "o_available_bytes a = fsum B bs"
      using i(7) fsum_same [of bs B "o_blocks a"] Bx by simp
    show "path B (o_free_list a) fs None"
      using i(3) path_cong [of fs B "o_blocks a"] Bx fsbs by auto
    show "{x \<in> set bs. isfree B x} = set fs \<union> {}"
      using fr unfolding i(5) [symmetric] by auto
    show "mapped_ok B (heap_base a) (heap_top a) M"
      by (rule mapped_eq_cong [OF i(9)]) (use Bx in auto)
  qed (use i in auto)
  moreover have "successively (not_both B) bs = successively (not_both (o_blocks a)) bs"
    by (rule not_both_cong) (rule fr)
  ultimately show ?thesis
    using inv Bx unfolding old_inv_def sel by blast
qed

definition payloads :: "addr set \<Rightarrow> addr set" where
  "payloads H = (\<lambda>b. b + 24) ` H"

lemma payloads_simps [simp]: "payloads {} = {}" "payloads (insert b H) = insert (b + 24) (payloads H)"
  "payloads (H - {b}) = payloads H - {b + 24}" "b + 24 \<in> payloads H \<longleftrightarrow> b \<in> H"
  by (auto simp: payloads_def)

lemma mmapped_held:
  assumes "old_inv a bs fs M"
  shows "mmapped a (payloads (held (o_blocks a) bs M)) = M"
  using held_block [OF assms] by (fastforce simp: mmapped_def held_def)

lemma old_reach_inv: "old_reach a P \<Longrightarrow> \<exists>bs fs M. old_inv a bs fs M \<and> P = payloads (held (o_blocks a) bs M)"
proof (induction rule: old_reach.induct)
  case (reach_new sys a)
  then obtain bs fs where "old_inv a bs fs {}" "busy (o_blocks a) bs = {}"
    using new_OldAllocator_inv by blast
  then show ?case
    by (intro exI [of _ bs] exI [of _ fs] exI [of _ "{}"]) (simp add: held_def)
next
  case (reach_allocate a P sys n r a')
  then obtain bs fs M where inv: "old_inv a bs fs M" "P = payloads (held (o_blocks a) bs M)"
    by blast
  have sys: "sys_ok sys a M"
    using reach_allocate.hyps(2) mmapped_held [OF inv(1)] inv(2) by simp
  have "(\<exists>x\<in>set fs. fits (o_blocks a) n x) \<or> o_available_bytes a < n \<or> search_ends (o_prev_search_end a) fs"
    by (rule allocate_ended [OF inv(1) reach_allocate.hyps(4)])
  from old_allocate_spec [OF inv(1) sys reach_allocate.hyps(3) this] show ?case
    using reach_allocate.hyps(4) inv by (force split: if_splits)
next
  case (reach_deallocate a P p sys ok a')
  then obtain bs fs M where inv: "old_inv a bs fs M" "P = payloads (held (o_blocks a) bs M)"
    by blast
  then obtain b where b: "p = b + 24" "b \<in> held (o_blocks a) bs M"
    using reach_deallocate.hyps(2) by (auto simp: payloads_def)
  from old_deallocate_spec [OF inv(1) b(2), of sys] show ?case
    using reach_deallocate.hyps(3) inv b by (force split: if_splits)
next
  case (reach_write a P p a')
  then obtain bs fs M where inv: "old_inv a bs fs M" "P = payloads (held (o_blocks a) bs M)"
    by blast
  then obtain b where b: "p = b + 24" "b \<in> held (o_blocks a) bs M"
    using reach_write.hyps(2) by (auto simp: payloads_def)
  have w: "old_inv a' bs fs M \<and> (\<forall>x\<in>set bs \<union> M. o_blocks a' x = o_blocks a x)"
    using payload_write_inv [OF inv(1) b(2)] reach_write.hyps(3) b(1) by simp
  then have "held (o_blocks a') bs M = held (o_blocks a) bs M"
    using busy_same [of bs "o_blocks a'" "o_blocks a"] by (simp add: held_def)
  then show ?case
    using w inv(2) by metis
qed

section \<open>The concrete run\<close>

definition first_sys :: OldSystem where
  "first_sys = no_sys\<lparr>sys_sbrk := (\<lambda>n. if n = 4136 then 65536 else SYS_FAILED)\<rparr>"

lemma no_sys_ok: "sys_ok no_sys a M"
  by (simp add: sys_ok_def no_sys_def)

lemma first_sys_ok: "sys_ok first_sys empty_OldAllocator {}"
  by (simp add: sys_ok_def first_sys_def no_sys_def region_ok_def empty_OldAllocator_def)

lemma run0_reach: "old_reach run0 {}"
proof (rule reach_new [OF first_sys_ok])
  show "new_OldAllocator first_sys = Some run0"
    using new_OldAllocator_run [OF first_sys_ok]
    by (simp add: first_sys_def SYS_FAILED_def Let_def new_block_def empty_OldAllocator_def run0_def chunk_state_def fun_eq_iff)
qed

lemma reach_allocate_run:
  "old_reach a P \<Longrightarrow> old_allocate no_sys n a = Some (r, a') \<Longrightarrow> n + 40 < 18446744073709551616 \<Longrightarrow> r \<noteq> SYS_FAILED \<Longrightarrow> old_reach a' (insert r P)"
  using reach_allocate [of a P no_sys n r a'] no_sys_ok by simp

lemma run4_reach: "old_reach run4 {65560, 65700, 65840, 65980}"
proof -
  have "old_reach run4 (insert 65980 (insert 65840 (insert 65700 (insert 65560 {}))))"
    by (intro reach_allocate_run [OF reach_allocate_run [OF reach_allocate_run [OF reach_allocate_run [OF run0_reach run0_step]
        run1_step] run2_step] run3_step]) (simp_all add: SYS_FAILED_def)
  then show ?thesis
    by (simp add: insert_commute)
qed

lemma run6_reach: "old_reach run6 {65700, 65980}"
proof -
  have "old_reach run5 {65700, 65840, 65980}"
    using reach_deallocate [OF run4_reach _ run4_step] by simp
  then have "old_reach run6 (if True then {65700, 65840, 65980} - {65840} else {65700, 65840, 65980})"
    by (rule reach_deallocate [OF _ _ run5_step]) simp
  moreover have "{65700, 65840, 65980} - {65840} = {65700, 65980 :: nat}"
    by auto
  ultimately show ?thesis
    by simp
qed

lemma run7_reach: "old_reach run7 {65700, 65980, 66120}"
proof -
  have "old_reach run7 (insert 66120 {65700, 65980})"
    by (rule reach_allocate_run [OF run6_reach run6_step]) (simp_all add: SYS_FAILED_def)
  then show ?thesis
    by (simp add: insert_commute)
qed

text \<open>Its blocks and its free list.\<close>

lemma run7_path: "path (o_blocks run7) (o_free_list run7) [65816, 65536] None"
  by (simp add: run7_def chunk_state_def)

lemma run7_tiles: "tiles (o_blocks run7) (o_footers run7) (heap_base run7) [65536, 65676, 65816, 65956, 66096] (heap_top run7)"
  by (simp add: run7_def chunk_state_def heap_base_def heap_top_def)

section \<open>The blocks and the free list are determined by the state\<close>

lemma path_unique: "path B p xs None \<Longrightarrow> path B p ys None \<Longrightarrow> xs = ys"
proof (induction xs arbitrary: p ys)
  case Nil
  then show ?case
    by (cases ys) auto
next
  case (Cons x xs)
  then show ?case
    by (cases ys) auto
qed

lemma tiles_unique: "tiles B F s xs e \<Longrightarrow> tiles B F s ys e \<Longrightarrow> xs = ys"
proof (induction xs arbitrary: s ys)
  case Nil
  then show ?case
    using tiles_le by (cases ys) fastforce+
next
  case (Cons x xs)
  then obtain n where n: "x = s" "shape B s = Some (n, False)" "tiles B F (s + 40 + n) xs e"
    by auto
  then have "s \<noteq> e"
    using tiles_le by fastforce
  then obtain zs where "ys = s # zs" "tiles B F (s + 40 + n) zs e"
    using Cons.prems(2) n(2) by (cases ys) auto
  then show ?case
    using Cons.IH n by auto
qed

lemma reach_list:
  assumes "old_reach a P" "path (o_blocks a) (o_free_list a) fs None"
  obtains bs M where "old_inv a bs fs M" "P = payloads (held (o_blocks a) bs M)"
    "tiles (o_blocks a) (o_footers a) (heap_base a) bs (heap_top a)"
proof -
  obtain bs fs' M where inv: "old_inv a bs fs' M" "P = payloads (held (o_blocks a) bs M)"
    using old_reach_inv [OF assms(1)] by blast
  then have "path (o_blocks a) (o_free_list a) fs' None" "tiles (o_blocks a) (o_footers a) (heap_base a) bs (heap_top a)"
    by (simp_all add: old_inv_def heap_inv_def)
  then show thesis
    using that inv path_unique [OF assms(2)] by blast
qed

section \<open>Properties\<close>

text \<open>C33: in every reachable state of the old allocator the blocks of the program break cover its
  range without gap or overlap, each with a footer that agrees with its header; the free list leads
  through exactly the free blocks, no two neighbours are free, \<open>available_bytes\<close> is the sum of
  the free sizes, the end of the last search is a free block, and every other block is held by the
  program.\<close>

theorem old_reachable_tiling:
  assumes "old_reach a P"
  shows "\<exists>bs fs. tiles (o_blocks a) (o_footers a) (heap_base a) bs (heap_top a)
     \<and> path (o_blocks a) (o_free_list a) fs None \<and> distinct fs \<and> set fs = {b \<in> set bs. isfree (o_blocks a) b}
     \<and> successively (not_both (o_blocks a)) bs \<and> o_available_bytes a = fsum (o_blocks a) bs
     \<and> o_prev_search_end a \<in> insert None (Some ` set fs) \<and> (\<lambda>b. b + 24) ` (set bs - set fs) \<subseteq> P"
proof -
  obtain bs fs M where inv: "old_inv a bs fs M" "P = payloads (held (o_blocks a) bs M)"
    using old_reach_inv [OF assms] by blast
  then have h: "heap_inv a bs fs M {}" and adj: "successively (not_both (o_blocks a)) bs"
    by (simp_all add: old_inv_def)
  note i = heap_invD [OF h]
  have free: "set fs = {b \<in> set bs. isfree (o_blocks a) b}"
    using i(5) by simp
  have "(\<lambda>b. b + 24) ` (set bs - set fs) \<subseteq> P"
    unfolding inv(2) free by (auto simp: payloads_def held_def busy_def)
  moreover have "o_prev_search_end a \<in> insert None (Some ` set fs)"
    using i(8) by blast
  ultimately show ?thesis
    using i(1,3,4,7) free adj by blast
qed

theorem old_reachable_tiling_witness:
  "\<exists>bs fs. tiles (o_blocks run7) (o_footers run7) (heap_base run7) bs (heap_top run7)
     \<and> path (o_blocks run7) (o_free_list run7) fs None \<and> distinct fs \<and> set fs = {b \<in> set bs. isfree (o_blocks run7) b}
     \<and> successively (not_both (o_blocks run7)) bs \<and> o_available_bytes run7 = fsum (o_blocks run7) bs
     \<and> o_prev_search_end run7 \<in> insert None (Some ` set fs) \<and> (\<lambda>b. b + 24) ` (set bs - set fs) \<subseteq> {65700, 65980, 66120}"
  by (rule old_reachable_tiling [OF run7_reach])

lemma old_held_apart:
  assumes "old_inv a bs fs M" "b \<in> held (o_blocks a) bs M" "c \<in> held (o_blocks a) bs M" "b \<noteq> c"
  shows "c + 40 + bsz (o_blocks a) c \<le> b \<or> b + 40 + bsz (o_blocks a) b \<le> c"
  using held_payload_apart [OF assms(1,2), of c] assms(3,4) by (auto simp: held_def busy_def)

text \<open>Two blocks the program holds, from the program break or mapped, do not share a byte, headers and
  footers included.\<close>

lemma old_reachable_apart:
  assumes "old_reach a P" "p \<in> P" "q \<in> P" "p \<noteq> q"
  shows "{p - 24 ..< p + bsz (o_blocks a) (p - 24) + 16} \<inter> {q - 24 ..< q + bsz (o_blocks a) (q - 24) + 16} = {}"
proof -
  obtain bs fs M where inv: "old_inv a bs fs M" "P = payloads (held (o_blocks a) bs M)"
    using old_reach_inv [OF assms(1)] by blast
  then obtain b c where "p = b + 24" "q = c + 24" "b \<in> held (o_blocks a) bs M" "c \<in> held (o_blocks a) bs M"
    using assms(2,3) by (auto simp: payloads_def)
  then show ?thesis
    using old_held_apart [OF inv(1), of b c] assms(4) by auto
qed

text \<open>C34: where the search ends, \<open>allocate\<close> returns: either \<open>(void*)-1\<close>, without a change, when
  no free block is large enough; or a payload that fits the request, was not held, and shares no
  byte with any other that the program holds. The blocks held keep their headers.\<close>

theorem old_allocate_contract:
  assumes "old_reach a P" "sys_ok sys a (mmapped a P)" "n + 40 < 18446744073709551616" "search_free n a \<noteq> None"
  shows "\<exists>r a'. old_allocate sys n a = Some (r, a')
     \<and> (if r = SYS_FAILED then a' = a
        else old_reach a' (insert r P) \<and> r \<notin> P \<and> n \<le> bsz (o_blocks a') (r - 24)
          \<and> (\<forall>q\<in>P. o_blocks a' (q - 24) = o_blocks a (q - 24)
               \<and> {r - 24 ..< r + n + 16} \<inter> {q - 24 ..< q + bsz (o_blocks a) (q - 24) + 16} = {}))"
proof -
  obtain bs fs M where inv: "old_inv a bs fs M" "P = payloads (held (o_blocks a) bs M)"
    using old_reach_inv [OF assms(1)] by blast
  have sys: "sys_ok sys a M"
    using assms(2) mmapped_held [OF inv(1)] inv(2) by simp
  have "(\<exists>x\<in>set fs. fits (o_blocks a) n x) \<or> o_available_bytes a < n \<or> search_ends (o_prev_search_end a) fs"
    using assms(4) search_free_inv(1,3) [OF inv(1), of n] by (auto split: option.splits if_splits)
  from old_allocate_spec [OF inv(1) sys assms(3) this]
  obtain r a' bs' fs' M' where r: "old_allocate sys n a = Some (r, a')" "old_inv a' bs' fs' M'"
      "if r = SYS_FAILED then a' = a \<and> bs' = bs \<and> fs' = fs \<and> M' = M \<and> (\<forall>x\<in>set fs. \<not> fits (o_blocks a) n x)
        else \<exists>b. r = b + 24 \<and> b \<notin> held (o_blocks a) bs M \<and> held (o_blocks a') bs' M' = insert b (held (o_blocks a) bs M)
           \<and> n \<le> bsz (o_blocks a') b \<and> (\<forall>x\<in>held (o_blocks a) bs M. o_blocks a' x = o_blocks a x)"
    by blast
  show ?thesis
  proof (cases "r = SYS_FAILED")
    case False
    then obtain b where b: "r = b + 24" "b \<notin> held (o_blocks a) bs M" "held (o_blocks a') bs' M' = insert b (held (o_blocks a) bs M)"
        "n \<le> bsz (o_blocks a') b" "\<forall>x\<in>held (o_blocks a) bs M. o_blocks a' x = o_blocks a x"
      using r(3) by auto
    have "o_blocks a' (q - 24) = o_blocks a (q - 24)
        \<and> {r - 24 ..< r + n + 16} \<inter> {q - 24 ..< q + bsz (o_blocks a) (q - 24) + 16} = {}" if "q \<in> P" for q
    proof -
      obtain c where c: "q = c + 24" "c \<in> held (o_blocks a) bs M"
        using \<open>q \<in> P\<close> inv(2) by (auto simp: payloads_def)
      then have "bsz (o_blocks a') c = bsz (o_blocks a) c" "b \<noteq> c"
        using b(2,5) by (auto simp: bsz_def)
      then show ?thesis
        using c b old_held_apart [OF r(2), of b c] by auto
    qed
    moreover have "old_reach a' (insert r P)"
      using reach_allocate [OF assms(1-3) r(1)] False by simp
    ultimately show ?thesis
      using r(1) b inv(2) False by auto
  qed (use r in auto)
qed

lemma run7_allocate: "map_option fst (old_allocate no_sys 100 run7) = Some 65840"
proof -
  have "search_free 100 run7 = Some (Some (None, 65816))"
    by (simp add: run_simps run7_def)
  then have "old_allocate no_sys 100 run7 = take_block None 65816 100 run7"
    by (simp add: old_allocate_def run7_def chunk_state_def)
  also have "map_option fst \<dots> = Some 65840"
    by (simp add: run_simps run7_def)
  finally show ?thesis .
qed

theorem old_allocate_contract_witness:
  "\<exists>a'. old_allocate no_sys 100 run7 = Some (65840, a') \<and> old_reach a' {65840, 65700, 65980, 66120}
     \<and> 100 \<le> bsz (o_blocks a') 65816"
proof -
  have "search_free 100 run7 \<noteq> None"
    by (simp add: run_simps run7_def)
  from old_allocate_contract [OF run7_reach no_sys_ok _ this] run7_allocate show ?thesis
    by (auto simp: SYS_FAILED_def)
qed

text \<open>The search is next-fit: it gives the first block large enough, and the one in front of it, in
  the order of the free list begun after the block where the last search ended. When there is none it
  gives up, except that it does not end if the last search ended at the last block of the list.\<close>

lemma old_search_next_fit:
  assumes "old_reach a P" "path (o_blocks a) (o_free_list a) fs None"
  shows "search_free n a = (case List.find (fits (o_blocks a) n) (search_order (o_prev_search_end a) fs) of
       Some c \<Rightarrow> Some (Some (pred_in fs c, c))
     | None \<Rightarrow> if search_ends (o_prev_search_end a) fs then Some None else None)"
proof -
  from assms(1) obtain bs M where "old_inv a bs fs M"
    by (rule reach_list [OF _ assms(2)])
  then show ?thesis
    by (rule search_free_inv(1))
qed

text \<open>C36: \<open>allocate\<close> does not return in exactly one situation: the request is within
  \<open>available_bytes\<close>, no free block is large enough, and the last search ended at the last block
  of the free list. Such a state can be reached.\<close>

theorem old_allocate_hangs:
  assumes "old_reach a P" "path (o_blocks a) (o_free_list a) fs None"
    and "sys_ok sys a (mmapped a P)" "n + 40 < 18446744073709551616"
  shows "old_allocate sys n a = None \<longleftrightarrow>
     n \<le> o_available_bytes a \<and> (\<forall>x\<in>set fs. \<not> fits (o_blocks a) n x) \<and> fs \<noteq> [] \<and> o_prev_search_end a = Some (last fs)"
proof -
  from assms(1) obtain bs M where inv: "old_inv a bs fs M" "P = payloads (held (o_blocks a) bs M)"
    by (rule reach_list [OF _ assms(2)])
  have sys: "sys_ok sys a M"
    using assms(3) mmapped_held [OF inv(1)] inv(2) by simp
  let ?ends = "(\<exists>x\<in>set fs. fits (o_blocks a) n x) \<or> o_available_bytes a < n \<or> search_ends (o_prev_search_end a) fs"
  have "old_allocate sys n a = None \<longleftrightarrow> \<not> ?ends"
  proof (cases ?ends)
    case True
    then show ?thesis
      using old_allocate_spec [OF inv(1) sys assms(4)] by auto
  next
    case False
    then have "search_free n a = None"
      using search_free_inv(1,3) [OF inv(1), of n] by simp
    then show ?thesis
      using False by (simp add: old_allocate_def)
  qed
  then show ?thesis
    by (auto simp: search_ends_def not_less)
qed

theorem old_allocate_hangs_witness:
  "old_reach run7 {65700, 65980, 66120} \<and> old_allocate no_sys 150 run7 = None"
proof -
  have "old_allocate no_sys 150 run7 = None"
    using old_allocate_hangs [OF run7_reach run7_path no_sys_ok, of 150]
    by (simp add: run7_def chunk_state_def fits_def isfree_def bsz_def)
  with run7_reach show ?thesis
    by blast
qed



text \<open>
  C37: what the program has written into its memory survives every call of the old design. Neither
  \<open>allocate\<close> nor \<open>deallocate\<close> of another payload writes a header or a footer over a byte of a block
  the program holds.
\<close>

theorem old_contents_preserved:
  assumes "old_reach a P" "q \<in> P" "x \<in> {q - 24 ..< q + bsz (o_blocks a) (q - 24) + 16}"
  shows "(\<forall>sys n r a'. sys_ok sys a (mmapped a P) \<longrightarrow> n + 40 < 18446744073709551616 \<longrightarrow>
       old_allocate sys n a = Some (r, a') \<longrightarrow> \<not> wrote a a' x)
     \<and> (\<forall>sys p ok a'. p \<in> P \<longrightarrow> p \<noteq> q \<longrightarrow> old_deallocate sys p a = Some (ok, a') \<longrightarrow> \<not> wrote a a' x)"
proof -
  obtain bs fs M where inv: "old_inv a bs fs M" "P = payloads (held (o_blocks a) bs M)"
    using old_reach_inv [OF assms(1)] by blast
  obtain h where h: "q = h + 24" "h \<in> held (o_blocks a) bs M"
    using assms(2) inv(2) by (auto simp: payloads_def)
  have x: "x \<in> {h ..< h + 40 + bsz (o_blocks a) h}"
    using assms(3) h(1) by auto
  have sys: "sys_ok sys a M" if "sys_ok sys a (mmapped a P)" for sys
    using that mmapped_held [OF inv(1)] inv(2) by simp
  have "\<not> wrote a a' x" if "p \<in> P" "p \<noteq> q" "old_deallocate sys p a = Some (ok, a')" for sys p ok a'
  proof -
    obtain b where b: "p = b + 24" "b \<in> held (o_blocks a) bs M"
      using \<open>p \<in> P\<close> inv(2) by (auto simp: payloads_def)
    then show ?thesis
      using keeps_not_wrote [OF deallocate_keeps [OF inv(1) b(2) h(2)] x] that(2,3) h(1) by auto
  qed
  then show ?thesis
    using keeps_not_wrote [OF allocate_keeps [OF inv(1) sys _ h(2)] x] by blast
qed

theorem old_contents_preserved_witness: "\<not> wrote run4 run5 65700"
proof -
  have "65700 \<in> {65560, 65700, 65840, 65980 :: nat}" "(65700 :: nat) \<in> {65700 - 24 ..< 65700 + bsz (o_blocks run4) (65700 - 24) + 16}"
    by simp_all
  from old_contents_preserved [OF run4_reach this, THEN conjunct2, rule_format, OF _ _ run4_step [of no_sys]] show ?thesis
    by simp
qed

text \<open>C40: the destructor ends exactly when the free list is empty or holds only the last block of the
  program break. In every other reachable state it does not: a free block that is not the last is
  unlinked and put back for ever.\<close>

theorem old_destroy_terminates:
  assumes "old_reach a P" "path (o_blocks a) (o_free_list a) fs None"
    and "tiles (o_blocks a) (o_footers a) (heap_base a) bs (heap_top a)"
  shows "(\<exists>a'. destroy_OldAllocator sys a = Some a' \<and> o_free_list a' = None) \<longleftrightarrow> fs = [] \<or> fs = [last bs]"
proof -
  from assms(1) obtain bs' M where inv: "old_inv a bs' fs M"
      "tiles (o_blocks a) (o_footers a) (heap_base a) bs' (heap_top a)"
    by (rule reach_list [OF _ assms(2)])
  have "bs' = bs"
    by (rule tiles_unique [OF inv(2) assms(3)])
  moreover have "o_free_list a' = None" if "old_inv a' cs [] M'" for a' cs M'
    using that by (simp add: old_inv_def heap_inv_def)
  ultimately show ?thesis
    using destroy_spec [OF inv(1), of sys] by (auto split: if_splits)
qed

theorem old_destroy_terminates_witness:
  "\<not> (\<exists>a'. destroy_OldAllocator no_sys run7 = Some a' \<and> o_free_list a' = None)"
  using old_destroy_terminates [OF run7_reach run7_path run7_tiles, of no_sys] by simp

text \<open>A request of at least \<open>2 ^ 64 - 40\<close> bytes wraps around: \<open>mmap\<close> is asked for fewer than
  40 bytes, less than a header and a footer, and when it grants them \<open>allocate\<close> hands out a block
  said to be as large as the request.\<close>

lemma old_oversize_request:
  assumes "old_reach a P" "18446744073709551576 \<le> n" "n < 18446744073709551616"
    and "sys_mmap sys (n + 40 - 18446744073709551616) = p" "p + 24 < 18446744073709551615"
  shows "n + 40 - 18446744073709551616 < 40
     \<and> (\<exists>a'. old_allocate sys n a = Some (p + 24, a') \<and> bsz (o_blocks a') p = n)"
proof -
  obtain bs fs M where inv: "old_inv a bs fs M"
    using old_reach_inv [OF assms(1)] by blast
  then have h: "heap_inv a bs fs M {}"
    by (simp add: old_inv_def)
  note i = heap_invD [OF h]
  have "o_available_bytes a < n"
  proof (cases "bs = []")
    case False
    then have "0 < length bs"
      by simp
    then obtain b where b: "b \<in> set bs"
      by fastforce
    have "fsum (o_blocks a) bs + 40 * length bs \<le> heap_top a - heap_base a"
      by (rule fsum_le [OF i(1)])
    then have "fsum (o_blocks a) bs + 40 \<le> heap_top a - heap_base a"
      using \<open>0 < length bs\<close> by linarith
    moreover have "0 < heap_base a \<or> heap_top a = 0"
      using i(10,11) by (auto simp: heap_base_def heap_top_def split: option.splits)
    ultimately show ?thesis
      using i(2,7) assms(2) by linarith
  qed (use i(7) assms(2) in simp)
  moreover have "u64 (n + 40) = n + 40 - 18446744073709551616"
  proof -
    have "(n + 40) mod 18446744073709551616 = (n + 40 - 18446744073709551616) mod 18446744073709551616"
      using assms(2) by (intro le_mod_geq) simp
    then show ?thesis
      using assms(3) by (simp add: u64_def)
  qed
  moreover have "p \<noteq> SYS_FAILED" "MMAP_THRESHOLD \<le> n" "u64 (p + 24) = p + 24"
    using assms(2,5) by (auto simp: SYS_FAILED_def MMAP_THRESHOLD_def u64_id)
  ultimately have "\<exists>a'. old_allocate sys n a = Some (p + 24, a') \<and> bsz (o_blocks a') p = n"
    using assms(4) by (simp add: old_allocate_def create_block_def write_footer_def put_block_def sizes Let_def)
  then show ?thesis
    using assms(2,3) by simp
qed

end
