(* ===== verification/Old_Tests.thy ===== *)
theory Old_Tests
  imports Old_Design_Props
begin

text \<open>
  The tests of the old design in \<open>old/main.cpp\<close>: the first four, and the main program. Each builds an
  allocator, calls it, writes and reads the memory it is given, and at its end runs the
  destructor. The bytes of the memory are explicit here; a call of the allocator may put anything
  into the bytes it writes. The tests call \<open>return_back\<close>, which is commented out in
  \<open>old_design.hpp\<close>; it is modelled as it stands there. They pass for every place the system may
  put the program break, whatever it answers later, and end, destructor included.
\<close>

section \<open>The machine a test runs on\<close>

text \<open>\<open>return_back(T*)\<close>, with \<open>return_back(Block*)\<close> the text of \<open>return_back_unlocked\<close>.\<close>

definition return_back :: "addr \<Rightarrow> OldAllocator \<Rightarrow> (bool \<times> OldAllocator) option" where
  "return_back p a = (let b = sub64 p header_size in return_back_unlocked (if b = 0 then nullptr else Some b) a)"

record Machine =
  t_heap :: OldAllocator
  t_ram :: "addr \<Rightarrow> nat"
  t_calls :: nat

text \<open>The system's answers during the \<open>k\<close>-th call, in the state the call finds, and the bytes that a
  call leaves where it writes.\<close>

record Env =
  answers :: "nat \<Rightarrow> OldAllocator \<Rightarrow> OldSystem"
  noise :: "nat \<Rightarrow> addr \<Rightarrow> nat"

definition finish :: "Env \<Rightarrow> Machine \<Rightarrow> OldAllocator \<Rightarrow> Machine" where
  "finish E s a = \<lparr>t_heap = a, t_ram = (\<lambda>x. if wrote (t_heap s) a x then noise E (t_calls s) x else t_ram s x),
     t_calls = Suc (t_calls s)\<rparr>"

definition m_allocate :: "Env \<Rightarrow> nat \<Rightarrow> Machine \<Rightarrow> (addr \<times> Machine) option" where
  "m_allocate E n s = map_option (\<lambda>(p, a). (p, finish E s a)) (old_allocate (answers E (t_calls s) (t_heap s)) n (t_heap s))"

definition m_return_back :: "Env \<Rightarrow> addr \<Rightarrow> Machine \<Rightarrow> (bool \<times> Machine) option" where
  "m_return_back E p s = map_option (\<lambda>(ok, a). (ok, finish E s a)) (return_back p (t_heap s))"

text \<open>A byte the program writes is not part of a header or footer any more.\<close>

definition scribble :: "addr \<Rightarrow> nat \<Rightarrow> OldAllocator \<Rightarrow> OldAllocator" where
  "scribble p n a = a\<lparr>o_blocks := (\<lambda>x. if p < x + 24 \<and> x < p + n then None else o_blocks a x),
                     o_footers := (\<lambda>x. if p < x + 16 \<and> x < p + n then None else o_footers a x)\<rparr>"

definition memset :: "addr \<Rightarrow> nat \<Rightarrow> nat \<Rightarrow> Machine \<Rightarrow> Machine" where
  "memset p v n s = s\<lparr>t_heap := scribble p n (t_heap s), t_ram := (\<lambda>x. if p \<le> x \<and> x < p + n then v else t_ram s x)\<rparr>"

definition failed :: "addr \<Rightarrow> bool" where
  "failed p \<longleftrightarrow> p = 0 \<or> p = SYS_FAILED"

text \<open>\<open>sbrk(0)\<close> gives the program break, which nobody else moves.\<close>

definition program_break :: "Machine \<Rightarrow> ptr" where
  "program_break s = o_brk_heap_end (t_heap s)"

section \<open>The tests\<close>

text \<open>What a test prints last.\<close>

datatype verdict = Pass | Fail string

definition with_allocator :: "Env \<Rightarrow> (Machine \<Rightarrow> ('a \<times> Machine) option) \<Rightarrow> 'a option" where
  "with_allocator E body = do {
     a \<leftarrow> new_OldAllocator (answers E 0 empty_OldAllocator);
     (v, s) \<leftarrow> body \<lparr>t_heap = a, t_ram = noise E 0, t_calls = 1\<rparr>;
     _ \<leftarrow> destroy_OldAllocator (answers E (t_calls s) (t_heap s)) (t_heap s);
     Some v
   }"

definition reuses_freelist_body :: "Env \<Rightarrow> Machine \<Rightarrow> (verdict \<times> Machine) option" where
  "reuses_freelist_body E s = do {
     (first, s1) \<leftarrow> m_allocate E 128 s;
     if failed first then Some (Fail ''initial allocation failed'', s1)
     else do {
       (ok, s2) \<leftarrow> m_return_back E first (memset first 171 128 s1);
       if \<not> ok then Some (Fail ''return_back failed'', s2)
       else do {
         (reused, s3) \<leftarrow> m_allocate E 64 s2;
         if reused \<noteq> first then Some (Fail ''expected reuse of returned block pointer'', s3)
         else Some (Pass, s3)
       }
     }
   }"

definition test_return_back_reuses_freelist :: "Env \<Rightarrow> verdict option" where
  "test_return_back_reuses_freelist E = with_allocator E (reuses_freelist_body E)"

definition no_new_block_body :: "Env \<Rightarrow> Machine \<Rightarrow> (verdict \<times> Machine) option" where
  "no_new_block_body E s = do {
     (p, s1) \<leftarrow> m_allocate E 256 s;
     if failed p then Some (Fail ''initial allocation failed'', s1)
     else do {
       (ok, s2) \<leftarrow> m_return_back E p s1;
       if \<not> ok then Some (Fail ''return_back failed'', s2)
       else do {
         let brk_before = program_break s2;
         (q, s3) \<leftarrow> m_allocate E 128 s2;
         let brk_after = program_break s3;
         if failed q then Some (Fail ''second allocation failed'', s3)
         else if brk_before \<noteq> brk_after then Some (Fail ''program break moved despite enough free-list space'', s3)
         else Some (Pass, s3)
       }
     }
   }"

definition test_no_new_block_when_free_space_exists :: "Env \<Rightarrow> verdict option" where
  "test_no_new_block_when_free_space_exists E = with_allocator E (no_new_block_body E)"

text \<open>The conjunction stops at the first call that fails.\<close>

primrec return_all :: "Env \<Rightarrow> addr list \<Rightarrow> Machine \<Rightarrow> (bool \<times> Machine) option" where
  "return_all E [] s = Some (True, s)"
| "return_all E (p # ps) s = do {
     (ok, s1) \<leftarrow> m_return_back E p s;
     if ok then return_all E ps s1 else Some (False, s1)
   }"

definition coalescing_body :: "Env \<Rightarrow> Machine \<Rightarrow> (verdict \<times> Machine) option" where
  "coalescing_body E s = do {
     (a, s1) \<leftarrow> m_allocate E 120 s;
     (b, s2) \<leftarrow> m_allocate E 120 s1;
     (c, s3) \<leftarrow> m_allocate E 120 s2;
     if failed a \<or> failed b \<or> failed c then Some (Fail ''setup allocations failed'', s3)
     else do {
       (ok, s4) \<leftarrow> return_all E [a, b, c] s3;
       if \<not> ok then Some (Fail ''return_back on setup blocks failed'', s4)
       else do {
         (merged, s5) \<leftarrow> m_allocate E 280 s4;
         if merged \<noteq> a then Some (Fail ''expected coalesced allocation to start at first freed block'', s5)
         else Some (Pass, s5)
       }
     }
   }"

definition test_coalescing_of_adjacent_freed_blocks :: "Env \<Rightarrow> verdict option" where
  "test_coalescing_of_adjacent_freed_blocks E = with_allocator E (coalescing_body E)"

definition boundary_body :: "Env \<Rightarrow> Machine \<Rightarrow> (verdict \<times> Machine) option" where
  "boundary_body E s = do {
     (left, s1) \<leftarrow> m_allocate E 80 s;
     (right, s2) \<leftarrow> m_allocate E 80 s1;
     if failed left \<or> failed right then Some (Fail ''setup allocations failed'', s2)
     else do {
       let s3 = memset right 34 80 (memset left 17 80 s2);
       let s4 = memset right 60 1 (memset (left + 79) 126 1 s3);
       if t_ram s4 (left + 79) \<noteq> 126 \<or> t_ram s4 right \<noteq> 60 then Some (Fail ''boundary writes were not preserved'', s4)
       else if \<exists>i\<in>set [1..<80]. t_ram s4 (right + i) \<noteq> 34 then Some (Fail ''right block corruption detected'', s4)
       else Some (Pass, s4)
     }
   }"

definition test_pointer_arithmetic_and_boundary_safety :: "Env \<Rightarrow> verdict option" where
  "test_pointer_arithmetic_and_boundary_safety E = with_allocator E (boundary_body E)"

text \<open>The main program runs the tests one after the other; its result is the exit code.\<close>

primrec run_tests :: "verdict option list \<Rightarrow> nat \<Rightarrow> nat option" where
  "run_tests [] passed = Some passed"
| "run_tests (t # ts) passed = do {
     v \<leftarrow> t;
     run_tests ts (if v = Pass then Suc passed else passed)
   }"

definition old_main :: "verdict option list \<Rightarrow> nat option" where
  "old_main tests = do {
     passed \<leftarrow> run_tests tests 0;
     Some (if passed = length tests then 0 else 1)
   }"

section \<open>The destructor at the end of a test\<close>

text \<open>A free list with one block, the last of the break.\<close>

lemma destroy_one:
  assumes "o_free_list a = Some b" "o_blocks a b = Some \<lparr>b_size = n, b_free = True, b_mapped = False, b_next = None\<rparr>"
    and "o_brk_heap_end a = Some (b + 40 + n)" "n \<le> o_available_bytes a" "o_available_bytes a < 18446744073709551616"
    and "b + 40 + n < 18446744073709551616"
  shows "destroy_OldAllocator sys a \<noteq> None"
proof -
  define k1 where "k1 = \<lparr>b_size = n, b_free = False, b_mapped = False, b_next = None\<rparr>"
  define a1 where "a1 = a\<lparr>o_blocks := (o_blocks a)(b \<mapsto> k1), o_free_list := None,
     o_prev_search_end := drop_search_end b a, o_available_bytes := o_available_bytes a - n\<rparr>"
  have "deallocate_block sys (Some b) a = deallocate_block sys (Some b) a1"
    by (rule dealloc_free_run [OF assms(1,2)]) (use assms in \<open>simp_all add: a1_def k1_def\<close>)
  moreover have "block_end b k1 = b + 40 + n"
    using assms(6) by (simp add: k1_def block_end_def block_span_def sizes u64_id)
  moreover have "o_blocks a1 b = Some k1" "\<not> b_free k1" "\<not> b_mapped k1" "o_brk_heap_end a1 = Some (b + 40 + n)" "o_free_list a1 = None"
    using assms(3) by (simp_all add: a1_def k1_def)
  ultimately obtain r a2 where "deallocate_block sys (Some b) a = Some (r, a2)" "o_free_list a2 = None"
    using dealloc_run [of a1 b k1 sys] by (cases "sys_brk sys b") auto
  then show ?thesis
    using assms(1) destroy_empty [of a2 sys] by (subst destroy_OldAllocator.simps) simp
qed

lemma with_allocator_passes:
  assumes new: "new_OldAllocator (answers E 0 empty_OldAllocator) = Some a0"
    and run: "body \<lparr>t_heap = a0, t_ram = noise E 0, t_calls = 1\<rparr> = Some (v, s)"
    and last: "t_heap s = chunk_state B (Some b) None n bs fs" "map_of bs b = Some (n, True, None)" "b + 40 + n = B + 4136"
      "B + 4136 < 18446744073709551616"
  shows "with_allocator E body = Some v"
proof -
  have "o_blocks (t_heap s) b = Some \<lparr>b_size = n, b_free = True, b_mapped = False, b_next = None\<rparr>"
    using last(2) unfolding last(1) chunk_state_def by (induction bs) auto
  then have "destroy_OldAllocator (answers E (t_calls s) (t_heap s)) (t_heap s) \<noteq> None"
    by (rule destroy_one [rotated]) (use last in \<open>simp_all add: chunk_state_def\<close>)
  then show ?thesis
    using new run by (auto simp: with_allocator_def)
qed

section \<open>The calls of the tests\<close>

text \<open>The initial chunk is at \<open>B\<close>.\<close>

definition chunk_ok :: "addr \<Rightarrow> bool" where
  "chunk_ok B \<longleftrightarrow> 0 < B \<and> B + 4136 < 18446744073709551616"

definition fresh :: "addr \<Rightarrow> OldAllocator" where
  "fresh B = chunk_state B (Some B) None 4096 [(B, 4096, True, None)] [(B + 4120, 4096)]"

lemma new_fresh:
  assumes "sys_ok sys empty_OldAllocator {}" "sys_sbrk sys 4136 = B" "B \<noteq> SYS_FAILED"
  shows "new_OldAllocator sys = Some (fresh B) \<and> chunk_ok B"
proof -
  have "region_ok empty_OldAllocator {} B 4136"
    using assms by (auto simp: sys_ok_def)
  then show ?thesis
    using assms new_OldAllocator_run [OF assms(1)]
    by (simp add: Let_def new_block_def empty_OldAllocator_def fresh_def chunk_state_def chunk_ok_def region_ok_def fun_eq_iff)
qed

lemmas free_simps = state_simps u64_id sub64_id return_back_def return_back_unlocked_def coalesce_around_def coalesce_prev_def
  insert_free_def next_phys_def prev_phys_def coalesce_next.simps grow_block_def unlink_free_def unlink_loop.simps

lemma reuses_calls:
  assumes "chunk_ok B"
  shows "\<exists>a1 a2 a3. (\<forall>sys. old_allocate sys 128 (fresh B) = Some (B + 24, a1)) \<and> scribble (B + 24) 128 a1 = a1
     \<and> return_back (B + 24) a1 = Some (True, a2) \<and> (\<forall>sys. old_allocate sys 64 a2 = Some (B + 24, a3))
     \<and> a3 = chunk_state B (Some (B + 104)) None 3992
         [(B, 64, False, None), (B + 168, 3928, False, None), (B + 104, 3992, True, None)]
         [(B + 152, 128), (B + 4120, 3992), (B + 88, 64)]"
proof -
  define a1 where "a1 = chunk_state B (Some (B + 168)) None 3928
     [(B, 128, False, None), (B + 168, 3928, True, None)] [(B + 152, 128), (B + 4120, 3928)]"
  define a2 where "a2 = chunk_state B (Some B) None 4096
     [(B, 4096, True, None), (B + 168, 3928, False, None)] [(B + 152, 128), (B + 4120, 4096)]"
  note B = assms [unfolded chunk_ok_def]
  have "old_allocate sys 128 (fresh B) = Some (B + 24, a1)" for sys
    using B by (intro allocate_found [of _ _ None B]) (simp_all add: state_simps u64_id sub64_id fresh_def a1_def fun_eq_iff)
  moreover have "scribble (B + 24) 128 a1 = a1"
    by (simp add: scribble_def a1_def chunk_state_def fun_eq_iff)
  moreover have "return_back (B + 24) a1 = Some (True, a2)"
    using B by (simp add: free_simps a1_def a2_def fun_eq_iff)
  moreover have "old_allocate sys 64 a2 = Some (B + 24, chunk_state B (Some (B + 104)) None 3992
         [(B, 64, False, None), (B + 168, 3928, False, None), (B + 104, 3992, True, None)]
         [(B + 152, 128), (B + 4120, 3992), (B + 88, 64)])" for sys
    using B by (intro allocate_found [of _ _ None B]) (simp_all add: state_simps u64_id sub64_id a2_def fun_eq_iff)
  ultimately show ?thesis
    by blast
qed

lemma no_new_block_calls:
  assumes "chunk_ok B"
  shows "\<exists>a1 a2 a3. (\<forall>sys. old_allocate sys 256 (fresh B) = Some (B + 24, a1)) \<and> return_back (B + 24) a1 = Some (True, a2)
     \<and> (\<forall>sys. old_allocate sys 128 a2 = Some (B + 24, a3)) \<and> o_brk_heap_end a2 = o_brk_heap_end a3
     \<and> a3 = chunk_state B (Some (B + 168)) None 3928
         [(B, 128, False, None), (B + 296, 3800, False, None), (B + 168, 3928, True, None)]
         [(B + 280, 256), (B + 4120, 3928), (B + 152, 128)]"
proof -
  define a1 where "a1 = chunk_state B (Some (B + 296)) None 3800
     [(B, 256, False, None), (B + 296, 3800, True, None)] [(B + 280, 256), (B + 4120, 3800)]"
  define a2 where "a2 = chunk_state B (Some B) None 4096
     [(B, 4096, True, None), (B + 296, 3800, False, None)] [(B + 280, 256), (B + 4120, 4096)]"
  note B = assms [unfolded chunk_ok_def]
  have "old_allocate sys 256 (fresh B) = Some (B + 24, a1)" for sys
    using B by (intro allocate_found [of _ _ None B]) (simp_all add: state_simps u64_id sub64_id fresh_def a1_def fun_eq_iff)
  moreover have "return_back (B + 24) a1 = Some (True, a2)"
    using B by (simp add: free_simps a1_def a2_def fun_eq_iff)
  moreover have "old_allocate sys 128 a2 = Some (B + 24, chunk_state B (Some (B + 168)) None 3928
         [(B, 128, False, None), (B + 296, 3800, False, None), (B + 168, 3928, True, None)]
         [(B + 280, 256), (B + 4120, 3928), (B + 152, 128)])" for sys
    using B by (intro allocate_found [of _ _ None B]) (simp_all add: state_simps u64_id sub64_id a2_def fun_eq_iff)
  ultimately show ?thesis
    by (auto simp: a2_def chunk_state_def)
qed

lemma boundary_calls:
  assumes "chunk_ok B"
  shows "\<exists>a1 a2. (\<forall>sys. old_allocate sys 80 (fresh B) = Some (B + 24, a1)) \<and> (\<forall>sys. old_allocate sys 80 a1 = Some (B + 144, a2))
     \<and> a2 = chunk_state B (Some (B + 240)) None 3856
         [(B, 80, False, None), (B + 120, 80, False, None), (B + 240, 3856, True, None)]
         [(B + 104, 80), (B + 224, 80), (B + 4120, 3856)]
     \<and> scribble (B + 24) 80 a2 = a2 \<and> scribble (B + 144) 80 a2 = a2 \<and> scribble (B + 24 + 79) 1 a2 = a2 \<and> scribble (B + 144) 1 a2 = a2"
proof -
  define a1 where "a1 = chunk_state B (Some (B + 120)) None 3976
     [(B, 80, False, None), (B + 120, 3976, True, None)] [(B + 104, 80), (B + 4120, 3976)]"
  define a2 where "a2 = chunk_state B (Some (B + 240)) None 3856
         [(B, 80, False, None), (B + 120, 80, False, None), (B + 240, 3856, True, None)]
         [(B + 104, 80), (B + 224, 80), (B + 4120, 3856)]"
  note B = assms [unfolded chunk_ok_def]
  have "old_allocate sys 80 (fresh B) = Some (B + 24, a1)" for sys
    using B by (intro allocate_found [of _ _ None B]) (simp_all add: state_simps u64_id sub64_id fresh_def a1_def fun_eq_iff)
  moreover have "old_allocate sys 80 a1 = Some (B + 144, a2)" for sys
    using B by (intro allocate_found [of _ _ None "B + 120"]) (simp_all add: state_simps u64_id sub64_id a1_def a2_def fun_eq_iff)
  moreover have "scribble (B + 24) 80 a2 = a2" "scribble (B + 144) 80 a2 = a2" "scribble (B + 24 + 79) 1 a2 = a2" "scribble (B + 144) 1 a2 = a2"
    by (simp_all add: scribble_def a2_def chunk_state_def fun_eq_iff)
  ultimately show ?thesis
    unfolding a2_def by blast
qed

text \<open>Three neighbours are given back; the last call merges them with the rest of the chunk.\<close>

definition three_blocks :: "addr \<Rightarrow> OldAllocator" where
  "three_blocks B = chunk_state B (Some (B + 480)) None 3616
     [(B, 120, False, None), (B + 160, 120, False, None), (B + 320, 120, False, None), (B + 480, 3616, True, None)]
     [(B + 144, 120), (B + 304, 120), (B + 464, 120), (B + 4120, 3616)]"

definition one_block :: "addr \<Rightarrow> OldAllocator" where
  "one_block B = chunk_state B (Some B) None 4096
     [(B, 4096, True, None), (B + 160, 120, True, None), (B + 320, 120, True, None), (B + 480, 3616, False, None)]
     [(B + 144, 120), (B + 304, 280), (B + 464, 440), (B + 4120, 4096)]"

lemma three_allocated:
  assumes "chunk_ok B"
  shows "\<exists>a1 a2. (\<forall>sys. old_allocate sys 120 (fresh B) = Some (B + 24, a1)) \<and> (\<forall>sys. old_allocate sys 120 a1 = Some (B + 184, a2))
     \<and> (\<forall>sys. old_allocate sys 120 a2 = Some (B + 344, three_blocks B))"
proof -
  define a1 where "a1 = chunk_state B (Some (B + 160)) None 3936
     [(B, 120, False, None), (B + 160, 3936, True, None)] [(B + 144, 120), (B + 4120, 3936)]"
  define a2 where "a2 = chunk_state B (Some (B + 320)) None 3776
     [(B, 120, False, None), (B + 160, 120, False, None), (B + 320, 3776, True, None)]
     [(B + 144, 120), (B + 304, 120), (B + 4120, 3776)]"
  note B = assms [unfolded chunk_ok_def]
  have "old_allocate sys 120 (fresh B) = Some (B + 24, a1)" for sys
    using B by (intro allocate_found [of _ _ None B]) (simp_all add: state_simps u64_id sub64_id fresh_def a1_def fun_eq_iff)
  moreover have "old_allocate sys 120 a1 = Some (B + 184, a2)" for sys
    using B by (intro allocate_found [of _ _ None "B + 160"]) (simp_all add: state_simps u64_id sub64_id a1_def a2_def fun_eq_iff)
  moreover have "old_allocate sys 120 a2 = Some (B + 344, three_blocks B)" for sys
    using B by (intro allocate_found [of _ _ None "B + 320"]) (simp_all add: state_simps u64_id sub64_id a2_def three_blocks_def fun_eq_iff)
  ultimately show ?thesis
    by blast
qed

lemma three_returned:
  assumes "chunk_ok B"
  shows "\<exists>a1 a2. return_back (B + 24) (three_blocks B) = Some (True, a1) \<and> return_back (B + 184) a1 = Some (True, a2)
     \<and> return_back (B + 344) a2 = Some (True, one_block B)"
proof -
  define a1 where "a1 = chunk_state B (Some B) None 3736
     [(B, 120, True, Some (B + 480)), (B + 160, 120, False, None), (B + 320, 120, False, None), (B + 480, 3616, True, None)]
     [(B + 144, 120), (B + 304, 120), (B + 464, 120), (B + 4120, 3616)]"
  define a2 where "a2 = chunk_state B (Some B) None 3896
     [(B, 280, True, Some (B + 480)), (B + 160, 120, True, None), (B + 320, 120, False, None), (B + 480, 3616, True, None)]
     [(B + 144, 120), (B + 304, 280), (B + 464, 120), (B + 4120, 3616)]"
  note B = assms [unfolded chunk_ok_def]
  have "return_back (B + 24) (three_blocks B) = Some (True, a1)"
    using B by (simp add: free_simps three_blocks_def a1_def fun_eq_iff)
  moreover have "return_back (B + 184) a1 = Some (True, a2)"
    using B by (simp add: free_simps a1_def a2_def fun_eq_iff)
  moreover have "return_back (B + 344) a2 = Some (True, one_block B)"
    using B by (simp add: free_simps a2_def one_block_def fun_eq_iff)
  ultimately show ?thesis
    by blast
qed

lemma merged_allocated:
  assumes "chunk_ok B"
  shows "old_allocate sys 280 (one_block B) = Some (B + 24, chunk_state B (Some (B + 320)) None 3776
     [(B, 280, False, None), (B + 160, 120, True, None), (B + 320, 3776, True, None), (B + 480, 3616, False, None)]
     [(B + 144, 120), (B + 304, 280), (B + 464, 440), (B + 4120, 3776)])"
  using assms unfolding chunk_ok_def
  by (intro allocate_found [of _ _ None B]) (simp_all add: state_simps u64_id sub64_id one_block_def fun_eq_iff)

section \<open>The tests pass\<close>

lemma m_allocate_run: "old_allocate (answers E (t_calls s) (t_heap s)) n (t_heap s) = Some (p, a) \<Longrightarrow> m_allocate E n s = Some (p, finish E s a)"
  by (simp add: m_allocate_def)

lemma m_return_run: "return_back p (t_heap s) = Some (ok, a) \<Longrightarrow> m_return_back E p s = Some (ok, finish E s a)"
  by (simp add: m_return_back_def)

lemma finish_sel [simp]: "t_heap (finish E s a) = a" "t_heap (memset p v n s) = scribble p n (t_heap s)"
  "t_calls (memset p v n s) = t_calls s"
  by (simp_all add: finish_def memset_def)

lemma ram_memset: "t_ram (memset p v n s) x = (if p \<le> x \<and> x < p + n then v else t_ram s x)"
  by (simp add: memset_def)

lemma payload_not_failed: "chunk_ok B \<Longrightarrow> x \<le> 4096 \<Longrightarrow> \<not> failed (B + x)"
  by (auto simp: chunk_ok_def failed_def SYS_FAILED_def)

lemma test1_passes:
  assumes new: "new_OldAllocator (answers E 0 empty_OldAllocator) = Some (fresh B)" and B: "chunk_ok B"
  shows "test_return_back_reuses_freelist E = Some Pass"
proof -
  obtain a1 a2 a3 where c: "\<forall>sys. old_allocate sys 128 (fresh B) = Some (B + 24, a1)" "scribble (B + 24) 128 a1 = a1"
      "return_back (B + 24) a1 = Some (True, a2)" "\<forall>sys. old_allocate sys 64 a2 = Some (B + 24, a3)"
      "a3 = chunk_state B (Some (B + 104)) None 3992
         [(B, 64, False, None), (B + 168, 3928, False, None), (B + 104, 3992, True, None)]
         [(B + 152, 128), (B + 4120, 3992), (B + 88, 64)]"
    using reuses_calls [OF B] by blast
  define s where "s = finish E (finish E (memset (B + 24) 171 128
      (finish E \<lparr>t_heap = fresh B, t_ram = noise E 0, t_calls = 1\<rparr> a1)) a2) a3"
  have run: "reuses_freelist_body E \<lparr>t_heap = fresh B, t_ram = noise E 0, t_calls = 1\<rparr> = Some (Pass, s)"
    using c(1-4) payload_not_failed [OF B, of 24]
    by (simp add: reuses_freelist_body_def m_allocate_run m_return_run s_def)
  have "t_heap s = chunk_state B (Some (B + 104)) None 3992
         [(B, 64, False, None), (B + 168, 3928, False, None), (B + 104, 3992, True, None)]
         [(B + 152, 128), (B + 4120, 3992), (B + 88, 64)]"
    by (simp add: s_def c(5))
  then show ?thesis
    unfolding test_return_back_reuses_freelist_def
    by (rule with_allocator_passes [where body = "reuses_freelist_body E", OF new run]) (use B in \<open>simp_all add: chunk_ok_def\<close>)
qed

lemma test2_passes:
  assumes new: "new_OldAllocator (answers E 0 empty_OldAllocator) = Some (fresh B)" and B: "chunk_ok B"
  shows "test_no_new_block_when_free_space_exists E = Some Pass"
proof -
  obtain a1 a2 a3 where c: "\<forall>sys. old_allocate sys 256 (fresh B) = Some (B + 24, a1)"
      "return_back (B + 24) a1 = Some (True, a2)" "\<forall>sys. old_allocate sys 128 a2 = Some (B + 24, a3)"
      "o_brk_heap_end a2 = o_brk_heap_end a3"
      "a3 = chunk_state B (Some (B + 168)) None 3928
         [(B, 128, False, None), (B + 296, 3800, False, None), (B + 168, 3928, True, None)]
         [(B + 280, 256), (B + 4120, 3928), (B + 152, 128)]"
    using no_new_block_calls [OF B] by blast
  define s where "s = finish E (finish E (finish E \<lparr>t_heap = fresh B, t_ram = noise E 0, t_calls = 1\<rparr> a1) a2) a3"
  have run: "no_new_block_body E \<lparr>t_heap = fresh B, t_ram = noise E 0, t_calls = 1\<rparr> = Some (Pass, s)"
    using c(1-4) payload_not_failed [OF B, of 24]
    by (simp add: no_new_block_body_def m_allocate_run m_return_run s_def program_break_def Let_def)
  have "t_heap s = chunk_state B (Some (B + 168)) None 3928
         [(B, 128, False, None), (B + 296, 3800, False, None), (B + 168, 3928, True, None)]
         [(B + 280, 256), (B + 4120, 3928), (B + 152, 128)]"
    by (simp add: s_def c(5))
  then show ?thesis
    unfolding test_no_new_block_when_free_space_exists_def
    by (rule with_allocator_passes [where body = "no_new_block_body E", OF new run]) (use B in \<open>simp_all add: chunk_ok_def\<close>)
qed

lemma test3_passes:
  assumes new: "new_OldAllocator (answers E 0 empty_OldAllocator) = Some (fresh B)" and B: "chunk_ok B"
  shows "test_coalescing_of_adjacent_freed_blocks E = Some Pass"
proof -
  obtain a1 a2 where c: "\<forall>sys. old_allocate sys 120 (fresh B) = Some (B + 24, a1)" "\<forall>sys. old_allocate sys 120 a1 = Some (B + 184, a2)"
      "\<forall>sys. old_allocate sys 120 a2 = Some (B + 344, three_blocks B)"
    using three_allocated [OF B] by blast
  obtain a4 a5 where d: "return_back (B + 24) (three_blocks B) = Some (True, a4)" "return_back (B + 184) a4 = Some (True, a5)"
      "return_back (B + 344) a5 = Some (True, one_block B)"
    using three_returned [OF B] by blast
  define s3 where "s3 = finish E (finish E (finish E \<lparr>t_heap = fresh B, t_ram = noise E 0, t_calls = 1\<rparr> a1) a2) (three_blocks B)"
  define s where "s = finish E (finish E (finish E (finish E s3 a4) a5) (one_block B)) (chunk_state B (Some (B + 320)) None 3776
     [(B, 280, False, None), (B + 160, 120, True, None), (B + 320, 3776, True, None), (B + 480, 3616, False, None)]
     [(B + 144, 120), (B + 304, 280), (B + 464, 440), (B + 4120, 3776)])"
  have run: "coalescing_body E \<lparr>t_heap = fresh B, t_ram = noise E 0, t_calls = 1\<rparr> = Some (Pass, s)"
    using c d merged_allocated [OF B] payload_not_failed [OF B]
    by (simp add: coalescing_body_def m_allocate_run m_return_run s_def s3_def)
  have "t_heap s = chunk_state B (Some (B + 320)) None 3776
     [(B, 280, False, None), (B + 160, 120, True, None), (B + 320, 3776, True, None), (B + 480, 3616, False, None)]
     [(B + 144, 120), (B + 304, 280), (B + 464, 440), (B + 4120, 3776)]"
    by (simp add: s_def)
  then show ?thesis
    unfolding test_coalescing_of_adjacent_freed_blocks_def
    by (rule with_allocator_passes [where body = "coalescing_body E", OF new run]) (use B in \<open>simp_all add: chunk_ok_def\<close>)
qed

lemma test4_passes:
  assumes new: "new_OldAllocator (answers E 0 empty_OldAllocator) = Some (fresh B)" and B: "chunk_ok B"
  shows "test_pointer_arithmetic_and_boundary_safety E = Some Pass"
proof -
  obtain a1 a2 where c: "\<forall>sys. old_allocate sys 80 (fresh B) = Some (B + 24, a1)" "\<forall>sys. old_allocate sys 80 a1 = Some (B + 144, a2)"
      "a2 = chunk_state B (Some (B + 240)) None 3856
         [(B, 80, False, None), (B + 120, 80, False, None), (B + 240, 3856, True, None)]
         [(B + 104, 80), (B + 224, 80), (B + 4120, 3856)]"
      "scribble (B + 24) 80 a2 = a2" "scribble (B + 144) 80 a2 = a2" "scribble (B + 24 + 79) 1 a2 = a2" "scribble (B + 144) 1 a2 = a2"
    using boundary_calls [OF B] by blast
  define s where "s = memset (B + 144) 60 1 (memset (B + 24 + 79) 126 1 (memset (B + 144) 34 80 (memset (B + 24) 17 80
      (finish E (finish E \<lparr>t_heap = fresh B, t_ram = noise E 0, t_calls = 1\<rparr> a1) a2))))"
  have run: "boundary_body E \<lparr>t_heap = fresh B, t_ram = noise E 0, t_calls = 1\<rparr> = Some (Pass, s)"
    using c(1,2) payload_not_failed [OF B]
    by (simp add: boundary_body_def m_allocate_run s_def ram_memset Let_def)
  have "t_heap s = chunk_state B (Some (B + 240)) None 3856
         [(B, 80, False, None), (B + 120, 80, False, None), (B + 240, 3856, True, None)]
         [(B + 104, 80), (B + 224, 80), (B + 4120, 3856)]"
    unfolding s_def finish_sel c(4-7) by (rule c(3))
  then show ?thesis
    unfolding test_pointer_arithmetic_and_boundary_safety_def
    by (rule with_allocator_passes [where body = "boundary_body E", OF new run]) (use B in \<open>simp_all add: chunk_ok_def\<close>)
qed

definition demo_env :: Env where
  "demo_env = \<lparr>answers = (\<lambda>_ a. if a = empty_OldAllocator then first_sys else no_sys), noise = (\<lambda>_ _. 0)\<rparr>"

end
