(* ===== verification/Old_Stress.thy ===== *)
theory Old_Stress
  imports Old_Tests
begin

text \<open>
  The fifth test of \<open>old/main.cpp\<close>: a thousand random calls, with the bytes of every payload checked
  when it is given back. Whatever numbers are drawn and whatever the system answers, it never
  reports a duplicate pointer, a corrupted payload or a failure to give a block back.
\<close>

section \<open>The test\<close>

text \<open>The numbers drawn in each round (\<open>action_dist\<close>, \<open>size_dist\<close> and the generator itself).\<close>

record Draws =
  action_draw :: "nat \<Rightarrow> nat"
  size_draw :: "nat \<Rightarrow> nat"
  index_draw :: "nat \<Rightarrow> nat"

text \<open>A live allocation has its pointer, size and tag.\<close>

record Stress =
  live :: "(addr \<times> nat \<times> nat) list"
  live_ptrs :: "addr set"
  mach :: Machine

definition stress_allocate :: "Env \<Rightarrow> Draws \<Rightarrow> nat \<Rightarrow> Stress \<Rightarrow> (verdict option \<times> Stress) option" where
  "stress_allocate E D i s = do {
     let sz = size_draw D i;
     (p, m1) \<leftarrow> m_allocate E sz (mach s);
     if failed p then Some (Some (Fail ''allocation failed during stress loop''), s\<lparr>mach := m1\<rparr>)
     else if p \<in> live_ptrs s then Some (Some (Fail ''duplicate live pointer allocated''), s\<lparr>mach := m1\<rparr>)
     else do {
       let tag = i * 37 mod 256;
       Some (None, \<lparr>live = live s @ [(p, sz, tag)], live_ptrs = insert p (live_ptrs s), mach = memset p tag sz m1\<rparr>)
     }
   }"

definition stress_return :: "Env \<Rightarrow> Draws \<Rightarrow> nat \<Rightarrow> Stress \<Rightarrow> (verdict option \<times> Stress) option" where
  "stress_return E D i s = (
     let idx = index_draw D i mod length (live s);
         (p, sz, tag) = live s ! idx;
         mid = sz div 2;
         ram = t_ram (mach s)
     in if ram p \<noteq> tag \<or> ram (p + mid) \<noteq> tag \<or> ram (p + (sz - 1)) \<noteq> tag
        then Some (Some (Fail ''payload corruption before return_back''), s)
        else do {
          (ok, m1) \<leftarrow> m_return_back E p (mach s);
          if \<not> ok then Some (Some (Fail ''return_back failed during stress loop''), s\<lparr>mach := m1\<rparr>)
          else Some (None, \<lparr>live = butlast ((live s)[idx := last (live s)]), live_ptrs = live_ptrs s - {p}, mach = m1\<rparr>)
        })"

definition stress_round :: "Env \<Rightarrow> Draws \<Rightarrow> nat \<Rightarrow> Stress \<Rightarrow> (verdict option \<times> Stress) option" where
  "stress_round E D i s = do {
     (v, s1) \<leftarrow> (if live s = [] \<or> action_draw D i < 65 then stress_allocate E D i s else stress_return E D i s);
     if v \<noteq> None then Some (v, s1)
     else if i mod 250 = 0 \<and> \<not> distinct (map fst (live s1))
     then Some (Some (Fail ''duplicate live pointer found during periodic check''), s1)
     else Some (None, s1)
   }"

primrec stress_loop :: "Env \<Rightarrow> Draws \<Rightarrow> nat list \<Rightarrow> Stress \<Rightarrow> (verdict option \<times> Stress) option" where
  "stress_loop E D [] s = Some (None, s)"
| "stress_loop E D (i # is) s = do {
     (v, s1) \<leftarrow> stress_round E D i s;
     if v \<noteq> None then Some (v, s1) else stress_loop E D is s1
   }"

definition stress_body :: "Env \<Rightarrow> Draws \<Rightarrow> Machine \<Rightarrow> (verdict \<times> Machine) option" where
  "stress_body E D m = do {
     (v, s) \<leftarrow> stress_loop E D [0..<1000] \<lparr>live = [], live_ptrs = {}, mach = m\<rparr>;
     case v of
       Some f \<Rightarrow> Some (f, mach s)
     | None \<Rightarrow> do {
         (ok, m1) \<leftarrow> return_all E (map fst (live s)) (mach s);
         if \<not> ok then Some (Fail ''cleanup return_back failed in stress test'', m1)
         else Some (Pass, m1)
       }
   }"

definition test_stress_random_allocate_return_uniqueness :: "Env \<Rightarrow> Draws \<Rightarrow> verdict option" where
  "test_stress_random_allocate_return_uniqueness E D = with_allocator E (stress_body E D)"

section \<open>The invariant of the rounds\<close>

text \<open>A payload the test holds, with what it has written there.\<close>

definition tagged :: "Machine \<Rightarrow> addr list \<Rightarrow> addr set \<Rightarrow> addr \<times> nat \<times> nat \<Rightarrow> bool" where
  "tagged m bs M = (\<lambda>(p, n, t). \<exists>b k. p = b + 24 \<and> b \<in> held (o_blocks (t_heap m)) bs M
     \<and> o_blocks (t_heap m) b = Some k \<and> \<not> b_mapped k \<and> 0 < n \<and> n \<le> b_size k \<and> (\<forall>x. p \<le> x \<longrightarrow> x < p + n \<longrightarrow> t_ram m x = t))"

definition machine_inv :: "Machine \<Rightarrow> (addr \<times> nat \<times> nat) list \<Rightarrow> bool" where
  "machine_inv m ls \<longleftrightarrow> distinct (map fst ls)
     \<and> (\<exists>bs fs M. old_inv (t_heap m) bs fs M \<and> (\<forall>l\<in>set ls. tagged m bs M l))"

definition stress_inv :: "Stress \<Rightarrow> bool" where
  "stress_inv s \<longleftrightarrow> machine_inv (mach s) (live s) \<and> live_ptrs s = set (map fst (live s))"

text \<open>The system behaves in every state the old design can be in.\<close>

definition env_ok :: "Env \<Rightarrow> bool" where
  "env_ok E \<longleftrightarrow> (\<forall>i a bs fs M. old_inv a bs fs M \<longrightarrow> sys_ok (answers E i a) a M)"

text \<open>A call keeps what it does not write.\<close>

lemma tagged_kept:
  assumes "tagged m bs M (b + 24, n, t)" "b \<in> held (o_blocks a') bs' M'" "o_blocks a' b = o_blocks (t_heap m) b"
    and "keeps b (b + 40 + bsz (o_blocks (t_heap m)) b) (t_heap m) a'"
  shows "tagged (finish E m a') bs' M' (b + 24, n, t)"
proof -
  obtain k where k: "o_blocks (t_heap m) b = Some k" "\<not> b_mapped k" "0 < n" "n \<le> b_size k"
      "\<forall>x. b + 24 \<le> x \<longrightarrow> x < b + 24 + n \<longrightarrow> t_ram m x = t"
    using assms(1) by (auto simp: tagged_def)
  have "t_ram (finish E m a') x = t_ram m x" if "b + 24 \<le> x" "x < b + 24 + n" for x
    using keeps_not_wrote [OF assms(4), of x] that k(1,4) by (simp add: finish_def)
  then show ?thesis
    using k assms(2,3) by (auto simp: tagged_def)
qed

text \<open>Writing one payload leaves the others.\<close>

lemma tagged_memset:
  assumes inv: "old_inv (t_heap m) bs fs M" and b: "b \<in> held (o_blocks (t_heap m)) bs M" "n \<le> bsz (o_blocks (t_heap m)) b"
    and l: "tagged m bs M (c + 24, k, u)" "c \<noteq> b"
  shows "tagged (memset (b + 24) t n m) bs M (c + 24, k, u)"
proof -
  obtain kc where c: "c \<in> held (o_blocks (t_heap m)) bs M" "o_blocks (t_heap m) c = Some kc" "\<not> b_mapped kc" "0 < k" "k \<le> b_size kc"
      "\<forall>x. c + 24 \<le> x \<longrightarrow> x < c + 24 + k \<longrightarrow> t_ram m x = u"
    using l(1) by (auto simp: tagged_def)
  have ap: "c + 40 + b_size kc \<le> b \<or> b + 40 + bsz (o_blocks (t_heap m)) b \<le> c"
    using old_held_apart [OF inv b(1) c(1)] l(2) c(2) by auto
  then have "o_blocks (scribble (b + 24) n (t_heap m)) c = Some kc"
    using c(2) b(2) by (auto simp: scribble_def)
  moreover have "c \<in> held (o_blocks (scribble (b + 24) n (t_heap m))) bs M"
    using c(1,2) calculation by (auto simp: held_def busy_def)
  moreover have "t_ram (memset (b + 24) t n m) x = u" if "c + 24 \<le> x" "x < c + 24 + k" for x
    using that ap b(2) c(5,6) by (auto simp: ram_memset)
  ultimately show ?thesis
    using c(3-5) by (auto simp: tagged_def)
qed

lemma scribble_inv:
  assumes inv: "old_inv a bs fs M" and b: "b \<in> held (o_blocks a) bs M" "n \<le> bsz (o_blocks a) b"
  shows "old_inv (scribble (b + 24) n a) bs fs M \<and> (\<forall>x\<in>set bs \<union> M. o_blocks (scribble (b + 24) n a) x = o_blocks a x)"
proof (rule payload_write_inv [OF inv b(1)])
  show "payload_write (b + 24) (bsz (o_blocks a) b) a (scribble (b + 24) n a)"
    using b(2) unfolding payload_write_def scribble_def
    by (intro exI conjI) (rule refl, auto)
qed

section \<open>Allocating and giving back\<close>

lemma tagged_block: "tagged m bs M l \<Longrightarrow> \<exists>b. fst l = b + 24 \<and> b \<in> held (o_blocks (t_heap m)) bs M"
  by (auto simp: tagged_def)

lemma allocate_tagged:
  assumes inv: "old_inv (t_heap m) bs fs M" and env: "env_ok E" and n: "0 < n" "n < MMAP_THRESHOLD"
    and run: "m_allocate E n m = Some (p, m1)" "\<not> failed p"
  shows "\<exists>bs' fs' M'. old_inv (t_heap (memset p t n m1)) bs' fs' M' \<and> tagged (memset p t n m1) bs' M' (p, n, t)
     \<and> (\<forall>l. tagged m bs M l \<longrightarrow> fst l \<noteq> p \<and> tagged (memset p t n m1) bs' M' l)"
proof -
  let ?a = "t_heap m" and ?sys = "answers E (t_calls m) (t_heap m)"
  have sys: "sys_ok ?sys ?a M"
    using env inv by (auto simp: env_ok_def)
  have n40: "n + 40 < 18446744073709551616"
    using n(2) by (simp add: MMAP_THRESHOLD_def)
  obtain a' where a': "old_allocate ?sys n ?a = Some (p, a')" "m1 = finish E m a'" "p \<noteq> SYS_FAILED"
    using run by (auto simp: m_allocate_def failed_def)
  obtain bs' fs' M' b where s: "old_inv a' bs' fs' M'" "p = b + 24" "b \<notin> held (o_blocks ?a) bs M"
      "held (o_blocks a') bs' M' = insert b (held (o_blocks ?a) bs M)" "n \<le> bsz (o_blocks a') b"
      "\<forall>x\<in>held (o_blocks ?a) bs M. o_blocks a' x = o_blocks ?a x"
    using old_allocate_spec [OF inv sys n40 allocate_ended [OF inv a'(1)]] a'(1,3) by auto
  obtain k where k: "o_blocks a' b = Some k" "\<not> b_mapped k" "n \<le> b_size k"
    using allocate_unmapped [OF inv sys n(2) a'(1,3)] s(2,5) by auto
  have b: "b \<in> held (o_blocks (t_heap m1)) bs' M'" "n \<le> bsz (o_blocks (t_heap m1)) b" "old_inv (t_heap m1) bs' fs' M'"
    using s(1,4,5) by (simp_all add: a'(2))
  note w = scribble_inv [OF b(3,1,2)]
  have others: "fst l \<noteq> p \<and> tagged (memset p t n m1) bs' M' l" if l: "tagged m bs M l" for l
  proof -
    obtain q j u where l': "l = (q, j, u)"
      by (cases l)
    obtain c where c: "q = c + 24" "c \<in> held (o_blocks ?a) bs M"
      using tagged_block [OF l] l' by auto
    then have ne: "c \<noteq> b"
      using s(3) by blast
    have "tagged m1 bs' M' (c + 24, j, u)"
      unfolding a'(2)
      by (rule tagged_kept [OF l [unfolded l' c(1)] _ _ allocate_keeps [OF inv sys n40 c(2) a'(1)]]) (use c(2) s(4,6) in auto)
    then have "tagged (memset (b + 24) t n m1) bs' M' (c + 24, j, u)"
      by (rule tagged_memset [OF b(3,1,2) _ ne])
    then show ?thesis
      using ne by (simp add: l' c(1) s(2))
  qed
  have hb: "b \<in> set bs' \<union> M'"
    using b(1) by (auto simp: held_def busy_def)
  then have "o_blocks (t_heap (memset p t n m1)) b = Some k"
    using w k(1) by (simp add: s(2) a'(2))
  moreover have "b \<in> held (o_blocks (t_heap (memset p t n m1))) bs' M'"
    using b(1) calculation k(1) by (auto simp: held_def busy_def a'(2))
  ultimately have "tagged (memset p t n m1) bs' M' (p, n, t)"
    using k(2,3) n(1) by (auto simp: tagged_def s(2) ram_memset)
  moreover have "old_inv (t_heap (memset p t n m1)) bs' fs' M'"
    using w by (simp add: s(2))
  ultimately show ?thesis
    using others by blast
qed

lemma allocate_machine:
  assumes inv: "machine_inv m ls" and "env_ok E" "0 < n" "n < MMAP_THRESHOLD" "m_allocate E n m = Some (p, m1)" "\<not> failed p"
  shows "p \<notin> set (map fst ls) \<and> machine_inv (memset p t n m1) (ls @ [(p, n, t)])"
proof -
  obtain bs fs M where b: "old_inv (t_heap m) bs fs M" "\<forall>l\<in>set ls. tagged m bs M l"
    using inv by (auto simp: machine_inv_def)
  from allocate_tagged [OF b(1) assms(2-6), of t] obtain bs' fs' M' where s:
    "old_inv (t_heap (memset p t n m1)) bs' fs' M'" "tagged (memset p t n m1) bs' M' (p, n, t)"
    "\<forall>l. tagged m bs M l \<longrightarrow> fst l \<noteq> p \<and> tagged (memset p t n m1) bs' M' l"
    by blast
  have "fst l \<noteq> p \<and> tagged (memset p t n m1) bs' M' l" if "l \<in> set ls" for l
    using b(2) s(3) that by blast
  then have "\<forall>l\<in>set (ls @ [(p, n, t)]). tagged (memset p t n m1) bs' M' l" "p \<notin> set (map fst ls)"
    using s(2) by force+
  moreover have "distinct (map fst ls)"
    using inv by (simp add: machine_inv_def)
  ultimately show ?thesis
    using s(1) unfolding machine_inv_def
    by (intro conjI exI [of _ bs'] exI [of _ fs'] exI [of _ M']) simp_all
qed

lemma return_machine:
  assumes inv: "machine_inv m ls" and l: "(p, n, t) \<in> set ls"
  shows "\<exists>m1. m_return_back E p m = Some (True, m1)
     \<and> (\<forall>ls'. distinct (map fst ls') \<longrightarrow> set ls' \<subseteq> set ls \<longrightarrow> p \<notin> set (map fst ls') \<longrightarrow> machine_inv m1 ls')"
proof -
  obtain bs fs M where b: "old_inv (t_heap m) bs fs M" "\<forall>l\<in>set ls. tagged m bs M l"
    using inv by (auto simp: machine_inv_def)
  let ?a = "t_heap m"
  obtain b k where k: "p = b + 24" "b \<in> held (o_blocks ?a) bs M" "o_blocks ?a b = Some k" "\<not> b_mapped k"
    using b(2) l by (fastforce simp: tagged_def)
  have hb: "b \<in> set bs" "b \<notin> M" "\<not> isfree (o_blocks ?a) b" "0 < b" "sub64 (b + 24) 24 = b"
    using held_block [OF b(1) k(2)] k(3,4) by (auto simp: sub64_id)
  obtain a' where a': "return_back_unlocked (Some b) ?a = Some (True, a')" "gave_back ?a bs M b a'"
    using gave_back_inner [OF b(1) hb(1-3)] by blast
  obtain bs' fs' M' where s: "old_inv a' bs' fs' M'" "held (o_blocks a') bs' M' = held (o_blocks ?a) bs M - {b}"
      "\<forall>x\<in>held (o_blocks ?a) bs M - {b}. o_blocks a' x = o_blocks ?a x"
    using a'(2) by (auto simp: gave_back_def)
  have "m_return_back E p m = Some (True, finish E m a')"
    by (rule m_return_run) (use a'(1) hb(4,5) in \<open>simp add: return_back_def k(1) sizes\<close>)
  moreover have "tagged (finish E m a') bs' M' l'" if l': "l' \<in> set ls" "fst l' \<noteq> p" for l'
  proof -
    obtain q j u where eq: "l' = (q, j, u)"
      by (cases l')
    obtain c where c: "q = c + 24" "c \<in> held (o_blocks ?a) bs M" "tagged m bs M (c + 24, j, u)"
      using b(2) l'(1) eq tagged_block by fastforce
    then have ne: "c \<noteq> b"
      using l'(2) k(1) eq by auto
    show ?thesis
      unfolding eq c(1)
      by (rule tagged_kept [OF c(3) _ _ return_back_keeps [OF b(1) hb(1,3) c(2) ne a'(1)]]) (use c(2) ne s(2,3) in auto)
  qed
  then have "machine_inv (finish E m a') ls'" if "distinct (map fst ls')" "set ls' \<subseteq> set ls" "p \<notin> set (map fst ls')" for ls'
    using that s(1) unfolding machine_inv_def
    by (intro conjI exI [of _ bs'] exI [of _ fs'] exI [of _ M']) (auto simp: image_iff)
  ultimately show ?thesis
    by blast
qed

text \<open>The entry given back is overwritten by the last one.\<close>

lemma swap_remove:
  assumes "i < length xs" "distinct (map f xs)"
  shows "distinct (map f (butlast (xs[i := last xs]))) \<and> set (butlast (xs[i := last xs])) \<subseteq> set xs
     \<and> set (map f (butlast (xs[i := last xs]))) = set (map f xs) - {f (xs ! i)}"
proof -
  obtain ys z where xs: "xs = ys @ [z]"
    using assms(1) by (cases xs rule: rev_cases) auto
  show ?thesis
  proof (cases "i = length ys")
    case True
    then show ?thesis
      using assms(2) by (auto simp: xs)
  next
    case False
    then have i: "i < length ys"
      using assms(1) by (simp add: xs)
    then have eq: "butlast (xs[i := last xs]) = ys[i := z]" "xs ! i = ys ! i"
      by (simp_all add: xs list_update_append nth_append)
    obtain us y vs where ys: "ys = us @ y # vs" "length us = i"
      using id_take_nth_drop [OF i] i by (metis length_take min.absorb4)
    then have "ys[i := z] = us @ z # vs" "ys ! i = y"
      by (auto simp: list_update_append)
    then show ?thesis
      using assms(2) unfolding eq by (auto simp: xs ys(1))
  qed
qed

section \<open>The rounds\<close>

text \<open>The only failure that can be reported.\<close>

definition only_allocation_fails :: "verdict option \<Rightarrow> bool" where
  "only_allocation_fails v \<longleftrightarrow> v = None \<or> v = Some (Fail ''allocation failed during stress loop'')"

lemma stress_allocate_inv:
  assumes inv: "stress_inv s" and env: "env_ok E" "0 < size_draw D i" "size_draw D i < MMAP_THRESHOLD"
    and run: "stress_allocate E D i s = Some (v, s1)"
  shows "only_allocation_fails v \<and> (v = None \<longrightarrow> stress_inv s1)"
proof -
  obtain p m1 where m: "m_allocate E (size_draw D i) (mach s) = Some (p, m1)"
    using run by (auto simp: stress_allocate_def Let_def elim!: bind_SomeE)
  show ?thesis
  proof (cases "failed p")
    case False
    have "machine_inv (mach s) (live s)" "live_ptrs s = set (map fst (live s))"
      using inv by (simp_all add: stress_inv_def)
    with allocate_machine [OF this(1) env m False, of "i * 37 mod 256"]
    have new: "p \<notin> live_ptrs s" "machine_inv (memset p (i * 37 mod 256) (size_draw D i) m1) (live s @ [(p, size_draw D i, i * 37 mod 256)])"
        "live_ptrs s = set (map fst (live s))"
      by simp_all
    have "v = None \<and> s1 = \<lparr>live = live s @ [(p, size_draw D i, i * 37 mod 256)], live_ptrs = insert p (live_ptrs s),
        mach = memset p (i * 37 mod 256) (size_draw D i) m1\<rparr>"
      using run m False new(1) by (simp add: stress_allocate_def Let_def)
    then show ?thesis
      using new(2,3) by (simp add: only_allocation_fails_def stress_inv_def)
  qed (use run m in \<open>auto simp: stress_allocate_def Let_def only_allocation_fails_def\<close>)
qed

lemma machine_inv_bytes:
  assumes "machine_inv m ls" "(p, n, t) \<in> set ls"
  shows "0 < n \<and> (\<forall>x. p \<le> x \<longrightarrow> x < p + n \<longrightarrow> t_ram m x = t)"
  using assms by (fastforce simp: machine_inv_def tagged_def)

lemma stress_return_inv:
  assumes inv: "stress_inv s" and ne: "live s \<noteq> []"
  shows "\<exists>s1. stress_return E D i s = Some (None, s1) \<and> stress_inv s1"
proof -
  let ?i = "index_draw D i mod length (live s)"
  have m: "machine_inv (mach s) (live s)" "distinct (map fst (live s))" "live_ptrs s = set (map fst (live s))"
    using inv by (simp_all add: stress_inv_def machine_inv_def)
  have i: "?i < length (live s)"
    using ne by simp
  obtain p n t where l: "live s ! ?i = (p, n, t)"
    by (cases "live s ! ?i")
  then have mem: "(p, n, t) \<in> set (live s)"
    using i by (metis nth_mem)
  have ram: "t_ram (mach s) p = t" "t_ram (mach s) (p + n div 2) = t" "t_ram (mach s) (p + (n - 1)) = t"
    using machine_inv_bytes [OF m(1) mem] by auto
  obtain m1 where r: "m_return_back E p (mach s) = Some (True, m1)"
      "\<forall>ls'. distinct (map fst ls') \<longrightarrow> set ls' \<subseteq> set (live s) \<longrightarrow> p \<notin> set (map fst ls') \<longrightarrow> machine_inv m1 ls'"
    using return_machine [OF m(1) mem] by blast
  let ?ls = "butlast ((live s)[?i := last (live s)])"
  note sw = swap_remove [OF i m(2)]
  then have "machine_inv m1 ?ls" "live_ptrs s - {p} = set (map fst ?ls)"
    using r(2) m(3) by (simp_all add: l)
  then have "stress_inv \<lparr>live = ?ls, live_ptrs = live_ptrs s - {p}, mach = m1\<rparr>"
    by (simp add: stress_inv_def)
  then show ?thesis
    using ram r(1) l by (simp add: stress_return_def Let_def)
qed

lemma stress_round_inv:
  assumes inv: "stress_inv s" and env: "env_ok E" "0 < size_draw D i" "size_draw D i < MMAP_THRESHOLD"
    and run: "stress_round E D i s = Some (v, s1)"
  shows "only_allocation_fails v \<and> (v = None \<longrightarrow> stress_inv s1)"
proof -
  have periodic: "distinct (map fst (live s2))" if "stress_inv s2" for s2
    using that by (simp add: stress_inv_def machine_inv_def)
  show ?thesis
  proof (cases "live s = [] \<or> action_draw D i < 65")
    case True
    then obtain v2 s2 where "stress_allocate E D i s = Some (v2, s2)"
      using run by (auto simp: stress_round_def elim!: bind_SomeE)
    then show ?thesis
      using stress_allocate_inv [OF inv env] run True periodic [of s2]
      by (auto simp: stress_round_def split: if_split_asm)
  next
    case False
    then obtain s2 where "stress_return E D i s = Some (None, s2)" "stress_inv s2"
      using stress_return_inv [OF inv] by blast
    then show ?thesis
      using run False periodic [of s2] by (auto simp: stress_round_def only_allocation_fails_def)
  qed
qed

lemma stress_loop_inv:
  assumes "stress_inv s" "env_ok E" "\<And>i. 0 < size_draw D i \<and> size_draw D i < MMAP_THRESHOLD" "stress_loop E D is s = Some (v, s1)"
  shows "only_allocation_fails v \<and> (v = None \<longrightarrow> stress_inv s1)"
  using assms(1,4)
proof (induction "is" arbitrary: s)
  case Nil
  then show ?case
    by (simp add: only_allocation_fails_def)
next
  case (Cons i js)
  then obtain v2 s2 where r: "stress_round E D i s = Some (v2, s2)"
    by (auto elim!: bind_SomeE)
  then show ?case
    using stress_round_inv [OF Cons.prems(1) assms(2) _ _ r] assms(3) [of i] Cons.IH [of s2] Cons.prems(2)
    by (auto split: if_split_asm)
qed

lemma return_all_machine: "machine_inv m ls \<Longrightarrow> \<exists>m1. return_all E (map fst ls) m = Some (True, m1) \<and> machine_inv m1 []"
proof (induction ls arbitrary: m)
  case (Cons l ls)
  obtain p n t where l: "l = (p, n, t)"
    by (cases l)
  have d: "distinct (map fst ls)" "p \<notin> set (map fst ls)"
    using Cons.prems l by (simp_all add: machine_inv_def)
  have "(p, n, t) \<in> set (l # ls)"
    by (simp add: l)
  from return_machine [OF Cons.prems this, of E] obtain m1 where m1: "m_return_back E p m = Some (True, m1)"
      "\<forall>ls'. distinct (map fst ls') \<longrightarrow> set ls' \<subseteq> set (l # ls) \<longrightarrow> p \<notin> set (map fst ls') \<longrightarrow> machine_inv m1 ls'"
    by blast
  moreover have "machine_inv m1 ls"
    using m1(2) d by auto
  ultimately have "m_return_back E p m = Some (True, m1)" "machine_inv m1 ls"
    by blast+
  then show ?case
    using Cons.IH [of m1] l by simp
qed simp

section \<open>The property\<close>


text \<open>With the system of the first chunk only, and the same draws in every round.\<close>

lemma demo_env_ok: "env_ok demo_env"
proof -
  have "sys_ok first_sys empty_OldAllocator M" if "old_inv empty_OldAllocator bs fs M" for bs fs M
  proof -
    have "M = {}"
      using that by (auto simp: old_inv_def heap_inv_def mapped_ok_def empty_OldAllocator_def)
    then show ?thesis
      using first_sys_ok by simp
  qed
  then show ?thesis
    using no_sys_ok by (simp add: env_ok_def demo_env_def)
qed

definition demo_draws :: Draws where
  "demo_draws = \<lparr>action_draw = (\<lambda>i. if even i then 0 else 99), size_draw = (\<lambda>_. 5), index_draw = (\<lambda>_. 0)\<rparr>"


end
