(* ===== verification/Old_Header_Tests.thy ===== *)
theory Old_Header_Tests
  imports Old_Tests
begin

text \<open>
  The two tests in \<open>old/tests.hpp\<close>. Each fills an array of \<open>int\<close>s and one of \<open>char\<close>s that the older
  allocator gives it, and prints what it reads back. The four bytes of an \<open>int\<close> are written and
  read one by one, the lowest first. Both tests return \<open>true\<close> and print what they wrote.
\<close>

section \<open>Arrays of integers and characters\<close>

definition store_int :: "addr \<Rightarrow> nat \<Rightarrow> Machine \<Rightarrow> Machine" where
  "store_int p v s =
     (let s1 = memset p (v mod 256) 1 s;
          s2 = memset (p + 1) (v div 256 mod 256) 1 s1;
          s3 = memset (p + 2) (v div 65536 mod 256) 1 s2
      in memset (p + 3) (v div 16777216 mod 256) 1 s3)"

definition load_int :: "addr \<Rightarrow> Machine \<Rightarrow> int" where
  "load_int p s =
     (let v = int (t_ram s p) + 256 * int (t_ram s (p + 1)) + 65536 * int (t_ram s (p + 2)) + 16777216 * int (t_ram s (p + 3))
      in if v < 2147483648 then v else v - 4294967296)"

text \<open>What the tests print, by the line.\<close>

datatype line = Number int | Letter nat | Message string

text \<open>The loops over the two arrays. \<open>None\<close> is a write or read through the pointer of a request that
  failed.\<close>

definition fill_ints :: "addr \<Rightarrow> Machine \<Rightarrow> Machine option" where
  "fill_ints n s = (if failed n then None else Some (fold (\<lambda>i. store_int (n + 4 * i) i) [0..<100] s))"

definition print_ints :: "addr \<Rightarrow> Machine \<Rightarrow> line list" where
  "print_ints n s = map (\<lambda>j. Number (load_int (n + 4 * j) s)) [0..<100]"

definition idk :: "nat list" where
  "idk = map of_char ''abcdefghijklmnopqrstuvwxyz''"

definition fill_letters :: "addr \<Rightarrow> Machine \<Rightarrow> Machine option" where
  "fill_letters c s =
     (if failed c then None else Some (fold (\<lambda>k. memset (c + k) (idk ! (k mod length idk)) 1) [0..<50] s))"

definition print_letters :: "addr \<Rightarrow> Machine \<Rightarrow> line list" where
  "print_letters c s = map (\<lambda>m. Letter (t_ram s (c + m))) [0..<50]"

definition m_deallocate :: "Env \<Rightarrow> addr \<Rightarrow> Machine \<Rightarrow> (bool \<times> Machine) option" where
  "m_deallocate E p s = map_option (\<lambda>(ok, a). (ok, finish E s a)) (old_deallocate (answers E (t_calls s) (t_heap s)) p (t_heap s))"

section \<open>The tests\<close>

text \<open>The end that the two tests share: the letters, and the array of them given back.\<close>

definition letters_part :: "Env \<Rightarrow> addr \<Rightarrow> line list \<Rightarrow> Machine \<Rightarrow> ((bool \<times> line list) \<times> Machine) option" where
  "letters_part E c out s = do {
     s1 \<leftarrow> fill_letters c s;
     (ok, s2) \<leftarrow> m_deallocate E c s1;
     let out1 = out @ print_letters c s1;
     if \<not> ok then Some ((False, out1 @ [Message ''error deallocating memory - char'']), s2)
     else Some ((True, out1), s2)
   }"

definition test1_body :: "Env \<Rightarrow> Machine \<Rightarrow> ((bool \<times> line list) \<times> Machine) option" where
  "test1_body E s = do {
     (n, s1) \<leftarrow> m_allocate E (100 * 4) s;
     (c, s2) \<leftarrow> m_allocate E (50 * 1) s1;
     s3 \<leftarrow> fill_ints n s2;
     (ok, s4) \<leftarrow> m_deallocate E n s3;
     if \<not> ok then Some ((False, print_ints n s3 @ [Message ''error deallocating memory - int'']), s4)
     else letters_part E c (print_ints n s3) s4
   }"

definition test1 :: "Env \<Rightarrow> (bool \<times> line list) option" where
  "test1 E = with_allocator E (test1_body E)"

text \<open>\<open>test2\<close> does not look at what \<open>return_back\<close> says.\<close>

definition test2_body :: "Env \<Rightarrow> Machine \<Rightarrow> ((bool \<times> line list) \<times> Machine) option" where
  "test2_body E s = do {
     (n, s1) \<leftarrow> m_allocate E (100 * 4) s;
     s2 \<leftarrow> fill_ints n s1;
     (_, s3) \<leftarrow> m_return_back E n s2;
     (c, s4) \<leftarrow> m_allocate E (50 * 1) s3;
     letters_part E c (print_ints n s2) s4
   }"

definition test2 :: "Env \<Rightarrow> (bool \<times> line list) option" where
  "test2 E = with_allocator E (test2_body E)"

section \<open>The arrays hold what was written\<close>

lemma scribble_part: "scribble p n a = a \<Longrightarrow> p \<le> q \<Longrightarrow> q + m \<le> p + n \<Longrightarrow> scribble q m a = a"
  by (cases a) (auto simp: scribble_def fun_eq_iff split: if_splits)

lemma store_int_sel:
  assumes "scribble p 4 (t_heap s) = t_heap s"
  shows "t_heap (store_int p v s) = t_heap s" "t_calls (store_int p v s) = t_calls s"
proof -
  have "scribble (p + i) 1 (t_heap s) = t_heap s" if "i < 4" for i
    using scribble_part [OF assms, of "p + i" 1] that by simp
  from this [of 0] this [of 1] this [of 2] this [of 3]
  show "t_heap (store_int p v s) = t_heap s" "t_calls (store_int p v s) = t_calls s"
    by (simp_all add: store_int_def Let_def)
qed

lemma ram_store_int: "x < p \<or> p + 4 \<le> x \<Longrightarrow> t_ram (store_int p v s) x = t_ram s x"
  by (auto simp: store_int_def Let_def ram_memset)

lemma load_store_int: "v < 256 \<Longrightarrow> load_int p (store_int p v s) = int v"
  by (simp add: load_int_def store_int_def Let_def ram_memset)

lemma load_int_cong: "(\<And>x. p \<le> x \<Longrightarrow> x < p + 4 \<Longrightarrow> t_ram s1 x = t_ram s x) \<Longrightarrow> load_int p s1 = load_int p s"
  by (simp add: load_int_def)

lemma stored_ints:
  assumes "scribble n (4 * k) (t_heap s) = t_heap s" "k \<le> 256"
  shows "t_heap (fold (\<lambda>i. store_int (n + 4 * i) i) [0..<k] s) = t_heap s
     \<and> t_calls (fold (\<lambda>i. store_int (n + 4 * i) i) [0..<k] s) = t_calls s
     \<and> (\<forall>j<k. load_int (n + 4 * j) (fold (\<lambda>i. store_int (n + 4 * i) i) [0..<k] s) = int j)"
  using assms
proof (induction k)
  case (Suc k)
  let ?s = "fold (\<lambda>i. store_int (n + 4 * i) i) [0..<k] s"
  have "scribble n (4 * k) (t_heap s) = t_heap s" and last: "scribble (n + 4 * k) 4 (t_heap s) = t_heap s"
    using scribble_part [OF Suc.prems(1)] by simp_all
  then have IH: "t_heap ?s = t_heap s" "t_calls ?s = t_calls s" "\<forall>j<k. load_int (n + 4 * j) ?s = int j"
    using Suc.IH Suc.prems(2) by simp_all
  have "load_int (n + 4 * j) (store_int (n + 4 * k) k ?s) = int j" if "j < Suc k" for j
  proof (cases "j = k")
    case True
    then show ?thesis
      using Suc.prems(2) by (simp add: load_store_int)
  next
    case False
    then have "load_int (n + 4 * j) (store_int (n + 4 * k) k ?s) = load_int (n + 4 * j) ?s"
      using that by (intro load_int_cong ram_store_int) linarith
    then show ?thesis
      using IH(3) that False by simp
  qed
  then show ?case
    using store_int_sel [of "n + 4 * k" ?s k] last IH(1,2) by simp
qed simp

lemma fill_ints_run:
  assumes "\<not> failed n" "scribble n 400 (t_heap s) = t_heap s"
  obtains s1 where "fill_ints n s = Some s1" "t_heap s1 = t_heap s" "t_calls s1 = t_calls s"
    "print_ints n s1 = map (Number \<circ> int) [0..<100]"
proof -
  have "scribble n (4 * 100) (t_heap s) = t_heap s"
    using assms(2) by simp
  from stored_ints [OF this] show thesis
    using that assms(1) by (simp add: fill_ints_def print_ints_def del: upt_rec_numeral)
qed

lemma stored_letters:
  assumes "scribble c k (t_heap s) = t_heap s"
  shows "t_heap (fold (\<lambda>i. memset (c + i) (f i) 1) [0..<k] s) = t_heap s
     \<and> t_calls (fold (\<lambda>i. memset (c + i) (f i) 1) [0..<k] s) = t_calls s
     \<and> (\<forall>j<k. t_ram (fold (\<lambda>i. memset (c + i) (f i) 1) [0..<k] s) (c + j) = f j)"
  using assms
proof (induction k)
  case (Suc k)
  have "scribble c k (t_heap s) = t_heap s" "scribble (c + k) 1 (t_heap s) = t_heap s"
    using scribble_part [OF Suc.prems] by simp_all
  then show ?case
    using Suc.IH by (auto simp: ram_memset less_Suc_eq)
qed simp

definition alphabet :: "nat list" where
  "alphabet = map (\<lambda>k. 97 + k mod 26) [0..<50]"

lemma idk_nth: "idk ! (k mod length idk) = 97 + k mod 26"
proof -
  have idk: "idk = [97..<123]" "length idk = 26"
    by (simp_all add: idk_def upt_rec)
  have "k mod 26 < 26"
    by simp
  then show ?thesis
    unfolding idk(2) unfolding idk(1) using nth_upt [of 97 "k mod 26" 123] by (simp del: upt_rec_numeral)
qed

lemma fill_letters_run:
  assumes "\<not> failed c" "scribble c 50 (t_heap s) = t_heap s"
  obtains s1 where "fill_letters c s = Some s1" "t_heap s1 = t_heap s" "t_calls s1 = t_calls s"
    "print_letters c s1 = map Letter alphabet"
  using that stored_letters [OF assms(2), of "\<lambda>k. 97 + k mod 26"] assms(1)
  by (simp add: fill_letters_def print_letters_def alphabet_def idk_nth del: upt_rec_numeral)

section \<open>The calls of the tests\<close>

lemma m_deallocate_run:
  "old_deallocate (answers E (t_calls s) (t_heap s)) p (t_heap s) = Some (ok, a) \<Longrightarrow> m_deallocate E p s = Some (ok, finish E s a)"
  by (simp add: m_deallocate_def)

lemma old_deallocate_return:
  assumes "o_blocks a (sub64 p 24) = Some k" "sub64 p 24 \<noteq> 0" "\<not> b_free k" "\<not> b_mapped k"
    and "Some (block_end (sub64 p 24) k) \<noteq> o_brk_heap_end a" "return_back p a = Some (ok, a1)"
  shows "old_deallocate sys p a = Some (True, a1)"
  using assms by (simp add: old_deallocate_def deallocate_block_def return_back_def Let_def sizes)

definition two_arrays :: "addr \<Rightarrow> OldAllocator" where
  "two_arrays B = chunk_state B (Some (B + 530)) None 3566
     [(B, 400, False, None), (B + 440, 50, False, None), (B + 530, 3566, True, None)]
     [(B + 424, 400), (B + 514, 50), (B + 4120, 3566)]"

definition one_array :: "addr \<Rightarrow> OldAllocator" where
  "one_array B = chunk_state B (Some B) None 3966
     [(B, 400, True, Some (B + 530)), (B + 440, 50, False, None), (B + 530, 3566, True, None)]
     [(B + 424, 400), (B + 514, 50), (B + 4120, 3566)]"

definition no_array :: "addr \<Rightarrow> OldAllocator" where
  "no_array B = chunk_state B (Some B) None 4096
     [(B, 4096, True, None), (B + 440, 50, True, None), (B + 530, 3566, False, None)]
     [(B + 424, 400), (B + 514, 490), (B + 4120, 4096)]"

lemma two_arrays_calls:
  assumes "chunk_ok B"
  shows "\<exists>a1. (\<forall>sys. old_allocate sys 400 (fresh B) = Some (B + 24, a1))
     \<and> (\<forall>sys. old_allocate sys 50 a1 = Some (B + 464, two_arrays B))"
proof -
  define a1 where "a1 = chunk_state B (Some (B + 440)) None 3656
     [(B, 400, False, None), (B + 440, 3656, True, None)] [(B + 424, 400), (B + 4120, 3656)]"
  note B = assms [unfolded chunk_ok_def]
  have "old_allocate sys 400 (fresh B) = Some (B + 24, a1)" for sys
    using B by (intro allocate_found [of _ _ None B]) (simp_all add: state_simps u64_id sub64_id fresh_def a1_def fun_eq_iff)
  moreover have "old_allocate sys 50 a1 = Some (B + 464, two_arrays B)" for sys
    using B by (intro allocate_found [of _ _ None "B + 440"]) (simp_all add: state_simps u64_id sub64_id a1_def two_arrays_def fun_eq_iff)
  ultimately show ?thesis
    by blast
qed

lemma arrays_returned:
  assumes "chunk_ok B"
  shows "old_deallocate sys (B + 24) (two_arrays B) = Some (True, one_array B)"
    "old_deallocate sys (B + 464) (one_array B) = Some (True, no_array B)"
proof -
  note B = assms [unfolded chunk_ok_def]
  have "return_back (B + 24) (two_arrays B) = Some (True, one_array B)"
    using B by (simp add: free_simps two_arrays_def one_array_def fun_eq_iff)
  then show "old_deallocate sys (B + 24) (two_arrays B) = Some (True, one_array B)"
    by (rule old_deallocate_return [rotated 5, where k = "\<lparr>b_size = 400, b_free = False, b_mapped = False, b_next = None\<rparr>"])
      (use B in \<open>simp_all add: free_simps two_arrays_def\<close>)
  have "return_back (B + 464) (one_array B) = Some (True, no_array B)"
    using B by (simp add: free_simps one_array_def no_array_def fun_eq_iff)
  then show "old_deallocate sys (B + 464) (one_array B) = Some (True, no_array B)"
    by (rule old_deallocate_return [rotated 5, where k = "\<lparr>b_size = 50, b_free = False, b_mapped = False, b_next = None\<rparr>"])
      (use B in \<open>simp_all add: free_simps one_array_def\<close>)
qed

lemma arrays_writable:
  "scribble (B + 24) 400 (two_arrays B) = two_arrays B" "scribble (B + 464) 50 (one_array B) = one_array B"
  by (simp_all add: scribble_def two_arrays_def one_array_def chunk_state_def fun_eq_iff)

definition one_reused :: "addr \<Rightarrow> OldAllocator" where
  "one_reused B = chunk_state B (Some (B + 90)) None 4006
     [(B, 50, False, None), (B + 440, 3656, False, None), (B + 90, 4006, True, None)]
     [(B + 424, 400), (B + 4120, 4006), (B + 74, 50)]"

definition all_returned :: "addr \<Rightarrow> OldAllocator" where
  "all_returned B = chunk_state B (Some B) None 4096
     [(B, 4096, True, None), (B + 440, 3656, False, None), (B + 90, 4006, False, None)]
     [(B + 424, 400), (B + 4120, 4096), (B + 74, 50)]"

lemma reused_calls:
  assumes "chunk_ok B"
  shows "\<exists>a1 a2. (\<forall>sys. old_allocate sys 400 (fresh B) = Some (B + 24, a1)) \<and> scribble (B + 24) 400 a1 = a1
     \<and> return_back (B + 24) a1 = Some (True, a2) \<and> (\<forall>sys. old_allocate sys 50 a2 = Some (B + 24, one_reused B))"
proof -
  define a1 where "a1 = chunk_state B (Some (B + 440)) None 3656
     [(B, 400, False, None), (B + 440, 3656, True, None)] [(B + 424, 400), (B + 4120, 3656)]"
  define a2 where "a2 = chunk_state B (Some B) None 4096
     [(B, 4096, True, None), (B + 440, 3656, False, None)] [(B + 424, 400), (B + 4120, 4096)]"
  note B = assms [unfolded chunk_ok_def]
  have "old_allocate sys 400 (fresh B) = Some (B + 24, a1)" for sys
    using B by (intro allocate_found [of _ _ None B]) (simp_all add: state_simps u64_id sub64_id fresh_def a1_def fun_eq_iff)
  moreover have "scribble (B + 24) 400 a1 = a1"
    by (simp add: scribble_def a1_def chunk_state_def fun_eq_iff)
  moreover have "return_back (B + 24) a1 = Some (True, a2)"
    using B by (simp add: free_simps a1_def a2_def fun_eq_iff)
  moreover have "old_allocate sys 50 a2 = Some (B + 24, one_reused B)" for sys
    using B by (intro allocate_found [of _ _ None B]) (simp_all add: state_simps u64_id sub64_id a2_def one_reused_def fun_eq_iff)
  ultimately show ?thesis
    by blast
qed

lemma reused_returned:
  assumes "chunk_ok B"
  shows "old_deallocate sys (B + 24) (one_reused B) = Some (True, all_returned B)"
    "scribble (B + 24) 50 (one_reused B) = one_reused B"
proof -
  note B = assms [unfolded chunk_ok_def]
  have "return_back (B + 24) (one_reused B) = Some (True, all_returned B)"
    using B by (simp add: free_simps one_reused_def all_returned_def fun_eq_iff)
  then show "old_deallocate sys (B + 24) (one_reused B) = Some (True, all_returned B)"
    by (rule old_deallocate_return [rotated 5, where k = "\<lparr>b_size = 50, b_free = False, b_mapped = False, b_next = None\<rparr>"])
      (use B in \<open>simp_all add: free_simps one_reused_def\<close>)
qed (simp add: scribble_def one_reused_def chunk_state_def fun_eq_iff)

section \<open>The tests pass\<close>

lemma letters_part_run:
  assumes "\<not> failed c" "scribble c 50 (t_heap s) = t_heap s" "\<And>sys. old_deallocate sys c (t_heap s) = Some (True, a)"
  obtains s1 where "letters_part E c out s = Some ((True, out @ map Letter alphabet), s1)" "t_heap s1 = a"
proof -
  obtain s0 where s0: "fill_letters c s = Some s0" "t_heap s0 = t_heap s" "t_calls s0 = t_calls s"
      "print_letters c s0 = map Letter alphabet"
    by (rule fill_letters_run [OF assms(1,2)])
  then show thesis
    using that [of "finish E s0 a"] assms(3) by (simp add: letters_part_def m_deallocate_run)
qed

definition expected_lines :: "line list" where
  "expected_lines = map (Number \<circ> int) [0..<100] @ map Letter alphabet"

lemma test1_prints:
  assumes new: "new_OldAllocator (answers E 0 empty_OldAllocator) = Some (fresh B)" and B: "chunk_ok B"
  shows "test1 E = Some (True, expected_lines)"
proof -
  let ?s0 = "\<lparr>t_heap = fresh B, t_ram = noise E 0, t_calls = 1\<rparr>"
  obtain a1 where a1: "\<forall>sys. old_allocate sys 400 (fresh B) = Some (B + 24, a1)"
      "\<forall>sys. old_allocate sys 50 a1 = Some (B + 464, two_arrays B)"
    using two_arrays_calls [OF B] by blast
  define s2 where "s2 = finish E (finish E ?s0 a1) (two_arrays B)"
  have "scribble (B + 24) 400 (t_heap s2) = t_heap s2"
    using arrays_writable(1) by (simp add: s2_def)
  then obtain s3 where s3: "fill_ints (B + 24) s2 = Some s3" "t_heap s3 = t_heap s2" "t_calls s3 = t_calls s2"
      "print_ints (B + 24) s3 = map (Number \<circ> int) [0..<100]"
    using fill_ints_run [OF payload_not_failed [OF B, of 24]] by auto
  let ?s4 = "finish E s3 (one_array B)"
  obtain s where s: "letters_part E (B + 464) (map (Number \<circ> int) [0..<100]) ?s4 = Some ((True, expected_lines), s)"
      "t_heap s = no_array B"
    using letters_part_run [of "B + 464" ?s4 "no_array B"] payload_not_failed [OF B] arrays_writable(2)
      arrays_returned(2) [OF B] unfolding expected_lines_def by auto
  have "m_deallocate E (B + 24) s3 = Some (True, ?s4)"
    using arrays_returned(1) [OF B] s3(2) by (intro m_deallocate_run) (simp add: s2_def)
  then have run: "test1_body E ?s0 = Some ((True, expected_lines), s)"
    using a1 s3(1,4) s(1) by (simp add: test1_body_def m_allocate_run s2_def)
  show ?thesis
    unfolding test1_def
    by (rule with_allocator_passes [where body = "test1_body E", OF new run s(2) [unfolded no_array_def]])
      (use B in \<open>simp_all add: chunk_ok_def\<close>)
qed

lemma test2_prints:
  assumes new: "new_OldAllocator (answers E 0 empty_OldAllocator) = Some (fresh B)" and B: "chunk_ok B"
  shows "test2 E = Some (True, expected_lines)"
proof -
  let ?s0 = "\<lparr>t_heap = fresh B, t_ram = noise E 0, t_calls = 1\<rparr>"
  obtain a1 a2 where a: "\<forall>sys. old_allocate sys 400 (fresh B) = Some (B + 24, a1)" "scribble (B + 24) 400 a1 = a1"
      "return_back (B + 24) a1 = Some (True, a2)" "\<forall>sys. old_allocate sys 50 a2 = Some (B + 24, one_reused B)"
    using reused_calls [OF B] by blast
  define s1 where "s1 = finish E ?s0 a1"
  have "scribble (B + 24) 400 (t_heap s1) = t_heap s1"
    using a(2) by (simp add: s1_def)
  then obtain s2 where s2: "fill_ints (B + 24) s1 = Some s2" "t_heap s2 = t_heap s1" "t_calls s2 = t_calls s1"
      "print_ints (B + 24) s2 = map (Number \<circ> int) [0..<100]"
    using fill_ints_run [OF payload_not_failed [OF B, of 24]] by auto
  let ?s4 = "finish E (finish E s2 a2) (one_reused B)"
  obtain s where s: "letters_part E (B + 24) (map (Number \<circ> int) [0..<100]) ?s4 = Some ((True, expected_lines), s)"
      "t_heap s = all_returned B"
    using letters_part_run [of "B + 24" ?s4 "all_returned B"] payload_not_failed [OF B]
      reused_returned [OF B] unfolding expected_lines_def by auto
  have "m_return_back E (B + 24) s2 = Some (True, finish E s2 a2)"
    using a(3) s2(2) by (intro m_return_run) (simp add: s1_def)
  then have run: "test2_body E ?s0 = Some ((True, expected_lines), s)"
    using a(1,4) s2(1,4) s(1) by (simp add: test2_body_def m_allocate_run s1_def)
  show ?thesis
    unfolding test2_def
    by (rule with_allocator_passes [where body = "test2_body E", OF new run s(2) [unfolded all_returned_def]])
      (use B in \<open>simp_all add: chunk_ok_def\<close>)
qed

end
