(* ===== verification/Old_Trace.thy ===== *)
theory Old_Trace
  imports Old_Stress Old_Header_Tests
begin

text \<open>
  The last test of \<open>old/main.cpp\<close>, which looks at what \<open>allocate\<close> records about its search. The record
  and the statements that fill it are commented out in \<open>old_design.hpp\<close>; they are modelled as they
  stand there, and change nothing about the allocation. At the end the whole program is put together.
\<close>

section \<open>The trace\<close>

record AllocateTrace =
  started_from_prev_search_end :: bool
  wrapped_to_head :: bool
  visited_nodes :: nat
  selected_block :: ptr
  prev_search_end_before :: ptr
  prev_search_end_after :: ptr

definition no_trace :: AllocateTrace where
  "no_trace = \<lparr>started_from_prev_search_end = False, wrapped_to_head = False, visited_nodes = 0,
     selected_block = nullptr, prev_search_end_before = nullptr, prev_search_end_after = nullptr\<rparr>"

text \<open>The loop of \<open>search_loop\<close> with its two statements on the trace.\<close>

partial_function (option) trace_loop ::
  "(addr \<rightharpoonup> Block) \<Rightarrow> ptr \<Rightarrow> ptr \<Rightarrow> nat \<Rightarrow> AllocateTrace \<Rightarrow> ptr \<Rightarrow> ptr \<Rightarrow> (AllocateTrace \<times> (ptr \<times> addr) option) option" where
  "trace_loop B search_end head sz t prev cur = (case cur of
     None \<Rightarrow> Some (t, None)
   | Some c \<Rightarrow> do {
       let t1 = t\<lparr>visited_nodes := u64 (visited_nodes t + 1)\<rparr>;
       k \<leftarrow> B c;
       if b_free k \<and> sz \<le> b_size k then Some (t1, Some (prev, c))
       else if search_end \<noteq> nullptr \<and> b_next k = nullptr
       then trace_loop B search_end head sz (t1\<lparr>wrapped_to_head := True\<rparr>) nullptr head
       else do {
         stop \<leftarrow> (case search_end of
                   None \<Rightarrow> Some False
                 | Some e \<Rightarrow> do { ke \<leftarrow> B e; Some (b_next k = b_next ke) });
         if stop then Some (t1, None)
         else trace_loop B search_end head sz t1 cur (b_next k)
       }
     })"

definition traced_allocate :: "OldSystem \<Rightarrow> nat \<Rightarrow> OldAllocator \<Rightarrow> (addr \<times> AllocateTrace \<times> OldAllocator) option" where
  "traced_allocate sys sz a = do {
     let t = no_trace\<lparr>prev_search_end_before := o_prev_search_end a\<rparr>;
     (t1, found) \<leftarrow> (if sz \<le> o_available_bytes a
       then do {
         (prev, cur) \<leftarrow> search_start a;
         trace_loop (o_blocks a) (o_prev_search_end a) (o_free_list a) sz
           (t\<lparr>started_from_prev_search_end := (prev \<noteq> nullptr)\<rparr>) prev cur
       }
       else Some (t, None));
     case found of
       Some (prev, c) \<Rightarrow> do {
         (p, a1) \<leftarrow> take_block prev c sz a;
         Some (p, t1\<lparr>selected_block := Some c, prev_search_end_after := o_prev_search_end a1\<rparr>, a1)
       }
     | None \<Rightarrow> do {
         (new_block, a1) \<leftarrow> create_block sys sz False (MMAP_THRESHOLD \<le> sz) nullptr a;
         case new_block of
           None \<Rightarrow> Some (SYS_FAILED, t1, a1)
         | Some b \<Rightarrow> Some (u64 (b + header_size), t1\<lparr>prev_search_end_after := o_prev_search_end a1\<rparr>, a1)
       }
   }"

section \<open>Tracing changes nothing\<close>

lemma trace_loop_search:
  assumes "trace_loop B se head n t prev cur = Some r"
  shows "search_loop B se head n prev cur = Some (snd r)"
proof -
  define P where "P = (\<lambda>B se head n (t :: AllocateTrace) prev cur (r :: AllocateTrace \<times> (ptr \<times> addr) option).
    search_loop B se head n prev cur = Some (snd r))"
  have "P B se head n t prev cur r"
    using _ assms
  proof (rule trace_loop.raw_induct)
    fix loop B se head n t prev cur r
    assume IH: "\<And>B se head n t prev cur r. loop B se head n t prev cur = Some r \<Longrightarrow> P B se head n t prev cur r"
      and run: "(case cur of None \<Rightarrow> Some (t, None)
        | Some c \<Rightarrow> do {
            let t1 = t\<lparr>visited_nodes := u64 (visited_nodes t + 1)\<rparr>;
            k \<leftarrow> B c;
            if b_free k \<and> n \<le> b_size k then Some (t1, Some (prev, c))
            else if se \<noteq> nullptr \<and> b_next k = nullptr then loop B se head n (t1\<lparr>wrapped_to_head := True\<rparr>) nullptr head
            else do {
              stop \<leftarrow> (case se of None \<Rightarrow> Some False | Some e \<Rightarrow> do { ke \<leftarrow> B e; Some (b_next k = b_next ke) });
              if stop then Some (t1, None) else loop B se head n t1 cur (b_next k)
            }
          }) = Some r"
    show "P B se head n t prev cur r"
      using run unfolding P_def by (subst search_loop.simps)
        (auto simp: Let_def split: option.splits if_splits elim!: bind_SomeE dest!: IH [unfolded P_def])
  qed
  then show ?thesis
    by (simp add: P_def)
qed

lemma search_loop_trace:
  assumes "search_loop B se head n prev cur = Some r"
  shows "\<exists>t'. trace_loop B se head n t prev cur = Some (t', r)"
proof -
  define P where "P = (\<lambda>B se head n prev cur (r :: (ptr \<times> addr) option). \<forall>t. \<exists>t'. trace_loop B se head n t prev cur = Some (t', r))"
  have "P B se head n prev cur r"
    using _ assms
  proof (rule search_loop.raw_induct)
    fix loop B se head n prev cur r
    assume IH: "\<And>B se head n prev cur r. loop B se head n prev cur = Some r \<Longrightarrow> P B se head n prev cur r"
      and run: "(case cur of None \<Rightarrow> Some None
        | Some c \<Rightarrow> do {
            k \<leftarrow> B c;
            if b_free k \<and> n \<le> b_size k then Some (Some (prev, c))
            else if se \<noteq> nullptr \<and> b_next k = nullptr then loop B se head n nullptr head
            else do {
              stop \<leftarrow> (case se of None \<Rightarrow> Some False | Some e \<Rightarrow> do { ke \<leftarrow> B e; Some (b_next k = b_next ke) });
              if stop then Some None else loop B se head n cur (b_next k)
            }
          }) = Some r"
    have "\<exists>t'. trace_loop B se head n t prev cur = Some (t', r)" for t
      using run by (subst trace_loop.simps)
        (auto simp: Let_def split: option.splits if_splits elim!: bind_SomeE dest!: IH [unfolded P_def])
    then show "P B se head n prev cur r"
      by (simp add: P_def)
  qed
  then show ?thesis
    by (simp add: P_def)
qed

lemma trace_loop_eq: "map_option snd (trace_loop B se head n t prev cur) = search_loop B se head n prev cur"
  using trace_loop_search [of B se head n t prev cur] search_loop_trace [of B se head n prev cur _ t]
  by (cases "trace_loop B se head n t prev cur"; cases "search_loop B se head n prev cur") auto

lemma map_option_traced:
  assumes "map_option snd X = Y" "\<And>t r. map_option h (f t r) = g r"
  shows "map_option h (do { (t, r) \<leftarrow> X; f t r }) = do { r \<leftarrow> Y; g r }"
  using assms by (cases X) auto

lemma traced_allocate_eq: "map_option (\<lambda>(p, t, a'). (p, a')) (traced_allocate sys n a) = old_allocate sys n a"
proof -
  have found: "map_option snd (do {
         (prev, cur) \<leftarrow> search_start a;
         trace_loop (o_blocks a) (o_prev_search_end a) (o_free_list a) n (f prev) prev cur
       }) = search_free n a" for f
    by (cases "search_start a") (auto simp: search_free_def trace_loop_eq)
  show ?thesis
    unfolding traced_allocate_def old_allocate_def Let_def
  proof (rule map_option_traced)
    show "map_option snd (if n \<le> o_available_bytes a
        then do {
          (prev, cur) \<leftarrow> search_start a;
          trace_loop (o_blocks a) (o_prev_search_end a) (o_free_list a) n
            (no_trace\<lparr>prev_search_end_before := o_prev_search_end a, started_from_prev_search_end := (prev \<noteq> nullptr)\<rparr>) prev cur
        }
        else Some (no_trace\<lparr>prev_search_end_before := o_prev_search_end a\<rparr>, None))
      = (if n \<le> o_available_bytes a then search_free n a else Some None)"
      by (cases "n \<le> o_available_bytes a") (simp_all only: if_True if_False found option.map snd_conv)
  qed (auto simp: map_option_bind comp_def split: option.split prod.split Option.bind_split intro!: arg_cong2 [where f = Option.bind])
qed

section \<open>The test\<close>

definition m_traced :: "Env \<Rightarrow> nat \<Rightarrow> Machine \<Rightarrow> (addr \<times> AllocateTrace \<times> Machine) option" where
  "m_traced E n s = map_option (\<lambda>(p, t, a). (p, t, finish E s a)) (traced_allocate (answers E (t_calls s) (t_heap s)) n (t_heap s))"

text \<open>The head of the free list and the block behind it, where there are two.\<close>

definition first_two :: "OldAllocator \<Rightarrow> (addr \<times> Block \<times> Block) option option" where
  "first_two a = (case o_free_list a of
     None \<Rightarrow> Some None
   | Some h \<Rightarrow> do {
       kh \<leftarrow> o_blocks a h;
       case b_next kh of
         None \<Rightarrow> Some None
       | Some n \<Rightarrow> do { kn \<leftarrow> o_blocks a n; Some (Some (h, kh, kn)) }
     })"

definition wraparound_check :: "Env \<Rightarrow> addr \<Rightarrow> Block \<Rightarrow> Machine \<Rightarrow> (verdict \<times> Machine) option" where
  "wraparound_check E head kh s = do {
     (wrapped, trace2, s1) \<leftarrow> m_traced E (b_size kh) s;
     if failed wrapped then Some (Fail ''wrap-around allocation failed'', s1)
     else if \<not> started_from_prev_search_end trace2 then Some (Fail ''allocation did not start from prev_search_end'', s1)
     else if \<not> wrapped_to_head trace2 then Some (Fail ''allocation did not wrap around to free-list head'', s1)
     else if selected_block trace2 \<noteq> Some head then Some (Fail ''wrap-around did not land on head block as expected'', s1)
     else Some (Pass, s1)
   }"

definition shrink_tail :: "Env \<Rightarrow> Machine \<Rightarrow> (verdict \<times> Machine) option" where
  "shrink_tail E s = do {
     ends \<leftarrow> first_two (t_heap s);
     case ends of
       None \<Rightarrow> Some (Fail ''expected second free node before wrap-around setup'', s)
     | Some (head, _, kn) \<Rightarrow> do {
         let tail_size = b_size kn;
         (v, s1) \<leftarrow> (if overhead_size + 2 < tail_size then do {
                      (consume_tail, _, s1) \<leftarrow> m_traced E (tail_size - (overhead_size + 1)) s;
                      if failed consume_tail then Some (Some (Fail ''failed to consume tail for wrap-around setup''), s1)
                      else Some (None, s1)
                    }
                    else Some (None, s));
         if v \<noteq> None then Some (the v, s1)
         else do { kh \<leftarrow> o_blocks (t_heap s1) head; wraparound_check E head kh s1 }
       }
   }"

definition wraparound_body :: "Env \<Rightarrow> Machine \<Rightarrow> (verdict \<times> Machine) option" where
  "wraparound_body E s = do {
     (p1, s1) \<leftarrow> m_allocate E 64 s;
     (p2, s2) \<leftarrow> m_allocate E 64 s1;
     (p3, s3) \<leftarrow> m_allocate E 64 s2;
     if failed p1 \<or> failed p2 \<or> failed p3 then Some (Fail ''setup allocations failed'', s3)
     else do {
       (ok, s4) \<leftarrow> m_return_back E p2 s3;
       if \<not> ok then Some (Fail ''return_back failed for setup block'', s4)
       else do {
         ends \<leftarrow> first_two (t_heap s4);
         case ends of
           None \<Rightarrow> Some (Fail ''expected at least two free blocks for traversal test'', s4)
         | Some (head, kh, kn) \<Rightarrow>
             if b_size kn < u64 (b_size kh + 1) then Some (Fail ''unexpected free-list sizes for controlled traversal'', s4)
             else do {
               (from_second, trace1, s5) \<leftarrow> m_traced E (u64 (b_size kh + 1)) s4;
               if failed from_second then Some (Fail ''failed to allocate from second free-list node'', s5)
               else if prev_search_end_after trace1 \<noteq> Some head
               then Some (Fail ''prev_search_end was not updated to previous node as expected'', s5)
               else shrink_tail E s5
             }
       }
     }
   }"

definition test_prev_search_end_start_and_wraparound :: "Env \<Rightarrow> verdict option" where
  "test_prev_search_end_start_and_wraparound E = with_allocator E (wraparound_body E)"


section \<open>The calls of the test\<close>

lemma trace_loop_Some:
  "trace_loop B se head n t prev (Some c) = (let t1 = t\<lparr>visited_nodes := u64 (visited_nodes t + 1)\<rparr> in case B c of None \<Rightarrow> None | Some k \<Rightarrow>
     if b_free k \<and> n \<le> b_size k then Some (t1, Some (prev, c))
     else if se \<noteq> None \<and> b_next k = None then trace_loop B se head n (t1\<lparr>wrapped_to_head := True\<rparr>) None head
     else (case (case se of None \<Rightarrow> Some None | Some e \<Rightarrow> map_option (\<lambda>ke. Some (b_next ke)) (B e)) of
         None \<Rightarrow> None
       | Some l \<Rightarrow> if Some (b_next k) = l then Some (t1, None) else trace_loop B se head n t1 (Some c) (b_next k)))"
  by (subst trace_loop.simps) (auto simp: Let_def split: option.split)

lemma traced_found:
  assumes "n \<le> o_available_bytes a" "search_start a = Some (prev0, cur0)"
    and "trace_loop (o_blocks a) (o_prev_search_end a) (o_free_list a) n
      (no_trace\<lparr>prev_search_end_before := o_prev_search_end a, started_from_prev_search_end := (prev0 \<noteq> nullptr)\<rparr>) prev0 cur0
      = Some (t, Some (prev, c))"
    and "take_block prev c n a = Some (p, a1)"
    and "t\<lparr>selected_block := Some c, prev_search_end_after := o_prev_search_end a1\<rparr> = t'"
  shows "traced_allocate sys n a = Some (p, t', a1)"
  using assms by (simp add: traced_allocate_def Let_def)

lemmas trace_simps = state_simps u64_id sub64_id trace_loop_Some no_trace_def

text \<open>The state of the heap after the third call, after the block in the middle was given back, and
  after each of the three traced calls.\<close>

definition three_small :: "addr \<Rightarrow> OldAllocator" where
  "three_small B = chunk_state B (Some (B + 312)) None 3784
     [(B, 64, False, None), (B + 104, 64, False, None), (B + 208, 64, False, None), (B + 312, 3784, True, None)]
     [(B + 88, 64), (B + 192, 64), (B + 296, 64), (B + 4120, 3784)]"

definition two_free :: "addr \<Rightarrow> OldAllocator" where
  "two_free B = chunk_state B (Some (B + 104)) None 3848
     [(B, 64, False, None), (B + 104, 64, True, Some (B + 312)), (B + 208, 64, False, None), (B + 312, 3784, True, None)]
     [(B + 88, 64), (B + 192, 64), (B + 296, 64), (B + 4120, 3784)]"

definition second_taken :: "addr \<Rightarrow> OldAllocator" where
  "second_taken B = chunk_state B (Some (B + 104)) (Some (B + 104)) 3743
     [(B, 64, False, None), (B + 104, 64, True, Some (B + 417)), (B + 208, 64, False, None), (B + 312, 65, False, None),
      (B + 417, 3679, True, None)]
     [(B + 88, 64), (B + 192, 64), (B + 296, 64), (B + 401, 65), (B + 4120, 3679)]"

definition tail_taken :: "addr \<Rightarrow> OldAllocator" where
  "tail_taken B = chunk_state B (Some (B + 104)) (Some (B + 104)) 65
     [(B, 64, False, None), (B + 104, 64, True, Some (B + 4095)), (B + 208, 64, False, None), (B + 312, 65, False, None),
      (B + 417, 3638, False, None), (B + 4095, 1, True, None)]
     [(B + 88, 64), (B + 192, 64), (B + 296, 64), (B + 401, 65), (B + 4079, 3638), (B + 4120, 1)]"

definition head_taken :: "addr \<Rightarrow> OldAllocator" where
  "head_taken B = chunk_state B (Some (B + 4095)) None 1
     [(B, 64, False, None), (B + 104, 64, False, None), (B + 208, 64, False, None), (B + 312, 65, False, None),
      (B + 417, 3638, False, None), (B + 4095, 1, True, None)]
     [(B + 88, 64), (B + 192, 64), (B + 296, 64), (B + 401, 65), (B + 4079, 3638), (B + 4120, 1)]"

lemma small_calls:
  assumes "chunk_ok B"
  shows "\<exists>a1 a2. (\<forall>sys. old_allocate sys 64 (fresh B) = Some (B + 24, a1)) \<and> (\<forall>sys. old_allocate sys 64 a1 = Some (B + 128, a2))
     \<and> (\<forall>sys. old_allocate sys 64 a2 = Some (B + 232, three_small B)) \<and> return_back (B + 128) (three_small B) = Some (True, two_free B)"
proof -
  define a1 where "a1 = chunk_state B (Some (B + 104)) None 3992
     [(B, 64, False, None), (B + 104, 3992, True, None)] [(B + 88, 64), (B + 4120, 3992)]"
  define a2 where "a2 = chunk_state B (Some (B + 208)) None 3888
     [(B, 64, False, None), (B + 104, 64, False, None), (B + 208, 3888, True, None)]
     [(B + 88, 64), (B + 192, 64), (B + 4120, 3888)]"
  note B = assms [unfolded chunk_ok_def]
  have "old_allocate sys 64 (fresh B) = Some (B + 24, a1)" for sys
    using B by (intro allocate_found [of _ _ None B]) (simp_all add: state_simps u64_id sub64_id fresh_def a1_def fun_eq_iff)
  moreover have "old_allocate sys 64 a1 = Some (B + 128, a2)" for sys
    using B by (intro allocate_found [of _ _ None "B + 104"]) (simp_all add: state_simps u64_id sub64_id a1_def a2_def fun_eq_iff)
  moreover have "old_allocate sys 64 a2 = Some (B + 232, three_small B)" for sys
    using B by (intro allocate_found [of _ _ None "B + 208"]) (simp_all add: state_simps u64_id sub64_id a2_def three_small_def fun_eq_iff)
  moreover have "return_back (B + 128) (three_small B) = Some (True, two_free B)"
    using B by (simp add: free_simps three_small_def two_free_def insert_free_def next_phys_def prev_phys_def fun_eq_iff)
  ultimately show ?thesis
    by blast
qed

lemma second_call:
  assumes "chunk_ok B"
  shows "traced_allocate sys 65 (two_free B) = Some (B + 336, \<lparr>started_from_prev_search_end = False, wrapped_to_head = False, visited_nodes = 2, selected_block = Some (B + 312), prev_search_end_before = None, prev_search_end_after = Some (B + 104)\<rparr>, second_taken B)"
proof (rule traced_found [where ?prev0.0 = "None" and ?cur0.0 = "Some (B + 104)" and prev = "Some (B + 104)" and c = "B + 312" and t = "\<lparr>started_from_prev_search_end = False, wrapped_to_head = False, visited_nodes = 2, selected_block = None, prev_search_end_before = None, prev_search_end_after = None\<rparr>"])
  note B = assms [unfolded chunk_ok_def]
  show "take_block (Some (B + 104)) (B + 312) 65 (two_free B) = Some (B + 336, second_taken B)"
    using B by (simp add: trace_simps two_free_def second_taken_def fun_eq_iff)
  show "trace_loop (o_blocks (two_free B)) (o_prev_search_end (two_free B)) (o_free_list (two_free B)) 65
      (no_trace\<lparr>prev_search_end_before := o_prev_search_end (two_free B), started_from_prev_search_end := (None \<noteq> nullptr)\<rparr>) (None) (Some (B + 104))
    = Some (\<lparr>started_from_prev_search_end = False, wrapped_to_head = False, visited_nodes = 2, selected_block = None, prev_search_end_before = None, prev_search_end_after = None\<rparr>, Some (Some (B + 104), B + 312))"
    using B by (simp add: trace_simps two_free_def)
qed (use assms in \<open>simp_all add: trace_simps two_free_def second_taken_def chunk_ok_def\<close>)

lemma tail_call:
  assumes "chunk_ok B"
  shows "traced_allocate sys 3638 (second_taken B) = Some (B + 441, \<lparr>started_from_prev_search_end = True, wrapped_to_head = False, visited_nodes = 1, selected_block = Some (B + 417), prev_search_end_before = Some (B + 104), prev_search_end_after = Some (B + 104)\<rparr>, tail_taken B)"
proof (rule traced_found [where ?prev0.0 = "Some (B + 104)" and ?cur0.0 = "Some (B + 417)" and prev = "Some (B + 104)" and c = "B + 417" and t = "\<lparr>started_from_prev_search_end = True, wrapped_to_head = False, visited_nodes = 1, selected_block = None, prev_search_end_before = Some (B + 104), prev_search_end_after = None\<rparr>"])
  note B = assms [unfolded chunk_ok_def]
  show "take_block (Some (B + 104)) (B + 417) 3638 (second_taken B) = Some (B + 441, tail_taken B)"
    using B by (simp add: trace_simps second_taken_def tail_taken_def fun_eq_iff)
  show "trace_loop (o_blocks (second_taken B)) (o_prev_search_end (second_taken B)) (o_free_list (second_taken B)) 3638
      (no_trace\<lparr>prev_search_end_before := o_prev_search_end (second_taken B), started_from_prev_search_end := (Some (B + 104) \<noteq> nullptr)\<rparr>) (Some (B + 104)) (Some (B + 417))
    = Some (\<lparr>started_from_prev_search_end = True, wrapped_to_head = False, visited_nodes = 1, selected_block = None, prev_search_end_before = Some (B + 104), prev_search_end_after = None\<rparr>, Some (Some (B + 104), B + 417))"
    using B by (simp add: trace_simps second_taken_def)
qed (use assms in \<open>simp_all add: trace_simps second_taken_def tail_taken_def chunk_ok_def\<close>)

lemma head_call:
  assumes "chunk_ok B"
  shows "traced_allocate sys 64 (tail_taken B) = Some (B + 128, \<lparr>started_from_prev_search_end = True, wrapped_to_head = True, visited_nodes = 2, selected_block = Some (B + 104), prev_search_end_before = Some (B + 104), prev_search_end_after = None\<rparr>, head_taken B)"
proof (rule traced_found [where ?prev0.0 = "Some (B + 104)" and ?cur0.0 = "Some (B + 4095)" and prev = "None" and c = "B + 104" and t = "\<lparr>started_from_prev_search_end = True, wrapped_to_head = True, visited_nodes = 2, selected_block = None, prev_search_end_before = Some (B + 104), prev_search_end_after = None\<rparr>"])
  note B = assms [unfolded chunk_ok_def]
  show "take_block (None) (B + 104) 64 (tail_taken B) = Some (B + 128, head_taken B)"
    using B by (simp add: trace_simps tail_taken_def head_taken_def fun_eq_iff)
  show "trace_loop (o_blocks (tail_taken B)) (o_prev_search_end (tail_taken B)) (o_free_list (tail_taken B)) 64
      (no_trace\<lparr>prev_search_end_before := o_prev_search_end (tail_taken B), started_from_prev_search_end := (Some (B + 104) \<noteq> nullptr)\<rparr>) (Some (B + 104)) (Some (B + 4095))
    = Some (\<lparr>started_from_prev_search_end = True, wrapped_to_head = True, visited_nodes = 2, selected_block = None, prev_search_end_before = Some (B + 104), prev_search_end_after = None\<rparr>, Some (None, B + 104))"
    using B by (simp add: trace_simps tail_taken_def)
qed (use assms in \<open>simp_all add: trace_simps tail_taken_def head_taken_def chunk_ok_def\<close>)

section \<open>The test passes\<close>

lemma m_traced_run: "traced_allocate (answers E (t_calls s) (t_heap s)) n (t_heap s) = Some (p, t, a) \<Longrightarrow> m_traced E n s = Some (p, t, finish E s a)"
  by (simp add: m_traced_def)

text \<open>The two ends of the free list that the test reads, and the size it reads at the head.\<close>

lemma free_ends:
  "\<exists>kh kn. first_two (two_free B) = Some (Some (B + 104, kh, kn)) \<and> b_size kh = 64 \<and> b_size kn = 3784"
  "\<exists>kh kn. first_two (second_taken B) = Some (Some (B + 104, kh, kn)) \<and> b_size kn = 3679"
  "\<exists>kh. o_blocks (tail_taken B) (B + 104) = Some kh \<and> b_size kh = 64"
  by (simp_all add: first_two_def two_free_def second_taken_def tail_taken_def chunk_state_def)

lemma wraparound_check_passes:
  assumes "chunk_ok B" "t_heap s = tail_taken B" "b_size kh = 64"
  shows "wraparound_check E (B + 104) kh s = Some (Pass, finish E s (head_taken B))"
  using assms payload_not_failed [of B 128] by (simp add: wraparound_check_def m_traced_run head_call)

lemma shrink_tail_passes:
  assumes "chunk_ok B" "t_heap s = second_taken B"
  shows "shrink_tail E s = Some (Pass, finish E (finish E s (tail_taken B)) (head_taken B))"
proof -
  obtain kh0 kn kh where k: "first_two (second_taken B) = Some (Some (B + 104, kh0, kn))" "b_size kn = 3679"
      "o_blocks (tail_taken B) (B + 104) = Some kh" "b_size kh = 64"
    using free_ends(2,3) by blast
  show ?thesis
    using assms k payload_not_failed [of B 441] wraparound_check_passes [of B "finish E s (tail_taken B)" kh E]
    by (simp add: shrink_tail_def m_traced_run tail_call sizes)
qed

lemma test6_passes:
  assumes new: "new_OldAllocator (answers E 0 empty_OldAllocator) = Some (fresh B)" and B: "chunk_ok B"
  shows "test_prev_search_end_start_and_wraparound E = Some Pass"
proof -
  obtain a1 a2 where c: "\<forall>sys. old_allocate sys 64 (fresh B) = Some (B + 24, a1)" "\<forall>sys. old_allocate sys 64 a1 = Some (B + 128, a2)"
      "\<forall>sys. old_allocate sys 64 a2 = Some (B + 232, three_small B)" "return_back (B + 128) (three_small B) = Some (True, two_free B)"
    using small_calls [OF B] by blast
  obtain kh kn where k: "first_two (two_free B) = Some (Some (B + 104, kh, kn))" "b_size kh = 64" "b_size kn = 3784"
    using free_ends(1) by blast
  define s5 where "s5 = finish E (finish E (finish E (finish E (finish E \<lparr>t_heap = fresh B, t_ram = noise E 0, t_calls = 1\<rparr> a1) a2)
      (three_small B)) (two_free B)) (second_taken B)"
  have run: "wraparound_body E \<lparr>t_heap = fresh B, t_ram = noise E 0, t_calls = 1\<rparr>
      = Some (Pass, finish E (finish E s5 (tail_taken B)) (head_taken B))"
    using c k payload_not_failed [OF B] shrink_tail_passes [OF B, of s5 E]
    by (simp add: wraparound_body_def m_allocate_run m_return_run m_traced_run second_call [OF B] s5_def u64_id)
  have "t_heap (finish E (finish E s5 (tail_taken B)) (head_taken B)) = head_taken B"
    by simp
  then show ?thesis
    unfolding test_prev_search_end_start_and_wraparound_def head_taken_def
    by (rule with_allocator_passes [where body = "wraparound_body E", OF new run [unfolded head_taken_def]])
      (use B in \<open>simp_all add: chunk_ok_def\<close>)
qed



end
