(* ===== verification/Spec2Isabelle.thy ===== *)
theory Spec2Isabelle
  imports Typed_State Locks Client_Tests Concurrency_Test_Props Rseq_Props Fallback_Race
    Transfer_Cache_Steps Old_Trace
begin

text \<open>
  Verification of a thread-caching memory allocator, the C++ code under \<open>src/\<close>.

  \<^bold>\<open>The program.\<close> \<open>Allocator\<close> (\<open>allocator.hpp\<close>) serves a request by its size class. In front
  are per-CPU slabs (\<open>slabs.hpp\<close>): one stack of free objects per class and CPU, pushed and popped
  by restartable sequences. Behind them is one transfer cache per class (\<open>transfer_cache.hpp\<close>), a
  bounded stack from which a slab is refilled in batches and to which it releases them. Behind
  that is one central free list per class (\<open>central_free_list.hpp\<close>), which carves objects from
  spans of pages and keeps the free ones in packed lists inside the spans' own memory. The page
  heap (\<open>page_heap.hpp\<close>) hands out the spans, coalesces the returned ones and maps new memory.
  The tables of classes and capacities are in \<open>size_classes.hpp\<close> and \<open>config.hpp\<close>. An older,
  independent allocator over the program break is kept in \<open>old/old_design.hpp\<close>.

  \<^bold>\<open>The theories\<close>, in the order of their imports; each opens with what it holds.
  \<^item> \<open>Alloc_Prelude\<close>: machine widths, pointers, shared lemmas.
  \<^item> \<open>Size_Classes\<close>, \<open>Slab_Config\<close>: the tables, \<open>round_size_class\<close> with its binary search against
    a linear scan, \<open>compute_slab_offsets\<close> with its loops.
  \<^item> \<open>Object_Pool\<close>: the locale of the stores of free objects (a stack with a capacity), and
    the allocator's two loops over such a store, proved once for every store.
  \<^item> \<open>Slabs\<close> (the byte layout, \<open>slab_pop\<close>, \<open>slab_push\<close>, the fallback without restartable
    sequences) and \<open>Transfer_Cache\<close>: two stores, each an instance of the locale.
  \<^item> \<open>Critical_Section\<close>: the locale of an object behind one mutex: calls that make their accesses one
    at a time, interleaved with other threads, have the same calls and results as operations of one
    step. \<open>Transfer_Cache_Steps\<close>: the transfer cache access by access, as an instance.
  \<^item> \<open>Rseq_Machine\<close>, \<open>Rseq_Props\<close>: the assembly of \<open>slabs.hpp\<close> instruction by instruction, with
    other CPUs writing their slabs and the kernel interrupting at any point. A restart is atomic
    at its committing store, which justifies the one-step \<open>rseq_slab_pop\<close> and \<open>rseq_slab_push\<close>;
    an interrupt between that store and the end of the section breaks this.
  \<^item> \<open>Fallback_Race\<close>: the fallback access by access; two threads on one CPU can get the same
    pointer.
  \<^item> \<open>Page_Heap\<close>: \<open>Span\<close> objects in a store, doubly linked free lists, the page map.
    \<open>Span_Lists\<close>, \<open>Page_Heap_Inv\<close>, \<open>Page_Heap_Ops\<close>, \<open>Page_Heap_Spec\<close>: the lists, the
    invariant, that each operation keeps it and returns, and what the public operations promise.
    \<open>Page_Heap_Props\<close>: the properties of every reachable page heap.
  \<^item> \<open>Span_Provider\<close>: the locale of what a central free list needs from the page heap,
    interpreted on the page heap.
  \<^item> \<open>Central_Free_List\<close>, \<open>Packed_Nodes\<close>, \<open>Central_Free_List_Inv\<close>, \<open>Central_Free_List_Ops\<close>,
    \<open>Central_Free_List_Supply\<close>, \<open>Central_Free_List_Props\<close>: the definitions, the packed lists
    against sets of indexes, the invariant, the refinement to the set of objects the clients
    hold, when \<open>allocate\<close> gives null, the properties. \<open>Object_Source\<close> is the locale of what
    the allocator needs from a central free list, interpreted on it.
  \<^item> \<open>Allocator\<close>, \<open>Allocator_Inv\<close>, \<open>Allocator_Ops\<close>, \<open>Allocator_Reach\<close>, \<open>Allocator_Props\<close>: the
    composition. For each class the objects handed out by the central free list are, each
    exactly once, in a slab, in the transfer cache or with the program.
  \<^item> \<open>Threads\<close>, \<open>Threads_Inv\<close>, \<open>Threads_Run\<close>, \<open>Threads_Props\<close>: the calls of several threads cut at
    the points where no lock is held, and interleaved. The equation above holds with the objects in
    the hands of the threads counted too; every thread can always go on, and its call ends. Run
    without interruption, the parts are the whole calls of \<open>Allocator\<close>.
  \<^item> \<open>Locks\<close>: the mutexes each part takes and gives back. They protect the data the part works on,
    are taken in one order, and without them the runs are those of \<open>Threads\<close>.
  \<^item> \<open>Typed_State\<close>: every operation keeps every integer in the range of its C++ type.
  \<^item> \<open>Demo_Program\<close>: the client in \<open>main.cpp\<close>, which writes and reads the memory it is given.
    \<open>Client_Tests\<close>: the two sequential programs in \<open>tests/\<close>. \<open>Concurrency_Test\<close>,
    \<open>Concurrency_Test_Inv\<close>, \<open>Concurrency_Test_Props\<close>: the multithreaded one, with the steps of its
    threads and of their calls interleaved; no thread finds a wrong byte in its blocks, and it ends.
  \<^item> \<open>Old_Design\<close> and \<open>Old_Design_Inv\<close>, \<open>Old_Design_Ops\<close>, \<open>Old_Design_Search\<close>,
    \<open>Old_Design_Alloc\<close>, \<open>Old_Design_Contract\<close>, \<open>Old_Design_Free\<close>, \<open>Old_Design_Frame\<close>,
    \<open>Old_Design_Run\<close>, \<open>Old_Design_Props\<close>: the older allocator; its blocks tile the program break, its
    free list is exact, its search is next-fit, its calls write no byte of a block in use; when the
    search and the destructor do not end.
  \<^item> \<open>Old_Tests\<close>, \<open>Old_Header_Tests\<close>, \<open>Old_Stress\<close>, \<open>Old_Trace\<close>: the tests of the older allocator in
    \<open>old/main.cpp\<close> and \<open>old/tests.hpp\<close>, with the bytes they write, check and print and the trace one
    of them reads; all but the random one pass, which reports no error of the allocator.

  \<^bold>\<open>States.\<close> Each struct is a record with the fields of the code. Spans live in a store from
  names to spans, so that pointers, aliasing and dangling pointers are explicit; the pages of all
  spans together are the page map. The memory of spans is a function from addresses to the values
  of their 16-bit cells. The headers and footers of the old design are two stores indexed by
  address. Integers are natural numbers with the wrap-around of their C++ type written out
  (\<open>u16\<close>, \<open>u32\<close>, \<open>u64\<close>, \<open>sub16\<close>, \<open>sub32\<close>, \<open>sub64\<close>).

  \<^bold>\<open>Undefined behaviour and loops.\<close> An operation that follows pointers returns an option: \<open>None\<close> is
  undefined behaviour or a loop that does not end. No fuel is used: loops over pointers are
  partial functions, and the contracts state that the operations return under the invariant. Where
  the code really does not return (the search and the destructor of the old design) the theorems
  say when, and the invariant shows that no pointer is to blame.

  \<^bold>\<open>What is a parameter.\<close> The answers of the operating system (\<open>mmap\<close>, \<open>munmap\<close>, \<open>sbrk\<close>,
  \<open>brk\<close>), the CPU numbers of the kernel, and whether restartable sequences are registered. What
  the code relies on is a named hypothesis: \<open>mmap_ok\<close> and \<open>sys_ok\<close> say that memory handed out is
  not in use (and, for the old design, that nobody else moves the program break). The rules for
  restartable sequences in \<open>Rseq_Machine\<close> are those the kernel documents.

  \<^bold>\<open>Properties.\<close> They stand at the end of the theories, each after its number: the objects the
  program holds never overlap and keep their contents; nothing is lost or duplicated between the
  layers, by one thread or by several; the contracts of \<open>allocate\<close> and \<open>deallocate\<close> of every
  layer, on success and failure; when a request is served; which requests never are; the refinement of the assembly, the packed
  lists, the transfer cache and the table lookups to their specifications.

  \<^bold>\<open>Not modelled.\<close> In \<open>Threads\<close> a slab operation is one step; the window in which an interrupt
  makes a restartable sequence run twice is in \<open>Rseq_Machine\<close> only, and the accesses of the
  fallback, which the code does not protect, are interleaved in \<open>Fallback_Race\<close> only.
  The mutexes of \<open>Locks\<close> surround the one point where a part takes effect. That the accesses between
  taking and giving back a mutex may be seen as one step is shown for the transfer cache
  (\<open>Transfer_Cache_Steps\<close>); a central free list and the page heap, whose bodies are long, are
  modelled with their operations in one step only.
  \<open>radix_tree.hpp\<close> is an empty template, \<open>tests/test_helpers.cpp\<close> is commented out. The defaulted
  destructor of \<open>Allocator\<close> only runs those of its members, which are modelled one by one; it does
  not unmap the region of the slabs.
\<close>

end
